(* ===== verification/Prelude.thy ===== *)
theory Prelude
  imports Main "HOL-Library.Word"
begin

text \<open>
  Shared ground of the development: names for the C integer types, the facts
  about 32-bit and 64-bit words the limb arithmetic needs, multi-limb values
  (\<open>limbs_val\<close>, least significant limb first), and \<open>blit\<close>, the effect of
  \<open>memcpy\<close> on the destination array.  Facts about the number of bytes or limbs
  an operation returns are collected in \<open>c_length\<close>, facts that read a machine
  value as a natural number in \<open>c_value\<close>, the ranges of the C types in \<open>c_bound\<close>.
\<close>

unbundle bit_operations_syntax

named_theorems c_length
named_theorems c_value
named_theorems c_bound

type_synonym u8 = "8 word"
type_synonym u16 = "16 word"
type_synonym u32 = "32 word"
type_synonym u64 = "64 word"
type_synonym bytes = "8 word list"

section \<open>Words\<close>

lemma unat_u8_less [c_bound]: "unat (x :: u8) < 256"
  using unsigned_less [of x, where ?'a = nat] by simp

lemma unat_u16_less [c_bound]: "unat (x :: u16) < 65536"
  using unsigned_less [of x, where ?'a = nat] by simp

lemma unat_u32_less [c_bound]: "unat (x :: u32) < 4294967296"
  using unsigned_less [of x, where ?'a = nat] by simp

lemma unat_u64_less [c_bound]: "unat (x :: u64) < 18446744073709551616"
  using unsigned_less [of x, where ?'a = nat] by simp

lemma unat_ucast_mod [c_value]:
  "unat (ucast (x :: 'a::len word) :: 'b::len word) = unat x mod 2 ^ LENGTH('b)"
  by (simp add: unsigned_ucast_eq take_bit_eq_mod)

lemma unat_ucast_32_64 [c_value]: "unat (ucast (x :: u32) :: u64) = unat x"
  using unat_u32_less [of x] by (simp add: unat_ucast_mod)

lemma unat_drop_bit_div [c_value]: "unat (drop_bit n (x :: 'a::len word)) = unat x div 2 ^ n"
  unfolding unat_drop_bit_eq by (rule drop_bit_eq_div)

lemma unat_push_bit_mod [c_value]:
  "unat (push_bit n (x :: 'a::len word)) = (unat x * 2 ^ n) mod 2 ^ LENGTH('a)"
  unfolding unsigned_push_bit_eq by (simp add: take_bit_eq_mod push_bit_eq_mult)

lemma unat_add_small:
  "unat (x :: 'a::len word) + unat y < 2 ^ LENGTH('a) \<Longrightarrow> unat (x + y) = unat x + unat y"
  by (simp add: unat_word_ariths)

lemma unat_mult_small:
  "unat (x :: 'a::len word) * unat y < 2 ^ LENGTH('a) \<Longrightarrow> unat (x * y) = unat x * unat y"
  by (simp add: unat_word_ariths)

lemma unat_add3_u64:
  assumes "unat (c :: u64) < 2 ^ 32"
  shows "unat (ucast (a :: u32) + ucast (b :: u32) + c :: u64) = unat a + unat b + unat c"
  using assms unat_u32_less [of a] unat_u32_less [of b]
  by (simp add: unat_add_small unat_ucast_mod)

lemma mul_add_bound:
  fixes a b r c :: nat
  assumes "a < N" "b < N" "r < N" "c < N"
  shows "a * b + r + c < N * N"
proof -
  obtain n where n: "N = Suc n" using assms(1) by (cases N) auto
  have "a * b \<le> n * n" using assms n by (intro mult_le_mono) auto
  then show ?thesis using assms n by simp
qed

lemma unat_mul_add_u64:
  assumes "unat (c :: u64) < 2 ^ 32"
  shows "unat (ucast (a :: u32) * ucast (b :: u32) + ucast (r :: u32) + c :: u64)
    = unat a * unat b + unat r + unat c"
proof -
  have "unat a * unat b + unat r + unat c < 4294967296 * 4294967296"
    using assms by (intro mul_add_bound) (simp_all add: c_bound)
  moreover from this have "unat (ucast a * ucast b :: u64) = unat a * unat b"
    by (subst unat_mult_small) (simp_all add: unat_ucast_32_64)
  ultimately show ?thesis
    by (simp add: unat_add_small unat_ucast_32_64)
qed

lemma unat_take_bit_mod [c_value]: "unat (take_bit n (x :: 'a::len word)) = unat x mod 2 ^ n"
  unfolding unsigned_take_bit_eq by (rule take_bit_eq_mod)

lemma not_bit_of_less:
  assumes "unat (y :: 'a::len word) < 2 ^ n" "n \<le> i"
  shows "\<not> bit y i"
proof
  assume "bit y i"
  then have "bit (unat y) i" by (simp add: bit_unsigned_iff)
  then have "2 ^ i \<le> unat y" by (auto simp: bit_iff_odd intro: ccontr)
  moreover have "(2::nat) ^ n \<le> 2 ^ i" using assms(2) by simp
  ultimately show False using assms(1) by linarith
qed

lemma unat_or_disjoint:
  assumes "unat (y :: 'a::len word) < 2 ^ n" "unat x * 2 ^ n < 2 ^ LENGTH('a)"
  shows "unat (push_bit n x OR y) = unat x * 2 ^ n + unat y"
proof -
  note y = not_bit_of_less [OF assms(1)]
  have "push_bit n x OR y = push_bit n x + y"
    by (rule disjunctive_add [symmetric]) (auto simp: bit_push_bit_iff y not_le)
  moreover have p: "unat (push_bit n x) = unat x * 2 ^ n"
    using assms(2) by (simp add: unat_push_bit_mod)
  moreover have "unat x * 2 ^ n + unat y < 2 ^ LENGTH('a)"
  proof (cases "n \<le> LENGTH('a)")
    case True
    then have e: "(2::nat) ^ LENGTH('a) = 2 ^ (LENGTH('a) - n) * 2 ^ n" by (simp flip: power_add)
    then have "Suc (unat x) \<le> 2 ^ (LENGTH('a) - n)" using assms(2) by (simp add: Suc_le_eq)
    then have "Suc (unat x) * 2 ^ n \<le> 2 ^ LENGTH('a)" unfolding e by (rule mult_le_mono1)
    then show ?thesis using assms(1) by simp
  next
    case False
    then have le: "(2::nat) ^ LENGTH('a) \<le> 2 ^ n" by simp
    have "2 ^ n \<le> unat x * 2 ^ n" if "unat x \<noteq> 0" using that by simp
    then have "unat x = 0" using assms(2) le by linarith
    then show ?thesis using unsigned_less [of y, where ?'a = nat] by simp
  qed
  ultimately show ?thesis by (simp add: unat_add_small)
qed

lemma no_bit8: "8 \<le> k \<Longrightarrow> \<not> bit (h :: u8) k"
  using bit_imp_le_length [of h k] by auto

lemma less_16_cases:
  "i < 16 \<Longrightarrow> i \<in> {0, 1, 2, 3, 4, 5, 6, 7} \<or> i \<in> {8, 9, 10, 11, 12, 13, 14, 15 :: nat}"
  by (simp add: insert_iff) arith

lemma u8_eqI:
  assumes "bit x 0 = bit y 0" "bit x 1 = bit y 1" "bit x 2 = bit y 2" "bit x 3 = bit y 3"
    "bit x 4 = bit y 4" "bit x 5 = bit y 5" "bit x 6 = bit y 6" "bit x 7 = bit y 7"
  shows "x = (y :: u8)"
proof (rule bit_word_eqI)
  fix i assume "i < LENGTH(8)"
  then show "bit x i = bit y i" using less_16_cases [of i] assms by (auto simp del: One_nat_def)
qed

lemma u16_eqI:
  assumes "bit x 0 = bit y 0" "bit x 1 = bit y 1" "bit x 2 = bit y 2" "bit x 3 = bit y 3"
    "bit x 4 = bit y 4" "bit x 5 = bit y 5" "bit x 6 = bit y 6" "bit x 7 = bit y 7"
    "bit x 8 = bit y 8" "bit x 9 = bit y 9" "bit x 10 = bit y 10" "bit x 11 = bit y 11"
    "bit x 12 = bit y 12" "bit x 13 = bit y 13" "bit x 14 = bit y 14" "bit x 15 = bit y 15"
  shows "x = (y :: u16)"
proof (rule bit_word_eqI)
  fix i assume "i < LENGTH(16)"
  then show "bit x i = bit y i" using less_16_cases [of i] assms by (auto simp del: One_nat_def)
qed

section \<open>Multi-limb values\<close>

fun limbs_val :: "u32 list \<Rightarrow> nat" where
  "limbs_val [] = 0"
| "limbs_val (x # xs) = unat x + 2 ^ 32 * limbs_val xs"

lemma limbs_val_less: "limbs_val xs < 2 ^ (32 * length xs)"
proof (induction xs)
  case (Cons x xs)
  have "limbs_val (x # xs) < 2 ^ 32 + 2 ^ 32 * limbs_val xs" by (simp add: c_bound)
  also have "\<dots> = 2 ^ 32 * Suc (limbs_val xs)" by simp
  also have "\<dots> \<le> 2 ^ 32 * 2 ^ (32 * length xs)"
    using Cons.IH by (intro mult_le_mono2) (simp add: Suc_le_eq)
  finally show ?case by (simp add: power_add)
qed simp

lemma limbs_val_append:
  "limbs_val (xs @ ys) = limbs_val xs + 2 ^ (32 * length xs) * limbs_val ys"
  by (induction xs) (simp_all add: power_add algebra_simps)

lemma limbs_val_replicate_0 [simp]: "limbs_val (replicate n 0) = 0"
  by (induction n) auto

lemma limbs_val_eq_0: "limbs_val xs = 0 \<longleftrightarrow> (\<forall>x \<in> set xs. x = 0)"
  by (induction xs) (auto simp: unat_eq_zero)

lemma limbs_val_inj:
  "length xs = length ys \<Longrightarrow> limbs_val xs = limbs_val ys \<longleftrightarrow> xs = ys"
proof (induction xs ys rule: list_induct2)
  case (Cons x xs y ys)
  have "unat x + 2 ^ 32 * limbs_val xs = unat y + 2 ^ 32 * limbs_val ys
      \<longleftrightarrow> unat x = unat y \<and> limbs_val xs = limbs_val ys" (is "?l = ?r \<longleftrightarrow> _")
  proof
    assume eq: "?l = ?r"
    then have "?l mod 2 ^ 32 = ?r mod 2 ^ 32" and "?l div 2 ^ 32 = ?r div 2 ^ 32" by simp_all
    then show "unat x = unat y \<and> limbs_val xs = limbs_val ys" by (simp add: c_bound)
  qed simp
  then show ?case using Cons.IH by (simp add: word_unat_eq_iff)
qed simp

section \<open>Writing a block into an array\<close>

definition blit :: "nat \<Rightarrow> 'a list \<Rightarrow> 'a list \<Rightarrow> 'a list" where
  "blit i xs res = take i res @ xs @ drop (i + length xs) res"

lemma length_blit [c_length]:
  "i + length xs \<le> length res \<Longrightarrow> length (blit i xs res) = length res"
  by (simp add: blit_def)

lemma blit_nth:
  "i + length xs \<le> length res \<Longrightarrow> j < length res \<Longrightarrow>
   blit i xs res ! j = (if i \<le> j \<and> j < i + length xs then xs ! (j - i) else res ! j)"
  by (auto simp: blit_def nth_append min_def)

lemma blit_inj: "i \<le> length res \<Longrightarrow> length xs = length ys \<Longrightarrow> blit i xs res = blit i ys res \<longleftrightarrow> xs = ys"
  by (simp add: blit_def)

lemma blit_self: "i + n \<le> length res \<Longrightarrow> blit i (take n (drop i res)) res = res"
  by (rule nth_equalityI) (auto simp: length_blit blit_nth)

section \<open>Big-endian words\<close>

text \<open>The macros \<open>GM_PUT_UINT32_BE\<close> and \<open>GM_GET_UINT32_BE\<close>, also written out by hand elsewhere.\<close>

definition put_be32 :: "u32 \<Rightarrow> bytes" where
  "put_be32 n = [ucast (drop_bit 24 n), ucast (drop_bit 16 n), ucast (drop_bit 8 n), ucast n]"

definition get_be32 :: "bytes \<Rightarrow> nat \<Rightarrow> u32" where
  "get_be32 b i = push_bit 24 (ucast (b ! i)) OR push_bit 16 (ucast (b ! (i + 1)))
     OR push_bit 8 (ucast (b ! (i + 2))) OR ucast (b ! (i + 3))"

lemma length_put_be32 [simp]: "length (put_be32 n) = 4"
  by (simp add: put_be32_def)

lemma get_put_be32: "get_be32 (xs @ put_be32 n @ ys) (length xs) = n"
proof -
  have "(xs @ put_be32 n @ ys) ! (length xs + k) = put_be32 n ! k" if "k < 4" for k
    using that by (simp add: nth_append)
  from this [of 0] this [of 1] this [of 2] this [of 3]
  have b: "get_be32 (xs @ put_be32 n @ ys) (length xs)
    = push_bit 24 (ucast (ucast (drop_bit 24 n) :: u8)) OR push_bit 16 (ucast (ucast (drop_bit 16 n) :: u8))
     OR push_bit 8 (ucast (ucast (drop_bit 8 n) :: u8)) OR ucast (ucast n :: u8)"
    by (simp add: get_be32_def put_be32_def numeral_eq_Suc)
  show ?thesis
    unfolding b
  proof (rule bit_word_eqI)
    fix i assume "i < LENGTH(32)"
    then consider "i < 8" | "8 \<le> i" "i < 16" | "16 \<le> i" "i < 24" | "24 \<le> i" "i < 32" by force
    then show "bit (push_bit 24 (ucast (ucast (drop_bit 24 n) :: u8)) OR
        push_bit 16 (ucast (ucast (drop_bit 16 n) :: u8)) OR push_bit 8 (ucast (ucast (drop_bit 8 n) :: u8)) OR
        ucast (ucast n :: u8) :: u32) i = bit n i"
      by cases (auto simp: bit_simps)
  qed
qed

section \<open>Strings and console text\<close>

definition str_bytes :: "string \<Rightarrow> bytes" where
  "str_bytes s = map of_char s"

text \<open>The text \<open>%s\<close> prints from a buffer: the bytes before the terminating zero.\<close>

definition c_str :: "bytes \<Rightarrow> string" where
  "c_str bs = map (\<lambda>b. char_of (unat b)) (takeWhile (\<lambda>b. b \<noteq> 0) bs)"

abbreviation newline :: string where
  "newline \<equiv> [CHR 0x0A]"

lemma length_str_bytes [simp]: "length (str_bytes s) = length s"
  by (simp add: str_bytes_def)

lemma unat_of_char: "unat (of_char c :: u8) = of_char c"
proof -
  have "(of_char c :: nat) < 256" by simp
  moreover have "(of_char c :: u8) = of_nat (of_char c)" by (simp add: of_nat_of_char)
  ultimately show ?thesis by (simp add: unat_of_nat take_bit_eq_mod)
qed

lemma c_str_str_bytes: "CHR 0x00 \<notin> set s \<Longrightarrow> c_str (str_bytes s @ [0]) = s"
proof (induction s)
  case (Cons c s)
  have "char_of (0::nat) = CHR 0x00" by (simp add: char_of_def)
  then have "char_of (of_char c :: nat) \<noteq> char_of (0::nat)" using Cons.prems by auto
  then have "unat (of_char c :: u8) \<noteq> 0" unfolding unat_of_char by metis
  then have "(of_char c :: u8) \<noteq> 0" by auto
  then show ?case using Cons by (simp add: c_str_def str_bytes_def unat_of_char)
qed (simp add: c_str_def str_bytes_def)

text \<open>\<open>isspace\<close> and \<open>isdigit\<close>, and \<open>snprintf\<close> into a buffer of \<open>n\<close> bytes.\<close>

definition c_isspace :: "char \<Rightarrow> bool" where
  "c_isspace c \<longleftrightarrow> c = CHR '' '' \<or> of_char c \<in> {9 .. 13 :: nat}"

definition c_isdigit :: "char \<Rightarrow> bool" where
  "c_isdigit c \<longleftrightarrow> of_char c \<in> {48 .. 57 :: nat}"

definition snprintf :: "nat \<Rightarrow> string \<Rightarrow> string" where
  "snprintf n s = take (n - 1) s"

section \<open>Hexadecimal digits\<close>

definition hex_upper :: "nat \<Rightarrow> char" where
  "hex_upper d = ''0123456789ABCDEF'' ! d"

definition hex_lower :: "nat \<Rightarrow> char" where
  "hex_lower d = ''0123456789abcdef'' ! d"

text \<open>The conversions \<open>%02X\<close> and \<open>%02x\<close>.\<close>

definition fmt_02X :: "u8 \<Rightarrow> string" where
  "fmt_02X b = [hex_upper (unat b div 16), hex_upper (unat b mod 16)]"

definition fmt_02x :: "u8 \<Rightarrow> string" where
  "fmt_02x b = [hex_lower (unat b div 16), hex_lower (unat b mod 16)]"

section \<open>Decimal numbers\<close>

text \<open>The conversions \<open>%u\<close> and \<open>%d\<close>.\<close>

fun fmt_u :: "nat \<Rightarrow> string" where
  "fmt_u n = (if n < 10 then [char_of (48 + n)] else fmt_u (n div 10) @ [char_of (48 + n mod 10)])"

declare fmt_u.simps [simp del]

definition fmt_d :: "int \<Rightarrow> string" where
  "fmt_d i = (if i < 0 then CHR ''-'' # fmt_u (nat (- i)) else fmt_u (nat i))"

lemma length_fmt_u: "0 < k \<Longrightarrow> n < 10 ^ k \<Longrightarrow> length (fmt_u n) \<le> k"
proof (induction k arbitrary: n)
  case (Suc k)
  show ?case
  proof (cases "n < 10")
    case False
    then have "0 < k" using Suc.prems by (cases k) auto
    moreover have "n div 10 < 10 ^ k" using Suc.prems by (simp add: less_mult_imp_div_less mult.commute)
    ultimately show ?thesis using Suc.IH [of "n div 10"] False by (subst fmt_u.simps) simp
  qed (simp add: fmt_u.simps)
qed simp

end
