(* ===== verification/Bignum.thy ===== *)
theory Bignum
  imports Prelude
begin

text \<open>
  The 256-bit and 512-bit integer routines of \<open>applications/ChebyShev.c\<close>:
  a \<open>uint256_t\<close> is a list of 8 limbs, a \<open>uint512_t\<close> a list of 16 limbs, least
  significant limb first, and every loop over limbs is a recursion over these
  lists.  The file-level scratch variables (\<open>carry\<close>, \<open>sum\<close>, \<open>borrow\<close>, \<open>ai\<close>,
  \<open>bi\<close>, \<open>temp\<close>, \<open>t\<close>, \<open>rem\<close>, \<open>shifted\<close>) are written before they are read in
  every call, so they are local here.  The lemmas state each routine's value as
  natural-number arithmetic; \<open>big_mod\<close> may loop for ever, so it is a partial
  function into \<open>option\<close>, with a termination theorem and a divergence theorem.
\<close>

section \<open>Leading zeros\<close>

definition clz32 :: "u32 \<Rightarrow> u32" where
  "clz32 x = (if x = 0 then 32 else
     let (m, x) = (if x AND 0xFFFF0000 = 0 then (16, push_bit 16 x) else (0, x));
         (m, x) = (if x AND 0xFF000000 = 0 then (m + 8, push_bit 8 x) else (m, x));
         (m, x) = (if x AND 0xF0000000 = 0 then (m + 4, push_bit 4 x) else (m, x));
         (m, x) = (if x AND 0xC0000000 = 0 then (m + 2, push_bit 2 x) else (m, x))
     in if x AND 0x80000000 = 0 then m + 1 else m)"

section \<open>Comparison\<close>

text \<open>The loops run from the most significant limb down: over the reversed lists.\<close>

fun cmp_loop :: "u32 list \<Rightarrow> u32 list \<Rightarrow> int" where
  "cmp_loop (x # xs) (y # ys) = (if x > y then 1 else if x < y then -1 else cmp_loop xs ys)"
| "cmp_loop _ _ = 0"

definition big_cmp :: "u32 list \<Rightarrow> u32 list \<Rightarrow> int" where
  "big_cmp a b = cmp_loop (rev a) (rev b)"

definition big_cmp512 :: "u32 list \<Rightarrow> u32 list \<Rightarrow> int" where
  "big_cmp512 a b = cmp_loop (rev a) (rev b)"

section \<open>Addition, subtraction and shifts\<close>

fun add_loop :: "u64 \<Rightarrow> u32 list \<Rightarrow> u32 list \<Rightarrow> u32 list \<times> u64" where
  "add_loop carry (a # as) (b # bs) =
     (let sum = ucast a + ucast b + carry;
          (res, carry') = add_loop (drop_bit 32 sum) as bs
      in (ucast sum # res, carry'))"
| "add_loop carry _ _ = ([], carry)"

definition big_add :: "u32 list \<Rightarrow> u32 list \<Rightarrow> u32 list \<times> u32" where
  "big_add a b = (let (res, carry) = add_loop 0 a b in (res, ucast carry))"

fun sub_loop :: "u64 \<Rightarrow> u32 list \<Rightarrow> u32 list \<Rightarrow> u32 list \<times> u64" where
  "sub_loop borrow (a # as) (b # bs) =
     (let ai = ucast a; bi = ucast b + borrow
      in if ai \<ge> bi
         then (let (res, borrow') = sub_loop 0 as bs in (ucast (ai - bi) # res, borrow'))
         else (let (res, borrow') = sub_loop 1 as bs
               in (ucast (push_bit 32 1 + ai - bi) # res, borrow')))"
| "sub_loop borrow _ _ = ([], borrow)"

definition big_sub :: "u32 list \<Rightarrow> u32 list \<Rightarrow> u32 list \<times> u32" where
  "big_sub a b = (let (res, borrow) = sub_loop 0 a b in (res, ucast borrow))"

definition big_sub512 :: "u32 list \<Rightarrow> u32 list \<Rightarrow> u32 list \<times> u32" where
  "big_sub512 a b = (let (res, borrow) = sub_loop 0 a b in (res, ucast borrow))"

fun shr1_loop :: "u64 \<Rightarrow> u32 list \<Rightarrow> u32 list" where
  "shr1_loop carry [] = []"
| "shr1_loop carry (a # as) =
     (let temp = push_bit 32 carry OR ucast a
      in ucast (drop_bit 1 temp) # shr1_loop (temp AND 1) as)"

definition big_shr1 :: "u32 list \<Rightarrow> u32 list" where
  "big_shr1 a = rev (shr1_loop 0 (rev a))"

fun shl_loop :: "nat \<Rightarrow> u64 \<Rightarrow> u32 list \<Rightarrow> u32 list \<times> u64" where
  "shl_loop bit_shift carry [] = ([], carry)"
| "shl_loop bit_shift carry (a # as) =
     (let temp = push_bit bit_shift (ucast a) OR carry;
          (res, carry') = shl_loop bit_shift (drop_bit 32 temp) as
      in (ucast temp # res, carry'))"

definition big512_shl :: "u32 list \<Rightarrow> int \<Rightarrow> int \<Rightarrow> u32 list" where
  "big512_shl a word_shift bit_shift =
     (let res = replicate 16 0 in
      if word_shift < 0 \<or> word_shift > 8 then res
      else if bit_shift = 0 then blit (nat word_shift) a res
      else (let (ws, carry) = shl_loop (nat bit_shift) 0 a;
                res = blit (nat word_shift) ws res
            in if word_shift + 8 < 16 then res[nat word_shift + 8 := ucast carry] else res))"

section \<open>Multiplication\<close>

text \<open>
  \<open>mul_row\<close> is the inner loop over \<open>j\<close>, run on the part of \<open>res\<close> that starts at
  index \<open>i\<close>; its base case is the store to \<open>res[i + 8]\<close>.  \<open>mul_rows\<close> is the outer
  loop over \<open>i\<close>: limb \<open>i\<close> of the result is final after row \<open>i\<close>.
\<close>

fun mul_row :: "u32 \<Rightarrow> u64 \<Rightarrow> u32 list \<Rightarrow> u32 list \<Rightarrow> u32 list" where
  "mul_row ai carry bs [] = []"
| "mul_row ai carry [] (r # rs) = ucast carry # rs"
| "mul_row ai carry (b # bs) (r # rs) =
     (let t = ucast ai * ucast b + ucast r + carry
      in ucast t # mul_row ai (drop_bit 32 t) bs rs)"

fun mul_rows :: "u32 list \<Rightarrow> u32 list \<Rightarrow> u32 list \<Rightarrow> u32 list" where
  "mul_rows [] b res = res"
| "mul_rows (ai # as) b res =
     (case mul_row ai 0 b res of [] \<Rightarrow> [] | r # rs \<Rightarrow> r # mul_rows as b rs)"

definition big_mul :: "u32 list \<Rightarrow> u32 list \<Rightarrow> u32 list" where
  "big_mul a b = mul_rows a b (replicate 16 0)"

section \<open>Reduction\<close>

fun top_loop :: "u32 list \<Rightarrow> int" where
  "top_loop [] = -1"
| "top_loop (x # xs) = (if x \<noteq> 0 then int (length xs) else top_loop xs)"

text \<open>The index at which \<open>for (i = n - 1; i >= 0; i--) if (a[i] != 0) break;\<close> stops.\<close>

definition top_limb :: "u32 list \<Rightarrow> int" where
  "top_limb a = top_loop (rev a)"

definition top_bit :: "u32 list \<Rightarrow> int" where
  "top_bit a = 32 * top_limb a + (31 - int (unat (clz32 (a ! nat (top_limb a)))))"

partial_function (option) mod_loop ::
  "u32 list \<Rightarrow> int \<Rightarrow> u32 list \<Rightarrow> int \<Rightarrow> u32 list option" where
  "mod_loop m m_bit rem rem_bit =
     (if rem_bit < m_bit then Some (take 8 rem)
      else (let shift = rem_bit - m_bit;
                shifted = big512_shl m (shift div 32) (shift mod 32)
            in if big_cmp512 rem shifted \<ge> 0
               then (let rem' = fst (big_sub512 rem shifted)
                     in if top_limb rem' < 0 then Some (replicate 8 0)
                        else mod_loop m m_bit rem' (top_bit rem'))
               else mod_loop m m_bit rem (rem_bit - 1)))"

definition big_mod :: "u32 list \<Rightarrow> u32 list \<Rightarrow> u32 list option" where
  "big_mod a m =
     (if top_limb a < 0 then Some (replicate 8 0)
      else if top_limb m < 0 then Some (take 8 a)
      else if top_bit a < top_bit m then Some (take 8 a)
      else mod_loop m (top_bit m) a (top_bit a))"

section \<open>Setting a constant\<close>

definition set_uint256 ::
  "u32 \<Rightarrow> u32 \<Rightarrow> u32 \<Rightarrow> u32 \<Rightarrow> u32 \<Rightarrow> u32 \<Rightarrow> u32 \<Rightarrow> u32 \<Rightarrow> u32 list" where
  "set_uint256 limb7 limb6 limb5 limb4 limb3 limb2 limb1 limb0 =
     [limb0, limb1, limb2, limb3, limb4, limb5, limb6, limb7]"

section \<open>Values of the routines\<close>

lemma limbs_val_rev_Cons:
  "limbs_val (rev (x # xs)) = limbs_val (rev xs) + 2 ^ (32 * length xs) * unat x"
  by (simp add: limbs_val_append)

lemma top_limb_order:
  fixes p q x y N :: nat
  assumes "p < N" "x < y"
  shows "p + N * x < q + N * y"
proof -
  have "p + N * x < N * Suc x" using assms(1) by simp
  also have "\<dots> \<le> N * y" using assms(2) by (intro mult_le_mono2) simp
  finally show ?thesis by simp
qed

lemma cmp_loop_val:
  "length xs = length ys \<Longrightarrow>
   cmp_loop xs ys = (if limbs_val (rev xs) > limbs_val (rev ys) then 1
     else if limbs_val (rev xs) < limbs_val (rev ys) then -1 else 0)"
proof (induction xs ys rule: list_induct2)
  case (Cons x xs y ys)
  have bx: "limbs_val (rev xs) < 2 ^ (32 * length xs)"
    and b_y: "limbs_val (rev ys) < 2 ^ (32 * length xs)"
    using limbs_val_less [of "rev xs"] limbs_val_less [of "rev ys"] Cons.hyps by auto
  consider "x < y" | "x = y" | "y < x" by (rule linorder_cases)
  then show ?case
  proof cases
    case 1
    then have "limbs_val (rev (x # xs)) < limbs_val (rev (y # ys))"
      unfolding limbs_val_rev_Cons Cons.hyps [symmetric]
      by (intro top_limb_order [OF bx]) (simp add: word_less_nat_alt)
    with 1 show ?thesis by (auto simp del: rev.simps)
  next
    case 2
    with Cons.IH Cons.hyps show ?thesis by (simp add: limbs_val_append)
  next
    case 3
    then have "limbs_val (rev (y # ys)) < limbs_val (rev (x # xs))"
      unfolding limbs_val_rev_Cons Cons.hyps [symmetric]
      by (intro top_limb_order [OF b_y]) (simp add: word_less_nat_alt)
    with 3 show ?thesis by (auto simp del: rev.simps)
  qed
qed simp

lemma big_cmp_val [c_value]:
  "length a = length b \<Longrightarrow>
   big_cmp a b = (if limbs_val a > limbs_val b then 1 else if limbs_val a < limbs_val b then -1 else 0)"
  by (simp add: big_cmp_def cmp_loop_val)

lemma big_cmp512_val [c_value]:
  "length a = length b \<Longrightarrow>
   big_cmp512 a b = (if limbs_val a > limbs_val b then 1 else if limbs_val a < limbs_val b then -1 else 0)"
  by (simp add: big_cmp512_def cmp_loop_val)

lemma carry_recompose:
  assumes "limbs_val r + N * c = W + unat (drop_bit 32 (t :: u64))"
  shows "limbs_val (ucast t # r) + 2 ^ 32 * N * c = unat t + 2 ^ 32 * W"
proof -
  have "limbs_val (ucast t # r) + 2 ^ 32 * N * c = unat t mod 2 ^ 32 + 2 ^ 32 * (limbs_val r + N * c)"
    by (simp add: unat_ucast_mod distrib_left)
  also have "\<dots> = unat t mod 2 ^ 32 + 2 ^ 32 * (unat t div 2 ^ 32) + 2 ^ 32 * W"
    by (simp only: assms unat_drop_bit_div) (simp add: distrib_left)
  also have "\<dots> = unat t + 2 ^ 32 * W" by (simp only: mod_mult_div_eq)
  finally show ?thesis .
qed

lemma add_loop_val:
  "length as = length bs \<Longrightarrow> unat c \<le> 1 \<Longrightarrow> add_loop c as bs = (r, c') \<Longrightarrow>
   length r = length as \<and> unat c' \<le> 1 \<and>
   limbs_val r + 2 ^ (32 * length as) * unat c' = limbs_val as + limbs_val bs + unat c"
proof (induction as bs arbitrary: c r c' rule: list_induct2)
  case (Cons a as b bs)
  define s where "s = (ucast a + ucast b + c :: u64)"
  have s: "unat s = unat a + unat b + unat c"
    unfolding s_def using Cons.prems(1) by (intro unat_add3_u64) simp
  have d: "unat (drop_bit 32 s) \<le> 1"
    using s Cons.prems(1) c_bound(3) [of a] c_bound(3) [of b] by (simp add: unat_drop_bit_div)
  obtain r' where r': "add_loop (drop_bit 32 s) as bs = (r', c')" "r = ucast s # r'"
    using Cons.prems(2) by (auto simp: s_def Let_def split: prod.splits)
  note IH = Cons.IH [OF d r'(1)]
  from IH have "limbs_val r + 2 ^ 32 * 2 ^ (32 * length as) * unat c'
      = unat s + 2 ^ 32 * (limbs_val as + limbs_val bs)"
    unfolding r'(2) by (intro carry_recompose) simp
  then show ?case using IH r'(2) s by (simp add: power_add distrib_left)
qed simp

lemma big_add_val:
  assumes "length a = length b" "big_add a b = (r, c)"
  shows "length r = length a" "unat c \<le> 1"
    "limbs_val r + 2 ^ (32 * length a) * unat c = limbs_val a + limbs_val b"
proof -
  obtain c' where l: "add_loop 0 a b = (r, c')" and c: "c = ucast c'"
    using assms(2) by (auto simp: big_add_def split: prod.splits)
  note v = add_loop_val [OF assms(1) _ l]
  have "unat c = unat c'" using v by (simp add: c unat_ucast_mod)
  then show "length r = length a" "unat c \<le> 1"
    "limbs_val r + 2 ^ (32 * length a) * unat c = limbs_val a + limbs_val b"
    using v by simp_all
qed

lemma sub_step_val:
  fixes a b :: u32 and bw :: u64
  assumes "unat bw \<le> 1"
  defines "ai \<equiv> ucast a :: u64" and "bi \<equiv> ucast b + bw"
  shows "ai \<ge> bi \<longleftrightarrow> unat a \<ge> unat b + unat bw"
    and "ai \<ge> bi \<Longrightarrow> unat (ucast (ai - bi) :: u32) = unat a - (unat b + unat bw)"
    and "\<not> ai \<ge> bi \<Longrightarrow>
      unat (ucast (push_bit 32 1 + ai - bi) :: u32) = 2 ^ 32 + unat a - (unat b + unat bw)"
proof -
  have lt: "unat a < 2 ^ 32" "unat b < 2 ^ 32" by (simp_all add: c_bound)
  have ai: "unat ai = unat a" by (simp add: ai_def unat_ucast_32_64)
  have bi: "unat bi = unat b + unat bw"
    using assms(1) lt unfolding bi_def
    by (subst unat_add_small) (simp_all add: unat_ucast_32_64)
  show iff: "ai \<ge> bi \<longleftrightarrow> unat a \<ge> unat b + unat bw"
    by (simp add: word_le_nat_alt ai bi)
  show "unat (ucast (ai - bi) :: u32) = unat a - (unat b + unat bw)" if "ai \<ge> bi"
    using that lt by (simp add: unat_ucast_mod unat_sub ai bi)
  show "unat (ucast (push_bit 32 1 + ai - bi) :: u32) = 2 ^ 32 + unat a - (unat b + unat bw)"
    if n: "\<not> ai \<ge> bi"
  proof -
    have p: "unat (push_bit 32 1 + ai :: u64) = 2 ^ 32 + unat a"
      using lt by (subst unat_add_small) (simp_all add: ai unat_push_bit_mod)
    have "bi \<le> push_bit 32 1 + ai"
      unfolding word_le_nat_alt p bi using assms(1) lt by simp
    then have "unat (push_bit 32 1 + ai - bi) = 2 ^ 32 + unat a - (unat b + unat bw)"
      by (simp add: unat_sub p [simplified] bi)
    moreover have "2 ^ 32 + unat a - (unat b + unat bw) < 2 ^ 32"
      using n iff by auto
    ultimately show ?thesis by (simp add: unat_ucast_mod)
  qed
qed

lemma sub_loop_val:
  "length as = length bs \<Longrightarrow> unat c \<le> 1 \<Longrightarrow> sub_loop c as bs = (r, c') \<Longrightarrow>
   length r = length as \<and> unat c' \<le> 1 \<and>
   limbs_val r + limbs_val bs + unat c = limbs_val as + 2 ^ (32 * length as) * unat c'"
proof (induction as bs arbitrary: c r c' rule: list_induct2)
  case (Cons a as b bs)
  define x where "x = (if (ucast a :: u64) \<ge> ucast b + c then ucast (ucast a - (ucast b + c) :: u64)
    else ucast (push_bit 32 1 + ucast a - (ucast b + c) :: u64) :: u32)"
  define bw where "bw = (if (ucast a :: u64) \<ge> ucast b + c then 0 else 1 :: u64)"
  note st = sub_step_val [OF Cons.prems(1), of b a]
  have x: "unat x + unat b + unat c = unat a + 2 ^ 32 * unat bw" and bw: "unat bw \<le> 1"
    using st unat_u32_less [of b] Cons.prems(1) by (auto simp: x_def bw_def split: if_splits)
  obtain r' where r': "sub_loop bw as bs = (r', c')" "r = x # r'"
    using Cons.prems(2) by (auto simp: x_def bw_def Let_def split: prod.splits if_splits)
  note IH = Cons.IH [OF bw r'(1)]
  have "limbs_val r + limbs_val (b # bs) + unat c
      = unat a + 2 ^ 32 * (limbs_val r' + limbs_val bs + unat bw)"
    using x by (simp add: r'(2))
  also have "\<dots> = limbs_val (a # as) + 2 ^ (32 * length (a # as)) * unat c'"
    using IH by (simp add: power_add algebra_simps)
  finally show ?case using IH r'(2) by simp
qed simp

lemma big_sub_val:
  assumes "length a = length b" "big_sub a b = (r, c)"
  shows "length r = length a" "unat c \<le> 1"
    "limbs_val r + limbs_val b = limbs_val a + 2 ^ (32 * length a) * unat c"
proof -
  obtain c' where l: "sub_loop 0 a b = (r, c')" and c: "c = ucast c'"
    using assms(2) by (auto simp: big_sub_def split: prod.splits)
  note v = sub_loop_val [OF assms(1) _ l]
  have "unat c = unat c'" using v by (simp add: c unat_ucast_mod)
  then show "length r = length a" "unat c \<le> 1"
    "limbs_val r + limbs_val b = limbs_val a + 2 ^ (32 * length a) * unat c"
    using v by simp_all
qed

lemma big_sub512_eq: "big_sub512 = big_sub"
  by (simp add: fun_eq_iff big_sub512_def big_sub_def)

lemma big_sub_le:
  assumes "length a = length b" "limbs_val b \<le> limbs_val a"
  shows "limbs_val (fst (big_sub a b)) = limbs_val a - limbs_val b"
    and "length (fst (big_sub a b)) = length a"
proof -
  obtain r c where rc: "big_sub a b = (r, c)" by fastforce
  note v = big_sub_val [OF assms(1) rc]
  have "limbs_val r < 2 ^ (32 * length a)" using limbs_val_less [of r] v(1) by simp
  then have "unat c = 0" using v assms(2) by (cases "unat c") auto
  then show "limbs_val (fst (big_sub a b)) = limbs_val a - limbs_val b"
    and "length (fst (big_sub a b)) = length a" using v rc by simp_all
qed

lemma scale_split2: "N * t + l = (N * (t div 2)) * 2 + (t mod 2 * N + l)" for N t l :: nat
proof -
  have "N * t = N * (t div 2 * 2 + t mod 2)" by (simp only: div_mult_mod_eq)
  then show ?thesis by (simp only: add_mult_distrib2 mult_ac add_ac)
qed

lemma shr1_loop_val:
  "unat c \<le> 1 \<Longrightarrow> length (shr1_loop c xs) = length xs \<and>
   limbs_val (rev (shr1_loop c xs)) = (unat c * 2 ^ (32 * length xs) + limbs_val (rev xs)) div 2"
proof (induction xs arbitrary: c)
  case (Cons x xs)
  define t where "t = push_bit 32 c OR ucast x"
  let ?N = "2 ^ (32 * length xs) :: nat"
  have t: "unat t = unat c * 2 ^ 32 + unat x"
    unfolding t_def using Cons.prems c_bound(3) [of x]
    by (subst unat_or_disjoint) (simp_all add: unat_ucast_32_64)
  have b: "unat (t AND 1) = unat t mod 2"
    by (simp add: and_one_eq unat_mod)
  have h: "unat (ucast (drop_bit 1 t) :: u32) = unat t div 2"
    using t Cons.prems c_bound(3) [of x] by (simp add: unat_ucast_mod unat_drop_bit_div)
  have IH: "length (shr1_loop (t AND 1) xs) = length xs"
    "limbs_val (rev (shr1_loop (t AND 1) xs)) = (unat t mod 2 * ?N + limbs_val (rev xs)) div 2"
    using Cons.IH [of "t AND 1"] by (simp_all add: b)
  have "unat c * 2 ^ (32 * length (x # xs)) + limbs_val (rev (x # xs)) = ?N * unat t + limbs_val (rev xs)"
    unfolding limbs_val_rev_Cons by (simp add: t power_add algebra_simps)
  also have "\<dots> = (?N * (unat t div 2)) * 2 + (unat t mod 2 * ?N + limbs_val (rev xs))"
    by (rule scale_split2)
  finally have "(unat c * 2 ^ (32 * length (x # xs)) + limbs_val (rev (x # xs))) div 2
      = ?N * (unat t div 2) + (unat t mod 2 * ?N + limbs_val (rev xs)) div 2"
    by simp
  then show ?case using IH
    by (simp add: t_def [symmetric] Let_def limbs_val_append h del: One_nat_def)
qed simp

lemma big_shr1_val [c_value]: "limbs_val (big_shr1 a) = limbs_val a div 2"
  using shr1_loop_val [of 0 "rev a"] by (simp add: big_shr1_def)

lemma length_big_shr1 [c_length]: "length (big_shr1 a) = length a"
  using shr1_loop_val [of 0 "rev a"] by (simp add: big_shr1_def)

lemma shl_loop_val:
  "0 < k \<Longrightarrow> k < 32 \<Longrightarrow> unat c < 2 ^ k \<Longrightarrow> shl_loop k c xs = (r, c') \<Longrightarrow>
   length r = length xs \<and> unat c' < 2 ^ k \<and>
   limbs_val r + 2 ^ (32 * length xs) * unat c' = limbs_val xs * 2 ^ k + unat c"
proof (induction xs arbitrary: c r c')
  case (Cons x xs)
  define t where "t = push_bit k (ucast x) OR c"
  have x: "unat x * 2 ^ k < 2 ^ 32 * 2 ^ k" using c_bound(3) [of x] by simp
  also have "(2::nat) ^ 32 * 2 ^ k \<le> 2 ^ 32 * 2 ^ 32"
    using Cons.prems(2) by (intro mult_le_mono2 power_increasing) simp_all
  finally have t: "unat t = unat x * 2 ^ k + unat c"
    unfolding t_def using Cons.prems(3) by (subst unat_or_disjoint) (simp_all add: unat_ucast_32_64)
  have "unat t < 2 ^ 32 * 2 ^ k"
  proof -
    have "Suc (unat x) * 2 ^ k \<le> 2 ^ 32 * 2 ^ k"
      using c_bound(3) [of x] by (intro mult_le_mono1) simp
    then show ?thesis unfolding t using Cons.prems(3) by (simp only: mult_Suc)
  qed
  then have d: "unat (drop_bit 32 t) < 2 ^ k"
    by (simp add: unat_drop_bit_div less_mult_imp_div_less mult.commute)
  obtain r' where r': "shl_loop k (drop_bit 32 t) xs = (r', c')" "r = ucast t # r'"
    using Cons.prems(4) by (auto simp: t_def Let_def split: prod.splits)
  note IH = Cons.IH [OF Cons.prems(1,2) d r'(1)]
  from IH have "limbs_val r + 2 ^ 32 * 2 ^ (32 * length xs) * unat c'
      = unat t + 2 ^ 32 * (limbs_val xs * 2 ^ k)"
    unfolding r'(2) by (intro carry_recompose) simp
  then show ?case using IH r'(2) t by (simp add: power_add add_mult_distrib)
qed simp

lemma mul_row_val:
  "unat c < 2 ^ 32 \<Longrightarrow> length us = length bs \<Longrightarrow>
   \<exists>ws. mul_row ai c bs (us @ 0 # rs) = ws @ rs \<and> length ws = Suc (length bs) \<and>
     limbs_val ws = limbs_val us + unat ai * limbs_val bs + unat c"
proof (induction bs arbitrary: us c)
  case Nil
  then show ?case by (intro exI [of _ "[ucast c]"]) (simp add: unat_ucast_mod)
next
  case (Cons b bs)
  obtain u us' where us: "us = u # us'" "length us' = length bs"
    using Cons.prems(2) by (cases us) auto
  define t where "t = ucast ai * ucast b + ucast u + c"
  have t: "unat t = unat ai * unat b + unat u + unat c"
    unfolding t_def by (rule unat_mul_add_u64 [OF Cons.prems(1)])
  have "unat (drop_bit 32 t) < 2 ^ 32"
    using c_bound(4) [of t] by (simp add: unat_drop_bit_div less_mult_imp_div_less)
  from Cons.IH [OF this us(2)] obtain ws where ws:
    "mul_row ai (drop_bit 32 t) bs (us' @ 0 # rs) = ws @ rs" "length ws = Suc (length bs)"
    "limbs_val ws = limbs_val us' + unat ai * limbs_val bs + unat (drop_bit 32 t)"
    by auto
  from ws(3) have "limbs_val (ucast t # ws) + 2 ^ 32 * 0 * 0
      = unat t + 2 ^ 32 * (limbs_val us' + unat ai * limbs_val bs)"
    by (intro carry_recompose) simp
  then show ?case
    using ws t by (intro exI [of _ "ucast t # ws"])
      (simp add: us t_def [symmetric] Let_def distrib_left add_mult_distrib)
qed

lemma mul_rows_val:
  "length us = length b \<Longrightarrow>
   limbs_val (mul_rows as b (us @ replicate (length as) 0)) = limbs_val us + limbs_val as * limbs_val b
   \<and> length (mul_rows as b (us @ replicate (length as) 0)) = length as + length b"
proof (induction as arbitrary: us)
  case (Cons ai as)
  obtain ws where ws: "mul_row ai 0 b (us @ 0 # replicate (length as) 0) = ws @ replicate (length as) 0"
    "length ws = Suc (length b)" "limbs_val ws = limbs_val us + unat ai * limbs_val b"
    using mul_row_val [of 0 us b ai "replicate (length as) 0"] Cons.prems by auto
  then obtain w ws' where w: "ws = w # ws'" "length ws' = length b" by (cases ws) auto
  from Cons.IH [OF w(2)] show ?case using ws w by (simp add: algebra_simps)
qed simp

lemma big_mul_val:
  assumes "length a = 8" "length b = 8"
  shows "limbs_val (big_mul a b) = limbs_val a * limbs_val b" "length (big_mul a b) = 16"
proof -
  have e: "replicate 16 0 = replicate 8 (0::u32) @ replicate (length a) 0"
    using assms by (simp flip: replicate_add)
  show "limbs_val (big_mul a b) = limbs_val a * limbs_val b" "length (big_mul a b) = 16"
    using mul_rows_val [of "replicate 8 0" b a] assms unfolding big_mul_def e by simp_all
qed

lemma top_loop_val:
  "top_loop xs < 0 \<longleftrightarrow> limbs_val (rev xs) = 0"
  "\<not> top_loop xs < 0 \<Longrightarrow> top_loop xs < int (length xs)
     \<and> rev xs ! nat (top_loop xs) \<noteq> 0
     \<and> limbs_val (rev xs) = limbs_val (take (nat (top_loop xs)) (rev xs))
         + 2 ^ (32 * nat (top_loop xs)) * unat (rev xs ! nat (top_loop xs))"
proof (induction xs)
  case (Cons x xs)
  {
    case 1
    show ?case using Cons.IH(1) by (auto simp: limbs_val_append unat_eq_zero)
  next
    case 2
    show ?case
    proof (cases "x = 0")
      case True
      then have n: "\<not> top_loop xs < 0" using 2 by simp
      note IH = Cons.IH(2) [OF n]
      then show ?thesis using True n
        by (auto simp: limbs_val_append nth_append)
    qed (simp add: limbs_val_append nth_append)
  }
qed simp_all

lemma top_limb_neg: "top_limb a < 0 \<longleftrightarrow> limbs_val a = 0"
  using top_loop_val(1) [of "rev a"] by (simp add: top_limb_def)

lemma top_limb_nonneg:
  assumes "limbs_val a \<noteq> 0"
  shows "0 \<le> top_limb a" "nat (top_limb a) < length a" "a ! nat (top_limb a) \<noteq> 0"
    "limbs_val a = limbs_val (take (nat (top_limb a)) a)
       + 2 ^ (32 * nat (top_limb a)) * unat (a ! nat (top_limb a))"
proof -
  have n: "\<not> top_loop (rev a) < 0" using assms top_limb_neg by (simp add: top_limb_def)
  show "0 \<le> top_limb a" using n by (simp add: top_limb_def)
  show "nat (top_limb a) < length a" "a ! nat (top_limb a) \<noteq> 0"
    "limbs_val a = limbs_val (take (nat (top_limb a)) a)
       + 2 ^ (32 * nat (top_limb a)) * unat (a ! nat (top_limb a))"
    using top_loop_val(2) [OF n] n by (simp_all add: top_limb_def nat_less_iff)
qed

lemma and_high_mask_eq_0: "x AND NOT (mask n) = 0 \<longleftrightarrow> unat x < 2 ^ n" for x :: u32
proof -
  have "x AND NOT (mask n) = 0 \<longleftrightarrow> drop_bit n x = 0"
  proof
    assume d: "drop_bit n x = 0"
    have "bit x (n + i) = bit (drop_bit n x) i" for i by (simp add: bit_drop_bit_eq)
    then have "\<not> bit x (n + i)" for i by (simp add: d)
    then have "bit x i \<longrightarrow> i < n" for i by (metis le_iff_add not_less)
    then show "x AND NOT (mask n) = 0" by (auto simp: bit_eq_iff bit_simps)
  next
    assume h: "x AND NOT (mask n) = 0"
    have "\<not> bit x (n + i)" for i
    proof
      assume "bit x (n + i)"
      then have "bit (x AND NOT (mask n)) (n + i)"
        using bit_imp_le_length [of x "n + i"] by (simp add: bit_simps)
      then show False by (simp add: h)
    qed
    then show "drop_bit n x = 0" by (simp add: bit_eq_iff bit_simps)
  qed
  also have "\<dots> \<longleftrightarrow> unat x div 2 ^ n = 0"
    by (metis unat_drop_bit_div unat_eq_zero)
  finally show ?thesis by (simp add: div_eq_0_iff)
qed

lemma clz_masks:
  "x AND 0xFFFF0000 = 0 \<longleftrightarrow> unat x < 2 ^ 16" "x AND 0xFF000000 = 0 \<longleftrightarrow> unat x < 2 ^ 24"
  "x AND 0xF0000000 = 0 \<longleftrightarrow> unat x < 2 ^ 28" "x AND 0xC0000000 = 0 \<longleftrightarrow> unat x < 2 ^ 30"
  "x AND 0x80000000 = 0 \<longleftrightarrow> unat x < 2 ^ 31" for x :: u32
proof -
  have m: "(0xFFFF0000 :: u32) = NOT (mask 16)" "(0xFF000000 :: u32) = NOT (mask 24)"
    "(0xF0000000 :: u32) = NOT (mask 28)" "(0xC0000000 :: u32) = NOT (mask 30)"
    "(0x80000000 :: u32) = NOT (mask 31)"
    by (simp_all add: mask_numeral)
  show "x AND 0xFFFF0000 = 0 \<longleftrightarrow> unat x < 2 ^ 16" "x AND 0xFF000000 = 0 \<longleftrightarrow> unat x < 2 ^ 24"
    "x AND 0xF0000000 = 0 \<longleftrightarrow> unat x < 2 ^ 28" "x AND 0xC0000000 = 0 \<longleftrightarrow> unat x < 2 ^ 30"
    "x AND 0x80000000 = 0 \<longleftrightarrow> unat x < 2 ^ 31"
    unfolding m by (rule and_high_mask_eq_0)+
qed

text \<open>One halving step of \<open>clz32\<close>: the pair always satisfies \<open>x = x0 * 2 ^ m\<close>.\<close>

lemma clz_step:
  fixes x m :: u32
  assumes "unat x = v * 2 ^ unat m" "unat m + k < 32" "x AND w = 0 \<longleftrightarrow> unat x < 2 ^ (32 - k)"
    and "(if x AND w = 0 then (m + of_nat k, push_bit k x) else (m, x)) = (m', x')"
    and "2 ^ (32 - 2 * k) \<le> unat x" "2 * k \<le> 32"
  shows "unat x' = v * 2 ^ unat m'" "unat m' \<le> unat m + k" "2 ^ (32 - k) \<le> unat x'"
proof -
  have m: "unat (m + of_nat k) = unat m + k"
    using assms(2) by (subst unat_add_small) (simp_all add: unat_of_nat)
  have "unat (push_bit k x) = unat x * 2 ^ k" if "unat x < 2 ^ (32 - k)"
  proof -
    have "unat x * 2 ^ k < 2 ^ (32 - k) * 2 ^ k" using that by simp
    then show ?thesis using assms(2) by (simp add: unat_push_bit_mod flip: power_add)
  qed
  moreover have "(2::nat) ^ (32 - k) = 2 ^ (32 - 2 * k) * 2 ^ k"
    using assms(6) by (simp flip: power_add)
  ultimately show "unat x' = v * 2 ^ unat m'" "unat m' \<le> unat m + k" "2 ^ (32 - k) \<le> unat x'"
    using assms m by (auto simp: power_add split: if_splits)
qed

lemma clz32_val:
  assumes "x \<noteq> 0"
  shows "unat (clz32 x) \<le> 31" "2 ^ (31 - unat (clz32 x)) \<le> unat x" "unat x < 2 ^ (32 - unat (clz32 x))"
proof -
  define v where "v = unat x"
  have v: "0 < v" "v < 2 ^ 32" using assms c_bound(3) [of x] by (simp_all add: v_def unat_gt_0)
  obtain m1 x1 where s1: "(if x AND 0xFFFF0000 = 0 then (0 + of_nat 16, push_bit 16 x) else (0, x)) = (m1 :: u32, x1)"
    by fastforce
  obtain m2 x2 where s2: "(if x1 AND 0xFF000000 = 0 then (m1 + of_nat 8, push_bit 8 x1) else (m1, x1)) = (m2, x2)"
    by fastforce
  obtain m3 x3 where s3: "(if x2 AND 0xF0000000 = 0 then (m2 + of_nat 4, push_bit 4 x2) else (m2, x2)) = (m3, x3)"
    by fastforce
  obtain m4 x4 where s4: "(if x3 AND 0xC0000000 = 0 then (m3 + of_nat 2, push_bit 2 x3) else (m3, x3)) = (m4, x4)"
    by fastforce
  note c1 = clz_step [OF _ _ _ s1, of v, simplified clz_masks]
  have 1: "unat x1 = v * 2 ^ unat m1" "unat m1 \<le> 16" "2 ^ 16 \<le> unat x1" using c1 v by (simp_all add: v_def)
  note c2 = clz_step [OF 1(1) _ _ s2, simplified clz_masks]
  have 2: "unat x2 = v * 2 ^ unat m2" "unat m2 \<le> 24" "2 ^ 24 \<le> unat x2" using c2 1 by simp_all
  note c3 = clz_step [OF 2(1) _ _ s3, simplified clz_masks]
  have 3: "unat x3 = v * 2 ^ unat m3" "unat m3 \<le> 28" "2 ^ 28 \<le> unat x3" using c3 2 by simp_all
  note c4 = clz_step [OF 3(1) _ _ s4, simplified clz_masks]
  have 4: "unat x4 = v * 2 ^ unat m4" "unat m4 \<le> 30" "2 ^ 30 \<le> unat x4" using c4 3 by simp_all
  have clz: "clz32 x = (if x4 AND 0x80000000 = 0 then m4 + 1 else m4)"
    unfolding clz32_def if_not_P [OF assms]
    by (simp only: Let_def prod.case s1 [unfolded of_nat_numeral add_0] s2 [unfolded of_nat_numeral]
        s3 [unfolded of_nat_numeral] s4 [unfolded of_nat_numeral])
  have m5: "unat (m4 + 1) = unat m4 + 1" using 4(2) by (subst unat_add_small) simp_all
  define m where "m = unat (clz32 x)"
  have m: "m \<le> 31" "2 ^ 31 \<le> v * 2 ^ m" "v * 2 ^ m < 2 ^ 32"
    using 4 m5 c_bound(3) [of x4] by (auto simp: m_def clz clz_masks)
  have "2 ^ (31 - m) * 2 ^ m \<le> v * 2 ^ m" "v * 2 ^ m < 2 ^ (32 - m) * 2 ^ m"
    using m by (simp_all flip: power_add)
  then show "unat (clz32 x) \<le> 31" "2 ^ (31 - unat (clz32 x)) \<le> unat x" "unat x < 2 ^ (32 - unat (clz32 x))"
    using m(1) by (simp_all add: m_def v_def)
qed

lemma top_bit_val:
  assumes "limbs_val a \<noteq> 0"
  shows "0 \<le> top_bit a" "2 ^ nat (top_bit a) \<le> limbs_val a" "limbs_val a < 2 ^ Suc (nat (top_bit a))"
proof -
  define i where "i = nat (top_limb a)"
  define x where "x = a ! i"
  note t = top_limb_nonneg [OF assms, folded i_def, folded x_def]
  note c = clz32_val [OF t(3)]
  have tb: "top_bit a = int (32 * i + (31 - unat (clz32 x)))"
    using t(1) c(1) by (simp add: top_bit_def i_def [symmetric] x_def [symmetric]) (simp add: i_def)
  have lo: "limbs_val (take i a) < 2 ^ (32 * i)"
    using limbs_val_less [of "take i a"] t(2) by (simp add: min_def)
  show "0 \<le> top_bit a" by (simp add: tb)
  have "2 ^ (32 * i) * 2 ^ (31 - unat (clz32 x)) \<le> 2 ^ (32 * i) * unat x"
    using c(2) by (rule mult_le_mono2)
  then show "2 ^ nat (top_bit a) \<le> limbs_val a" unfolding tb nat_int power_add t(4) by linarith
  have "limbs_val a < 2 ^ (32 * i) * Suc (unat x)" unfolding t(4) using lo by simp
  also have "\<dots> \<le> 2 ^ (32 * i) * 2 ^ (32 - unat (clz32 x))" using c(3) by (intro mult_le_mono2) simp
  also have "\<dots> = 2 ^ Suc (nat (top_bit a))"
    unfolding tb nat_int using c(1) by (simp add: Suc_diff_le flip: power_add power_Suc)
  finally show "limbs_val a < 2 ^ Suc (nat (top_bit a))" .
qed

lemma blit_zeros:
  "i + length xs \<le> n \<Longrightarrow>
   blit i xs (replicate n (0 :: u32)) = replicate i 0 @ xs @ replicate (n - (i + length xs)) 0"
  by (simp add: blit_def min_def)

lemma big512_shl_val:
  assumes "length a = 8" "n \<le> 256"
  shows "limbs_val (big512_shl a (int n div 32) (int n mod 32)) = limbs_val a * 2 ^ n"
    and "length (big512_shl a (int n div 32) (int n mod 32)) = 16"
proof -
  define w k where "w = n div 32" and "k = n mod 32"
  have n: "n = 32 * w + k" and w: "w \<le> 8" and k: "k < 32" using assms(2) by (auto simp: w_def k_def)
  have e: "big512_shl a (int n div 32) (int n mod 32) = big512_shl a (int w) (int k)"
    by (simp add: w_def k_def zdiv_int zmod_int)
  have "limbs_val (big512_shl a (int w) (int k)) = limbs_val a * 2 ^ n \<and> length (big512_shl a (int w) (int k)) = 16"
  proof (cases "k = 0")
    case True
    then show ?thesis
      using assms(1) w by (simp add: big512_shl_def blit_zeros limbs_val_append n)
  next
    case False
    then have w7: "w < 8" using assms(2) n by linarith
    obtain ws c where sl: "shl_loop k 0 a = (ws, c)" by fastforce
    have v: "length ws = 8" "unat c < 2 ^ k" "limbs_val ws + 2 ^ 256 * unat c = limbs_val a * 2 ^ k"
      using shl_loop_val [OF _ k _ sl] False assms(1) by auto
    have "(2::nat) ^ k \<le> 2 ^ 32" using k by (intro power_increasing) simp_all
    then have c: "unat (ucast c :: u32) = unat c" using v(2) by (simp add: unat_ucast_mod)
    have r: "replicate (8 - w) (0 :: u32) = 0 # replicate (7 - w) 0"
      using w7 by (simp flip: replicate_Suc add: Suc_diff_Suc)
    have "big512_shl a (int w) (int k) = replicate w 0 @ ws @ ucast c # replicate (7 - w) 0"
      using False w7 v(1)
      by (simp add: big512_shl_def sl blit_zeros r list_update_append nat_add_distrib)
    moreover have "2 ^ (32 * w) * (limbs_val ws + 2 ^ 256 * unat c) = limbs_val a * 2 ^ n"
      unfolding v(3) n by (simp add: power_add)
    ultimately show ?thesis using v(1) w7 by (simp add: limbs_val_append c)
  qed
  then show "limbs_val (big512_shl a (int n div 32) (int n mod 32)) = limbs_val a * 2 ^ n"
    and "length (big512_shl a (int n div 32) (int n mod 32)) = 16"
    by (simp_all add: e)
qed

lemma limbs_val_take:
  assumes "limbs_val xs < 2 ^ (32 * k)" "k \<le> length xs"
  shows "limbs_val (take k xs) = limbs_val xs"
proof -
  have "limbs_val xs = limbs_val (take k xs) + 2 ^ (32 * k) * limbs_val (drop k xs)"
    using limbs_val_append [of "take k xs" "drop k xs"] assms(2) by (simp add: min_def)
  moreover from this have "limbs_val (drop k xs) = 0"
    using assms(1) by (cases "limbs_val (drop k xs)") auto
  ultimately show ?thesis by simp
qed

text \<open>
  The shift-and-subtract loop keeps \<open>rem < m * 2 ^ (rem_bit - m_bit + 1)\<close> and ends: each turn
  makes \<open>rem\<close> or \<open>rem_bit\<close> smaller.  It needs every shift to be at most 256 bits.
\<close>

lemma mod_sub_step:
  assumes "limbs_val m \<noteq> 0" "limbs_val m * 2 ^ n \<le> r" "r < limbs_val m * 2 ^ n * 2"
    and "limbs_val rem' = r - limbs_val m * 2 ^ n"
  shows "limbs_val rem' mod limbs_val m = r mod limbs_val m" "limbs_val rem' < r"
    and "limbs_val rem' \<noteq> 0 \<Longrightarrow> top_bit rem' \<le> top_bit m + int n"
    and "limbs_val rem' \<noteq> 0 \<Longrightarrow> limbs_val rem' < limbs_val m * 2 ^ nat (top_bit rem' - top_bit m + 1)"
proof -
  note mb = top_bit_val [OF assms(1)]
  have r: "r = limbs_val rem' + limbs_val m * 2 ^ n" using assms(2,4) by simp
  show "limbs_val rem' mod limbs_val m = r mod limbs_val m" unfolding r by (rule mod_mult_self2 [symmetric])
  show "limbs_val rem' < r" using assms(1) by (simp add: r)
  assume nz: "limbs_val rem' \<noteq> 0"
  note tb = top_bit_val [OF nz]
  have "limbs_val rem' < limbs_val m * 2 ^ n" using assms(3) r by linarith
  also have "\<dots> \<le> 2 ^ Suc (nat (top_bit m)) * 2 ^ n" using mb(3) by simp
  finally have "2 ^ nat (top_bit rem') < (2::nat) ^ Suc (nat (top_bit m)) * 2 ^ n" using tb(2) by linarith
  then have "(2::nat) ^ nat (top_bit rem') < 2 ^ (Suc (nat (top_bit m)) + n)" by (simp only: power_add)
  then have "nat (top_bit rem') < Suc (nat (top_bit m)) + n"
    by (rule power_less_imp_less_exp [rotated]) simp
  then show "top_bit rem' \<le> top_bit m + int n" using mb(1) tb(1) by linarith
  have "Suc (nat (top_bit rem')) \<le> nat (top_bit m) + nat (top_bit rem' - top_bit m + 1)"
    using mb(1) tb(1) by linarith
  then have "(2::nat) ^ Suc (nat (top_bit rem')) \<le> 2 ^ nat (top_bit m) * 2 ^ nat (top_bit rem' - top_bit m + 1)"
    by (simp only: power_add [symmetric]) (intro power_increasing, simp_all)
  also have "\<dots> \<le> limbs_val m * 2 ^ nat (top_bit rem' - top_bit m + 1)" using mb(2) by simp
  finally show "limbs_val rem' < limbs_val m * 2 ^ nat (top_bit rem' - top_bit m + 1)" using tb(3) by linarith
qed

lemma mod_loop_step:
  assumes "length m = 8" "length rem = 16" "rem_bit - m_bit = int n" "n \<le> 256"
  shows "limbs_val m * 2 ^ n \<le> limbs_val rem \<Longrightarrow>
      \<exists>rem'. length rem' = 16 \<and> limbs_val rem' = limbs_val rem - limbs_val m * 2 ^ n \<and>
        mod_loop m m_bit rem rem_bit =
          (if limbs_val rem' = 0 then Some (replicate 8 0) else mod_loop m m_bit rem' (top_bit rem'))"
    and "\<not> limbs_val m * 2 ^ n \<le> limbs_val rem \<Longrightarrow>
      mod_loop m m_bit rem rem_bit = mod_loop m m_bit rem (rem_bit - 1)"
proof -
  define sh where "sh = big512_shl m (int n div 32) (int n mod 32)"
  note shv = big512_shl_val [OF assms(1,4), folded sh_def]
  have cmp: "big_cmp512 rem sh \<ge> 0 \<longleftrightarrow> limbs_val m * 2 ^ n \<le> limbs_val rem"
    using assms(2) shv by (auto simp: big_cmp512_val)
  show "mod_loop m m_bit rem rem_bit = mod_loop m m_bit rem (rem_bit - 1)"
    if "\<not> limbs_val m * 2 ^ n \<le> limbs_val rem"
    using assms(3) cmp that by (subst mod_loop.simps) (simp add: sh_def)
  assume le: "limbs_val m * 2 ^ n \<le> limbs_val rem"
  define rem' where "rem' = fst (big_sub512 rem sh)"
  have "mod_loop m m_bit rem rem_bit =
      (if limbs_val rem' = 0 then Some (replicate 8 0) else mod_loop m m_bit rem' (top_bit rem'))"
    using assms(3) cmp le by (subst mod_loop.simps) (simp add: sh_def rem'_def top_limb_neg Let_def)
  moreover have "limbs_val rem' = limbs_val rem - limbs_val m * 2 ^ n" "length rem' = 16"
    using big_sub_le [of rem sh] le shv assms(2) by (simp_all add: rem'_def big_sub512_eq)
  ultimately show "\<exists>rem'. length rem' = 16 \<and> limbs_val rem' = limbs_val rem - limbs_val m * 2 ^ n \<and>
        mod_loop m m_bit rem rem_bit =
          (if limbs_val rem' = 0 then Some (replicate 8 0) else mod_loop m m_bit rem' (top_bit rem'))"
    by blast
qed

lemma mod_loop_val:
  assumes "length m = 8" "limbs_val m \<noteq> 0"
    and "length rem = 16" "rem_bit - top_bit m \<le> 256"
    and "limbs_val rem < limbs_val m * 2 ^ nat (rem_bit - top_bit m + 1)"
  shows "\<exists>r. mod_loop m (top_bit m) rem rem_bit = Some r \<and> length r = 8
    \<and> limbs_val r = limbs_val rem mod limbs_val m"
  using assms(3-)
proof (induction "limbs_val rem + nat (rem_bit + 1)" arbitrary: rem rem_bit rule: less_induct)
  case less
  note mb = top_bit_val(1) [OF assms(2)]
  show ?case
  proof (cases "rem_bit < top_bit m")
    case True
    then have lt: "limbs_val rem < limbs_val m" using less.prems(3) by simp
    then have "limbs_val (take 8 rem) = limbs_val rem"
      using limbs_val_less [of m] assms(1) less.prems(1) by (intro limbs_val_take) simp_all
    then show ?thesis using True lt less.prems(1) by (subst mod_loop.simps) simp
  next
    case False
    define n where "n = nat (rem_bit - top_bit m)"
    have n: "rem_bit - top_bit m = int n" "n \<le> 256" using False less.prems(2) by (simp_all add: n_def)
    have bound: "limbs_val rem < limbs_val m * 2 ^ n * 2"
      using less.prems(3) n(1) by (simp add: nat_add_distrib mult.commute mult.left_commute)
    note step = mod_loop_step [OF assms(1) less.prems(1) n]
    show ?thesis
    proof (cases "limbs_val m * 2 ^ n \<le> limbs_val rem")
      case True
      obtain rem' where r: "length rem' = 16" "limbs_val rem' = limbs_val rem - limbs_val m * 2 ^ n"
        "mod_loop m (top_bit m) rem rem_bit =
          (if limbs_val rem' = 0 then Some (replicate 8 0) else mod_loop m (top_bit m) rem' (top_bit rem'))"
        using step(1) [OF True] by blast
      note ss = mod_sub_step [OF assms(2) True bound r(2)]
      show ?thesis
      proof (cases "limbs_val rem' = 0")
        case True
        then show ?thesis using r(3) ss(1) by simp
      next
        case nz: False
        have le: "top_bit rem' \<le> rem_bit" using ss(3) [OF nz] n(1) by simp
        then have "limbs_val rem' + nat (top_bit rem' + 1) < limbs_val rem + nat (rem_bit + 1)"
          using ss(2) by linarith
        then show ?thesis
          using less.hyps [of rem' "top_bit rem'"] r ss(1,4) nz le less.prems(2) by simp
      qed
    next
      case lt: False
      have "limbs_val rem < limbs_val m * 2 ^ nat (rem_bit - 1 - top_bit m + 1)"
        using lt n(1) by simp
      then show ?thesis
        using less.hyps [of rem "rem_bit - 1"] less.prems(1,2) False mb step(2) [OF lt] by simp
    qed
  qed
qed

lemma big_mod_val:
  assumes "length a = 16" "length m = 8" "limbs_val m \<noteq> 0" "limbs_val a < limbs_val m * 2 ^ 256"
  shows "\<exists>r. big_mod a m = Some r \<and> length r = 8 \<and> limbs_val r = limbs_val a mod limbs_val m"
proof (cases "limbs_val a = 0")
  case True
  then show ?thesis by (simp add: big_mod_def top_limb_neg)
next
  case nz: False
  note ab = top_bit_val [OF nz] and mb = top_bit_val [OF assms(3)]
  have "2 ^ nat (top_bit a) < 2 ^ Suc (nat (top_bit m)) * (2::nat) ^ 256"
  proof -
    have "2 ^ nat (top_bit a) < limbs_val m * 2 ^ 256" using ab(2) assms(4) by linarith
    also have "\<dots> \<le> 2 ^ Suc (nat (top_bit m)) * 2 ^ 256" using mb(3) by simp
    finally show ?thesis .
  qed
  then have "nat (top_bit a) < Suc (nat (top_bit m)) + 256" by (simp only: power_add [symmetric]) simp
  then have d: "top_bit a - top_bit m \<le> 256" using ab(1) mb(1) by linarith
  have "Suc (nat (top_bit a)) \<le> nat (top_bit m) + nat (top_bit a - top_bit m + 1)"
    using ab(1) mb(1) by linarith
  then have "(2::nat) ^ Suc (nat (top_bit a)) \<le> 2 ^ nat (top_bit m) * 2 ^ nat (top_bit a - top_bit m + 1)"
    by (simp only: power_add [symmetric]) (intro power_increasing, simp_all)
  also have "\<dots> \<le> limbs_val m * 2 ^ nat (top_bit a - top_bit m + 1)" using mb(2) by simp
  finally have b: "limbs_val a < limbs_val m * 2 ^ nat (top_bit a - top_bit m + 1)" using ab(3) by linarith
  have "big_mod a m = mod_loop m (top_bit m) a (top_bit a)"
    using nz assms(3) by (subst mod_loop.simps) (simp add: big_mod_def top_limb_neg, subst mod_loop.simps, simp)
  then show ?thesis using mod_loop_val [OF assms(2,3,1) d b] by simp
qed

text \<open>
  With a shift of more than 256 bits \<open>big512_shl\<close> returns 0, the subtraction changes nothing and
  the loop does not end.
\<close>

lemma mod_loop_stuck:
  assumes "m_bit + 288 \<le> rem_bit" "length rem = 16" "top_bit rem = rem_bit" "limbs_val rem \<noteq> 0"
  shows "mod_loop m m_bit rem rem_bit = None"
proof (rule ccontr)
  have sh: "big512_shl m ((rem_bit - m_bit) div 32) ((rem_bit - m_bit) mod 32) = replicate 16 0"
  proof -
    have "8 < (rem_bit - m_bit) div 32" using assms(1) by simp
    then show ?thesis by (simp add: big512_shl_def)
  qed
  have rem: "fst (big_sub512 rem (replicate 16 0)) = rem"
    using big_sub_le [of rem "replicate 16 0"] assms(2) limbs_val_inj [of "fst (big_sub rem (replicate 16 0))" rem]
    by (simp add: big_sub512_eq)
  have cmp: "big_cmp512 rem (replicate 16 0) \<ge> 0" using assms(2) by (simp add: big_cmp512_val)
  assume "mod_loop m m_bit rem rem_bit \<noteq> None"
  then obtain r where ret: "mod_loop m m_bit rem rem_bit = Some r" by blast
  let ?P = "\<lambda>m' b q qb (r :: u32 list). \<not> (m' = m \<and> b = m_bit \<and> q = rem \<and> qb = rem_bit)"
  have "?P m m_bit rem rem_bit r"
  proof (rule mod_loop.raw_induct [of ?P, OF _ ret])
    fix f m' b q qb r'
    assume IH: "\<And>m' b q qb r. f m' b q qb = Some r \<Longrightarrow> ?P m' b q qb r"
      and eq: "(if qb < b then Some (take 8 q)
        else let shift = qb - b; shifted = big512_shl m' (shift div 32) (shift mod 32)
          in if big_cmp512 q shifted \<ge> 0
             then let rem' = fst (big_sub512 q shifted)
                  in if top_limb rem' < 0 then Some (replicate 8 0) else f m' b rem' (top_bit rem')
             else f m' b q (qb - 1)) = Some r'"
    show "?P m' b q qb r'"
    proof
      assume s: "m' = m \<and> b = m_bit \<and> q = rem \<and> qb = rem_bit"
      with eq have "f m m_bit rem rem_bit = Some r'"
        using assms sh rem cmp top_limb_neg [of rem] by (simp add: Let_def)
      then show False using IH by blast
    qed
  qed
  then show False by simp
qed

lemma big_mod_diverges:
  assumes "length a = 16" "limbs_val m \<noteq> 0" "top_bit m + 288 \<le> top_bit a" "limbs_val a \<noteq> 0"
  shows "big_mod a m = None"
  using mod_loop_stuck [of "top_bit m" "top_bit a" a m] assms
  by (simp add: big_mod_def top_limb_neg)

end
