(* ===== verification/Cheb_Poly.thy ===== *)
theory Cheb_Poly
  imports Main
begin

text \<open>
  The mathematics the protocol rests on: Chebyshev polynomials of the first
  kind over the integers, their commuting composition (the key agreement), the
  identity the device checks in \<open>Sharedkey_Gen2\<close>, and the 2 by 2 transition
  matrix whose powers compute them.  Everything is congruence-compatible, so it
  carries over to arithmetic modulo the public \<open>N\<close>.
\<close>

section \<open>Chebyshev polynomials\<close>

fun cheb :: "nat \<Rightarrow> int \<Rightarrow> int" where
  "cheb 0 x = 1"
| "cheb (Suc 0) x = x"
| "cheb (Suc (Suc n)) x = 2 * x * cheb (Suc n) x - cheb n x"

text \<open>The companion sequence, with index shifted by one (\<open>U\<close> at index \<open>n - 1\<close>).\<close>

fun chebU :: "nat \<Rightarrow> int \<Rightarrow> int" where
  "chebU 0 x = 0"
| "chebU (Suc 0) x = 1"
| "chebU (Suc (Suc n)) x = 2 * x * chebU (Suc n) x - chebU n x"

lemma cheb_Suc: "cheb (Suc n) x = x * cheb n x + (x * x - 1) * chebU n x"
  and chebU_Suc: "chebU (Suc n) x = x * chebU n x + cheb n x"
proof (induction n)
  case (Suc n)
  {
    case 1 show ?case unfolding cheb.simps(3) chebU.simps(3) Suc.IH by (simp add: algebra_simps)
  next
    case 2 show ?case unfolding cheb.simps(3) chebU.simps(3) Suc.IH by (simp add: algebra_simps)
  }
qed simp_all

lemma cheb_add:
  "cheb (m + n) x = cheb m x * cheb n x + (x * x - 1) * chebU m x * chebU n x"
  "chebU (m + n) x = chebU m x * cheb n x + cheb m x * chebU n x"
proof (induction n)
  case 0
  { case 1 show ?case by simp next case 2 show ?case by simp }
next
  case (Suc n)
  {
    case 1 show ?case
      unfolding add_Suc_right cheb_Suc [of "m + n"] cheb_Suc [of n] chebU_Suc [of n] Suc.IH
      by (simp add: algebra_simps)
  next
    case 2 show ?case
      unfolding add_Suc_right chebU_Suc [of "m + n"] cheb_Suc [of n] chebU_Suc [of n] Suc.IH
      by (simp add: algebra_simps)
  }
qed

lemma cheb_pell: "cheb n x * cheb n x - (x * x - 1) * (chebU n x * chebU n x) = 1"
proof (induction n)
  case (Suc n)
  have "cheb (Suc n) x * cheb (Suc n) x - (x * x - 1) * (chebU (Suc n) x * chebU (Suc n) x)
      = cheb n x * cheb n x - (x * x - 1) * (chebU n x * chebU n x)"
    unfolding cheb_Suc chebU_Suc by (simp add: algebra_simps)
  with Suc.IH show ?case by simp
qed simp

lemma cheb_triple:
  "cheb a x * cheb a x + cheb b x * cheb b x + cheb (a + b) x * cheb (a + b) x
     = 2 * cheb a x * cheb b x * cheb (a + b) x + 1"
proof -
  define A B C D where "A = cheb a x" "B = cheb b x" "C = chebU a x" "D = chebU b x"
  define w where "w = x * x - 1"
  have p: "w * (C * C) = A * A - 1" "w * (D * D) = B * B - 1"
    using cheb_pell [of a x] cheb_pell [of b x] by (simp_all add: A_B_C_D_def w_def)
  have s: "cheb (a + b) x = A * B + w * C * D" by (simp add: cheb_add(1) A_B_C_D_def w_def)
  have "(w * C * D) * (w * C * D) = (w * (C * C)) * (w * (D * D))" by (simp add: algebra_simps)
  then have "(w * C * D) * (w * C * D) = (A * A - 1) * (B * B - 1)" by (simp only: p)
  then show ?thesis
    unfolding s A_B_C_D_def [symmetric] by (simp add: algebra_simps)
qed

lemma cheb_product: "n \<le> m \<Longrightarrow> 2 * cheb n x * cheb m x = cheb (m + n) x + cheb (m - n) x"
proof -
  assume le: "n \<le> m"
  define k where "k = m - n"
  have m: "m = k + n" using le by (simp add: k_def)
  have c: "cheb m x = cheb k x * cheb n x + (x * x - 1) * chebU k x * chebU n x"
    "chebU m x = chebU k x * cheb n x + cheb k x * chebU n x" by (simp_all only: m cheb_add)
  have pl: "(x * x - 1) * (chebU n x * chebU n x) = cheb n x * cheb n x - 1"
    using cheb_pell [of n x] by simp
  have "cheb (m + n) x = cheb m x * cheb n x + (x * x - 1) * chebU k x * cheb n x * chebU n x
      + cheb k x * ((x * x - 1) * (chebU n x * chebU n x))"
    unfolding cheb_add(1) [of m n] c(2) by (simp add: algebra_simps)
  then have "cheb (m + n) x + cheb k x = 2 * cheb n x * cheb m x"
    unfolding pl c(1) by (simp add: algebra_simps)
  then show ?thesis by (simp add: k_def)
qed

theorem cheb_compose: "cheb m (cheb n x) = cheb (m * n) x"
proof (induction m rule: less_induct)
  case (less m)
  consider "m = 0" | "m = Suc 0" | k where "m = Suc (Suc k)" by (cases m; cases "m - 1") auto
  then show ?case
  proof cases
    case 3
    have "cheb m (cheb n x) = 2 * cheb n x * cheb (Suc k * n) x - cheb (k * n) x"
      using less.IH [of "Suc k"] less.IH [of k] by (simp add: 3)
    also have "2 * cheb n x * cheb (Suc k * n) x = cheb (Suc k * n + n) x + cheb (Suc k * n - n) x"
      by (rule cheb_product) simp
    finally show ?thesis by (simp add: 3 algebra_simps)
  qed simp_all
qed

lemma cheb_mod: "cheb n (x mod p) mod p = cheb n x mod p"
proof (induction n x rule: cheb.induct)
  case (3 n x)
  show ?case
    unfolding cheb.simps by (intro mod_diff_cong mod_mult_cong "3.IH") (simp_all add: mod_mult_right_eq)
qed simp_all

section \<open>The transition matrix\<close>

type_synonym imat = "int \<times> int \<times> int \<times> int"

fun imul :: "imat \<Rightarrow> imat \<Rightarrow> imat" where
  "imul (a, b, c, d) (e, f, g, h) = (a * e + b * g, a * f + b * h, c * e + d * g, c * f + d * h)"

fun imod :: "int \<Rightarrow> imat \<Rightarrow> imat" where
  "imod p (a, b, c, d) = (a mod p, b mod p, c mod p, d mod p)"

fun ipow :: "imat \<Rightarrow> nat \<Rightarrow> imat" where
  "ipow A 0 = (1, 0, 0, 1)"
| "ipow A (Suc n) = imul A (ipow A n)"

lemma imul_assoc: "imul (imul A B) C = imul A (imul B C)"
  by (cases A; cases B; cases C) (simp add: algebra_simps)

lemma imul_one [simp]: "imul A (1, 0, 0, 1) = A" "imul (1, 0, 0, 1) A = A"
  by (cases A, simp)+

lemma imod_imod [simp]: "imod p (imod p A) = imod p A"
  by (cases A) simp

lemma imod_imul [simp]: "imod p (imul (imod p A) B) = imod p (imul A B)"
  "imod p (imul A (imod p B)) = imod p (imul A B)"
  by (cases A; cases B; auto intro!: mod_add_cong mod_mult_cong)+

lemma imod_ipow: "imod p (ipow (imod p A) n) = imod p (ipow A n)"
proof (induction n)
  case (Suc n)
  have "imod p (ipow (imod p A) (Suc n)) = imod p (imul A (imod p (ipow (imod p A) n)))" by simp
  also have "\<dots> = imod p (ipow A (Suc n))" unfolding Suc.IH by simp
  finally show ?case .
qed simp

lemma ipow_double: "ipow (imul A A) n = ipow A (2 * n)"
  by (induction n) (simp_all add: imul_assoc)

definition cheb_matrix :: "int \<Rightarrow> imat" where
  "cheb_matrix x = (2 * x, -1, 1, 0)"

fun iapply :: "imat \<Rightarrow> int \<Rightarrow> int \<Rightarrow> int \<times> int" where
  "iapply (a, b, c, d) u v = (a * u + b * v, c * u + d * v)"

lemma iapply_imul: "iapply (imul A B) u v = (case iapply B u v of (u', v') \<Rightarrow> iapply A u' v')"
  by (cases A; cases B) (simp add: algebra_simps)

lemma cheb_matrix_pow: "iapply (ipow (cheb_matrix x) k) x 1 = (cheb (Suc k) x, cheb k x)"
  by (induction k) (simp_all add: iapply_imul, simp add: cheb_matrix_def)

end
