(* ===== verification/ChebyShev.thy ===== *)
theory ChebyShev
  imports Bignum Cheb_Poly "HOL-Library.Monad_Syntax"
begin

text \<open>
  The matrix arithmetic and \<open>chebyshev_Tn\<close> of \<open>applications/ChebyShev.c\<close>.  Of the
  file-level variables only \<open>carry4\<close> and \<open>one\<close> (field \<open>st_one\<close>) are read before they are written in
  some call, so these two form the state record \<open>cheby_statics\<close> that
  \<open>chebyshev_Tn\<close> threads; the others (\<open>t0\<close>, \<open>t1\<close>, \<open>r0\<close>, \<open>r1\<close>, \<open>base\<close>, \<open>e\<close>,
  \<open>tmp\<close>, \<open>M\<close>, \<open>two_x\<close>, \<open>Mpow\<close> and so on) are local.  Results are in \<open>option\<close>
  because \<open>big_mod\<close> may not return.
\<close>

section \<open>Data and operations\<close>

record Matrix2x2 =
  a00 :: "u32 list"
  a01 :: "u32 list"
  a10 :: "u32 list"
  a11 :: "u32 list"

record cheby_statics =
  carry4 :: u64
  st_one :: "u32 list"

definition cheby_boot :: cheby_statics where
  "cheby_boot = \<lparr>carry4 = 0, st_one = replicate 8 0\<rparr>"

text \<open>
  The block that computes one entry, \<open>a * b + c * d\<close> reduced modulo \<open>m\<close>, with the carry of the
  addition; it occurs four times in \<open>matrix_mul\<close> and twice in \<open>chebyshev_Tn\<close>.
\<close>

definition dot_mod ::
  "u32 list \<Rightarrow> u32 list \<Rightarrow> u32 list \<Rightarrow> u32 list \<Rightarrow> u32 list \<Rightarrow> (u32 list \<times> u32) option" where
  "dot_mod a b c d m = do {
     r0 \<leftarrow> big_mod (big_mul a b) m;
     r1 \<leftarrow> big_mod (big_mul c d) m;
     let (r0, carry3) = big_add r0 r1;
     let r0 = (if carry3 \<noteq> 0 \<or> big_cmp r0 m \<ge> 0 then fst (big_sub r0 m) else r0);
     Some (r0, carry3) }"

definition matrix_mul :: "Matrix2x2 \<Rightarrow> Matrix2x2 \<Rightarrow> u32 list \<Rightarrow> Matrix2x2 option" where
  "matrix_mul A B m = do {
     (c00, _) \<leftarrow> dot_mod (a00 A) (a00 B) (a01 A) (a10 B) m;
     (c01, _) \<leftarrow> dot_mod (a00 A) (a01 B) (a01 A) (a11 B) m;
     (c10, _) \<leftarrow> dot_mod (a10 A) (a00 B) (a11 A) (a10 B) m;
     (c11, _) \<leftarrow> dot_mod (a10 A) (a01 B) (a11 A) (a11 B) m;
     Some \<lparr>a00 = c00, a01 = c01, a10 = c10, a11 = c11\<rparr> }"

function matrix_pow_loop ::
  "u32 list \<Rightarrow> Matrix2x2 \<Rightarrow> Matrix2x2 \<Rightarrow> u32 list \<Rightarrow> Matrix2x2 option" where
  "matrix_pow_loop m result base e = do {
     result \<leftarrow> (if e ! 0 AND 1 \<noteq> 0 then matrix_mul result base m else Some result);
     if list_all (\<lambda>x. x = 0) e then Some result
     else do { base \<leftarrow> matrix_mul base base m;
               matrix_pow_loop m result base (big_shr1 e) } }"
  by pat_completeness auto
termination
proof (relation "measure (\<lambda>(m, result, base, e). limbs_val e)")
  fix m result base e x :: "u32 list" and y z
  show "((m, z, y, big_shr1 e), m, result, base, e) \<in> measure (\<lambda>(m, result, base, e). limbs_val e)"
    if "\<not> list_all (\<lambda>x. x = 0) e" for result base z y
  proof -
    have "limbs_val e \<noteq> 0" using that by (simp add: limbs_val_eq_0 list_all_iff)
    then show ?thesis by (simp add: big_shr1_val)
  qed
qed auto

declare matrix_pow_loop.simps [simp del]

definition matrix_pow :: "u32 list \<Rightarrow> Matrix2x2 \<Rightarrow> u32 list \<Rightarrow> u32 list \<Rightarrow> Matrix2x2 option" where
  "matrix_pow one0 M exp m =
     (let one1 = one0[0 := 1];
          result = \<lparr>a00 = one1, a01 = replicate 8 0, a10 = replicate 8 0, a11 = one1\<rparr>
      in matrix_pow_loop m result M exp)"

text \<open>The doubling loop of \<open>chebyshev_Tn\<close>: \<open>carry4\<close> is the static, not reset before the loop.\<close>

fun dbl_loop :: "u64 \<Rightarrow> u32 list \<Rightarrow> u32 list \<times> u64" where
  "dbl_loop c4 [] = ([], c4)"
| "dbl_loop c4 (x # xs) =
     (let t = push_bit 1 (ucast x) + c4;
          (res, carry') = dbl_loop (drop_bit 32 t) xs
      in (ucast t # res, carry'))"

definition chebyshev_Tn ::
  "cheby_statics \<Rightarrow> u32 list \<Rightarrow> u32 list \<Rightarrow> u32 list \<Rightarrow> (cheby_statics \<times> u32 list \<times> u32 list) option" where
  "chebyshev_Tn st n x p =
     (if list_all (\<lambda>l. l = 0) n then Some (st, (replicate 8 0)[0 := 1], replicate 8 0)
      else if n ! 0 = 1 \<and> list_all (\<lambda>l. l = 0) (tl n) then Some (st, x, (replicate 8 0)[0 := 1])
      else do {
        let (two_x, c4) = dbl_loop (carry4 st) x;
        let two_x = (if c4 \<noteq> 0 \<or> big_cmp two_x p \<ge> 0 then fst (big_sub two_x p) else two_x);
        let one' = (set_uint256 0 0 0 0 0 0 0 0)[0 := 1];
        let tmp256 = fst (big_sub p one');
        let M = \<lparr>a00 = two_x, a01 = tmp256, a10 = (replicate 8 0)[0 := 1], a11 = replicate 8 0\<rparr>;
        let exp = fst (big_sub n one');
        Mpow \<leftarrow> matrix_pow one' M exp p;
        (Tn, c4) \<leftarrow> dot_mod (a00 Mpow) x (a01 Mpow) one' p;
        (Tn_minus_1, c4) \<leftarrow> dot_mod (a10 Mpow) x (a11 Mpow) one' p;
        Some (\<lparr>carry4 = ucast c4, st_one = one'\<rparr>, Tn, Tn_minus_1) })"

section \<open>One entry\<close>

lemma dot_mod_val:
  assumes len: "length a = 8" "length b = 8" "length c = 8" "length d = 8" "length m = 8"
    and nz: "limbs_val m \<noteq> 0"
    and bnd: "limbs_val a * limbs_val b < limbs_val m * 2 ^ 256" "limbs_val c * limbs_val d < limbs_val m * 2 ^ 256"
  shows "\<exists>r cy. dot_mod a b c d m = Some (r, cy) \<and> length r = 8 \<and> unat cy \<le> 1 \<and>
    (limbs_val m \<le> 2 ^ 255 \<longrightarrow> cy = 0) \<and>
    limbs_val r = (limbs_val a * limbs_val b + limbs_val c * limbs_val d) mod limbs_val m"
proof -
  let ?m = "limbs_val m" and ?S = "limbs_val a * limbs_val b + limbs_val c * limbs_val d"
  obtain r0 where r0: "big_mod (big_mul a b) m = Some r0" "length r0 = 8"
    "limbs_val r0 = (limbs_val a * limbs_val b) mod ?m"
    using big_mod_val [of "big_mul a b" m] big_mul_val [of a b] len nz bnd by auto
  obtain r1 where r1: "big_mod (big_mul c d) m = Some r1" "length r1 = 8"
    "limbs_val r1 = (limbs_val c * limbs_val d) mod ?m"
    using big_mod_val [of "big_mul c d" m] big_mul_val [of c d] len nz bnd by auto
  have lt: "limbs_val r0 < ?m" "limbs_val r1 < ?m" using r0 r1 nz by simp_all
  have S: "?S mod ?m = (limbs_val r0 + limbs_val r1) mod ?m" by (simp add: r0 r1 mod_add_eq)
  obtain s cy where s: "big_add r0 r1 = (s, cy)" by fastforce
  have sv: "length s = 8" "unat cy \<le> 1" "limbs_val s + 2 ^ 256 * unat cy = limbs_val r0 + limbs_val r1"
    using big_add_val [OF _ s] r0 r1 by simp_all
  have m256: "?m < 2 ^ 256" and s256: "limbs_val s < 2 ^ 256"
    using limbs_val_less [of m] limbs_val_less [of s] len sv by simp_all
  obtain q bw where q: "big_sub s m = (q, bw)" by fastforce
  have qv: "length q = 8" "unat bw \<le> 1" "limbs_val q + ?m = limbs_val s + 2 ^ 256 * unat bw"
    using big_sub_val [OF _ q] len sv by simp_all
  have cy0: "cy = 0 \<longleftrightarrow> unat cy = 0" by (simp add: unat_eq_zero)
  define r where "r = (if cy \<noteq> 0 \<or> big_cmp s m \<ge> 0 then q else s)"
  have cond: "cy \<noteq> 0 \<or> big_cmp s m \<ge> 0 \<longleftrightarrow> ?m \<le> limbs_val r0 + limbs_val r1"
    using sv len m256 by (cases "unat cy") (auto simp: cy0 big_cmp_val)
  have rv: "limbs_val r = (limbs_val r0 + limbs_val r1) mod ?m"
  proof (cases "?m \<le> limbs_val r0 + limbs_val r1")
    case True
    have "limbs_val q < 2 ^ 256" using limbs_val_less [of q] qv(1) by simp
    moreover have "unat cy = 0 \<or> unat cy = 1" "unat bw = 0 \<or> unat bw = 1" using sv(2) qv(2) by auto
    ultimately have "limbs_val q = limbs_val r0 + limbs_val r1 - ?m"
      using True lt sv(3) qv(3) m256 by auto
    then show ?thesis using True cond lt by (simp add: r_def mod_if)
  next
    case False
    then have "unat cy = 0" using cond cy0 by auto
    then show ?thesis using False cond sv(3) by (simp add: r_def)
  qed
  have "dot_mod a b c d m = Some (r, cy)"
    using r0(1) r1(1) s q by (simp add: dot_mod_def r_def)
  moreover have "cy = 0" if "?m \<le> 2 ^ 255"
    using that lt sv(2,3) by (cases "unat cy") (auto simp: cy0)
  ultimately show ?thesis using rv S sv qv by (auto simp: r_def)
qed

section \<open>Matrices\<close>

definition mat_entries :: "Matrix2x2 \<Rightarrow> u32 list list" where
  "mat_entries M = [a00 M, a01 M, a10 M, a11 M]"

definition mat_ok :: "Matrix2x2 \<Rightarrow> bool" where
  "mat_ok M \<longleftrightarrow> list_all (\<lambda>e. length e = 8) (mat_entries M)"

definition mat_lt :: "nat \<Rightarrow> Matrix2x2 \<Rightarrow> bool" where
  "mat_lt p M \<longleftrightarrow> list_all (\<lambda>e. limbs_val e < p) (mat_entries M)"

text \<open>Every product of an entry of \<open>A\<close> with one of \<open>B\<close> is small enough for \<open>big_mod\<close>.\<close>

definition mul_ok :: "nat \<Rightarrow> Matrix2x2 \<Rightarrow> Matrix2x2 \<Rightarrow> bool" where
  "mul_ok p A B \<longleftrightarrow> list_all (\<lambda>a. list_all (\<lambda>b. limbs_val a * limbs_val b < p * 2 ^ 256) (mat_entries B))
     (mat_entries A)"

definition mval :: "Matrix2x2 \<Rightarrow> imat" where
  "mval M = (int (limbs_val (a00 M)), int (limbs_val (a01 M)), int (limbs_val (a10 M)), int (limbs_val (a11 M)))"

lemmas mat_defs = mat_entries_def mat_ok_def mat_lt_def mul_ok_def mval_def

lemma limbs_val_8: "length a = 8 \<Longrightarrow> limbs_val a < 2 ^ 256"
  using limbs_val_less [of a] by simp

lemma mul_ok_lt_left: "mat_lt p A \<Longrightarrow> mat_ok B \<Longrightarrow> mul_ok p A B"
proof -
  assume "mat_lt p A" "mat_ok B"
  then have "limbs_val a * limbs_val b < p * 2 ^ 256"
    if "a \<in> set (mat_entries A)" "b \<in> set (mat_entries B)" for a b
    using that by (intro mult_strict_mono' limbs_val_8) (auto simp: mat_lt_def mat_ok_def list_all_iff)
  then show ?thesis by (auto simp: mul_ok_def list_all_iff)
qed

lemma mul_ok_lt_right: "mat_ok A \<Longrightarrow> mat_lt p B \<Longrightarrow> mul_ok p A B"
  using mul_ok_lt_left [of p B A] by (simp add: mat_defs mult.commute)

lemma matrix_mul_val:
  assumes "mat_ok A" "mat_ok B" "length m = 8" "limbs_val m \<noteq> 0" "mul_ok (limbs_val m) A B"
  shows "\<exists>C. matrix_mul A B m = Some C \<and> mat_ok C \<and> mat_lt (limbs_val m) C
    \<and> mval C = imod (int (limbs_val m)) (imul (mval A) (mval B))"
proof -
  have len: "length (a00 A) = 8" "length (a01 A) = 8" "length (a10 A) = 8" "length (a11 A) = 8"
    "length (a00 B) = 8" "length (a01 B) = 8" "length (a10 B) = 8" "length (a11 B) = 8"
    using assms(1,2) by (simp_all add: mat_defs)
  have bnd: "limbs_val x * limbs_val y < limbs_val m * 2 ^ 256"
    if "x \<in> set (mat_entries A)" "y \<in> set (mat_entries B)" for x y
    using assms(5) that by (auto simp: mul_ok_def list_all_iff)
  note dm = dot_mod_val [OF _ _ _ _ assms(3,4) bnd bnd]
  obtain c00 k00 where c00: "dot_mod (a00 A) (a00 B) (a01 A) (a10 B) m = Some (c00, k00)" "length c00 = 8"
    "limbs_val c00 = (limbs_val (a00 A) * limbs_val (a00 B) + limbs_val (a01 A) * limbs_val (a10 B)) mod limbs_val m"
    using dm [of "a00 A" "a00 B" "a01 A" "a10 B"] len by (auto simp: mat_entries_def)
  obtain c01 k01 where c01: "dot_mod (a00 A) (a01 B) (a01 A) (a11 B) m = Some (c01, k01)" "length c01 = 8"
    "limbs_val c01 = (limbs_val (a00 A) * limbs_val (a01 B) + limbs_val (a01 A) * limbs_val (a11 B)) mod limbs_val m"
    using dm [of "a00 A" "a01 B" "a01 A" "a11 B"] len by (auto simp: mat_entries_def)
  obtain c10 k10 where c10: "dot_mod (a10 A) (a00 B) (a11 A) (a10 B) m = Some (c10, k10)" "length c10 = 8"
    "limbs_val c10 = (limbs_val (a10 A) * limbs_val (a00 B) + limbs_val (a11 A) * limbs_val (a10 B)) mod limbs_val m"
    using dm [of "a10 A" "a00 B" "a11 A" "a10 B"] len by (auto simp: mat_entries_def)
  obtain c11 k11 where c11: "dot_mod (a10 A) (a01 B) (a11 A) (a11 B) m = Some (c11, k11)" "length c11 = 8"
    "limbs_val c11 = (limbs_val (a10 A) * limbs_val (a01 B) + limbs_val (a11 A) * limbs_val (a11 B)) mod limbs_val m"
    using dm [of "a10 A" "a01 B" "a11 A" "a11 B"] len by (auto simp: mat_entries_def)
  show ?thesis
    using c00 c01 c10 c11 assms(4) by (simp add: matrix_mul_def mat_defs zmod_int)
qed

lemma limb0_odd: "length e = 8 \<Longrightarrow> e ! 0 AND 1 \<noteq> 0 \<longleftrightarrow> odd (limbs_val e)"
proof -
  assume "length e = 8"
  then obtain x xs where e: "e = x # xs" by (cases e) auto
  have "x AND 1 = 0 \<longleftrightarrow> even (unat x)"
    by (simp add: and_one_eq word_unat_eq_iff unat_mod even_iff_mod_2_eq_zero)
  then show ?thesis by (simp add: e)
qed

lemma imod_square_power:
  assumes "B1 = imod p (imul B B)"
  shows "imod p (imul R (ipow B1 k)) = imod p (imul R (ipow B (2 * k)))"
proof -
  have "imod p (imul R (ipow B1 k)) = imod p (imul R (imod p (ipow B1 k)))" by simp
  also have "imod p (ipow B1 k) = imod p (ipow B (2 * k))"
    unfolding assms by (simp add: imod_ipow ipow_double)
  finally show ?thesis by simp
qed

lemma matrix_pow_loop_val:
  assumes "length m = 8" "limbs_val m \<noteq> 0"
    and "mat_ok R" "mat_ok B" "mul_ok (limbs_val m) R B" "mul_ok (limbs_val m) B B" "length e = 8"
  shows "\<exists>C. matrix_pow_loop m R B e = Some C \<and> mat_ok C \<and>
    (if limbs_val e = 0 then C = R
     else mat_lt (limbs_val m) C \<and>
       mval C = imod (int (limbs_val m)) (imul (mval R) (ipow (mval B) (limbs_val e))))"
  using assms
proof (induction m R B e rule: matrix_pow_loop.induct)
  case (1 m R B e)
  let ?v = "limbs_val e" and ?p = "int (limbs_val m)"
  note mm = matrix_mul_val [OF _ _ "1.prems"(1,2)]
  define R1 where "R1 = (if odd ?v then the (matrix_mul R B m) else R)"
  have R1: "(if e ! 0 AND 1 \<noteq> 0 then matrix_mul R B m else Some R) = Some R1" "mat_ok R1"
    "odd ?v \<Longrightarrow> mat_lt (limbs_val m) R1 \<and> mval R1 = imod ?p (imul (mval R) (mval B))"
    using mm [OF "1.prems"(3,4,5)] "1.prems"(3) limb0_odd [OF "1.prems"(7)] by (auto simp: R1_def)
  have z: "list_all (\<lambda>x. x = 0) e \<longleftrightarrow> ?v = 0" by (simp add: limbs_val_eq_0 list_all_iff)
  show ?case
  proof (cases "?v = 0")
    case True
    then show ?thesis
      using "1.prems"(3) z limb0_odd [OF "1.prems"(7)] by (subst matrix_pow_loop.simps) simp
  next
    case False
    obtain B1 where B1: "matrix_mul B B m = Some B1" "mat_ok B1" "mat_lt (limbs_val m) B1"
      "mval B1 = imod ?p (imul (mval B) (mval B))"
      using mm [OF "1.prems"(4,4,6)] by blast
    have step: "matrix_pow_loop m R B e = matrix_pow_loop m R1 B1 (big_shr1 e)"
      using False z R1(1) B1(1) by (subst matrix_pow_loop.simps) simp
    obtain C where C: "matrix_pow_loop m R1 B1 (big_shr1 e) = Some C" "mat_ok C"
      "if ?v div 2 = 0 then C = R1 else mat_lt (limbs_val m) C \<and>
         mval C = imod ?p (imul (mval R1) (ipow (mval B1) (?v div 2)))"
      using "1.IH" [OF R1(1) _ B1(1) "1.prems"(1,2) R1(2) B1(2)
          mul_ok_lt_right [OF R1(2) B1(3)] mul_ok_lt_left [OF B1(3,2)]] False z "1.prems"(7)
      by (auto simp: big_shr1_val length_big_shr1)
    have "mat_lt (limbs_val m) C \<and> mval C = imod ?p (imul (mval R) (ipow (mval B) ?v))"
    proof (cases "?v div 2 = 0")
      case True
      then have "?v = 1" using False by simp
      then show ?thesis using C(3) R1(3) by simp
    next
      case nz: False
      have "imod ?p (imul (mval R1) (ipow (mval B) (2 * (?v div 2)))) = imod ?p (imul (mval R) (ipow (mval B) ?v))"
      proof (cases "odd ?v")
        case True
        then have "?v = Suc (2 * (?v div 2))" by simp
        then have "ipow (mval B) ?v = imul (mval B) (ipow (mval B) (2 * (?v div 2)))"
          by (metis ipow.simps(2))
        then show ?thesis using R1(3) True by (simp add: imul_assoc)
      qed (simp add: R1_def)
      then show ?thesis using C(3) nz imod_square_power [OF B1(4)] by simp
    qed
    then show ?thesis using step C False by simp
  qed
qed

section \<open>Chebyshev values\<close>

lemma dbl_loop_val:
  "unat c \<le> 1 \<Longrightarrow> dbl_loop c xs = (r, c') \<Longrightarrow>
   length r = length xs \<and> unat c' \<le> 1 \<and>
   limbs_val r + 2 ^ (32 * length xs) * unat c' = 2 * limbs_val xs + unat c"
proof (induction xs arbitrary: c r c')
  case (Cons x xs)
  define t where "t = push_bit 1 (ucast x) + c"
  have p: "unat (push_bit 1 (ucast x) :: u64) = 2 * unat x"
    using c_bound(3) [of x] by (subst unat_push_bit_mod) (simp add: unat_ucast_32_64)
  have t: "unat t = 2 * unat x + unat c"
    unfolding t_def using Cons.prems(1) c_bound(3) [of x] p
    by (subst unat_add_small) (simp_all del: push_bit_Suc One_nat_def)
  have d: "unat (drop_bit 32 t) \<le> 1"
    using t Cons.prems(1) c_bound(3) [of x] by (simp add: unat_drop_bit_div)
  obtain r' where r': "dbl_loop (drop_bit 32 t) xs = (r', c')" "r = ucast t # r'"
    using Cons.prems(2) by (auto simp: t_def Let_def split: prod.splits)
  note IH = Cons.IH [OF d r'(1)]
  from IH have "limbs_val r + 2 ^ 32 * 2 ^ (32 * length xs) * unat c' = unat t + 2 ^ 32 * (2 * limbs_val xs)"
    unfolding r'(2) by (intro carry_recompose) simp
  then show ?case using IH r'(2) t by (simp add: power_add distrib_left)
qed simp

text \<open>
  What \<open>chebyshev_Tn\<close> needs of its arguments: a nonzero modulus, and a base \<open>x\<close> that is reduced
  or so small that the square of \<open>2x\<close> still fits the reduction of \<open>big_mod\<close>.
\<close>

definition cheby_pre :: "u32 list \<Rightarrow> u32 list \<Rightarrow> u32 list \<Rightarrow> bool" where
  "cheby_pre n x p \<longleftrightarrow> length n = 8 \<and> length x = 8 \<and> length p = 8 \<and> limbs_val p \<noteq> 0 \<and>
     (limbs_val x < limbs_val p \<or> limbs_val x < 2 ^ 127 \<or> (2 * limbs_val x) * (2 * limbs_val x) < limbs_val p * 2 ^ 256)"

lemma twice_less:
  fixes x p :: nat
  assumes "(2 * x) * (2 * x) < p * N" "p < N"
  shows "2 * x < N"
proof (rule ccontr)
  assume "\<not> 2 * x < N"
  then have "N * N \<le> (2 * x) * (2 * x)" by (intro mult_le_mono) simp_all
  moreover have "p * N \<le> N * N" using assms(2) by simp
  ultimately show False using assms(1) by linarith
qed

lemma two_x_val:
  assumes pre: "cheby_pre n x p" and dbl: "dbl_loop 0 x = (d, c4)"
  defines "two_x \<equiv> if c4 \<noteq> 0 \<or> big_cmp d p \<ge> 0 then fst (big_sub d p) else d"
  shows "length two_x = 8" "int (limbs_val two_x) mod int (limbs_val p) = (2 * int (limbs_val x)) mod int (limbs_val p)"
    "limbs_val two_x * limbs_val two_x < limbs_val p * 2 ^ 256"
proof -
  let ?x = "limbs_val x" and ?p = "limbs_val p"
  note pr = pre [unfolded cheby_pre_def]
  have p256: "?p < 2 ^ 256" using pr by (intro limbs_val_8) blast
  have dv: "length d = 8" "unat c4 \<le> 1" "limbs_val d + 2 ^ 256 * unat c4 = 2 * ?x"
    using dbl_loop_val [OF _ dbl] pr by simp_all
  obtain q bw where q: "big_sub d p = (q, bw)" by fastforce
  have qv: "length q = 8" "unat bw \<le> 1" "limbs_val q + ?p = limbs_val d + 2 ^ 256 * unat bw"
    using big_sub_val [OF _ q] dv pr by simp_all
  have l256: "limbs_val q < 2 ^ 256" "limbs_val d < 2 ^ 256" using qv(1) dv(1) limbs_val_8 by blast+
  have c0: "c4 = 0 \<longleftrightarrow> unat c4 = 0" by (simp add: unat_eq_zero)
  have cond: "c4 \<noteq> 0 \<or> big_cmp d p \<ge> 0 \<longleftrightarrow> ?p \<le> 2 * ?x"
    using dv pr p256 by (cases "unat c4") (auto simp: c0 big_cmp_val)
  have two: "limbs_val two_x = (if ?p \<le> 2 * ?x then 2 * ?x - ?p else 2 * ?x)"
  proof (cases "?p \<le> 2 * ?x")
    case True
    have "unat c4 = 0 \<or> unat c4 = 1" "unat bw = 0 \<or> unat bw = 1" using dv(2) qv(2) by auto
    moreover have "2 * ?x - ?p < 2 ^ 256" using pr p256 twice_less [OF _ p256, of ?x] by auto
    ultimately have "limbs_val q = 2 * ?x - ?p" using True dv(3) qv(3) l256 by auto
    then show ?thesis using True cond q by (simp add: two_x_def)
  next
    case False
    then have "unat c4 = 0" using cond c0 by auto
    then show ?thesis using False cond dv(3) by (simp add: two_x_def)
  qed
  show "length two_x = 8" using dv qv q by (simp add: two_x_def)
  have "int (limbs_val two_x) = 2 * int ?x - (if ?p \<le> 2 * ?x then int ?p else 0)"
    using two by (simp add: of_nat_diff)
  then show "int (limbs_val two_x) mod int ?p = (2 * int ?x) mod int ?p" by simp
  show "limbs_val two_x * limbs_val two_x < ?p * 2 ^ 256"
  proof (cases "?x < ?p")
    case True
    then have "limbs_val two_x < ?p" using two by auto
    then show ?thesis using p256 by (intro mult_strict_mono') simp_all
  next
    case False
    have "limbs_val two_x \<le> 2 * ?x" using two by auto
    then have "limbs_val two_x * limbs_val two_x \<le> (2 * ?x) * (2 * ?x)" by (intro mult_le_mono)
    moreover have "(2 * ?x) * (2 * ?x) < ?p * 2 ^ 256" if "?x < 2 ^ 127"
    proof -
      have "(2 * ?x) * (2 * ?x) < 2 ^ 128 * 2 ^ 128" using that by (intro mult_strict_mono') simp_all
      moreover have "(2::nat) ^ 256 \<le> ?p * 2 ^ 256" using pr by simp
      ultimately show ?thesis by (simp flip: power_add)
    qed
    ultimately show ?thesis using False pr by linarith
  qed
qed

definition limb_one :: "u32 list" where
  "limb_one = [1, 0, 0, 0, 0, 0, 0, 0]"

lemma limb_one_simps [simp]: "limbs_val limb_one = 1" "length limb_one = 8" "limb_one[0 := 1] = limb_one"
  by (simp_all add: limb_one_def)

lemma limb_one_forms:
  "(replicate 8 (0 :: u32))[0 := 1] = limb_one" "(set_uint256 0 0 0 0 0 0 0 0)[0 := 1] = limb_one"
  by (simp_all add: limb_one_def set_uint256_def numeral_eq_Suc)

text \<open>The transition matrix the code builds, as an integer matrix modulo \<open>p\<close>.\<close>

lemma transition_val:
  assumes pre: "cheby_pre n x p" and dbl: "dbl_loop 0 x = (d, c4)"
  defines "M \<equiv> \<lparr>a00 = (if c4 \<noteq> 0 \<or> big_cmp d p \<ge> 0 then fst (big_sub d p) else d),
      a01 = fst (big_sub p limb_one), a10 = limb_one, a11 = replicate 8 0\<rparr>"
  shows "mat_ok M" "mul_ok (limbs_val p) M M"
    "imod (int (limbs_val p)) (mval M) = imod (int (limbs_val p)) (cheb_matrix (int (limbs_val x)))"
proof -
  note pr = pre [unfolded cheby_pre_def] and tx = two_x_val [OF pre dbl]
  define u where "u = (if c4 \<noteq> 0 \<or> big_cmp d p \<ge> 0 then fst (big_sub d p) else d)"
  note tx = tx [folded u_def]
  have p1: "limbs_val (fst (big_sub p limb_one)) = limbs_val p - 1" "length (fst (big_sub p limb_one)) = 8"
    using big_sub_le [of p limb_one] pr by simp_all
  have u256: "limbs_val u < 2 ^ 256" using tx(1) by (rule limbs_val_8)
  have p256: "limbs_val p < 2 ^ 256" using pr by (intro limbs_val_8) blast
  have M: "M = \<lparr>a00 = u, a01 = fst (big_sub p limb_one), a10 = limb_one, a11 = replicate 8 0\<rparr>"
    by (simp add: M_def u_def)
  show "mat_ok M" using tx(1) p1(2) by (simp add: M mat_defs)
  have "limbs_val u * (limbs_val p - 1) < limbs_val p * 2 ^ 256"
    "(limbs_val p - 1) * (limbs_val p - 1) < limbs_val p * 2 ^ 256"
    using u256 p256 pr mult_strict_mono' [of "limbs_val p - 1" "limbs_val p" "limbs_val u" "2 ^ 256"]
      mult_strict_mono' [of "limbs_val p - 1" "limbs_val p" "limbs_val p - 1" "2 ^ 256"]
    by (simp_all add: mult.commute)
  moreover have "(2::nat) ^ 256 \<le> limbs_val p * 2 ^ 256" using pr by simp
  then have "limbs_val u < limbs_val p * 2 ^ 256" "limbs_val p - 1 < limbs_val p * 2 ^ 256"
    using u256 p256 by linarith+
  ultimately show "mul_ok (limbs_val p) M M"
    using tx(3) pr by (simp add: M mat_defs p1 mult.commute)
  have "int (limbs_val p - 1) mod int (limbs_val p) = (- 1) mod int (limbs_val p)"
  proof -
    have "int (limbs_val p - 1) = int (limbs_val p) + (- 1)" using pr by (simp add: of_nat_diff)
    then show ?thesis by (simp only: mod_add_self1)
  qed
  then show "imod (int (limbs_val p)) (mval M) = imod (int (limbs_val p)) (cheb_matrix (int (limbs_val x)))"
    using tx(2) by (simp add: M mat_defs cheb_matrix_def p1)
qed

lemma matrix_pow_val:
  assumes pre: "cheby_pre n x p" and "mat_ok M" "mul_ok (limbs_val p) M M" "length e = 8" "limbs_val e \<noteq> 0"
    and M: "imod (int (limbs_val p)) (mval M) = imod (int (limbs_val p)) (cheb_matrix (int (limbs_val x)))"
  shows "\<exists>C. matrix_pow limb_one M e p = Some C \<and> mat_ok C \<and> mat_lt (limbs_val p) C
    \<and> mval C = imod (int (limbs_val p)) (ipow (cheb_matrix (int (limbs_val x))) (limbs_val e))"
proof -
  let ?I = "\<lparr>a00 = limb_one, a01 = replicate 8 0, a10 = replicate 8 0, a11 = limb_one\<rparr>"
  have p: "length p = 8" "limbs_val p \<noteq> 0" using pre by (simp_all add: cheby_pre_def)
  have I: "mat_ok ?I" "mval ?I = (1, 0, 0, 1)" by (simp_all add: mat_defs)
  have ent: "limbs_val b < 2 ^ 256" if "b \<in> set (mat_entries M)" for b
    using assms(2) that by (intro limbs_val_8) (auto simp: mat_ok_def list_all_iff)
  have "(2::nat) ^ 256 \<le> limbs_val p * 2 ^ 256" using p by simp
  then have "limbs_val b < limbs_val p * 2 ^ 256" if "b \<in> set (mat_entries M)" for b
    using ent [OF that] by linarith
  then have "mul_ok (limbs_val p) ?I M"
    using p by (simp add: mul_ok_def list_all_iff, simp add: mat_entries_def)
  from matrix_pow_loop_val [OF p I(1) assms(2) this assms(3,4)] obtain C where C:
    "matrix_pow_loop p ?I M e = Some C" "mat_ok C" "mat_lt (limbs_val p) C"
    "mval C = imod (int (limbs_val p)) (ipow (mval M) (limbs_val e))"
    using assms(5) by (auto simp: I(2))
  moreover have "imod (int (limbs_val p)) (ipow (mval M) k)
      = imod (int (limbs_val p)) (ipow (cheb_matrix (int (limbs_val x))) k)" for k
    by (metis M imod_ipow)
  ultimately show ?thesis by (simp add: matrix_pow_def)
qed

lemma two_or_more_limbs:
  assumes "length n = 8"
  shows "list_all (\<lambda>l. l = 0) n \<longleftrightarrow> limbs_val n = 0"
    "n ! 0 = 1 \<and> list_all (\<lambda>l. l = 0) (tl n) \<longleftrightarrow> limbs_val n = 1"
proof -
  show "list_all (\<lambda>l. l = 0) n \<longleftrightarrow> limbs_val n = 0" by (simp add: limbs_val_eq_0 list_all_iff)
  have "limbs_val n = limbs_val limb_one \<longleftrightarrow> n = limb_one" using assms by (intro limbs_val_inj) simp
  also have "\<dots> \<longleftrightarrow> n ! 0 = 1 \<and> list_all (\<lambda>l. l = 0) (tl n)"
    using assms by (auto simp: limb_one_def numeral_eq_Suc length_Suc_conv)
  finally show "n ! 0 = 1 \<and> list_all (\<lambda>l. l = 0) (tl n) \<longleftrightarrow> limbs_val n = 1" by simp
qed

lemma chebyshev_Tn_large:
  assumes pre: "cheby_pre n x p" and c4: "carry4 st = 0" and n: "limbs_val n > 1"
  shows "\<exists>st' Tn Tn1. chebyshev_Tn st n x p = Some (st', Tn, Tn1) \<and> length Tn = 8 \<and> length Tn1 = 8
    \<and> int (limbs_val Tn) = cheb (limbs_val n) (int (limbs_val x)) mod int (limbs_val p)
    \<and> int (limbs_val Tn1) = cheb (limbs_val n - 1) (int (limbs_val x)) mod int (limbs_val p)
    \<and> (limbs_val p \<le> 2 ^ 255 \<longrightarrow> carry4 st' = 0)"
proof -
  let ?p = "int (limbs_val p)" and ?x = "int (limbs_val x)" and ?k = "limbs_val n - 1"
  note pr = pre [unfolded cheby_pre_def]
  obtain d k4 where dbl: "dbl_loop 0 x = (d, k4)" by fastforce
  define M where "M = \<lparr>a00 = (if k4 \<noteq> 0 \<or> big_cmp d p \<ge> 0 then fst (big_sub d p) else d),
      a01 = fst (big_sub p limb_one), a10 = limb_one, a11 = replicate 8 0\<rparr>"
  note tv = transition_val [OF pre dbl, folded M_def]
  define e where "e = fst (big_sub n limb_one)"
  have e: "length e = 8" "limbs_val e = ?k" using big_sub_le [of n limb_one] pr n by (simp_all add: e_def)
  obtain C where C: "matrix_pow limb_one M e p = Some C" "mat_ok C" "mat_lt (limbs_val p) C"
    "mval C = imod ?p (ipow (cheb_matrix ?x) ?k)"
    using matrix_pow_val [OF pre tv(1,2) e(1) _ tv(3)] n e(2) by auto
  have xp: "length x = 8" "length p = 8" "limbs_val p \<noteq> 0" using pr by simp_all
  have cl: "length (a00 C) = 8" "length (a01 C) = 8" "length (a10 C) = 8" "length (a11 C) = 8"
    using C(2) by (simp_all add: mat_defs)
  have clt: "limbs_val u * limbs_val v < limbs_val p * 2 ^ 256" if "u \<in> set (mat_entries C)" "length v = 8" for u v
    using C(3) that by (intro mult_strict_mono' limbs_val_8) (auto simp: mat_lt_def list_all_iff)
  obtain T k where T: "dot_mod (a00 C) x (a01 C) limb_one p = Some (T, k)" "length T = 8"
    "limbs_val T = (limbs_val (a00 C) * limbs_val x + limbs_val (a01 C) * 1) mod limbs_val p"
    using dot_mod_val [OF cl(1) xp(1) cl(2) limb_one_simps(2) xp(2,3) clt clt] xp(1)
    by (auto simp: mat_entries_def)
  obtain T' k' where T': "dot_mod (a10 C) x (a11 C) limb_one p = Some (T', k')" "length T' = 8"
    "limbs_val T' = (limbs_val (a10 C) * limbs_val x + limbs_val (a11 C) * 1) mod limbs_val p"
    "limbs_val p \<le> 2 ^ 255 \<longrightarrow> k' = 0"
    using dot_mod_val [OF cl(3) xp(1) cl(4) limb_one_simps(2) xp(2,3) clt clt] xp(1)
    by (auto simp: mat_entries_def)
  have run: "chebyshev_Tn st n x p = Some (\<lparr>carry4 = ucast k', st_one = limb_one\<rparr>, T, T')"
  proof -
    have n01: "\<not> list_all (\<lambda>l. l = 0) n" "\<not> (n ! 0 = 1 \<and> list_all (\<lambda>l. l = 0) (tl n))"
      using n two_or_more_limbs [of n] pr by auto
    show ?thesis
      unfolding chebyshev_Tn_def if_not_P [OF n01(1)] if_not_P [OF n01(2)]
      by (simp only: c4 dbl Let_def prod.case limb_one_forms M_def [symmetric] e_def [symmetric]
          C(1) T(1) T'(1) Option.bind_lunit)
  qed
  obtain a b c d' where ab: "ipow (cheb_matrix ?x) ?k = (a, b, c, d')" by (metis prod_cases4)
  have "a * ?x + b = cheb (Suc ?k) ?x" "c * ?x + d' = cheb ?k ?x"
    using cheb_matrix_pow [of ?x ?k] by (simp_all add: ab del: One_nat_def)
  moreover have "int (limbs_val T) = (a * ?x + b) mod ?p" "int (limbs_val T') = (c * ?x + d') mod ?p"
    using C(4) by (auto simp: T(3) T'(3) ab mval_def zmod_int simp del: One_nat_def
        intro!: mod_add_cong mod_mult_cong)
  ultimately show ?thesis using run T T' n by simp
qed

lemma chebyshev_Tn_small:
  assumes "length n = 8" "limbs_val n \<le> 1"
  shows "chebyshev_Tn st n x p =
    (if limbs_val n = 0 then Some (st, limb_one, replicate 8 0) else Some (st, x, limb_one))"
  using assms two_or_more_limbs [of n] by (auto simp: chebyshev_Tn_def limb_one_forms le_Suc_eq)

lemma chebyshev_Tn_val:
  assumes pre: "cheby_pre n x p" and c4: "carry4 st = 0"
  shows "\<exists>st' Tn Tn1. chebyshev_Tn st n x p = Some (st', Tn, Tn1) \<and> length Tn = 8 \<and> length Tn1 = 8
    \<and> int (limbs_val Tn) mod int (limbs_val p) = cheb (limbs_val n) (int (limbs_val x)) mod int (limbs_val p)
    \<and> (limbs_val n > 1 \<longrightarrow> limbs_val Tn < limbs_val p)
    \<and> (limbs_val n > 0 \<longrightarrow> int (limbs_val Tn1) mod int (limbs_val p)
         = cheb (limbs_val n - 1) (int (limbs_val x)) mod int (limbs_val p))
    \<and> (limbs_val p \<le> 2 ^ 255 \<longrightarrow> carry4 st' = 0)"
proof (cases "limbs_val n > 1")
  case True
  have "limbs_val Tn < limbs_val p" if "int (limbs_val Tn) = y mod int (limbs_val p)" for Tn y
  proof -
    have "y mod int (limbs_val p) < int (limbs_val p)" using pre by (simp add: cheby_pre_def)
    then show ?thesis using that by linarith
  qed
  then show ?thesis using chebyshev_Tn_large [OF pre c4 True] True by fastforce
next
  case False
  then show ?thesis
    using chebyshev_Tn_small [of n st x p] pre c4 by (auto simp: cheby_pre_def not_less le_Suc_eq)
qed

text \<open>
  C1. For a nonzero modulus \<open>p\<close>, a base \<open>x\<close> that is reduced modulo \<open>p\<close> (or not too large for the reduction: below \<open>2 ^ 127\<close>, or \<open>4 x^2 < 2^256 p\<close>) and a cleared
  carry variable, \<open>chebyshev_Tn\<close> returns: its first result is the Chebyshev polynomial \<open>T_n(x)\<close>
  modulo \<open>p\<close>, fully reduced for \<open>n > 1\<close>, its second result is \<open>T_(n-1)(x)\<close> modulo \<open>p\<close> for
  \<open>n > 0\<close>, and for \<open>p \<le> 2 ^ 255\<close> the carry variable is clear again for the next call.
\<close>

theorem chebyshev_Tn_correct:
  assumes pre: "cheby_pre n x p" and c4: "carry4 st = 0"
  shows "\<exists>st' Tn Tn1. chebyshev_Tn st n x p = Some (st', Tn, Tn1) \<and> length Tn = 8 \<and> length Tn1 = 8
    \<and> int (limbs_val Tn) mod int (limbs_val p) = cheb (limbs_val n) (int (limbs_val x)) mod int (limbs_val p)
    \<and> (limbs_val n > 1 \<longrightarrow> limbs_val Tn < limbs_val p)
    \<and> (limbs_val n > 0 \<longrightarrow> int (limbs_val Tn1) mod int (limbs_val p)
         = cheb (limbs_val n - 1) (int (limbs_val x)) mod int (limbs_val p))
    \<and> (limbs_val p \<le> 2 ^ 255 \<longrightarrow> carry4 st' = 0)"
  using assms by (rule chebyshev_Tn_val)

theorem chebyshev_Tn_correct_witness:
  "\<exists>st' Tn Tn1. chebyshev_Tn cheby_boot [5, 0, 0, 0, 0, 0, 0, 0] [3, 0, 0, 0, 0, 0, 0, 0] [7, 0, 0, 0, 0, 0, 0, 0]
     = Some (st', Tn, Tn1) \<and> int (limbs_val Tn) mod 7 = cheb 5 3 mod 7 \<and> carry4 st' = 0"
proof -
  have "cheby_pre [5, 0, 0, 0, 0, 0, 0, 0] [3, 0, 0, 0, 0, 0, 0, 0] [7, 0, 0, 0, 0, 0, 0, 0]"
    and "carry4 cheby_boot = 0"
    by (simp_all add: cheby_pre_def cheby_boot_def)
  from chebyshev_Tn_correct [OF this] show ?thesis by auto
qed

end
