(* ===== verification/Key_Agreement.thy ===== *)
theory Key_Agreement
  imports ChebyShev
begin

text \<open>
  What the protocol relies on in the Chebyshev routine.  The locale \<open>chebyshev_engine\<close> states the contract: from a good
  state, on a reduced base, the routine returns the value of the polynomial, reduced, and leaves a good state.  From it
  follow, once, that two parties who apply their secret degrees in different orders get the same value, and that the values
  at \<open>a\<close>, \<open>b\<close> and \<open>a + b\<close> satisfy the identity the device checks.  \<open>chebyshev_Tn\<close> fulfils the contract.
\<close>

locale chebyshev_engine =
  fixes tn :: "'s \<Rightarrow> 'a \<Rightarrow> 'a \<Rightarrow> 'a \<Rightarrow> ('s \<times> 'a \<times> 'a) option"
    and good :: "'s \<Rightarrow> bool" and num :: "'a \<Rightarrow> bool" and val :: "'a \<Rightarrow> nat"
  assumes tn_val: "good s \<Longrightarrow> num n \<Longrightarrow> num x \<Longrightarrow> num p \<Longrightarrow> 1 < val p \<Longrightarrow> val p \<le> 2 ^ 255 \<Longrightarrow> val x < val p \<Longrightarrow>
      \<exists>s' T T'. tn s n x p = Some (s', T, T') \<and> good s' \<and> num T \<and> int (val T) = cheb (val n) (int (val x)) mod int (val p)"
    and val_inj: "num a \<Longrightarrow> num b \<Longrightarrow> val a = val b \<Longrightarrow> a = b"
begin

lemma tn_less:
  assumes "int (val T) = y mod int (val p)" "1 < val p"
  shows "val T < val p"
proof -
  have "y mod int (val p) < int (val p)" using assms(2) by simp
  then show ?thesis using assms(1) by linarith
qed

lemma tn_twice:
  assumes "good s" "num a" "num b" "num x" "num p" "1 < val p" "val p \<le> 2 ^ 255" "val x < val p"
  obtains s1 X X' s2 Z Z' where "tn s a x p = Some (s1, X, X')" "tn s1 b X p = Some (s2, Z, Z')"
    "num Z" "int (val Z) = cheb (val a * val b) (int (val x)) mod int (val p)"
proof -
  obtain s1 X X' where X: "tn s a x p = Some (s1, X, X')" "good s1" "num X"
    "int (val X) = cheb (val a) (int (val x)) mod int (val p)"
    using tn_val [OF assms(1,2,4-8)] by blast
  have "val X < val p" using X(4) assms(6) by (rule tn_less)
  then obtain s2 Z Z' where Z: "tn s1 b X p = Some (s2, Z, Z')" "num Z"
    "int (val Z) = cheb (val b) (int (val X)) mod int (val p)"
    using tn_val [OF X(2) assms(3) X(3) assms(5-7)] by blast
  have "int (val Z) = cheb (val a * val b) (int (val x)) mod int (val p)"
    unfolding Z(3) X(4) cheb_mod cheb_compose by (simp add: mult.commute)
  with that X(1) Z(1,2) show ?thesis by blast
qed

lemma tn_agree:
  assumes "good s" "good r" "num a" "num b" "num x" "num p" "1 < val p" "val p \<le> 2 ^ 255" "val x < val p"
  shows "\<exists>s1 X X' s2 Z Z' r1 Y Y' r2 W'. tn s a x p = Some (s1, X, X') \<and> tn s1 b X p = Some (s2, Z, Z')
    \<and> tn r b x p = Some (r1, Y, Y') \<and> tn r1 a Y p = Some (r2, Z, W')"
proof -
  obtain s1 X X' s2 Z Z' where Z: "tn s a x p = Some (s1, X, X')" "tn s1 b X p = Some (s2, Z, Z')"
    "num Z" "int (val Z) = cheb (val a * val b) (int (val x)) mod int (val p)"
    using tn_twice [OF assms(1,3-9)] by blast
  obtain r1 Y Y' r2 W W' where W: "tn r b x p = Some (r1, Y, Y')" "tn r1 a Y p = Some (r2, W, W')"
    "num W" "int (val W) = cheb (val b * val a) (int (val x)) mod int (val p)"
    using tn_twice [OF assms(2,4,3,5-9)] by blast
  have "Z = W" using Z(3,4) W(3,4) by (intro val_inj) (simp_all add: mult.commute)
  then show ?thesis using Z W by blast
qed

lemma tn_triple:
  assumes "int (val A) = cheb a x mod int (val p)" "int (val B) = cheb b x mod int (val p)"
    "int (val C) = cheb (a + b) x mod int (val p)"
  shows "(val A * val A + val B * val B + val C * val C) mod val p = (2 * (val A * val B * val C) + 1) mod val p"
proof -
  let ?p = "int (val p)"
  have A: "int (val A) mod ?p = cheb a x mod ?p" and B: "int (val B) mod ?p = cheb b x mod ?p"
    and C: "int (val C) mod ?p = cheb (a + b) x mod ?p" using assms by simp_all
  have "(int (val A) * int (val A) + int (val B) * int (val B) + int (val C) * int (val C)) mod ?p
      = (cheb a x * cheb a x + cheb b x * cheb b x + cheb (a + b) x * cheb (a + b) x) mod ?p"
    by (intro mod_add_cong mod_mult_cong A B C)
  also have "\<dots> = (2 * (cheb a x * cheb b x * cheb (a + b) x) + 1) mod ?p"
    unfolding cheb_triple by (simp add: mult.assoc)
  also have "\<dots> = (2 * (int (val A) * int (val B) * int (val C)) + 1) mod ?p"
    by (intro mod_add_cong mod_mult_cong A [symmetric] B [symmetric] C [symmetric] refl)
  finally have "int ((val A * val A + val B * val B + val C * val C) mod val p)
      = int ((2 * (val A * val B * val C) + 1) mod val p)"
    by (simp add: of_nat_mod add.commute [of 1])
  then show ?thesis by (simp only: of_nat_eq_iff)
qed

end

lemma chebyshev_Tn_reduced:
  assumes "carry4 st = 0" "length n = 8" "length x = 8" "length p = 8" "1 < limbs_val p" "limbs_val p \<le> 2 ^ 255"
    "limbs_val x < limbs_val p"
  shows "\<exists>st' T T'. chebyshev_Tn st n x p = Some (st', T, T') \<and> carry4 st' = 0 \<and> length T = 8
    \<and> int (limbs_val T) = cheb (limbs_val n) (int (limbs_val x)) mod int (limbs_val p)"
proof -
  have "cheby_pre n x p" using assms by (simp add: cheby_pre_def)
  then obtain st' T T' where T: "chebyshev_Tn st n x p = Some (st', T, T')" "length T = 8" "carry4 st' = 0"
    "int (limbs_val T) mod int (limbs_val p) = cheb (limbs_val n) (int (limbs_val x)) mod int (limbs_val p)"
    "limbs_val n > 1 \<longrightarrow> limbs_val T < limbs_val p"
    using chebyshev_Tn_val [OF _ assms(1)] assms(6) by blast
  have "limbs_val T < limbs_val p"
  proof (cases "limbs_val n > 1")
    case False
    then show ?thesis using chebyshev_Tn_small [OF assms(2), of st x p] T(1) assms(5,7) by (auto split: if_splits)
  qed (use T(5) in simp)
  then have "int (limbs_val T) mod int (limbs_val p) = int (limbs_val T)" by simp
  then show ?thesis using T by metis
qed

interpretation cheb: chebyshev_engine chebyshev_Tn "\<lambda>st. carry4 st = 0" "\<lambda>v. length v = 8" limbs_val
  using chebyshev_Tn_reduced limbs_val_inj by unfold_locales metis+

text \<open>
  C33. Key agreement: two parties with any degrees \<open>a\<close> and \<open>b\<close> who start from the same base \<open>x\<close> below a modulus of at
  most \<open>2 ^ 255\<close>, exchange \<open>T_a(x)\<close> and \<open>T_b(x)\<close> computed by \<open>chebyshev_Tn\<close> and apply it again with their own
  degree, both get a result, and it is the same number.
\<close>

theorem chebyshev_key_agreement:
  assumes "carry4 s = 0" "carry4 r = 0" "length a = 8" "length b = 8" "length x = 8" "length p = 8"
    and "1 < limbs_val p" "limbs_val p \<le> 2 ^ 255" "limbs_val x < limbs_val p"
  shows "\<exists>s1 X X' s2 Z Z' r1 Y Y' r2 W'. chebyshev_Tn s a x p = Some (s1, X, X') \<and> chebyshev_Tn s1 b X p = Some (s2, Z, Z')
    \<and> chebyshev_Tn r b x p = Some (r1, Y, Y') \<and> chebyshev_Tn r1 a Y p = Some (r2, Z, W')"
  using assms by (rule cheb.tn_agree)

theorem chebyshev_key_agreement_witness:
  "\<exists>s1 X X' s2 Z Z' r1 Y Y' r2 W'.
     chebyshev_Tn cheby_boot [5, 0, 0, 0, 0, 0, 0, 0] [3, 0, 0, 0, 0, 0, 0, 0] [101, 0, 0, 0, 0, 0, 0, 0] = Some (s1, X, X')
   \<and> chebyshev_Tn s1 [6, 0, 0, 0, 0, 0, 0, 0] X [101, 0, 0, 0, 0, 0, 0, 0] = Some (s2, Z, Z')
   \<and> chebyshev_Tn cheby_boot [6, 0, 0, 0, 0, 0, 0, 0] [3, 0, 0, 0, 0, 0, 0, 0] [101, 0, 0, 0, 0, 0, 0, 0] = Some (r1, Y, Y')
   \<and> chebyshev_Tn r1 [5, 0, 0, 0, 0, 0, 0, 0] Y [101, 0, 0, 0, 0, 0, 0, 0] = Some (r2, Z, W')"
  by (rule chebyshev_key_agreement) (simp_all add: cheby_boot_def)

end
