(* ===== verification/SM3.thy ===== *)
theory SM3
  imports Prelude
begin

text \<open>
  The SM3 hash of \<open>applications/SM3.c\<close>.  A message is the list of the \<open>iLen\<close> bytes
  that \<open>input\<close> points to.  The context record has the fields of
  \<open>gm_sm3_context\<close>; \<open>gm_sm3_update\<close> feeds it byte by byte and compresses when
  the 64-byte buffer is full.  The \<open>ref_\<close> definitions are SM3 as the standard
  GM/T 0004 describes it, over the padded message cut into blocks, and the main
  theorem is that the streaming code computes it.

  In \<open>GM_SM3_ROTL(x, n)\<close> with \<open>n\<close> a multiple of 32 the C code shifts a 32-bit
  value right by 32, which the language leaves undefined; \<open>drop_bit\<close> gives 0
  there and a RISC-V shift gives \<open>x\<close>, and both make the rotation equal to \<open>x\<close>.
\<close>

section \<open>Macros\<close>

definition GM_SM3_FF_0 :: "u32 \<Rightarrow> u32 \<Rightarrow> u32 \<Rightarrow> u32" where
  "GM_SM3_FF_0 x y z = x XOR y XOR z"

definition GM_SM3_FF_1 :: "u32 \<Rightarrow> u32 \<Rightarrow> u32 \<Rightarrow> u32" where
  "GM_SM3_FF_1 x y z = (x AND y) OR (x AND z) OR (y AND z)"

definition GM_SM3_GG_0 :: "u32 \<Rightarrow> u32 \<Rightarrow> u32 \<Rightarrow> u32" where
  "GM_SM3_GG_0 x y z = x XOR y XOR z"

definition GM_SM3_GG_1 :: "u32 \<Rightarrow> u32 \<Rightarrow> u32 \<Rightarrow> u32" where
  "GM_SM3_GG_1 x y z = (x AND y) OR (NOT x AND z)"

definition GM_SM3_SHL :: "u32 \<Rightarrow> nat \<Rightarrow> u32" where
  "GM_SM3_SHL x n = push_bit (n mod 32) (x AND 0xFFFFFFFF)"

definition GM_SM3_ROTL :: "u32 \<Rightarrow> nat \<Rightarrow> u32" where
  "GM_SM3_ROTL x n = GM_SM3_SHL x n OR drop_bit (32 - n mod 32) x"

definition GM_SM3_P_0 :: "u32 \<Rightarrow> u32" where
  "GM_SM3_P_0 x = x XOR GM_SM3_ROTL x 9 XOR GM_SM3_ROTL x 17"

definition GM_SM3_P_1 :: "u32 \<Rightarrow> u32" where
  "GM_SM3_P_1 x = x XOR GM_SM3_ROTL x 15 XOR GM_SM3_ROTL x 23"

section \<open>Message expansion and compression\<close>

record gm_sm3_context =
  sm3_state :: "u32 list"
  sm3_buf :: bytes
  cur_buf_len :: u64
  compressed_len :: u64

fun BiToW_loop :: "nat list \<Rightarrow> u32 list \<Rightarrow> u32 list" where
  "BiToW_loop [] W = W"
| "BiToW_loop (i # is) W =
     (let tmp = W ! (i - 16) XOR W ! (i - 9) XOR GM_SM3_ROTL (W ! (i - 3)) 15
      in BiToW_loop is (W @ [GM_SM3_P_1 tmp XOR GM_SM3_ROTL (W ! (i - 13)) 7 XOR W ! (i - 6)]))"

definition gm_sm3_BiToW :: "bytes \<Rightarrow> u32 list" where
  "gm_sm3_BiToW Bi = BiToW_loop [16..<68] (map (\<lambda>k. get_be32 Bi (4 * k)) [0..<16])"

definition gm_sm3_WToW1 :: "u32 list \<Rightarrow> u32 list" where
  "gm_sm3_WToW1 W = map (\<lambda>i. W ! i XOR W ! (i + 4)) [0..<64]"

type_synonym regs = "u32 \<times> u32 \<times> u32 \<times> u32 \<times> u32 \<times> u32 \<times> u32 \<times> u32"

definition CF_round :: "u32 list \<Rightarrow> u32 list \<Rightarrow> regs \<Rightarrow> nat \<Rightarrow> regs" where
  "CF_round W W1 r j = (case r of (A, B, C, D, E, F, G, H) \<Rightarrow>
     let Tj = (if j < 16 then 0x79CC4519 else 0x7A879D8A);
         SS1 = GM_SM3_ROTL (GM_SM3_ROTL A 12 + E + GM_SM3_ROTL Tj j) 7;
         SS2 = SS1 XOR GM_SM3_ROTL A 12;
         TT1 = (if j < 16 then GM_SM3_FF_0 A B C + D + SS2 + W1 ! j
                else GM_SM3_FF_1 A B C + D + SS2 + W1 ! j);
         TT2 = (if j < 16 then GM_SM3_GG_0 E F G + H + SS1 + W ! j
                else GM_SM3_GG_1 E F G + H + SS1 + W ! j)
     in (TT1, A, GM_SM3_ROTL B 9, C, GM_SM3_P_0 TT2, E, GM_SM3_ROTL F 19, G))"

definition regs_of :: "u32 list \<Rightarrow> regs" where
  "regs_of V = (V ! 0, V ! 1, V ! 2, V ! 3, V ! 4, V ! 5, V ! 6, V ! 7)"

definition xor_regs :: "u32 list \<Rightarrow> regs \<Rightarrow> u32 list" where
  "xor_regs V r = (case r of (A, B, C, D, E, F, G, H) \<Rightarrow>
     [V ! 0 XOR A, V ! 1 XOR B, V ! 2 XOR C, V ! 3 XOR D,
      V ! 4 XOR E, V ! 5 XOR F, V ! 6 XOR G, V ! 7 XOR H])"

definition gm_sm3_CF :: "u32 list \<Rightarrow> u32 list \<Rightarrow> gm_sm3_context \<Rightarrow> gm_sm3_context" where
  "gm_sm3_CF W W1 ctx =
     ctx\<lparr>sm3_state := xor_regs (sm3_state ctx) (foldl (CF_round W W1) (regs_of (sm3_state ctx)) [0..<64])\<rparr>"

definition gm_sm3_compress :: "gm_sm3_context \<Rightarrow> gm_sm3_context" where
  "gm_sm3_compress ctx =
     (let W = gm_sm3_BiToW (sm3_buf ctx); W1 = gm_sm3_WToW1 W in gm_sm3_CF W W1 ctx)"

section \<open>Streaming interface\<close>

definition gm_sm3_init :: "gm_sm3_context \<Rightarrow> gm_sm3_context" where
  "gm_sm3_init ctx = ctx\<lparr>sm3_state := [0x7380166f, 0x4914b2b9, 0x172442d7, 0xda8a0600,
       0xa96f30bc, 0x163138aa, 0xe38dee4d, 0xb0fb0e4e], cur_buf_len := 0, compressed_len := 0\<rparr>"

definition update_byte :: "gm_sm3_context \<Rightarrow> u8 \<Rightarrow> gm_sm3_context" where
  "update_byte ctx b =
     (let ctx = ctx\<lparr>sm3_buf := (sm3_buf ctx)[unat (cur_buf_len ctx) := b]\<rparr>;
          ctx = ctx\<lparr>cur_buf_len := cur_buf_len ctx + 1\<rparr>
      in if cur_buf_len ctx = 64
         then (let ctx = gm_sm3_compress ctx
               in ctx\<lparr>compressed_len := compressed_len ctx + 512, cur_buf_len := 0\<rparr>)
         else ctx)"

definition gm_sm3_update :: "gm_sm3_context \<Rightarrow> bytes \<Rightarrow> gm_sm3_context" where
  "gm_sm3_update ctx input = foldl update_byte ctx input"

definition gm_sm3_padding :: bytes where
  "gm_sm3_padding = 0x80 # replicate 63 0"

definition gm_sm3_done :: "gm_sm3_context \<Rightarrow> gm_sm3_context \<times> bytes" where
  "gm_sm3_done ctx =
     (let total_len = compressed_len ctx + push_bit 3 (cur_buf_len ctx);
          high = drop_bit 32 total_len AND 0x0FFFFFFFF;
          low = total_len AND 0x0FFFFFFFF;
          msglen = put_be32 (ucast high) @ put_be32 (ucast low);
          padn = (if cur_buf_len ctx + 1 \<le> 56 then ucast (56 - cur_buf_len ctx)
                  else ucast (120 - cur_buf_len ctx)) :: u32;
          ctx = gm_sm3_update ctx (take (unat padn) gm_sm3_padding);
          ctx = gm_sm3_update ctx msglen
      in (ctx, concat (map (\<lambda>i. put_be32 (sm3_state ctx ! i)) [0..<8])))"

text \<open>\<open>gm_sm3\<close> works on an uninitialised context on the stack, here the argument \<open>ctx\<close>.\<close>

definition gm_sm3 :: "gm_sm3_context \<Rightarrow> bytes \<Rightarrow> bytes" where
  "gm_sm3 ctx input = snd (gm_sm3_done (gm_sm3_update (gm_sm3_init ctx) input))"

section \<open>SM3 as the standard gives it\<close>

definition ref_P0 :: "u32 \<Rightarrow> u32" where
  "ref_P0 x = x XOR word_rotl 9 x XOR word_rotl 17 x"

definition ref_P1 :: "u32 \<Rightarrow> u32" where
  "ref_P1 x = x XOR word_rotl 15 x XOR word_rotl 23 x"

fun ref_W :: "bytes \<Rightarrow> nat \<Rightarrow> u32" where
  "ref_W b j = (if j < 16 then get_be32 b (4 * j)
     else ref_P1 (ref_W b (j - 16) XOR ref_W b (j - 9) XOR word_rotl 15 (ref_W b (j - 3)))
       XOR word_rotl 7 (ref_W b (j - 13)) XOR ref_W b (j - 6))"

declare ref_W.simps [simp del]

definition ref_step :: "bytes \<Rightarrow> regs \<Rightarrow> nat \<Rightarrow> regs" where
  "ref_step b r j = (case r of (A, B, C, D, E, F, G, H) \<Rightarrow>
     let T = (if j \<le> 15 then 0x79cc4519 else 0x7a879d8a);
         FF = (if j \<le> 15 then A XOR B XOR C else (A AND B) OR (A AND C) OR (B AND C));
         GG = (if j \<le> 15 then E XOR F XOR G else (E AND F) OR (NOT E AND G));
         SS1 = word_rotl 7 (word_rotl 12 A + E + word_rotl j T);
         SS2 = SS1 XOR word_rotl 12 A;
         TT1 = FF + D + SS2 + (ref_W b j XOR ref_W b (j + 4));
         TT2 = GG + H + SS1 + ref_W b j
     in (TT1, A, word_rotl 9 B, C, ref_P0 TT2, E, word_rotl 19 F, G))"

definition ref_CF :: "u32 list \<Rightarrow> bytes \<Rightarrow> u32 list" where
  "ref_CF V b = xor_regs V (foldl (ref_step b) (regs_of V) [0..<64])"

definition ref_IV :: "u32 list" where
  "ref_IV = [0x7380166f, 0x4914b2b9, 0x172442d7, 0xda8a0600, 0xa96f30bc, 0x163138aa, 0xe38dee4d, 0xb0fb0e4e]"

definition block64 :: "bytes \<Rightarrow> nat \<Rightarrow> bytes" where
  "block64 msg i = take 64 (drop (64 * i) msg)"

definition ref_chain :: "bytes \<Rightarrow> u32 list" where
  "ref_chain msg = foldl (\<lambda>V i. ref_CF V (block64 msg i)) ref_IV [0..<length msg div 64]"

definition be64 :: "u64 \<Rightarrow> bytes" where
  "be64 n = put_be32 (ucast (drop_bit 32 n)) @ put_be32 (ucast n)"

text \<open>Padding: the bit 1, then zeros until 8 bytes are left in the block, then the bit length.\<close>

definition ref_pad :: "bytes \<Rightarrow> bytes" where
  "ref_pad msg = msg @ 0x80 # replicate ((119 - length msg mod 64) mod 64) 0
     @ be64 (of_nat (8 * length msg))"

definition ref_sm3 :: "bytes \<Rightarrow> bytes" where
  "ref_sm3 msg = concat (map put_be32 (ref_chain (ref_pad msg)))"

section \<open>The compression function\<close>

lemma GM_SM3_ROTL_rotl: "GM_SM3_ROTL x n = word_rotl n x"
proof (rule bit_word_eqI)
  fix i assume i: "i < LENGTH(32)"
  define k where "k = n mod 32"
  have k: "k < 32" by (simp add: k_def)
  have m: "(0xFFFFFFFF :: u32) = -1" by simp
  show "bit (GM_SM3_ROTL x n) i = bit (word_rotl n x) i"
  proof (cases "k \<le> i")
    case True
    then have "(i + (32 - k)) mod 32 = i - k" using i k by (simp add: mod_if)
    moreover have "\<not> bit x (32 - k + i)" using True bit_imp_le_length [of x "32 - k + i"] k by auto
    ultimately show ?thesis
      using True i k by (simp add: GM_SM3_ROTL_def GM_SM3_SHL_def m bit_simps flip: k_def)
  next
    case False
    then have "(i + (32 - k)) mod 32 = 32 - k + i" using i k by simp
    then show ?thesis
      using False i k by (simp add: GM_SM3_ROTL_def GM_SM3_SHL_def m bit_simps flip: k_def)
  qed
qed

lemma P_ref: "GM_SM3_P_0 x = ref_P0 x" "GM_SM3_P_1 x = ref_P1 x"
  by (simp_all add: GM_SM3_P_0_def ref_P0_def GM_SM3_P_1_def ref_P1_def GM_SM3_ROTL_rotl)

lemma BiToW_loop_ref:
  "16 \<le> n \<Longrightarrow> BiToW_loop [n..<n + k] (map (ref_W b) [0..<n]) = map (ref_W b) [0..<n + k]"
proof (induction k arbitrary: n)
  case (Suc k)
  have e: "[n..<n + Suc k] = n # [Suc n..<Suc n + k]" by (simp add: upt_conv_Cons del: upt_Suc)
  have "ref_W b n = ref_P1 (ref_W b (n - 16) XOR ref_W b (n - 9) XOR word_rotl 15 (ref_W b (n - 3)))
       XOR word_rotl 7 (ref_W b (n - 13)) XOR ref_W b (n - 6)"
    using Suc.prems by (subst ref_W.simps) simp
  then have "BiToW_loop [n..<n + Suc k] (map (ref_W b) [0..<n]) = BiToW_loop [Suc n..<Suc n + k] (map (ref_W b) [0..<Suc n])"
    unfolding e using Suc.prems by (simp add: P_ref GM_SM3_ROTL_rotl)
  then show ?case using Suc.IH [of "Suc n"] Suc.prems by simp
qed simp

lemma gm_sm3_BiToW_ref: "gm_sm3_BiToW b = map (ref_W b) [0..<68]"
proof -
  have "map (\<lambda>k. get_be32 b (4 * k)) [0..<16] = map (ref_W b) [0..<16]"
  proof (rule map_cong [OF refl])
    fix k :: nat assume "k \<in> set [0..<16]"
    then show "get_be32 b (4 * k) = ref_W b k" by (subst ref_W.simps) (simp only: set_upt atLeastLessThan_iff if_True)
  qed
  moreover have "(16::nat) + 52 = 68" by simp
  ultimately show ?thesis using BiToW_loop_ref [of 16 52 b] unfolding gm_sm3_BiToW_def by (simp only: order_refl)
qed

lemma CF_round_ref:
  assumes "j < 64"
  shows "CF_round (gm_sm3_BiToW b) (gm_sm3_WToW1 (gm_sm3_BiToW b)) r j = ref_step b r j"
  using assms
  by (cases r) (simp add: CF_round_def ref_step_def gm_sm3_WToW1_def gm_sm3_BiToW_ref P_ref GM_SM3_ROTL_rotl
      GM_SM3_FF_0_def GM_SM3_FF_1_def GM_SM3_GG_0_def GM_SM3_GG_1_def Let_def)

lemma gm_sm3_compress_ref: "gm_sm3_compress ctx = ctx\<lparr>sm3_state := ref_CF (sm3_state ctx) (sm3_buf ctx)\<rparr>"
proof -
  have "foldl (CF_round (gm_sm3_BiToW b) (gm_sm3_WToW1 (gm_sm3_BiToW b))) r [0..<64]
      = foldl (ref_step b) r [0..<64]" for b r
    by (rule foldl_cong) (auto simp: CF_round_ref)
  then show ?thesis by (simp add: gm_sm3_compress_def gm_sm3_CF_def ref_CF_def)
qed

section \<open>The streaming code represents the message\<close>

text \<open>A context represents a message when the full blocks are chained and the rest is buffered.\<close>

definition sm3_rep :: "gm_sm3_context \<Rightarrow> bytes \<Rightarrow> bool" where
  "sm3_rep ctx msg \<longleftrightarrow> length (sm3_buf ctx) = 64 \<and> sm3_state ctx = ref_chain msg
     \<and> cur_buf_len ctx = of_nat (length msg mod 64)
     \<and> compressed_len ctx = of_nat (512 * (length msg div 64))
     \<and> take (length msg mod 64) (sm3_buf ctx) = drop (64 * (length msg div 64)) msg"

lemma sm3_rep_init: "length (sm3_buf ctx) = 64 \<Longrightarrow> sm3_rep (gm_sm3_init ctx) []"
  by (simp add: sm3_rep_def gm_sm3_init_def ref_chain_def ref_IV_def)

lemma block64_append: "64 * Suc i \<le> length msg \<Longrightarrow> block64 (msg @ ys) i = block64 msg i"
  by (simp add: block64_def)

lemma ref_chain_fold:
  "64 * k \<le> length msg \<Longrightarrow>
   foldl (\<lambda>V i. ref_CF V (block64 (msg @ ys) i)) V [0..<k] = foldl (\<lambda>V i. ref_CF V (block64 msg i)) V [0..<k]"
proof (rule foldl_cong)
  fix V i assume "64 * k \<le> length msg" "i \<in> set [0..<k]"
  then have "64 * Suc i \<le> length msg" by auto
  then show "ref_CF V (block64 (msg @ ys) i) = ref_CF V (block64 msg i)" by (simp only: block64_append)
qed simp_all

lemma update_byte_rep:
  assumes "sm3_rep ctx msg"
  shows "sm3_rep (update_byte ctx b) (msg @ [b])"
proof -
  define q r where "q = length msg div 64" and "r = length msg mod 64"
  have n: "length msg = 64 * q + r" and r: "r < 64" by (simp_all add: q_def r_def)
  note rep = assms [unfolded sm3_rep_def, folded q_def r_def]
  define B where "B = (sm3_buf ctx)[r := b]"
  have cur: "unat (cur_buf_len ctx) = r" using rep r by (simp add: unat_of_nat)
  have B: "length B = 64" "take (Suc r) B = drop (64 * q) msg @ [b]"
    using rep r by (auto simp: B_def take_Suc_conv_app_nth)
  have ch: "ref_chain msg = foldl (\<lambda>V i. ref_CF V (block64 (msg @ [b]) i)) ref_IV [0..<q]"
    unfolding ref_chain_def q_def [symmetric] using ref_chain_fold [of q msg "[b]" ref_IV] n by simp
  show ?thesis
  proof (cases "r = 63")
    case True
    have "block64 (msg @ [b]) q = B"
      using B n True by (simp add: block64_def)
    then have "ref_chain (msg @ [b]) = ref_CF (ref_chain msg) B"
      using n True ch by (simp add: ref_chain_def)
    then show ?thesis
      using rep B(1) n True cur B_def
      by (simp add: sm3_rep_def update_byte_def gm_sm3_compress_ref)
  next
    case False
    then have r': "Suc r < 64" using r by simp
    then have dm: "(64 * q + Suc r) div 64 = q" "(64 * q + Suc r) mod 64 = Suc r" by simp_all
    have u: "unat (of_nat (Suc r) :: u64) = Suc r" using r' by (subst unat_of_nat) simp
    have "(of_nat r + 1 :: u64) \<noteq> 64"
    proof
      assume "(of_nat r + 1 :: u64) = 64"
      then have "unat (of_nat (Suc r) :: u64) = unat (64 :: u64)" by (simp add: add.commute)
      then show False using u r' by simp
    qed
    then show ?thesis
      using rep B n cur dm ch
      by (simp add: sm3_rep_def update_byte_def ref_chain_def flip: B_def)
  qed
qed

lemma gm_sm3_update_rep: "sm3_rep ctx msg \<Longrightarrow> sm3_rep (gm_sm3_update ctx input) (msg @ input)"
proof (induction input arbitrary: ctx msg)
  case (Cons b bs)
  from Cons.IH [OF update_byte_rep [OF Cons.prems]] show ?case by (simp add: gm_sm3_update_def)
qed (simp add: gm_sm3_update_def)

lemma pad_take: "0 < k \<Longrightarrow> k \<le> 64 \<Longrightarrow> take k gm_sm3_padding = 0x80 # replicate (k - 1) 0"
  by (cases k) (simp_all add: gm_sm3_padding_def min_def)

lemma ucast_and_mask32: "ucast (x AND 0x0FFFFFFFF :: u64) = (ucast x :: u32)"
proof -
  have m: "(0x0FFFFFFFF :: u64) = mask 32" by (simp add: mask_numeral)
  show ?thesis unfolding m by (auto intro!: bit_word_eqI simp: bit_simps)
qed

lemma pad_zeros: "r < 64 \<Longrightarrow> (119 - r) mod 64 = (if r \<le> 55 then 55 - r else 119 - r)" for r :: nat
  by (auto simp: mod_if)

lemma ref_pad_length: "length (ref_pad msg) mod 64 = 0"
proof -
  define q r where "q = length msg div 64" and "r = length msg mod 64"
  have "length msg = 64 * q + r" "r < 64" by (simp_all add: q_def r_def)
  then have "length (ref_pad msg) = 64 * (if r \<le> 55 then q + 1 else q + 2)"
    by (simp add: ref_pad_def be64_def pad_zeros flip: r_def)
  then show ?thesis by simp
qed

lemma length_ref_chain: "length (ref_chain msg) = 8"
proof -
  have "length (foldl (\<lambda>V i. ref_CF V (block64 msg i)) V is) = 8" if "length V = 8" for V "is"
    using that by (induction "is" arbitrary: V) (auto simp: ref_CF_def xor_regs_def split: prod.splits)
  then show ?thesis by (simp add: ref_chain_def ref_IV_def)
qed

lemma sm3_padn:
  assumes "r < 64"
  shows "unat (if (of_nat r :: u64) + 1 \<le> 56 then ucast (56 - of_nat r :: u64) else ucast (120 - of_nat r :: u64) :: u32)
    = (if r \<le> 55 then 56 - r else 120 - r)"
proof -
  have u: "unat (of_nat r :: u64) = r" using assms by (simp add: unat_of_nat)
  have c: "(of_nat r :: u64) + 1 \<le> 56 \<longleftrightarrow> r \<le> 55"
    using assms by (simp add: word_le_nat_alt unat_add_small u)
  have "unat (k - of_nat r :: u64) = unat k - r" if "r \<le> unat k" for k :: u64
    using that by (subst unat_sub) (simp_all add: word_le_nat_alt u)
  from this [of 56] this [of 120] show ?thesis using c assms by (auto simp: unat_ucast_mod)
qed

lemma gm_sm3_done_ref:
  assumes "sm3_rep ctx msg"
  shows "snd (gm_sm3_done ctx) = ref_sm3 msg"
proof -
  define n where "n = length msg"
  define r where "r = n mod 64"
  have r: "r < 64" by (simp add: r_def)
  have cur: "cur_buf_len ctx = of_nat r" and comp: "compressed_len ctx = of_nat (512 * (n div 64))"
    using assms by (simp_all add: sm3_rep_def n_def r_def)
  have tot: "compressed_len ctx + push_bit 3 (cur_buf_len ctx) = of_nat (8 * n)"
  proof -
    have "push_bit 3 (of_nat r :: u64) = of_nat (8 * r)" by (simp add: push_bit_eq_mult mult.commute)
    moreover have "512 * (n div 64) + 8 * r = 8 * n"
      using mult_div_mod_eq [of 64 n] unfolding r_def by linarith
    ultimately show ?thesis unfolding cur comp by (metis of_nat_add)
  qed
  define padn :: u32 where "padn = (if cur_buf_len ctx + 1 \<le> 56 then ucast (56 - cur_buf_len ctx)
                  else ucast (120 - cur_buf_len ctx))"
  have padn: "unat padn = Suc ((119 - r) mod 64)"
    unfolding padn_def cur using sm3_padn [OF r] r by (auto simp: pad_zeros [OF r])
  have msglen: "put_be32 (ucast (drop_bit 32 (of_nat (8 * n) :: u64) AND 0x0FFFFFFFF))
      @ put_be32 (ucast ((of_nat (8 * n) :: u64) AND 0x0FFFFFFFF)) = be64 (of_nat (8 * n))"
    by (simp only: ucast_and_mask32 be64_def)
  define ctx' where "ctx' = gm_sm3_update (gm_sm3_update ctx (take (unat padn) gm_sm3_padding)) (be64 (of_nat (8 * n)))"
  have "sm3_rep ctx' ((msg @ take (unat padn) gm_sm3_padding) @ be64 (of_nat (8 * n)))"
    unfolding ctx'_def by (intro gm_sm3_update_rep assms)
  moreover have "take (unat padn) gm_sm3_padding = 0x80 # replicate ((119 - r) mod 64) 0"
    using padn by (subst pad_take) simp_all
  ultimately have "sm3_rep ctx' (ref_pad msg)"
    by (simp add: ref_pad_def n_def r_def)
  then have st: "sm3_state ctx' = ref_chain (ref_pad msg)" by (simp add: sm3_rep_def)
  have "snd (gm_sm3_done ctx) = concat (map (\<lambda>i. put_be32 (sm3_state ctx' ! i)) [0..<8])"
    unfolding gm_sm3_done_def ctx'_def Let_def tot msglen padn_def by simp
  also have "\<dots> = concat (map put_be32 (map ((!) (sm3_state ctx')) [0..<length (sm3_state ctx')]))"
    unfolding st length_ref_chain by (simp only: map_map comp_def)
  finally show ?thesis by (simp only: map_nth st ref_sm3_def)
qed

text \<open>
  C2. The streaming implementation \<open>gm_sm3\<close> computes the SM3 hash: for every message its digest is
  that of the reference definition over the padded, blocked message.
\<close>

theorem gm_sm3_correct: "length (sm3_buf ctx) = 64 \<Longrightarrow> gm_sm3 ctx input = ref_sm3 input"
  using gm_sm3_done_ref [OF gm_sm3_update_rep [OF sm3_rep_init], of ctx input] by (simp add: gm_sm3_def)

definition stack_ctx :: gm_sm3_context where
  "stack_ctx = \<lparr>sm3_state = replicate 8 0, sm3_buf = replicate 64 0, cur_buf_len = 0, compressed_len = 0\<rparr>"

theorem gm_sm3_correct_witness:
  "length (sm3_buf stack_ctx) = 64 \<and> gm_sm3 stack_ctx [0x61, 0x62, 0x63] = ref_sm3 [0x61, 0x62, 0x63]"
  using gm_sm3_correct [of stack_ctx "[0x61, 0x62, 0x63]"] by (simp add: stack_ctx_def)

end
