(* ===== verification/Uint256.thy ===== *)
theory Uint256
  imports Bignum
begin

text \<open>
  The 256-bit helpers of \<open>applications/protocol.c\<close> and \<open>applications/tcp_part.c\<close>: conversions between
  limbs, bytes, hexadecimal and decimal text, and the modular addition and multiplication of the key
  confirmation.  A \<open>uint256_t\<close> is a list of eight limbs, index 0 first; \<open>limbs_val\<close> reads index 0 as the least
  significant limb, which is the order of the arithmetic and of the hexadecimal text, whereas the digest
  conversion and the decimal text read index 0 as the most significant one (\<open>limbs_val (rev a)\<close>).
\<close>

section \<open>Simple conversions\<close>

definition sm3_to_uint256 :: "bytes \<Rightarrow> u32 list" where
  "sm3_to_uint256 out = map (\<lambda>i. get_be32 out (i * 4)) [0..<8]"

definition int_to_uint256 :: "int \<Rightarrow> u32 list" where
  "int_to_uint256 v = (replicate 8 0)[0 := word_of_int v]"

definition ull_to_uint256 :: "u64 \<Rightarrow> u32 list" where
  "ull_to_uint256 v = (replicate 8 0)[0 := ucast (v AND 0xFFFFFFFF), 1 := ucast (drop_bit 32 v AND 0xFFFFFFFF)]"

fun uint256_equal :: "u32 list \<Rightarrow> u32 list \<Rightarrow> bool" where
  "uint256_equal (a # as) (b # bs) = (if a \<noteq> b then False else uint256_equal as bs)"
| "uint256_equal _ _ = True"

definition uint256_copy :: "u32 list \<Rightarrow> u32 list" where
  "uint256_copy src = map (\<lambda>i. src ! i) [0..<8]"

definition uint256_zero :: "u32 list" where
  "uint256_zero = replicate 8 0"

text \<open>The loops that write the limbs into a byte array, most significant byte of each limb first.\<close>

definition uint256_bytes :: "u32 list \<Rightarrow> bytes" where
  "uint256_bytes v = concat (map put_be32 v)"

definition uint256_xor :: "u32 list \<Rightarrow> u32 list \<Rightarrow> u32 list" where
  "uint256_xor a b = map (\<lambda>i. a ! i XOR b ! i) [0..<8]"

section \<open>Decimal text\<close>

text \<open>One pass over the 32 bytes: divide by ten, the remainder is the next digit.\<close>

fun div10_loop :: "nat \<Rightarrow> bytes \<Rightarrow> bytes \<times> nat" where
  "div10_loop carry [] = ([], carry)"
| "div10_loop carry (b # bs) =
     (let val = carry * 256 + unat b; (q, r) = div10_loop (val mod 10) bs in (of_nat (val div 10) # q, r))"

fun bytes_val :: "bytes \<Rightarrow> nat" where
  "bytes_val [] = 0"
| "bytes_val (b # bs) = unat b * 256 ^ length bs + bytes_val bs"

lemma length_div10 [simp]: "length (fst (div10_loop c bs)) = length bs"
  by (induction bs arbitrary: c) (auto simp: Let_def case_prod_beta)

lemma digit_step: "(d * N + q) * 10 + r = d * 10 * N + (q * 10 + r)" for d N q r :: nat
  by (simp add: algebra_simps)

lemma div10_loop_val:
  "c < 10 \<Longrightarrow> div10_loop c bs = (q, r) \<Longrightarrow>
     r < 10 \<and> bytes_val q * 10 + r = c * 256 ^ length bs + bytes_val bs"
proof (induction bs arbitrary: c q r)
  case (Cons b bs)
  define v where "v = c * 256 + unat b"
  obtain q' where q': "div10_loop (v mod 10) bs = (q', r)" "q = of_nat (v div 10) # q'"
    using Cons.prems(2) by (auto simp: v_def Let_def split: prod.splits)
  have "v < 2560" using Cons.prems(1) unat_u8_less [of b] by (simp add: v_def)
  then have u: "unat (of_nat (v div 10) :: u8) = v div 10" by (simp add: unat_of_nat)
  have IH: "r < 10" "bytes_val q' * 10 + r = (v mod 10) * 256 ^ length bs + bytes_val bs"
    using Cons.IH [OF _ q'(1)] by simp_all
  have l: "length q' = length bs" using length_div10 [of "v mod 10" bs] q'(1) by simp
  have "bytes_val q * 10 + r = v div 10 * 10 * 256 ^ length bs + (v mod 10 * 256 ^ length bs + bytes_val bs)"
    by (simp only: q'(2) bytes_val.simps u l digit_step IH(2))
  also have "\<dots> = (v div 10 * 10 + v mod 10) * 256 ^ length bs + bytes_val bs"
    by (simp only: distrib_right add.assoc)
  also have "\<dots> = c * 256 ^ length (b # bs) + bytes_val (b # bs)"
    by (simp add: v_def distrib_right)
  finally show ?case using IH(1) by simp
qed simp

lemma bytes_val_eq_0: "bytes_val bs = 0 \<longleftrightarrow> list_all (\<lambda>b. b = 0) bs"
  by (induction bs) (auto simp: unat_eq_zero)

function decstr_loop :: "bytes \<Rightarrow> string \<Rightarrow> string" where
  "decstr_loop tp acc =
     (let (tp', carry) = div10_loop 0 tp; acc = char_of (48 + carry) # acc
      in if list_all (\<lambda>b. b = 0) tp' then acc else decstr_loop tp' acc)"
  by pat_completeness auto
termination
proof (relation "measure (\<lambda>(tp, acc). bytes_val tp)", simp)
  fix tp acc x tp' carry xa
  assume "x = div10_loop 0 tp" "(tp', carry) = x" "\<not> list_all (\<lambda>b. b = 0) tp'"
  then have "bytes_val tp' \<noteq> 0" "bytes_val tp' * 10 + carry = bytes_val tp"
    using div10_loop_val [of 0 tp tp' carry] by (auto simp: bytes_val_eq_0)
  then show "((tp', xa), tp, acc) \<in> measure (\<lambda>(tp, acc). bytes_val tp)" by simp
qed

declare decstr_loop.simps [simp del]

text \<open>
  The digits are written from the end of an 80-byte buffer and copied with \<open>strncpy\<close>.
\<close>

definition uint256_to_decstr :: "u32 list \<Rightarrow> nat \<Rightarrow> string" where
  "uint256_to_decstr v maxlen = take (maxlen - 1) (decstr_loop (uint256_bytes v) [])"

section \<open>Hexadecimal text\<close>

definition c_isxdigit :: "char \<Rightarrow> bool" where
  "c_isxdigit c \<longleftrightarrow> of_char c \<in> {48 .. 57 :: nat} \<or> of_char c \<in> {65 .. 70 :: nat} \<or> of_char c \<in> {97 .. 102 :: nat}"

definition xdigit_val :: "char \<Rightarrow> nat" where
  "xdigit_val c = (let n = of_char c in if n \<le> 57 then n - 48 else if n \<le> 70 then n - 55 else n - 87)"

text \<open>\<open>strtoul(s, &endptr, 16)\<close> on a text of hexadecimal digits: the value and what \<open>endptr\<close> points to.\<close>

definition strtoul16 :: "string \<Rightarrow> nat \<times> string" where
  "strtoul16 s = (foldl (\<lambda>a c. 16 * a + xdigit_val c) 0 (takeWhile c_isxdigit s), dropWhile c_isxdigit s)"

fun hex_segments :: "nat list \<Rightarrow> string \<Rightarrow> u32 list \<Rightarrow> int \<times> u32 list" where
  "hex_segments [] s res = (0, res)"
| "hex_segments (i # is) s res =
     (let (v, endptr) = strtoul16 (take 8 (drop (i * 8) s))
      in if endptr \<noteq> [] then (-3, res) else hex_segments is s (res[7 - i := of_nat v]))"

text \<open>The error code and the destination array, which keeps its old content when an error is found.\<close>

definition hex_to_uint256 :: "string \<Rightarrow> u32 list \<Rightarrow> int \<times> u32 list" where
  "hex_to_uint256 s res =
     (if length s \<noteq> 64 then (-1, res)
      else if \<not> list_all c_isxdigit s then (-2, res)
      else hex_segments [0..<8] s res)"

text \<open>\<open>%08X\<close>\<close>

definition fmt_08X :: "u32 \<Rightarrow> string" where
  "fmt_08X w = concat (map fmt_02X (put_be32 w))"

definition uint256_to_hex :: "u32 list \<Rightarrow> nat \<Rightarrow> int \<times> string" where
  "uint256_to_hex v output_size =
     (if output_size < 65 then (-1, [])
      else (0, concat (map (\<lambda>i. fmt_08X (v ! i)) (rev [0..<8]))))"

definition print_uint256 :: "u32 list \<Rightarrow> string" where
  "print_uint256 v = concat (map (\<lambda>i. fmt_08X (v ! i)) (rev [0..<8])) @ newline"

section \<open>Modular addition and multiplication\<close>

text \<open>The comparison loops set \<open>ge\<close> only for a strictly greater number.\<close>

fun ge_loop :: "u32 list \<Rightarrow> u32 list \<Rightarrow> bool" where
  "ge_loop (x # xs) (y # ys) = (if x > y then True else if x < y then False else ge_loop xs ys)"
| "ge_loop _ _ = False"

fun sub63_loop :: "u64 \<Rightarrow> u32 list \<Rightarrow> u32 list \<Rightarrow> u32 list" where
  "sub63_loop borrow (a # as) (b # bs) =
     (let temp = ucast a - ucast b - borrow in ucast temp # sub63_loop (drop_bit 63 temp AND 1) as bs)"
| "sub63_loop borrow _ _ = []"

definition uint256_addmod :: "u32 list \<Rightarrow> u32 list \<Rightarrow> u32 list \<Rightarrow> u32 list" where
  "uint256_addmod a b m =
     (let sum = fst (add_loop 0 a b)
      in if ge_loop (rev sum) (rev m) then sub63_loop 0 sum m else sum)"

fun shl1_loop :: "u32 \<Rightarrow> u32 list \<Rightarrow> u32 list" where
  "shl1_loop carry [] = []"
| "shl1_loop carry (x # xs) =
     (let tmp = push_bit 1 (ucast x) OR ucast carry :: u64 in ucast tmp # shl1_loop (ucast (drop_bit 32 tmp)) xs)"

text \<open>
  The first loop multiplies as \<open>big_mul\<close> does; each product word keeps 32 bits.  The second divides bit by bit, from bit
  511 down.
\<close>

definition mulmod_bit :: "u32 list \<Rightarrow> u32 list \<Rightarrow> u32 list \<Rightarrow> nat \<Rightarrow> u32 list" where
  "mulmod_bit pr m rem i =
     (let rem = shl1_loop 0 rem;
          b = drop_bit (i mod 32) (pr ! (i div 32)) AND 1;
          rem = rem[0 := rem ! 0 OR b]
      in if ge_loop (rev rem) (rev m) then sub63_loop 0 rem m else rem)"

definition uint256_mulmod :: "u32 list \<Rightarrow> u32 list \<Rightarrow> u32 list \<Rightarrow> u32 list" where
  "uint256_mulmod a b m = foldl (mulmod_bit (big_mul a b) m) (replicate 8 0) (rev [0..<512])"

section \<open>Values of the modular routines\<close>

lemma ge_loop_cmp: "ge_loop xs ys \<longleftrightarrow> cmp_loop xs ys = 1"
  by (induction xs ys rule: ge_loop.induct) auto

lemma ge_loop_val: "length a = length b \<Longrightarrow> ge_loop (rev a) (rev b) \<longleftrightarrow> limbs_val a > limbs_val b"
  by (simp add: ge_loop_cmp cmp_loop_val)

lemma sub63_step:
  fixes a b :: u32 and bw :: u64
  assumes "unat bw \<le> 1"
  defines "temp \<equiv> ucast a - ucast b - bw :: u64"
  shows "(ucast temp :: u32) = (if ucast a \<ge> ucast b + bw then ucast (ucast a - (ucast b + bw))
      else ucast (push_bit 32 1 + ucast a - (ucast b + bw)))"
    and "drop_bit 63 temp AND 1 = (if ucast a \<ge> ucast b + bw then 0 else 1)"
proof -
  note st = sub_step_val [OF assms(1), where a = a and b = b]
  have lt: "unat a < 2 ^ 32" "unat b < 2 ^ 32" by (simp_all add: c_bound)
  have t: "temp = ucast a - (ucast b + bw)" by (simp add: temp_def algebra_simps)
  have bi: "unat (ucast b + bw :: u64) = unat b + unat bw"
    using assms(1) lt by (subst unat_add_small) (simp_all add: unat_ucast_32_64)
  have ut: "unat temp = (if unat b + unat bw \<le> unat a then unat a - (unat b + unat bw)
      else unat a + 2 ^ 64 - (unat b + unat bw))"
    unfolding t unat_sub_if' bi unat_ucast_32_64 by (simp add: word_le_nat_alt)
  have e: "(2::nat) ^ 64 = 2 ^ 32 * (2 ^ 32 - 1) + 2 ^ 32" by simp
  show "(ucast temp :: u32) = (if ucast a \<ge> ucast b + bw then ucast (ucast a - (ucast b + bw))
      else ucast (push_bit 32 1 + ucast a - (ucast b + bw)))"
  proof (cases "ucast a \<ge> ucast b + bw")
    case False
    then have n: "\<not> unat b + unat bw \<le> unat a" using st(1) by simp
    then have "unat temp = 2 ^ 32 * (2 ^ 32 - 1) + (2 ^ 32 + unat a - (unat b + unat bw))"
      using ut lt assms(1) e by simp
    then have "unat temp mod 2 ^ 32 = (2 ^ 32 + unat a - (unat b + unat bw)) mod 2 ^ 32"
      by (simp only: mod_mult_self4)
    moreover have "2 ^ 32 + unat a - (unat b + unat bw) < 2 ^ 32" using n by simp
    ultimately have "unat (ucast temp :: u32) = unat (ucast (push_bit 32 1 + ucast a - (ucast b + bw)) :: u32)"
      using st(3) [OF False] by (simp add: unat_ucast_mod)
    then show ?thesis using False by (simp add: word_unat_eq_iff)
  qed (simp add: t)
  have d: "unat (drop_bit 63 temp AND 1) = unat temp div 2 ^ 63 mod 2"
    by (simp add: and_one_eq unat_mod unat_drop_bit_div)
  show "drop_bit 63 temp AND 1 = (if ucast a \<ge> ucast b + bw then 0 else 1)"
  proof (cases "ucast a \<ge> ucast b + bw")
    case True
    then have "unat temp < 2 ^ 63" using st(1) ut lt by simp
    then have "unat (drop_bit 63 temp AND 1) = 0" unfolding d by simp
    then show ?thesis using True by (simp add: unat_eq_zero)
  next
    case False
    then have "2 ^ 63 \<le> unat temp" "unat temp < 2 ^ 64" using st(1) ut lt assms(1) by simp_all
    then have "unat temp div 2 ^ 63 = 1" by simp
    then have "unat (drop_bit 63 temp AND 1) = unat (1 :: u64)" unfolding d by simp
    then show ?thesis using False by (simp only: word_unat_eq_iff if_False)
  qed
qed

lemma sub63_loop_sub: "unat bw \<le> 1 \<Longrightarrow> sub63_loop bw as bs = fst (sub_loop bw as bs)"
proof (induction bw as bs rule: sub63_loop.induct)
  case (1 bw a as b bs)
  note s = sub63_step [OF 1(2), of a b]
  have "unat (drop_bit 63 (ucast a - ucast b - bw) AND 1 :: u64) \<le> 1" unfolding s(2) by simp
  then show ?case using 1(1) [OF refl] unfolding sub63_loop.simps Let_def s
    by (simp add: Let_def case_prod_beta)
qed auto

lemma sub63_val:
  assumes "length a = length b" "limbs_val b \<le> limbs_val a"
  shows "limbs_val (sub63_loop 0 a b) = limbs_val a - limbs_val b" "length (sub63_loop 0 a b) = length a"
  using big_sub_le [OF assms] by (simp_all add: sub63_loop_sub big_sub_def case_prod_beta)

lemma length_add_loop: "length a = length b \<Longrightarrow> length (fst (add_loop c a b)) = length a"
  by (induction c a b rule: add_loop.induct) (auto simp: Let_def case_prod_beta)

lemma addmod_val:
  assumes "length a = 8" "length b = 8" "length m = 8" "limbs_val a + limbs_val b < 2 ^ 256"
  shows "limbs_val (uint256_addmod a b m) = (if limbs_val a + limbs_val b > limbs_val m
      then limbs_val a + limbs_val b - limbs_val m else limbs_val a + limbs_val b)"
    and "length (uint256_addmod a b m) = 8"
proof -
  obtain s c where s: "add_loop 0 a b = (s, c)" by fastforce
  have v: "length s = 8" "limbs_val s + 2 ^ 256 * unat c = limbs_val a + limbs_val b"
    using add_loop_val [OF _ _ s] assms(1,2) by simp_all
  then have "limbs_val s = limbs_val a + limbs_val b" using assms(4) by (cases "unat c") simp_all
  with v s assms show "limbs_val (uint256_addmod a b m) = (if limbs_val a + limbs_val b > limbs_val m
      then limbs_val a + limbs_val b - limbs_val m else limbs_val a + limbs_val b)"
    and "length (uint256_addmod a b m) = 8"
    by (simp_all add: uint256_addmod_def Let_def ge_loop_val sub63_val)
qed

lemma low_word_mod: "u < 2 ^ 32 \<Longrightarrow> (u + 2 ^ 32 * w) mod (2 ^ 32 * N) = u + 2 ^ 32 * (w mod N)" for u w N :: nat
  by (subst mod_mult2_eq) simp

lemma shl1_loop_val:
  "unat c \<le> 1 \<Longrightarrow> length (shl1_loop c xs) = length xs
    \<and> limbs_val (shl1_loop c xs) = (2 * limbs_val xs + unat c) mod 2 ^ (32 * length xs)"
proof (induction xs arbitrary: c)
  case (Cons x xs)
  define t :: u64 where "t = push_bit 1 (ucast x) OR ucast c"
  have t: "unat t = 2 * unat x + unat c"
    unfolding t_def using Cons.prems c_bound(3) [of x]
    by (subst unat_or_disjoint) (simp_all add: unat_ucast_32_64)
  have c': "unat (ucast (drop_bit 32 t) :: u32) = unat t div 2 ^ 32" "unat t div 2 ^ 32 \<le> 1"
    using t Cons.prems c_bound(3) [of x] by (simp_all add: unat_ucast_mod unat_drop_bit_div)
  have lt: "unat t mod 2 ^ 32 < 2 ^ 32" by simp
  let ?N = "2 ^ (32 * length xs) :: nat"
  have IH: "length (shl1_loop (ucast (drop_bit 32 t)) xs) = length xs"
    "limbs_val (shl1_loop (ucast (drop_bit 32 t)) xs) = (2 * limbs_val xs + unat t div 2 ^ 32) mod ?N"
    using Cons.IH [of "ucast (drop_bit 32 t)"] c' by simp_all
  have "2 * limbs_val (x # xs) + unat c = unat t + 2 ^ 32 * (2 * limbs_val xs)" using t by simp
  also have "\<dots> = unat t mod 2 ^ 32 + 2 ^ 32 * (unat t div 2 ^ 32) + 2 ^ 32 * (2 * limbs_val xs)"
    by (simp only: mod_mult_div_eq)
  also have "\<dots> = unat t mod 2 ^ 32 + 2 ^ 32 * (2 * limbs_val xs + unat t div 2 ^ 32)"
    by (simp only: distrib_left ac_simps)
  finally have "(2 * limbs_val (x # xs) + unat c) mod (2 ^ 32 * ?N)
      = unat t mod 2 ^ 32 + 2 ^ 32 * ((2 * limbs_val xs + unat t div 2 ^ 32) mod ?N)"
    by (simp only: low_word_mod [OF lt])
  moreover have "shl1_loop c (x # xs) = ucast t # shl1_loop (ucast (drop_bit 32 t)) xs"
    by (simp only: shl1_loop.simps Let_def t_def)
  ultimately show ?case using IH by (simp add: unat_ucast_mod power_add)
qed simp

lemma limbs_val_bit:
  "i < 32 * length xs \<Longrightarrow> unat (drop_bit (i mod 32) (xs ! (i div 32)) AND 1) = limbs_val xs div 2 ^ i mod 2"
proof (induction xs arbitrary: i)
  case (Cons x xs)
  show ?case
  proof (cases "i < 32")
    case True
    have e: "(2::nat) ^ 32 = 2 ^ i * (2 * 2 ^ (31 - i))" using True by (simp flip: power_add power_Suc)
    have "limbs_val (x # xs) div 2 ^ i = unat x div 2 ^ i + 2 * (2 ^ (31 - i) * limbs_val xs)"
      by (simp only: limbs_val.simps e mult.assoc) (simp add: div_mult_self2)
    then show ?thesis using True by (simp add: and_one_eq unat_mod unat_drop_bit_div)
  next
    case False
    then obtain j where j: "i = 32 + j" using le_Suc_ex by (metis not_less)
    have "limbs_val (x # xs) div 2 ^ i = limbs_val (x # xs) div 2 ^ 32 div 2 ^ j"
      by (simp only: j power_add div_mult2_eq)
    also have "limbs_val (x # xs) div 2 ^ 32 = limbs_val xs" using c_bound(3) [of x] by simp
    finally have "limbs_val (x # xs) div 2 ^ i = limbs_val xs div 2 ^ j" .
    moreover have "i div 32 = Suc (j div 32)" "i mod 32 = j mod 32" by (simp_all add: j)
    ultimately show ?thesis using Cons.IH [of j] Cons.prems by (simp only: nth_Cons_Suc) (simp add: j)
  qed
qed simp

text \<open>One round of the bitwise division, on numbers.\<close>

definition mm_step :: "nat \<Rightarrow> nat \<Rightarrow> nat \<Rightarrow> nat" where
  "mm_step m r b = (let t = 2 * r + b in if t > m then t - m else t)"

lemma set_low_bit:
  assumes "length xs = 8" "even (limbs_val xs)" "unat b \<le> 1"
  shows "limbs_val (xs[0 := xs ! 0 OR b]) = limbs_val xs + unat b"
proof -
  obtain y ys where xs: "xs = y # ys" using assms(1) by (cases xs) auto
  have "even (unat y)" using assms(2) by (simp add: xs)
  then have "unat (push_bit 1 (drop_bit 1 y)) = unat y"
    unfolding unat_push_bit_mod unat_drop_bit_div using c_bound(3) [of y] by simp
  then have y: "y = push_bit 1 (drop_bit 1 y)" by (simp only: word_unat_eq_iff)
  have "unat (push_bit 1 (drop_bit 1 y) OR b) = unat (drop_bit 1 y) * 2 ^ 1 + unat b"
    using assms(3) c_bound(3) [of y] by (intro unat_or_disjoint) (simp_all add: unat_drop_bit_div)
  then have "unat (y OR b) = unat y + unat b"
    using \<open>even (unat y)\<close> by (subst y) (auto simp: unat_drop_bit_div elim!: evenE)
  then show ?thesis by (simp add: xs)
qed

lemma mulmod_bit_val:
  assumes "length rem = 8" "length m = 8" "length pr = 16" "i < 512" "limbs_val rem < 2 ^ 255"
  shows "limbs_val (mulmod_bit pr m rem i) = mm_step (limbs_val m) (limbs_val rem) (limbs_val pr div 2 ^ i mod 2)"
    and "length (mulmod_bit pr m rem i) = 8"
proof -
  let ?s = "shl1_loop 0 rem" and ?b = "drop_bit (i mod 32) (pr ! (i div 32)) AND 1"
  have s: "length ?s = 8" "limbs_val ?s = 2 * limbs_val rem"
    using shl1_loop_val [of 0 rem] assms(1,5) by simp_all
  have b: "unat ?b = limbs_val pr div 2 ^ i mod 2" using limbs_val_bit [of i pr] assms(3,4) by simp
  have "limbs_val (?s[0 := ?s ! 0 OR ?b]) = 2 * limbs_val rem + limbs_val pr div 2 ^ i mod 2"
    using set_low_bit [of ?s ?b] s b by simp
  then show "limbs_val (mulmod_bit pr m rem i) = mm_step (limbs_val m) (limbs_val rem) (limbs_val pr div 2 ^ i mod 2)"
    and "length (mulmod_bit pr m rem i) = 8"
    using s(1) assms(2) by (simp_all add: mulmod_bit_def Let_def mm_step_def ge_loop_val sub63_val)
qed

text \<open>
  The rounds from bit 511 down to bit \<open>k\<close> reduce the prefix \<open>P div 2 ^ k\<close> of the product, provided no prefix
  is a multiple of the modulus other than zero: then a round would leave the modulus itself.
\<close>

definition mulmod_good :: "nat \<Rightarrow> nat \<Rightarrow> bool" where
  "mulmod_good m P \<longleftrightarrow> (\<forall>k < 512. P div 2 ^ k mod m = 0 \<longrightarrow> P div 2 ^ k = 0)"

lemma mm_step_mod:
  assumes "0 < m" "b \<le> 1" "(2 * q + b) mod m = 0 \<longrightarrow> 2 * q + b = 0"
  shows "mm_step m (q mod m) b = (2 * q + b) mod m"
proof -
  let ?t = "2 * (q mod m) + b"
  have e: "?t mod m = (2 * q + b) mod m" by (metis mod_add_left_eq mod_mult_right_eq)
  have lt: "q mod m < m" using assms(1) by simp
  have ne: "?t \<noteq> m"
  proof
    assume t: "?t = m"
    then have "2 * q + b = 0" using assms(3) e by simp
    then show False using t assms(1) by simp
  qed
  show ?thesis
  proof (cases "?t > m")
    case True
    then have "?t mod m = ?t - m" using lt assms(2) by (subst le_mod_geq) simp_all
    then show ?thesis using True e by (simp add: mm_step_def)
  next
    case False
    then have "?t mod m = ?t" using ne by simp
    then show ?thesis using False e by (simp add: mm_step_def)
  qed
qed

lemma rev_upt_step: "k < n \<Longrightarrow> rev [k..<n] = rev [Suc k..<n] @ [k]"
  by (simp add: upt_conv_Cons)

lemma prefix_bit: "2 * (P div 2 ^ Suc k) + P div 2 ^ k mod 2 = P div 2 ^ k" for P :: nat
  by (simp add: div_mult2_eq mult.commute [of 2])

lemma mulmod_prefix:
  assumes "length m = 8" "length pr = 16" "0 < limbs_val m" "limbs_val m \<le> 2 ^ 255"
    and "mulmod_good (limbs_val m) (limbs_val pr)" "k \<le> 512"
  shows "length (foldl (mulmod_bit pr m) (replicate 8 0) (rev [k..<512])) = 8
    \<and> limbs_val (foldl (mulmod_bit pr m) (replicate 8 0) (rev [k..<512])) = limbs_val pr div 2 ^ k mod limbs_val m"
  using assms(6)
proof (induction "512 - k" arbitrary: k)
  case 0
  have "limbs_val pr < 2 ^ 512" using limbs_val_less [of pr] assms(2) by simp
  then show ?case using 0 by simp
next
  case (Suc d)
  let ?r = "foldl (mulmod_bit pr m) (replicate 8 0) (rev [Suc k..<512])"
  have IH: "length ?r = 8" "limbs_val ?r = limbs_val pr div 2 ^ Suc k mod limbs_val m"
    using Suc.hyps(1) [of "Suc k"] Suc.hyps(2) by simp_all
  have "limbs_val ?r < limbs_val m" unfolding IH(2) using assms(3) by simp
  then have "limbs_val ?r < 2 ^ 255" using assms(4) by simp
  then have v: "limbs_val (mulmod_bit pr m ?r k) = mm_step (limbs_val m) (limbs_val ?r) (limbs_val pr div 2 ^ k mod 2)"
    "length (mulmod_bit pr m ?r k) = 8"
    using mulmod_bit_val [OF IH(1) assms(1,2), of k] Suc.hyps(2) by simp_all
  have "limbs_val pr div 2 ^ k mod limbs_val m = 0 \<longrightarrow> limbs_val pr div 2 ^ k = 0"
    using assms(5) Suc.hyps(2) by (simp add: mulmod_good_def)
  then have "mm_step (limbs_val m) (limbs_val ?r) (limbs_val pr div 2 ^ k mod 2) = limbs_val pr div 2 ^ k mod limbs_val m"
    unfolding IH(2) using mm_step_mod [of "limbs_val m" "limbs_val pr div 2 ^ k mod 2" "limbs_val pr div 2 ^ Suc k"] assms(3)
    unfolding prefix_bit by simp
  moreover have "rev [k..<512] = rev [Suc k..<512] @ [k]" using Suc.hyps(2) by (intro rev_upt_step) simp
  ultimately show ?case using v by simp
qed

lemma mulmod_val:
  assumes "length a = 8" "length b = 8" "length m = 8" "0 < limbs_val m" "limbs_val m \<le> 2 ^ 255"
    and "mulmod_good (limbs_val m) (limbs_val a * limbs_val b)"
  shows "limbs_val (uint256_mulmod a b m) = limbs_val a * limbs_val b mod limbs_val m"
    and "length (uint256_mulmod a b m) = 8"
  using mulmod_prefix [of m "big_mul a b" 0] big_mul_val [OF assms(1,2)] assms(3-6)
  by (simp_all add: uint256_mulmod_def)

lemma mm_step_le: "mm_step m r b \<le> 2 * r + b"
  by (simp add: mm_step_def Let_def)

lemma mulmod_small:
  assumes "length m = 8" "length pr = 16" "limbs_val pr < 2 ^ 255" "k \<le> 512"
  shows "length (foldl (mulmod_bit pr m) (replicate 8 0) (rev [k..<512])) = 8
    \<and> limbs_val (foldl (mulmod_bit pr m) (replicate 8 0) (rev [k..<512]))
        = foldl (\<lambda>r i. mm_step (limbs_val m) r (limbs_val pr div 2 ^ i mod 2)) 0 (rev [k..<512])
    \<and> limbs_val (foldl (mulmod_bit pr m) (replicate 8 0) (rev [k..<512])) \<le> limbs_val pr div 2 ^ k"
  using assms(4)
proof (induction "512 - k" arbitrary: k)
  case 0
  then show ?case by simp
next
  case (Suc d)
  let ?r = "foldl (mulmod_bit pr m) (replicate 8 0) (rev [Suc k..<512])"
  have k: "d = 512 - Suc k" "Suc k \<le> 512" using Suc.hyps(2) by simp_all
  have IH: "length ?r = 8" "limbs_val ?r \<le> limbs_val pr div 2 ^ Suc k"
    "limbs_val ?r = foldl (\<lambda>r i. mm_step (limbs_val m) r (limbs_val pr div 2 ^ i mod 2)) 0 (rev [Suc k..<512])"
    using Suc.hyps(1) [of "Suc k", OF k] by blast+
  have "limbs_val pr div 2 ^ Suc k \<le> limbs_val pr" by (rule div_le_dividend)
  then have "limbs_val ?r < 2 ^ 255" using IH(2) assms(3) by linarith
  then have v: "limbs_val (mulmod_bit pr m ?r k) = mm_step (limbs_val m) (limbs_val ?r) (limbs_val pr div 2 ^ k mod 2)"
    "length (mulmod_bit pr m ?r k) = 8"
    using mulmod_bit_val [OF IH(1) assms(1,2), of k] Suc.hyps(2) by simp_all
  have "mm_step (limbs_val m) (limbs_val ?r) (limbs_val pr div 2 ^ k mod 2)
      \<le> 2 * (limbs_val pr div 2 ^ Suc k) + limbs_val pr div 2 ^ k mod 2"
    by (rule order_trans [OF mm_step_le]) (use IH(2) in simp)
  moreover have "rev [k..<512] = rev [Suc k..<512] @ [k]" using Suc.hyps(2) by (intro rev_upt_step) simp
  ultimately show ?case using v IH(3) prefix_bit [of "limbs_val pr" k] by simp
qed

lemma mm_zero_bits:
  "(\<And>i. i \<in> set is \<Longrightarrow> P div 2 ^ i mod 2 = 0) \<Longrightarrow> foldl (\<lambda>r i. mm_step m r (P div 2 ^ i mod 2)) 0 is = 0"
  by (induction "is") (simp_all add: mm_step_def)

section \<open>Values of the text conversions\<close>

lemma bytes_val_append: "bytes_val (xs @ ys) = bytes_val xs * 256 ^ length ys + bytes_val ys"
  by (induction xs) (simp_all add: power_add algebra_simps)

lemma bytes_val_put_be32: "bytes_val (put_be32 w) = unat w"
proof -
  define u where "u = unat w"
  have u: "u < 256 * 256 * 256 * 256" using c_bound(3) [of w] by (simp add: u_def)
  have top: "u div 16777216 mod 256 = u div 16777216" using u by simp
  have "u div 16777216 * 256 + u div 65536 mod 256 = u div 65536"
    using div_mult_mod_eq [of "u div 65536" 256] by (simp add: div_mult2_eq [symmetric])
  moreover have "u div 65536 * 256 + u div 256 mod 256 = u div 256"
    using div_mult_mod_eq [of "u div 256" 256] by (simp add: div_mult2_eq [symmetric])
  moreover have "u div 256 * 256 + u mod 256 = u" by (rule div_mult_mod_eq)
  ultimately have "u div 16777216 * 16777216 + (u div 65536 mod 256 * 65536 + (u div 256 mod 256 * 256 + u mod 256)) = u"
    by linarith
  then show ?thesis
    using top by (simp add: put_be32_def unat_ucast_mod unat_drop_bit_div u_def)
qed

lemma length_uint256_bytes: "length (uint256_bytes v) = 4 * length v"
  by (induction v) (simp_all add: uint256_bytes_def)

lemma bytes_val_uint256: "bytes_val (uint256_bytes v) = limbs_val (rev v)"
proof (induction v)
  case (Cons x v)
  have "256 ^ (4 * length v) = (2 ^ 32 :: nat) ^ length v" by (simp only: power_mult) simp
  then show ?case using Cons length_uint256_bytes [of v]
    by (simp add: uint256_bytes_def bytes_val_append bytes_val_put_be32 limbs_val_append power_mult)
qed (simp add: uint256_bytes_def)

lemma decstr_loop_val: "decstr_loop tp acc = fmt_u (bytes_val tp) @ acc"
proof (induction tp acc rule: decstr_loop.induct)
  case (1 tp acc)
  obtain tp' c where d: "div10_loop 0 tp = (tp', c)" by fastforce
  have v: "c < 10" "bytes_val tp' * 10 + c = bytes_val tp" using div10_loop_val [of 0 tp tp' c] d by simp_all
  then have q: "bytes_val tp div 10 = bytes_val tp'" "bytes_val tp mod 10 = c"
    unfolding v(2) [symmetric] using v(1) by simp_all
  show ?case
  proof (cases "list_all (\<lambda>b. b = 0) tp'")
    case True
    then have "bytes_val tp = c" using v by (simp add: bytes_val_eq_0 [symmetric])
    then show ?thesis using True d v(1) by (subst decstr_loop.simps) (simp add: fmt_u.simps [of c])
  next
    case False
    then have "10 \<le> bytes_val tp" using v bytes_val_eq_0 [of tp'] by simp
    then have "fmt_u (bytes_val tp) = fmt_u (bytes_val tp') @ [char_of (48 + c)]"
      by (subst fmt_u.simps) (simp add: q)
    then show ?thesis using "1.IH" [OF d [symmetric] refl refl False] False d
      by (subst decstr_loop.simps) simp
  qed
qed

lemma hex_upper_digit:
  assumes "d < 16"
  shows "c_isxdigit (hex_upper d)" "xdigit_val (hex_upper d) = d"
  using less_16_cases [OF assms]
  by (auto simp: c_isxdigit_def xdigit_val_def hex_upper_def Let_def)

lemma fmt_02X_hex:
  "list_all c_isxdigit (fmt_02X b)" "foldl (\<lambda>a c. 16 * a + xdigit_val c) x (fmt_02X b) = 256 * x + unat b"
proof -
  have d: "unat b div 16 < 16" "unat b mod 16 < 16" using unat_u8_less [of b] by (simp_all add: less_mult_imp_div_less)
  show "list_all c_isxdigit (fmt_02X b)" by (simp add: fmt_02X_def hex_upper_digit d)
  have "16 * (16 * x + unat b div 16) + unat b mod 16 = 256 * x + (16 * (unat b div 16) + unat b mod 16)" by simp
  then show "foldl (\<lambda>a c. 16 * a + xdigit_val c) x (fmt_02X b) = 256 * x + unat b"
    by (simp add: fmt_02X_def hex_upper_digit d)
qed

lemma fmt_hex_xdigits: "list_all c_isxdigit (concat (map fmt_02X bs))"
  by (induction bs) (simp_all add: fmt_02X_hex)

lemma fmt_hex_fold:
  "foldl (\<lambda>a c. 16 * a + xdigit_val c) x (concat (map fmt_02X bs)) = x * 256 ^ length bs + bytes_val bs"
proof (induction bs arbitrary: x)
  case (Cons b bs)
  have "foldl (\<lambda>a c. 16 * a + xdigit_val c) x (concat (map fmt_02X (b # bs)))
      = foldl (\<lambda>a c. 16 * a + xdigit_val c) (256 * x + unat b) (concat (map fmt_02X bs))"
    by (simp add: fmt_02X_hex)
  also have "\<dots> = (256 * x + unat b) * 256 ^ length bs + bytes_val bs" by (rule Cons.IH)
  finally show ?case by (simp add: algebra_simps)
qed simp

lemma length_fmt_08X [simp]: "length (fmt_08X w) = 8"
  by (simp add: fmt_08X_def put_be32_def fmt_02X_def)

lemma xdigits_whole: "list_all c_isxdigit s \<Longrightarrow> takeWhile c_isxdigit s = s \<and> dropWhile c_isxdigit s = []"
  by (induction s) auto

lemma strtoul16_fmt_08X: "strtoul16 (fmt_08X w) = (unat w, [])"
  using xdigits_whole [OF fmt_hex_xdigits [of "put_be32 w"]] fmt_hex_fold [of 0 "put_be32 w"] bytes_val_put_be32 [of w]
  unfolding strtoul16_def fmt_08X_def by (simp only: mult_zero_left add_0_left)

lemma take_drop_concat8:
  assumes "\<And>x. x \<in> set xs \<Longrightarrow> length x = 8" "i < length xs"
  shows "take 8 (drop (i * 8) (concat xs)) = xs ! i"
  using assms
proof (induction xs arbitrary: i)
  case (Cons x xs)
  show ?case
  proof (cases i)
    case (Suc j)
    have "take 8 (drop (j * 8) (concat xs)) = xs ! j" using Cons Suc by simp
    then show ?thesis using Cons.prems Suc by simp
  qed (use Cons.prems in simp)
qed simp

lemma hex_segments_val:
  assumes "\<And>i. i \<in> set is \<Longrightarrow> strtoul16 (take 8 (drop (i * 8) s)) = (unat (f i), [])"
  shows "hex_segments is s res = (0, foldl (\<lambda>r i. r[7 - i := f i]) res is)"
  using assms by (induction "is" arbitrary: res) simp_all

section \<open>Properties\<close>

lemma hex_back:
  assumes "length v = 8" "length old = 8" "65 \<le> n"
  shows "fst (uint256_to_hex v n) = 0 \<and> hex_to_uint256 (snd (uint256_to_hex v n)) old = (0, v)"
proof -
  let ?xs = "map (\<lambda>i. fmt_08X (v ! i)) (rev [0..<8])" and ?f = "\<lambda>i. v ! (7 - i)"
  have s: "uint256_to_hex v n = (0, concat ?xs)" using assms(3) by (simp add: uint256_to_hex_def)
  have nth: "i < 8 \<Longrightarrow> ?xs ! i = fmt_08X (?f i)" for i
    using nth_upt [of 0 "7 - i" 8] by (simp add: rev_nth rev_map [symmetric])
  have "take 8 (drop (i * 8) (concat ?xs)) = fmt_08X (?f i)" if "i < 8" for i
    unfolding nth [OF that, symmetric] by (rule take_drop_concat8) (use that in auto)
  then have "hex_segments [0..<8] (concat ?xs) old = (0, foldl (\<lambda>r i. r[7 - i := ?f i]) old [0..<8])"
    by (intro hex_segments_val) (simp add: strtoul16_fmt_08X)
  moreover have "foldl (\<lambda>r i. r[7 - i := ?f i]) old [0..<8] = v"
    using assms(1,2) by (auto simp: numeral_eq_Suc length_Suc_conv upt_rec)
  moreover have "length (concat ?xs) = 64" by (simp add: length_concat comp_def upt_rec)
  moreover have "list_all c_isxdigit (concat ?xs)"
    using fmt_hex_xdigits [of "put_be32 w" for w] by (auto simp: list_all_iff fmt_08X_def)
  ultimately show ?thesis by (simp add: s hex_to_uint256_def)
qed

text \<open>
  Hexadecimal round trip: what \<open>uint256_to_hex\<close> writes for eight limbs, \<open>hex_to_uint256\<close> reads back
  without error, whatever the destination held.
\<close>

lemma hex_roundtrip:
  assumes "length v = 8" "length old = 8" "65 \<le> n"
  shows "fst (uint256_to_hex v n) = 0 \<and> hex_to_uint256 (snd (uint256_to_hex v n)) old = (0, v)"
  using assms by (rule hex_back)

text \<open>
  \<open>hex_to_uint256\<close> rejects a text that has not 64 characters (-1) or has another character than a
  hexadecimal digit (-2) and leaves its destination as it was; every other text is accepted.
\<close>

lemma hex_to_uint256_errors:
  "(length s \<noteq> 64 \<longrightarrow> hex_to_uint256 s old = (-1, old))
   \<and> (length s = 64 \<and> \<not> list_all c_isxdigit s \<longrightarrow> hex_to_uint256 s old = (-2, old))
   \<and> (length s = 64 \<and> list_all c_isxdigit s \<longrightarrow> fst (hex_to_uint256 s old) = 0)"
proof -
  have "fst (hex_to_uint256 s old) = 0" if s: "length s = 64" "list_all c_isxdigit s"
  proof -
    have "dropWhile c_isxdigit (take 8 (drop (i * 8) s)) = []" for i
      using s(2) by (auto simp: list_all_iff dropWhile_eq_Nil_conv dest!: in_set_takeD in_set_dropD)
    then have "fst (hex_segments is s res) = 0" for "is" res
      by (induction "is" arbitrary: res) (simp_all add: strtoul16_def)
    then show ?thesis using s by (simp add: hex_to_uint256_def)
  qed
  then show ?thesis by (simp add: hex_to_uint256_def)
qed

lemma decstr_80:
  assumes "length v = 8"
  shows "uint256_to_decstr v 80 = fmt_u (limbs_val (rev v)) \<and> length (uint256_to_decstr v 80) \<le> 78"
proof -
  have "limbs_val (rev v) < 2 ^ 256" using limbs_val_less [of "rev v"] assms by simp
  then have "length (fmt_u (limbs_val (rev v))) \<le> 78" by (intro length_fmt_u) simp_all
  then show ?thesis by (simp add: uint256_to_decstr_def decstr_loop_val bytes_val_uint256)
qed

text \<open>
  \<open>uint256_to_decstr\<close> writes the decimal representation without leading zeros, of at most 78 digits (so that
  its 80-byte buffers suffice), of the number whose most significant limb is limb 0, that is of the limbs in reverse
  order, not of the number that the arithmetic and the hexadecimal text mean.
\<close>

lemma uint256_to_decstr_correct:
  assumes "length v = 8"
  shows "uint256_to_decstr v 80 = fmt_u (limbs_val (rev v)) \<and> length (uint256_to_decstr v 80) \<le> 78"
  using assms by (rule decstr_80)

text \<open>
  \<open>uint256_addmod\<close> of two numbers below the modulus, itself at most \<open>2 ^ 255\<close>, is congruent to the sum and is the
  reduced sum, except that a sum equal to the modulus is left as it is (the comparison is strict).
\<close>

lemma uint256_addmod_spec:
  assumes "length a = 8" "length b = 8" "length m = 8" "limbs_val m \<le> 2 ^ 255"
    and "limbs_val a < limbs_val m" "limbs_val b < limbs_val m"
  shows "limbs_val (uint256_addmod a b m) mod limbs_val m = (limbs_val a + limbs_val b) mod limbs_val m
    \<and> limbs_val (uint256_addmod a b m)
      = (if limbs_val a + limbs_val b = limbs_val m then limbs_val m else (limbs_val a + limbs_val b) mod limbs_val m)"
proof -
  have "limbs_val a + limbs_val b < 2 ^ 256" using assms(4-6) by simp
  note v = addmod_val(1) [OF assms(1-3) this]
  have "(limbs_val a + limbs_val b) mod limbs_val m = limbs_val a + limbs_val b - limbs_val m
      \<and> (limbs_val a + limbs_val b - limbs_val m) mod limbs_val m = limbs_val a + limbs_val b - limbs_val m"
    if "limbs_val a + limbs_val b > limbs_val m"
  proof -
    have "limbs_val a + limbs_val b - limbs_val m < limbs_val m" using that assms(5,6) by linarith
    then show ?thesis using that by (simp add: le_mod_geq)
  qed
  then show ?thesis unfolding v by auto
qed

text \<open>
  \<open>uint256_mulmod\<close> is multiplication modulo \<open>m\<close>, for a modulus of at most \<open>2 ^ 255\<close> no nonzero binary prefix of the
  product is a multiple of.
\<close>

lemma uint256_mulmod_correct:
  assumes "length a = 8" "length b = 8" "length m = 8" "0 < limbs_val m" "limbs_val m \<le> 2 ^ 255"
    and "mulmod_good (limbs_val m) (limbs_val a * limbs_val b)"
  shows "limbs_val (uint256_mulmod a b m) = limbs_val a * limbs_val b mod limbs_val m"
  using assms by (rule mulmod_val)

text \<open>
  Without that condition the result may be neither reduced nor right: 7 times 1 modulo 3 comes out as 4, because the
  prefix 3 of the product is left unreduced.
\<close>

lemma uint256_mulmod_wrong:
  "limbs_val (uint256_mulmod [7, 0, 0, 0, 0, 0, 0, 0] [1, 0, 0, 0, 0, 0, 0, 0] [3, 0, 0, 0, 0, 0, 0, 0]) = 4"
proof -
  let ?pr = "big_mul [7, 0, 0, 0, 0, 0, 0, 0] [1, 0, 0, 0, 0, 0, 0, 0]" and ?st = "\<lambda>r i. mm_step 3 r (7 div 2 ^ i mod 2)"
  have pr: "limbs_val ?pr = 7" "length ?pr = 16" by (simp_all add: big_mul_val)
  have "[0..<512] = [0..<3] @ [3..<512]" using upt_add_eq_append [of 0 3 509] by (simp only: le0 add_0 arith_simps)
  moreover have "rev [0..<3] = [2, 1, 0 :: nat]" by (simp add: upt_rec)
  ultimately have "rev [0..<512] = rev [3..<512] @ [2, 1, 0 :: nat]" by (simp only: rev_append)
  then have "foldl ?st 0 (rev [0..<512]) = foldl ?st (foldl ?st 0 (rev [3..<512])) [2, 1, 0]" by (simp only: foldl_append)
  also have "foldl ?st 0 (rev [3..<512]) = 0"
  proof (rule mm_zero_bits)
    fix i assume "i \<in> set (rev [3..<512])"
    then have "3 \<le> i" by (simp only: set_rev set_upt atLeastLessThan_iff)
    then have "(2::nat) ^ 3 \<le> 2 ^ i" by (intro power_increasing) simp_all
    then show "(7::nat) div 2 ^ i mod 2 = 0" by simp
  qed
  also have "foldl ?st 0 [2, 1, 0] = 4" by (simp add: mm_step_def)
  finally have "foldl ?st 0 (rev [0..<512]) = 4" .
  moreover have "limbs_val [3, 0, 0, 0, 0, 0, 0, 0] = 3" "length [3, 0, 0, 0, 0, 0, 0, 0 :: u32] = 8"
    "limbs_val ?pr < 2 ^ 255" using pr(1) by simp_all
  ultimately show ?thesis
    using mulmod_small [of "[3, 0, 0, 0, 0, 0, 0, 0]" ?pr 0] pr by (simp only: uint256_mulmod_def le0)
qed

end
