(* ===== verification/Primality.thy ===== *)
theory Primality
  imports Main
begin

text \<open>
  The number theory behind the primality tests: primes by their divisors, the small theorem of
  Fermat, and why a prime passes the strong test along the chain of squares.
\<close>

definition is_prime :: "nat \<Rightarrow> bool" where
  "is_prime p \<longleftrightarrow> 1 < p \<and> (\<forall>d. d dvd p \<longrightarrow> d = 1 \<or> d = p)"

lemma prime_coprime: "is_prime p \<Longrightarrow> \<not> p dvd k \<Longrightarrow> coprime p k"
  unfolding is_prime_def coprime_iff_gcd_eq_1 by (metis gcd_dvd1 gcd_dvd2)

lemma prime_dvd_mult: "is_prime p \<Longrightarrow> p dvd a * b \<longleftrightarrow> p dvd a \<or> p dvd b"
  using prime_coprime [of p a] coprime_dvd_mult_right_iff [of p a b] by auto

lemma prime_dvd_choose:
  assumes "is_prime p" "0 < k" "k < p"
  shows "p dvd (p choose k)"
proof -
  have "p dvd k * (p choose k)" using assms(2) by (simp add: times_binomial_minus1_eq)
  moreover have "\<not> p dvd k" using assms(2,3) by (auto dest: dvd_imp_le)
  ultimately show ?thesis using prime_dvd_mult [OF assms(1)] by blast
qed

lemma binomial_mod_prime:
  assumes "is_prime p"
  shows "(a + 1) ^ p mod p = (a ^ p + 1) mod p"
proof -
  have p: "1 < p" using assms by (simp add: is_prime_def)
  have "(a + 1) ^ p = (\<Sum>k \<le> p. (p choose k) * a ^ k)" using binomial [of a 1 p] by simp
  also have "{..p} = {0, p} \<union> {1..<p}" by auto
  also have "(\<Sum>k \<in> {0, p} \<union> {1..<p}. (p choose k) * a ^ k)
      = (\<Sum>k \<in> {0, p}. (p choose k) * a ^ k) + (\<Sum>k \<in> {1..<p}. (p choose k) * a ^ k)"
    by (rule sum.union_disjoint) (use p in auto)
  also have "(\<Sum>k \<in> {0, p}. (p choose k) * a ^ k) = a ^ p + 1" using p by simp
  finally have e: "(a + 1) ^ p = a ^ p + 1 + (\<Sum>k \<in> {1..<p}. (p choose k) * a ^ k)" .
  have "p dvd (\<Sum>k \<in> {1..<p}. (p choose k) * a ^ k)"
    by (rule dvd_sum) (simp add: prime_dvd_choose [OF assms])
  then show ?thesis unfolding e by (metis mod_add_right_eq dvd_eq_mod_eq_0 add_0_right)
qed

lemma fermat_mod: "is_prime p \<Longrightarrow> a ^ p mod p = a mod p"
proof (induction a)
  case 0
  then show ?case by (simp add: is_prime_def power_0_left)
next
  case (Suc a)
  then have "Suc a ^ p mod p = (a ^ p + 1) mod p" using binomial_mod_prime [of p a] by simp
  also have "\<dots> = (a + 1) mod p" using Suc by (metis mod_add_left_eq)
  finally show ?case by simp
qed

lemma fermat:
  assumes "is_prime p" "\<not> p dvd a"
  shows "a ^ (p - 1) mod p = 1"
proof -
  have p: "1 < p" using assms(1) by (simp add: is_prime_def)
  have a: "1 \<le> a ^ (p - 1)" using assms(2) by (cases "a = 0") simp_all
  have "a ^ p = a * a ^ (p - 1)" using p by (cases p) simp_all
  then have "a * a ^ (p - 1) mod p = a * 1 mod p" using fermat_mod [OF assms(1), of a] by simp
  then have "p dvd a * a ^ (p - 1) - a * 1" using a by (intro mod_eq_dvd_iff_nat [THEN iffD1]) simp_all
  then have "p dvd a * (a ^ (p - 1) - 1)" by (simp add: right_diff_distrib')
  then have "p dvd a ^ (p - 1) - 1" using assms prime_dvd_mult by blast
  then have "a ^ (p - 1) mod p = 1 mod p" using a by (intro mod_eq_dvd_iff_nat [THEN iffD2]) simp_all
  then show ?thesis using p by simp
qed

lemma square_root_of_one:
  assumes "is_prime p" "x * x mod p = 1"
  shows "x mod p = 1 \<or> x mod p = p - 1"
proof -
  have p: "1 < p" using assms(1) by (simp add: is_prime_def)
  have x: "1 \<le> x" using assms(2) by (cases x) simp_all
  have "x * x mod p = 1 mod p" using assms(2) p by simp
  then have "p dvd x * x - 1" using x by (intro mod_eq_dvd_iff_nat [THEN iffD1]) (simp_all add: mult_le_mono)
  moreover have "x * x - 1 = (x - 1) * (x + 1)"
  proof -
    obtain y where "x = Suc y" using x by (cases x) simp_all
    then show ?thesis by simp
  qed
  ultimately consider "p dvd x - 1" | "p dvd x + 1" using prime_dvd_mult [OF assms(1)] by metis
  then show ?thesis
  proof cases
    case 1
    then have "x mod p = 1 mod p" using x by (intro mod_eq_dvd_iff_nat [THEN iffD2]) simp_all
    then show ?thesis using p by simp
  next
    case 2
    then have "(x mod p + 1) mod p = 0" by (metis mod_add_left_eq dvd_eq_mod_eq_0)
    moreover have "x mod p < p" using p by simp
    ultimately show ?thesis by (cases "x mod p + 1 = p") auto
  qed
qed

lemma strong_fermat_chain:
  assumes "is_prime p"
  shows "a ^ (d * 2 ^ r) mod p = 1 \<Longrightarrow> a ^ d mod p = 1 \<or> (\<exists>j < r. a ^ (d * 2 ^ j) mod p = p - 1)"
proof (induction r)
  case (Suc r)
  have "a ^ (d * 2 ^ r) * a ^ (d * 2 ^ r) mod p = 1" using Suc.prems by (simp flip: power_add add: mult_2 add_mult_distrib2)
  from square_root_of_one [OF assms this] Suc.IH show ?case by (metis less_Suc_eq)
qed simp

end
