(* ===== verification/Prime_number.thy ===== *)
theory Prime_number
  imports Prelude Primality "HOL-Library.Monad_Syntax"
begin

text \<open>
  \<open>Prime_number.c\<close>: trial division, modular exponentiation, the strong test of Miller and Rabin, and the
  generation of a random prime.  Numbers are \<open>unsigned long long\<close>, words of 64 bits whose products wrap around.
  \<open>rand\<close> of the C library is a parameter, the sequence of the values it returns (an \<open>int\<close> each, as its bit pattern),
  and the position in that sequence is threaded through the operations that call it.
\<close>

section \<open>Trial division\<close>

lemma unat_pred_less: "k \<noteq> 0 \<Longrightarrow> unat (k - 1) < unat (k :: 'a::len word)"
  by (simp add: unat_minus_one unat_gt_0)

text \<open>
  The loop ends for every start: a candidate that reaches 1 divides.  Started at 2 it never gets past \<open>n\<close>, so the
  remainder by zero, undefined in C, is not taken.
\<close>

function checknum_loop :: "u64 \<Rightarrow> u64 \<Rightarrow> int" where
  "checknum_loop n i =
     (if i * i \<le> n then (if n mod i = 0 then 0 else checknum_loop n (i + 1)) else 1)"
  by pat_completeness auto
termination
proof (relation "measure (\<lambda>(n, i). unat (1 - i))", simp)
  fix n i :: u64
  assume "n mod i \<noteq> 0"
  then have "i \<noteq> 1" by (auto simp: word_arith_nat_mod)
  then have "unat (1 - i - 1) < unat (1 - i)" by (intro unat_pred_less) simp
  then show "((n, i + 1), n, i) \<in> measure (\<lambda>(n, i). unat (1 - i))" by (simp add: algebra_simps)
qed

declare checknum_loop.simps [simp del]

definition checknum :: "u64 \<Rightarrow> int" where
  "checknum n = (if n < 2 then 0 else checknum_loop n 2)"

section \<open>Modular exponentiation\<close>

function mod_pow_loop :: "u64 \<Rightarrow> u64 \<Rightarrow> u64 \<Rightarrow> u64 \<Rightarrow> u64" where
  "mod_pow_loop m res base e =
     (if e > 0
      then mod_pow_loop m (if e AND 1 \<noteq> 0 then res * base mod m else res) (base * base mod m) (drop_bit 1 e)
      else res)"
  by pat_completeness auto
termination
proof (relation "measure (\<lambda>(m, res, base, e). unat e)", simp)
  fix m res base e :: u64
  assume "0 < e"
  then have "0 < unat e" by (simp add: word_less_nat_alt)
  moreover have "unat (drop_bit 1 e) = unat e div 2" by (simp only: unat_drop_bit_div power_one_right)
  ultimately show "((m, if e AND 1 \<noteq> 0 then res * base mod m else res, base * base mod m, drop_bit 1 e), m, res, base, e)
      \<in> measure (\<lambda>(m, res, base, e). unat e)"
    by simp
qed

declare mod_pow_loop.simps [simp del]

text \<open>The remainder by \<open>mod = 0\<close>, undefined in C, is the dividend here; \<open>miller_rabin\<close> passes at least 5.\<close>

definition mod_pow :: "u64 \<Rightarrow> u64 \<Rightarrow> u64 \<Rightarrow> u64" where
  "mod_pow base e m = mod_pow_loop m 1 (base mod m) e"

section \<open>The strong test\<close>

partial_function (option) mr_strip :: "u64 \<Rightarrow> u64 \<Rightarrow> (u64 \<times> u64) option" where
  "mr_strip r d = (if d mod 2 = 0 then mr_strip (r + 1) (d div 2) else Some (r, d))"

text \<open>The inner loop, \<open>cnt\<close> passes: whether \<open>continueLoop\<close> gets set.\<close>

fun mr_square :: "nat \<Rightarrow> u64 \<Rightarrow> u64 \<Rightarrow> bool" where
  "mr_square 0 x n = False"
| "mr_square (Suc cnt) x n = (let x = mod_pow x 2 n in if x = n - 1 then True else mr_square cnt x n)"

fun mr_rounds :: "(nat \<Rightarrow> u32) \<Rightarrow> u64 \<Rightarrow> u64 \<Rightarrow> u64 \<Rightarrow> nat \<Rightarrow> nat \<Rightarrow> int \<times> nat" where
  "mr_rounds rand n r d 0 pos = (1, pos)"
| "mr_rounds rand n r d (Suc k) pos =
     (let a = 2 + scast (rand pos) mod (n - 3);
          x = mod_pow a d n
      in if x = 1 \<or> x = n - 1 then mr_rounds rand n r d k (Suc pos)
         else if \<not> mr_square (unat (r - 1)) x n then (0, Suc pos)
         else mr_rounds rand n r d k (Suc pos))"

definition miller_rabin :: "(nat \<Rightarrow> u32) \<Rightarrow> u64 \<Rightarrow> int \<Rightarrow> nat \<Rightarrow> (int \<times> nat) option" where
  "miller_rabin rand n k pos =
     (if n \<le> 1 then Some (0, pos)
      else if n = 2 \<or> n = 3 then Some (1, pos)
      else if n mod 2 = 0 then Some (0, pos)
      else do { (r, d) \<leftarrow> mr_strip 0 (n - 1); Some (mr_rounds rand n r d (nat k) pos) })"

section \<open>Random odd numbers and primes\<close>

text \<open>The two calls of \<open>rand\<close> in the expression are taken from left to right.\<close>

definition odd_candidate :: "u32 \<Rightarrow> u32 \<Rightarrow> u64 \<Rightarrow> u64 \<Rightarrow> u64" where
  "odd_candidate r0 r1 lo hi =
     (let candidate = (push_bit 32 (scast r0) OR scast r1) AND hi;
          candidate = candidate OR lo
      in candidate OR 1)"

partial_function (option) odd_loop :: "(nat \<Rightarrow> u32) \<Rightarrow> u64 \<Rightarrow> u64 \<Rightarrow> nat \<Rightarrow> (u64 \<times> nat) option" where
  "odd_loop rand lo hi pos =
     (let candidate = odd_candidate (rand pos) (rand (Suc pos)) lo hi
      in if candidate < lo \<or> candidate > hi then odd_loop rand lo hi (Suc (Suc pos))
         else Some (candidate, Suc (Suc pos)))"

text \<open>For \<open>bits\<close> from 1 to 63, where the shifts are defined.\<close>

definition generate_odd_number :: "(nat \<Rightarrow> u32) \<Rightarrow> nat \<Rightarrow> nat \<Rightarrow> (u64 \<times> nat) option" where
  "generate_odd_number rand bits pos = odd_loop rand (push_bit (bits - 1) 1) (push_bit bits 1 - 1) pos"

partial_function (option) creat_number :: "(nat \<Rightarrow> u32) \<Rightarrow> nat \<Rightarrow> nat \<Rightarrow> (u64 \<times> nat) option" where
  "creat_number rand bits pos = do {
     (p, pos) \<leftarrow> generate_odd_number rand bits pos;
     (ok, pos) \<leftarrow> miller_rabin rand p 5 pos;
     if ok \<noteq> 0 then Some (p, pos) else creat_number rand bits pos }"

section \<open>Trial division decides primality\<close>

lemma no_small_divisor_prime:
  assumes "2 \<le> n" and small: "\<And>d. 2 \<le> d \<Longrightarrow> d < i \<Longrightarrow> \<not> d dvd n" and "n < i * i"
  shows "is_prime n"
  unfolding is_prime_def
proof (intro conjI allI impI)
  fix d assume "d dvd n"
  then obtain e where n: "n = d * e" by (auto elim: dvdE)
  show "d = 1 \<or> d = n"
  proof (rule ccontr)
    assume "\<not> (d = 1 \<or> d = n)"
    then have "2 \<le> d" "2 \<le> e" using n assms(1) by (cases d; cases e; auto simp: Suc_le_eq)+
    then have "i \<le> d" "i \<le> e" using small [of d] small [of e] n by (auto intro: leI)
    then have "i * i \<le> d * e" by (rule mult_le_mono)
    then show False using assms(3) n by simp
  qed
qed (use assms(1) in simp)

lemma composite_not_prime: "d dvd n \<Longrightarrow> 2 \<le> d \<Longrightarrow> d < n \<Longrightarrow> \<not> is_prime n"
  unfolding is_prime_def by auto

lemma checknum_loop_correct:
  "2 \<le> unat i \<Longrightarrow> unat i < 2 ^ 32 \<Longrightarrow> 2 \<le> unat n \<Longrightarrow> unat n < (2 ^ 32 - 1) * (2 ^ 32 - 1) \<Longrightarrow>
   (\<And>d. 2 \<le> d \<Longrightarrow> d < unat i \<Longrightarrow> \<not> d dvd unat n) \<Longrightarrow>
   checknum_loop n i = (if is_prime (unat n) then 1 else 0)"
proof (induction n i rule: checknum_loop.induct)
  case (1 n i)
  have "unat i * unat i \<le> (2 ^ 32 - 1) * (2 ^ 32 - 1)" using "1.prems"(2) by (intro mult_le_mono) simp_all
  then have sq: "unat (i * i) = unat i * unat i" by (intro unat_mult_small) simp
  have md: "n mod i = 0 \<longleftrightarrow> unat i dvd unat n" by (simp add: word_unat_eq_iff unat_mod dvd_eq_mod_eq_0)
  show ?case
  proof (cases "i * i \<le> n")
    case False
    then have "unat n < unat i * unat i" by (simp add: word_le_nat_alt sq)
    then have "is_prime (unat n)" using "1.prems" by (intro no_small_divisor_prime)
    then show ?thesis using False by (subst checknum_loop.simps) simp
  next
    case le: True
    then have le': "unat i * unat i \<le> unat n" by (simp add: word_le_nat_alt sq)
    show ?thesis
    proof (cases "n mod i = 0")
      case True
      have "2 * unat i \<le> unat i * unat i" using "1.prems"(1) by (rule mult_le_mono1)
      then have "unat i < unat n" using le' "1.prems"(1) by linarith
      then have "\<not> is_prime (unat n)" using composite_not_prime md True "1.prems"(1) by blast
      then show ?thesis using True le by (subst checknum_loop.simps) simp
    next
      case False
      have "\<not> 2 ^ 32 - 1 \<le> unat i"
      proof
        assume "2 ^ 32 - 1 \<le> unat i"
        then have "(2 ^ 32 - 1) * (2 ^ 32 - 1) \<le> unat i * unat i" by (intro mult_le_mono)
        then show False using le' "1.prems"(4) by linarith
      qed
      then have i1: "unat (i + 1) = unat i + 1" "unat i + 1 < 2 ^ 32" by (simp_all add: unat_add_small)
      have "checknum_loop n (i + 1) = (if is_prime (unat n) then 1 else 0)"
      proof (rule "1.IH" [OF le False])
        fix d assume d: "2 \<le> d" "d < unat (i + 1)"
        then show "\<not> d dvd unat n" using "1.prems"(5) md False i1 by (cases "d = unat i") auto
      qed (use i1 "1.prems" in simp_all)
      then show ?thesis using le False by (subst checknum_loop.simps) simp
    qed
  qed
qed

lemma checknum_val:
  assumes "unat n < (2 ^ 32 - 1) * (2 ^ 32 - 1)"
  shows "checknum n = (if is_prime (unat n) then 1 else 0)"
proof (cases "n < 2")
  case True
  then have "\<not> is_prime (unat n)" by (auto simp: is_prime_def word_less_nat_alt)
  then show ?thesis using True by (simp add: checknum_def)
next
  case False
  then have "2 \<le> unat n" by (simp add: word_less_nat_alt)
  then have "checknum_loop n 2 = (if is_prime (unat n) then 1 else 0)"
    by (intro checknum_loop_correct assms) simp_all
  then show ?thesis using False by (simp add: checknum_def)
qed

section \<open>Exponentiation modulo a 32-bit number\<close>

lemma unat_mulmod_small:
  assumes "unat (m :: u64) \<le> 2 ^ 32" "unat a < unat m" "unat b < unat m"
  shows "unat (a * b mod m) = unat a * unat b mod unat m"
proof -
  have "unat a * unat b < unat m * unat m" using assms(2,3) by (intro mult_strict_mono) simp_all
  also have "\<dots> \<le> 2 ^ 32 * 2 ^ 32" using assms(1) by (intro mult_le_mono)
  finally show ?thesis by (simp add: unat_mod unat_mult_small)
qed

lemma unat_and_1: "unat (e AND 1 :: u64) = unat e mod 2"
  unfolding and_one_eq by (simp add: unat_mod odd_iff_mod_2_eq_one [symmetric])

lemma mod_pow_step: "(if odd e then b else 1) * (b * b) ^ (e div 2) = b ^ e" for b e :: nat
proof -
  have sq: "(b * b) ^ k = b ^ (2 * k)" for k by (simp add: power_mult power2_eq_square)
  show ?thesis
  proof (cases "odd e")
    case True
    then obtain k where "e = 2 * k + 1" by (rule oddE)
    then show ?thesis by (simp add: sq)
  next
    case False
    then obtain k where "e = 2 * k" by auto
    then show ?thesis by (simp add: sq)
  qed
qed

lemma mod_mul_power: "(r mod m) * (b mod m) ^ k mod m = r * b ^ k mod m" for r b m :: nat
  by (rule mod_mult_cong) (simp_all add: power_mod)

lemma mod_pow_loop_val:
  "1 < unat m \<Longrightarrow> unat m \<le> 2 ^ 32 \<Longrightarrow> unat res < unat m \<Longrightarrow> unat base < unat m \<Longrightarrow>
   unat (mod_pow_loop m res base e) = unat res * unat base ^ unat e mod unat m"
proof (induction m res base e rule: mod_pow_loop.induct)
  case (1 m res base e)
  show ?case
  proof (cases "0 < e")
    case False
    then have "e = 0" by (simp add: word_neq_0_conv [symmetric])
    then show ?thesis using "1.prems"(3) by (subst mod_pow_loop.simps) simp
  next
    case True
    let ?r = "if e AND 1 \<noteq> 0 then res * base mod m else res" and ?b = "base * base mod m"
    have e: "unat (drop_bit 1 e) = unat e div 2" by (simp only: unat_drop_bit_div power_one_right)
    have b: "unat ?b = unat base * unat base mod unat m" using "1.prems" by (intro unat_mulmod_small)
    have "e AND 1 \<noteq> 0 \<longleftrightarrow> odd (unat e)" by (simp add: word_unat_eq_iff [of "e AND 1"] unat_and_1 odd_iff_mod_2_eq_one)
    moreover have "unat (res * base mod m) = unat res * unat base mod unat m" using "1.prems" by (intro unat_mulmod_small)
    ultimately have r: "unat ?r = unat res * (if odd (unat e) then unat base else 1) mod unat m"
      using "1.prems"(3) by simp
    have "unat (mod_pow_loop m res base e) = unat (mod_pow_loop m ?r ?b (drop_bit 1 e))"
      using True by (subst mod_pow_loop.simps) simp
    also have "\<dots> = unat ?r * unat ?b ^ unat (drop_bit 1 e) mod unat m"
      using "1.prems" r b by (intro "1.IH" [OF True]) simp_all
    also have "\<dots> = unat res * ((if odd (unat e) then unat base else 1) * (unat base * unat base) ^ (unat e div 2)) mod unat m"
      unfolding r b e mod_mul_power by (simp only: mult.assoc)
    finally show ?thesis by (simp only: mod_pow_step)
  qed
qed

lemma mod_pow_val:
  assumes "1 < unat m" "unat m \<le> 2 ^ 32"
  shows "unat (mod_pow b e m) = unat b ^ unat e mod unat m"
proof -
  have "unat (mod_pow b e m) = unat (1 :: u64) * unat (b mod m) ^ unat e mod unat m"
    unfolding mod_pow_def using assms by (intro mod_pow_loop_val) (simp_all add: unat_mod)
  then show ?thesis by (simp add: unat_mod power_mod)
qed

section \<open>The strong test accepts every prime\<close>

lemma mr_strip_some:
  "0 < unat d \<Longrightarrow> unat r + unat d < 2 ^ 64 \<Longrightarrow>
   \<exists>k d'. mr_strip r d = Some (r + of_nat k, d') \<and> unat d = unat d' * 2 ^ k \<and> odd (unat d') \<and> k < unat d"
proof (induction "unat d" arbitrary: r d rule: less_induct)
  case less
  have ev: "d mod 2 = 0 \<longleftrightarrow> even (unat d)" by (simp add: word_unat_eq_iff unat_mod even_iff_mod_2_eq_zero)
  show ?case
  proof (cases "d mod 2 = 0")
    case False
    then have "mr_strip r d = Some (r + of_nat 0, d)" by (subst mr_strip.simps) simp
    moreover have "odd (unat d)" using ev False by blast
    ultimately show ?thesis using less.prems(1) by (intro exI [of _ 0] exI [of _ d]) simp
  next
    case True
    have h: "unat (d div 2) = unat d div 2" by (simp add: unat_div)
    have d: "unat d = 2 * (unat d div 2)" using True ev by simp
    then have pos: "0 < unat d div 2" using less.prems(1) by linarith
    have r1: "unat (r + 1) = unat r + 1" using less.prems unat_add_small [of r 1] by simp
    have "\<exists>k d'. mr_strip (r + 1) (d div 2) = Some (r + 1 + of_nat k, d') \<and> unat (d div 2) = unat d' * 2 ^ k
        \<and> odd (unat d') \<and> k < unat (d div 2)"
      using pos d less.prems by (intro less.hyps) (simp_all add: h r1)
    then obtain k d' where k: "mr_strip (r + 1) (d div 2) = Some (r + 1 + of_nat k, d')"
      "unat (d div 2) = unat d' * 2 ^ k" "odd (unat d')" "k < unat (d div 2)" by blast
    have "mr_strip r d = Some (r + of_nat (Suc k), d')"
      using k(1) True by (subst mr_strip.simps) (simp add: algebra_simps)
    moreover have "unat d = unat d' * 2 ^ Suc k" using k(2) d h by simp
    ultimately show ?thesis using k(3,4) h d by (intro exI [of _ "Suc k"] exI [of _ d']) simp
  qed
qed

lemma mr_square_finds:
  assumes "1 < unat n" "unat n \<le> 2 ^ 32"
  shows "unat x = a ^ d mod unat n \<Longrightarrow> 0 < j \<Longrightarrow> j \<le> cnt \<Longrightarrow> a ^ (d * 2 ^ j) mod unat n = unat n - 1 \<Longrightarrow>
    mr_square cnt x n"
proof (induction cnt arbitrary: x d j)
  case (Suc cnt)
  have x2: "unat (mod_pow x 2 n) = a ^ (d * 2) mod unat n"
    using mod_pow_val [OF assms, of x 2] Suc.prems(1) by (simp add: power_mod power_mult)
  have n1: "unat (n - 1) = unat n - 1" using assms(1) by (intro unat_minus_one) auto
  show ?case
  proof (cases "j = 1")
    case True
    then have "mod_pow x 2 n = n - 1" using x2 n1 Suc.prems(4) by (simp add: word_unat_eq_iff)
    then show ?thesis by simp
  next
    case False
    then obtain i where i: "j = Suc i" "0 < i" using Suc.prems(2) by (cases j) auto
    have "mr_square cnt (mod_pow x 2 n) n"
      using Suc.prems i by (intro Suc.IH [OF x2, of i]) (simp_all add: mult.assoc)
    then show ?thesis by (simp add: Let_def)
  qed
qed simp

lemma mr_base_range:
  assumes "5 \<le> unat n"
  shows "2 \<le> unat (2 + w mod (n - 3) :: u64)" "unat (2 + w mod (n - 3)) < unat n"
proof -
  have "unat (n - 3) = unat n - 3" using assms unat_sub [of 3 n] by (simp add: word_le_nat_alt)
  moreover from this have "unat (w mod (n - 3)) < unat n - 3" using assms by (simp add: unat_mod)
  ultimately have "unat (w mod (n - 3)) + 2 < unat n" by linarith
  moreover from this have "unat (2 + w mod (n - 3)) = 2 + unat (w mod (n - 3))"
    using unat_u64_less [of n] by (subst unat_add_small) simp_all
  ultimately show "2 \<le> unat (2 + w mod (n - 3) :: u64)" "unat (2 + w mod (n - 3)) < unat n" by simp_all
qed

lemma mr_base_passes:
  assumes prime: "is_prime (unat n)" and n: "5 \<le> unat n" "unat n \<le> 2 ^ 32"
    and d: "unat n - 1 = unat d * 2 ^ k" and a: "2 \<le> unat a" "unat a < unat n"
  shows "mod_pow a d n = 1 \<or> mod_pow a d n = n - 1 \<or> mr_square (k - 1) (mod_pow a d n) n"
proof -
  have x: "unat (mod_pow a d n) = unat a ^ unat d mod unat n" using n by (intro mod_pow_val) simp_all
  have n1: "unat (n - 1) = unat n - 1" using n(1) by (intro unat_minus_one) auto
  have "\<not> unat n dvd unat a" using a by (auto dest: dvd_imp_le)
  then have "unat a ^ (unat d * 2 ^ k) mod unat n = 1" using fermat [OF prime] d by metis
  then consider "unat a ^ unat d mod unat n = 1" | j where "j < k" "unat a ^ (unat d * 2 ^ j) mod unat n = unat n - 1"
    using strong_fermat_chain [OF prime] by blast
  then show ?thesis
  proof cases
    case 1
    then show ?thesis using x by (simp add: word_unat_eq_iff)
  next
    case (2 j)
    show ?thesis
    proof (cases "j = 0")
      case True
      then have "mod_pow a d n = n - 1" using x n1 2 by (simp add: word_unat_eq_iff)
      then show ?thesis by simp
    next
      case False
      then show ?thesis using mr_square_finds [OF _ n(2) x, of j "k - 1"] 2 n(1) by simp
    qed
  qed
qed

lemma mr_rounds_prime:
  assumes "is_prime (unat n)" "5 \<le> unat n" "unat n \<le> 2 ^ 32" "unat n - 1 = unat d * 2 ^ j" "unat (r - 1) = j - 1"
  shows "mr_rounds rand n r d k pos = (1, pos + k)"
proof (induction k arbitrary: pos)
  case (Suc k)
  let ?a = "2 + scast (rand pos) mod (n - 3) :: u64"
  have "mod_pow ?a d n = 1 \<or> mod_pow ?a d n = n - 1 \<or> mr_square (unat (r - 1)) (mod_pow ?a d n) n"
    unfolding assms(5) using mr_base_range [OF assms(2)] by (intro mr_base_passes assms)
  then show ?case using Suc.IH [of "Suc pos"] by (auto simp: Let_def)
qed simp

lemma mr_rounds_result: "fst (mr_rounds rand n r d k pos) \<in> {0, 1}"
  by (induction k arbitrary: pos) (simp_all add: Let_def)

lemma miller_rabin_strip:
  assumes "\<not> n \<le> 1" "n mod 2 \<noteq> 0" "n \<noteq> 3"
  obtains j d where "miller_rabin rand n k pos = Some (mr_rounds rand n (of_nat j) d (nat k) pos)"
    "unat n - 1 = unat d * 2 ^ j" "0 < j" "j < 2 ^ 64" "5 \<le> unat n"
proof -
  have odd: "odd (unat n)" using assms(2) by (simp add: word_unat_eq_iff [of "n mod 2"] unat_mod odd_iff_mod_2_eq_one)
  have "unat n \<noteq> 1" "unat n \<noteq> 3" using assms by (auto simp: word_le_nat_alt word_unat_eq_iff)
  then have n5: "5 \<le> unat n" using odd assms(1) by (cases "unat n \<in> {0, 1, 2, 3, 4}") (auto simp: word_le_nat_alt)
  have n1: "unat (n - 1) = unat n - 1" using n5 by (intro unat_minus_one) auto
  obtain j d where j: "mr_strip 0 (n - 1) = Some (0 + of_nat j, d)" "unat (n - 1) = unat d * 2 ^ j" "odd (unat d)"
    "j < unat (n - 1)"
    using mr_strip_some [of "n - 1" 0] n1 n5 unat_u64_less [of "n - 1"] by auto
  have "even (unat (n - 1))" using n1 odd by simp
  then have "0 < j" using j(2,3) by (cases j) auto
  moreover have "j < 2 ^ 64" using j(4) unat_u64_less [of "n - 1"] by simp
  moreover have "miller_rabin rand n k pos = Some (mr_rounds rand n (of_nat j) d (nat k) pos)"
    using assms n5 j(1) by (auto simp: miller_rabin_def)
  ultimately show ?thesis using that j(2) n1 n5 by metis
qed

lemma miller_rabin_prime:
  assumes "is_prime (unat n)" "unat n \<le> 2 ^ 32"
  shows "\<exists>pos'. miller_rabin rand n k pos = Some (1, pos')"
proof -
  have gt: "\<not> n \<le> 1" using assms(1) by (auto simp: is_prime_def word_le_nat_alt)
  show ?thesis
  proof (cases "n = 2 \<or> n = 3")
    case True
    then show ?thesis using gt by (simp add: miller_rabin_def)
  next
    case False
    have "n mod 2 \<noteq> 0"
    proof
      assume "n mod 2 = 0"
      then have "2 dvd unat n" by (simp add: word_unat_eq_iff [of "n mod 2"] unat_mod dvd_eq_mod_eq_0)
      then show False using assms(1) False by (auto simp: is_prime_def word_unat_eq_iff)
    qed
    then obtain j d where m: "miller_rabin rand n k pos = Some (mr_rounds rand n (of_nat j) d (nat k) pos)"
      "unat n - 1 = unat d * 2 ^ j" "0 < j" "j < 2 ^ 64" "5 \<le> unat n"
      using miller_rabin_strip [OF gt] False by blast
    have "of_nat j - 1 = (of_nat (j - 1) :: u64)" using m(3) by simp
    then have "unat (of_nat j - 1 :: u64) = j - 1" using m(4) by (simp only: unat_of_nat take_bit_eq_mod) simp
    then show ?thesis using mr_rounds_prime [OF assms(1) m(5) assms(2) m(2)] m(1) by simp
  qed
qed

lemma miller_rabin_total: "\<exists>res pos'. miller_rabin rand n k pos = Some (res, pos') \<and> res \<in> {0, 1}"
proof (cases "n \<le> 1 \<or> n = 2 \<or> n = 3 \<or> n mod 2 = 0")
  case True
  then consider "n \<le> 1" | "\<not> n \<le> 1" "n = 2 \<or> n = 3" | "\<not> n \<le> 1" "\<not> (n = 2 \<or> n = 3)" "n mod 2 = 0" by blast
  then show ?thesis by cases (simp_all only: miller_rabin_def if_P if_not_P, auto)
next
  case False
  then obtain j d where "miller_rabin rand n k pos = Some (mr_rounds rand n (of_nat j) d (nat k) pos)"
    using miller_rabin_strip by metis
  then show ?thesis using mr_rounds_result [of rand n "of_nat j" d "nat k" pos]
    by (cases "mr_rounds rand n (of_nat j) d (nat k) pos") auto
qed

section \<open>What the generators return\<close>

lemma odd_candidate_range:
  assumes "0 < bits" "bits < 64"
  shows "push_bit (bits - 1) 1 \<le> odd_candidate r0 r1 (push_bit (bits - 1) 1) (push_bit bits 1 - 1)"
    and "odd_candidate r0 r1 (push_bit (bits - 1) 1) (push_bit bits 1 - 1) \<le> push_bit bits 1 - 1"
    and "odd (unat (odd_candidate r0 r1 lo hi))"
    and "unat (odd_candidate r0 r1 (push_bit (bits - 1) 1) (push_bit bits 1 - 1)) < 2 ^ bits"
proof -
  let ?c = "odd_candidate r0 r1 (push_bit (bits - 1) 1) (push_bit bits 1 - 1)"
  have hi: "push_bit bits 1 - 1 = (mask bits :: u64)" by (simp add: mask_eq_exp_minus_1 push_bit_eq_mult)
  have c: "?c AND mask bits = ?c"
    unfolding hi by (rule bit_word_eqI) (use assms in \<open>auto simp: odd_candidate_def bit_simps hi\<close>)
  show "push_bit (bits - 1) 1 \<le> ?c"
    unfolding odd_candidate_def Let_def by (rule order_trans [OF le_word_or1 le_word_or2])
  have "?c AND mask bits \<le> mask bits" by (rule word_and_le1)
  then show "?c \<le> push_bit bits 1 - 1" using c hi by simp
  show "odd (unat (odd_candidate r0 r1 lo hi))"
    unfolding bit_0 [symmetric] bit_unsigned_iff by (simp add: odd_candidate_def Let_def bit_or_iff)
  have "?c = take_bit bits ?c" using c by (simp add: take_bit_eq_mask)
  then have "unat ?c = unat ?c mod 2 ^ bits" by (metis unat_take_bit_mod)
  then show "unat ?c < 2 ^ bits" by (metis mod_less_divisor zero_less_power zero_less_numeral)
qed

lemma generate_odd_number_val:
  assumes "0 < bits" "bits < 64"
  shows "generate_odd_number rand bits pos
    = Some (odd_candidate (rand pos) (rand (Suc pos)) (push_bit (bits - 1) 1) (push_bit bits 1 - 1), Suc (Suc pos))"
  unfolding generate_odd_number_def
  by (subst odd_loop.simps) (use odd_candidate_range(1,2) [OF assms] in \<open>simp only: Let_def not_less [symmetric] simp_thms if_False\<close>)

lemma generate_odd_number_range:
  assumes "generate_odd_number rand bits pos = Some (c, pos')" "0 < bits" "bits < 64"
  shows "odd (unat c)" "2 ^ (bits - 1) \<le> unat c" "unat c < 2 ^ bits" "pos' = Suc (Suc pos)"
proof -
  let ?c = "odd_candidate (rand pos) (rand (Suc pos)) (push_bit (bits - 1) 1) (push_bit bits 1 - 1)"
  have c: "c = ?c" "pos' = Suc (Suc pos)" using assms(1) generate_odd_number_val [OF assms(2,3)] by simp_all
  show "odd (unat c)" "unat c < 2 ^ bits" unfolding c(1) by (rule odd_candidate_range [OF assms(2,3)])+
  have "unat (push_bit (bits - 1) 1 :: u64) = 2 ^ (bits - 1)"
    unfolding unat_push_bit_mod using assms(3) power_strict_increasing [of "bits - 1" 64 "2 :: nat"] by simp
  then show "2 ^ (bits - 1) \<le> unat c"
    using odd_candidate_range(1) [OF assms(2,3), of "rand pos" "rand (Suc pos)"] unfolding c(1) word_le_nat_alt by simp
qed (use assms generate_odd_number_val [OF assms(2,3)] in simp)

lemma creat_number_result:
  "creat_number rand bits pos = Some (p, pos') \<Longrightarrow> \<exists>pos1 pos2 ok. generate_odd_number rand bits pos1 = Some (p, pos2)
     \<and> miller_rabin rand p 5 pos2 = Some (ok, pos') \<and> ok \<noteq> 0"
proof -
  assume "creat_number rand bits pos = Some (p, pos')"
  then show ?thesis
    using creat_number.raw_induct [of "\<lambda>rand bits pos y. \<exists>pos1 pos2 ok. generate_odd_number rand bits pos1 = Some (fst y, pos2)
       \<and> miller_rabin rand (fst y) 5 pos2 = Some (ok, snd y) \<and> ok \<noteq> 0" rand bits pos "(p, pos')"]
    by (fastforce simp: bind_eq_Some_conv split: prod.splits if_splits)
qed

text \<open>
  Trial division (\<open>checknum\<close>) decides primality for every number below \<open>(2^32 - 1)^2\<close>, and the modular power
  (\<open>mod_pow\<close>) is the power for every modulus from 2 to \<open>2^32\<close>; beyond, the 64-bit products wrap around.
\<close>

lemma checknum_mod_pow_correct:
  "(unat n < (2 ^ 32 - 1) * (2 ^ 32 - 1) \<longrightarrow> checknum n = (if is_prime (unat n) then 1 else 0))
   \<and> (1 < unat m \<and> unat m \<le> 2 ^ 32 \<longrightarrow> unat (mod_pow b e m) = unat b ^ unat e mod unat m)"
  using checknum_val mod_pow_val by blast

text \<open>
  C39. The strong test (\<open>miller_rabin\<close>) always returns 0 or 1, whatever \<open>rand\<close> returns, and it never rejects a prime of
  at most 32 bits, for any number of rounds.
\<close>

theorem miller_rabin_accepts_primes:
  "(\<exists>res pos'. miller_rabin rand n k pos = Some (res, pos') \<and> res \<in> {0, 1})
   \<and> (is_prime (unat n) \<and> unat n \<le> 2 ^ 32 \<longrightarrow> (\<exists>pos'. miller_rabin rand n k pos = Some (1, pos')))"
  using miller_rabin_total miller_rabin_prime by blast

theorem miller_rabin_accepts_primes_witness:
  "\<exists>pos'. miller_rabin (\<lambda>i. of_nat (7 * i)) 13 5 0 = Some (1, pos')"
proof -
  have "is_prime 13" using checknum_val [of 13] by (simp add: checknum_def checknum_loop.simps split: if_splits)
  then show ?thesis using miller_rabin_accepts_primes [of "\<lambda>i. of_nat (7 * i)" 13 5 0] by simp
qed

lemma draw_2147483659:
  "mod_pow 2 1073741829 2147483659 = 2147483658" "mr_strip 0 2147483658 = Some (1, 1073741829)"
  "odd_candidate 0 11 2147483648 4294967295 = 2147483659"
  by (simp_all add: mod_pow_def mod_pow_loop.simps mr_strip.simps odd_candidate_def Let_def)

lemma creat_sample: "creat_number (\<lambda>i. if i = 1 then 11 else 0) 32 0 = Some (2147483659, 7)"
proof -
  let ?r = "\<lambda>i :: nat. if i = 1 then 11 else 0 :: u32"
  have g: "generate_odd_number ?r 32 0 = Some (2147483659, 2)"
    using generate_odd_number_val [of 32 ?r 0] draw_2147483659(3) by (simp add: numeral_2_eq_2)
  have "mr_rounds ?r 2147483659 1 1073741829 5 2 = (1, 7)"
    using draw_2147483659(1) by (simp add: eval_nat_numeral Let_def)
  then have "miller_rabin ?r 2147483659 5 2 = Some (1, 7)"
    using draw_2147483659(2) by (simp add: miller_rabin_def word_le_nat_alt)
  then show ?thesis using g by (subst creat_number.simps) simp
qed

text \<open>
  \<open>creat_number\<close> with 32 bits: a number it returns is odd, has its top bit at position 31 and passed five rounds of
  the strong test; and it returns as soon as the candidate drawn is a prime, with that prime.
\<close>

lemma creat_number_spec:
  "(creat_number rand 32 pos = Some (p, pos') \<longrightarrow> odd (unat p) \<and> 2 ^ 31 \<le> unat p \<and> unat p < 2 ^ 32
      \<and> (\<exists>pos1. miller_rabin rand p 5 pos1 = Some (1, pos')))
   \<and> (\<exists>c. generate_odd_number rand 32 pos = Some (c, Suc (Suc pos))
      \<and> (is_prime (unat c) \<longrightarrow> (\<exists>pos'. creat_number rand 32 pos = Some (c, pos'))))"
proof (intro conjI impI)
  assume "creat_number rand 32 pos = Some (p, pos')"
  then obtain pos1 pos2 ok where g: "generate_odd_number rand 32 pos1 = Some (p, pos2)"
    and m: "miller_rabin rand p 5 pos2 = Some (ok, pos')" "ok \<noteq> 0" using creat_number_result by blast
  show "odd (unat p)" "2 ^ 31 \<le> unat p" "unat p < 2 ^ 32" using generate_odd_number_range [OF g] by simp_all
  have "ok = 1" using m miller_rabin_total [of rand p 5 pos2] by auto
  then show "\<exists>pos1. miller_rabin rand p 5 pos1 = Some (1, pos')" using m(1) by blast
next
  obtain c where g: "generate_odd_number rand 32 pos = Some (c, Suc (Suc pos))"
    using generate_odd_number_val [of 32 rand pos] by simp
  have "\<exists>pos'. creat_number rand 32 pos = Some (c, pos')" if pr: "is_prime (unat c)"
  proof -
    have "unat c \<le> 2 ^ 32" using generate_odd_number_range(3) [OF g] by simp
    then obtain pos' where "miller_rabin rand c 5 (Suc (Suc pos)) = Some (1, pos')" using miller_rabin_prime [OF pr] by blast
    then show ?thesis using g by (subst creat_number.simps) simp
  qed
  then show "\<exists>c. generate_odd_number rand 32 pos = Some (c, Suc (Suc pos))
      \<and> (is_prime (unat c) \<longrightarrow> (\<exists>pos'. creat_number rand 32 pos = Some (c, pos')))" using g by blast
qed

end
