(* ===== verification/C_Text.thy ===== *)
theory C_Text
  imports Prelude
begin

text \<open>
  Reading text the way the C library does: the words \<open>sscanf\<close> stores for a format of \<open>%s\<close> conversions, and the
  number \<open>strtol\<close> reads in base ten.  A word that does not fit its buffer is a write past the end of the buffer; the
  result is then \<open>None\<close>.
\<close>

section \<open>Words\<close>

function c_words :: "string \<Rightarrow> string list" where
  "c_words s =
     (let t = dropWhile c_isspace s
      in if t = [] then []
         else takeWhile (\<lambda>c. \<not> c_isspace c) t # c_words (dropWhile (\<lambda>c. \<not> c_isspace c) t))"
  by pat_completeness auto
termination
proof (relation "measure length", simp)
  fix s t :: string
  assume t: "t = dropWhile c_isspace s" "t \<noteq> []"
  then have "\<not> c_isspace (hd t)" using hd_dropWhile [of c_isspace s] by simp
  then obtain x t' where "t = x # t'" "\<not> c_isspace x" using t(2) by (cases t) auto
  then have "length (dropWhile (\<lambda>c. \<not> c_isspace c) t) < length t"
    by (simp add: le_imp_less_Suc length_dropWhile_le)
  also have "length t \<le> length s" unfolding t(1) by (rule length_dropWhile_le)
  finally show "(dropWhile (\<lambda>c. \<not> c_isspace c) t, s) \<in> measure length" by simp
qed

declare c_words.simps [simp del]

text \<open>The destinations are pairs of a buffer's size and its content, which stays when the text has no word for it.\<close>

fun store_words :: "(nat \<times> string) list \<Rightarrow> string list \<Rightarrow> string list option" where
  "store_words [] ws = Some []"
| "store_words ((n, old) # ds) [] = Some (old # map snd ds)"
| "store_words ((n, old) # ds) (w # ws) =
     (if length w < n then map_option (Cons w) (store_words ds ws) else None)"

definition sscanf_words :: "string \<Rightarrow> (nat \<times> string) list \<Rightarrow> string list option" where
  "sscanf_words s ds = store_words ds (c_words s)"

definition plain_word :: "string \<Rightarrow> bool" where
  "plain_word w \<longleftrightarrow> w \<noteq> [] \<and> list_all (\<lambda>c. \<not> c_isspace c) w"

text \<open>Words joined by single spaces.\<close>

fun spaced :: "string list \<Rightarrow> string" where
  "spaced [] = []"
| "spaced [w] = w"
| "spaced (w # v # ws) = w @ '' '' @ spaced (v # ws)"

lemma space_isspace [simp]: "c_isspace CHR '' ''"
  by (simp add: c_isspace_def)

lemma c_words_Nil [simp]: "c_words [] = []"
  by (simp add: c_words.simps)

lemma c_words_space: "c_words (CHR '' '' # s) = c_words s"
  by (subst (1 2) c_words.simps) simp

lemma c_words_word:
  assumes "plain_word w" "s = [] \<or> c_isspace (hd s)"
  shows "c_words (w @ s) = w # c_words s"
proof -
  obtain c w' where w: "w = c # w'" "\<not> c_isspace c" "list_all (\<lambda>c. \<not> c_isspace c) w'"
    using assms(1) by (cases w) (auto simp: plain_word_def)
  have s: "takeWhile (\<lambda>c. \<not> c_isspace c) s = []" "dropWhile (\<lambda>c. \<not> c_isspace c) s = s"
    using assms(2) by (cases s; simp)+
  have "takeWhile (\<lambda>c. \<not> c_isspace c) (w' @ s) = w'" "dropWhile (\<lambda>c. \<not> c_isspace c) (w' @ s) = s"
    using w(3) s by (simp_all add: takeWhile_append list_all_iff dropWhile_append)
  then show ?thesis unfolding w(1) using w(2) by (subst c_words.simps) (simp add: Let_def)
qed

lemma c_words_spaced: "list_all plain_word ws \<Longrightarrow> c_words (spaced ws) = ws"
proof (induction ws rule: spaced.induct)
  case (2 w)
  then show ?case using c_words_word [of w "[]"] by simp
next
  case (3 w v ws)
  then show ?case by (simp add: c_words_word c_words_space)
qed simp

lemma store_words_all:
  "length ds = length ws \<Longrightarrow> list_all2 (\<lambda>d w. length w < fst d) ds ws \<Longrightarrow> store_words ds ws = Some ws"
  by (induction ds ws rule: list_induct2) auto

lemma length_store_words: "store_words ds ws = Some vs \<Longrightarrow> length vs = length ds"
  by (induction ds ws arbitrary: vs rule: store_words.induct) (auto split: if_splits)

section \<open>Numbers\<close>

text \<open>\<open>strtol(s, &endptr, 10)\<close> for a \<open>long\<close> of 32 bits: the sign, the digits, and the clamped value.\<close>

definition strtol10 :: "string \<Rightarrow> int" where
  "strtol10 s =
     (let s = dropWhile c_isspace s;
          neg = (s \<noteq> [] \<and> hd s = CHR ''-'');
          s = (if s \<noteq> [] \<and> (hd s = CHR ''-'' \<or> hd s = CHR ''+'') then tl s else s);
          v = foldl (\<lambda>a c. 10 * a + (of_char c - 48)) 0 (takeWhile c_isdigit s) :: int
      in if neg then max (- v) (- (2 ^ 31)) else min v (2 ^ 31 - 1))"

lemma clamp_range:
  "0 \<le> v \<Longrightarrow> - (2 ^ 31) \<le> (if neg then max (- v) (- (2 ^ 31)) else min v (2 ^ 31 - 1)) \<and>
     (if neg then max (- v) (- (2 ^ 31)) else min v (2 ^ 31 - 1)) < (2 ^ 31 :: int)"
  by (simp add: min_def max_def)

lemma strtol10_range: "- (2 ^ 31) \<le> strtol10 s \<and> strtol10 s < 2 ^ 31"
proof -
  have "0 \<le> foldl (\<lambda>a c. 10 * a + (of_char c - 48)) a (takeWhile c_isdigit t)" if "0 \<le> a" for a :: int and t
    using that
  proof (induction t arbitrary: a)
    case (Cons c t)
    have "(48 :: int) \<le> of_char c" if "c_isdigit c"
    proof -
      have "(48 :: nat) \<le> of_char c" using that by (simp add: c_isdigit_def)
      then have "int 48 \<le> int (of_char c)" by (simp only: zle_int)
      then show ?thesis by (simp add: of_nat_of_char)
    qed
    then show ?case using Cons by simp
  qed simp
  then have "0 \<le> foldl (\<lambda>a c. 10 * a + (of_char c - 48)) (0 :: int) (takeWhile c_isdigit t)" for t by simp
  from clamp_range [OF this] show ?thesis unfolding strtol10_def Let_def by blast
qed

end
