(* ===== verification/Protocol.thy ===== *)
theory Protocol
  imports Key_Agreement SM3 Uint256 Prime_number C_Text "HOL-Library.Signed_Division"
begin

text \<open>
  \<open>protocol.c\<close> on the device: registration data, the authentication request, and the two phases of the shared key.

  \<open>proto\<close> holds the static variables of the file whose values outlive a call: the \<open>client\<close>, the arrays that
  \<open>hex_to_uint256\<close> leaves alone when a text is malformed, the buffers \<open>sscanf\<close> leaves alone when a word is missing, the
  statics of the Chebyshev routine, the position in the values of \<open>rand\<close>, and the text written to the console.  The other
  statics are written before they are read in every call.  The parameter \<open>stk\<close> is the content of the hash context on the
  stack before it is initialised, \<open>rand\<close> the values of \<open>rand\<close>.

  An operation returns \<open>None\<close> when it does not return normally: a loop of the arithmetic that does not end, a word
  stored past the end of its buffer, or a missing argument.
\<close>

type_synonym uint256 = "u32 list"

section \<open>Console\<close>

text \<open>What the routines write to the console, and the text of each line.\<close>

datatype console_line =
    Device_information
  | User_ID int
  | Password_is int
  | Biological_is int
  | Id_is int
  | Calculate_PID
  | L_str_is string
  | Calculate_A
  | A_is uint256
  | Self_authentication_passed
  | Self_authentication_failed
  | Encrypt_parameters
  | QID_is uint256
  | QPW_is uint256
  | QA_is uint256
  | Initiate_request
  | Verify_integrity
  | HM21_is uint256
  | Message_complete
  | Verify_QID
  | ID_matches
  | Received_a1 uint256
  | Key_request
  | Generates_random
  | Random_is uint256
  | Generate_N2_TC
  | N2_is string
  | TC_str_is string
  | TC_is uint256
  | Information_intact
  | Verification_parameters
  | TA_is uint256
  | TB_is uint256
  | N_is uint256
  | Same_a
  | Shared_key
  | Key_bytes "bytes"

text \<open>The colon of the Chinese typeface, in UTF-8.\<close>

definition wide_colon :: string where
  "wide_colon = [CHR 0xEF, CHR 0xBC, CHR 0x9A]"

primrec line_text :: "console_line \<Rightarrow> string" where
  "line_text Device_information = ''device original information'' @ newline"
| "line_text (User_ID v) = ''User ID:'' @ fmt_d v @ newline"
| "line_text (Password_is v) = ''password'' @ wide_colon @ fmt_d v @ newline"
| "line_text (Biological_is v) = ''biological information'' @ wide_colon @ fmt_d v @ newline"
| "line_text (Id_is v) = ''id:'' @ fmt_d v"
| "line_text Calculate_PID = ''calculate PID parameters...'' @ newline"
| "line_text (L_str_is v) = ''L_str:'' @ v @ newline"
| "line_text Calculate_A = ''Calculate parameter A and verify device identity.'' @ newline"
| "line_text (A_is v) = ''A = '' @ print_uint256 v"
| "line_text Self_authentication_passed = ''self-authentication passed!'' @ newline"
| "line_text Self_authentication_failed = ''self-authentication failed!'' @ newline"
| "line_text Encrypt_parameters = ''encrypt PID'' @ [CHR 0xE3, CHR 0x80, CHR 0x81] @ ''PW'' @ [CHR 0xE3, CHR 0x80, CHR 0x81] @ ''A parameters'' @ newline"
| "line_text (QID_is v) = ''QID = '' @ print_uint256 v"
| "line_text (QPW_is v) = ''QPW = '' @ print_uint256 v"
| "line_text (QA_is v) = ''QA = '' @ print_uint256 v"
| "line_text Initiate_request = ''initiate an authentication request...'' @ newline"
| "line_text Verify_integrity = ''Verify the integrity of the information received from the authentication center...'' @ newline"
| "line_text (HM21_is v) = ''HM21 = '' @ print_uint256 v"
| "line_text Message_complete = ''received message complete!'' @ newline"
| "line_text Verify_QID = ''Verify if the QID is consistent with the saved one.'' @ newline"
| "line_text ID_matches = ''Match the ID with the registration center!'' @ newline"
| "line_text (Received_a1 v) = ''The received random number a1 '' @ wide_colon @ print_uint256 v"
| "line_text Key_request = ''---------------The device initiates a shared key parameter verification request.'' @ ''------------------'' @ newline"
| "line_text Generates_random = ''The device generates a session random number.'' @ newline"
| "line_text (Random_is v) = print_uint256 v"
| "line_text Generate_N2_TC = ''Generate encryption parameters N2 and TC.'' @ newline"
| "line_text (N2_is v) = ''str_N2:'' @ v @ newline"
| "line_text (TC_str_is v) = ''str_TC:'' @ v @ newline"
| "line_text (TC_is v) = ''TC:'' @ print_uint256 v"
| "line_text Information_intact = ''The received information is intact!'' @ newline"
| "line_text Verification_parameters = ''Generate random number verification parameters...'' @ newline"
| "line_text (TA_is v) = ''TA:'' @ print_uint256 v"
| "line_text (TB_is v) = ''TB:'' @ print_uint256 v"
| "line_text (N_is v) = ''N:'' @ print_uint256 v"
| "line_text Same_a = ''The received 'a' is the same as the 'a' generated by the registration center!'' @ newline"
| "line_text Shared_key = ''Generate shared key KS = ''"
| "line_text (Key_bytes v) = concat (map fmt_02x v)"

section \<open>State\<close>

record Client =
  userid :: int
  password :: int
  bio :: int
  cl_A :: uint256
  cl_d :: uint256
  cl_N :: uint256
  cl_x :: uint256
  cl_pk :: uint256
  cl_L :: uint256
  cl_N1 :: uint256
  cl_PID :: uint256
  cl_QID :: uint256
  cl_a1 :: uint256
  cl_b :: uint256
  cl_TA :: uint256
  cl_TB :: uint256
  cl_TA1 :: uint256
  cl_TTA :: uint256

record Auth_Param =
  ap_QA :: uint256
  ap_QPW :: uint256
  ap_QID :: uint256

record Share_Param =
  sp_N2 :: uint256
  sp_TC :: uint256
  sp_QID :: uint256
  sp_HM3 :: uint256

record proto =
  client :: Client
  st_A :: uint256
  st_d :: uint256
  st_N :: uint256
  st_x :: uint256
  st_pk :: uint256
  st_L :: uint256
  st_N1 :: uint256
  st_QID1 :: uint256
  st_M1 :: uint256
  st_HM2 :: uint256
  st_TC1 :: uint256
  st_QID3 :: uint256
  st_HM5 :: uint256
  scan_first :: string
  str_QID1 :: string
  str_M1 :: string
  str_HM21 :: string
  strr_TC :: string
  strr_QID3 :: string
  strr_HM5 :: string
  st_KS :: bytes
  cheby :: cheby_statics
  rand_pos :: nat
  console :: "console_line list"

definition client_boot :: Client where
  "client_boot = \<lparr>userid = 0, password = 0, bio = 0, cl_A = uint256_zero, cl_d = uint256_zero, cl_N = uint256_zero,
     cl_x = uint256_zero, cl_pk = uint256_zero, cl_L = uint256_zero, cl_N1 = uint256_zero, cl_PID = uint256_zero,
     cl_QID = uint256_zero, cl_a1 = uint256_zero, cl_b = uint256_zero, cl_TA = uint256_zero, cl_TB = uint256_zero,
     cl_TA1 = uint256_zero, cl_TTA = uint256_zero\<rparr>"

definition proto_boot :: proto where
  "proto_boot = \<lparr>client = client_boot, st_A = uint256_zero, st_d = uint256_zero, st_N = uint256_zero, st_x = uint256_zero,
     st_pk = uint256_zero, st_L = uint256_zero, st_N1 = uint256_zero, st_QID1 = uint256_zero, st_M1 = uint256_zero,
     st_HM2 = uint256_zero, st_TC1 = uint256_zero, st_QID3 = uint256_zero, st_HM5 = uint256_zero, scan_first = [],
     str_QID1 = [], str_M1 = [], str_HM21 = [], strr_TC = [], strr_QID3 = [], strr_HM5 = [], st_KS = replicate 32 0,
     cheby = cheby_boot, rand_pos = 0, console = []\<rparr>"

text \<open>The static parameters before anything is written to them.\<close>

definition auth_boot :: Auth_Param where
  "auth_boot = \<lparr>ap_QA = uint256_zero, ap_QPW = uint256_zero, ap_QID = uint256_zero\<rparr>"

definition share_boot :: Share_Param where
  "share_boot = \<lparr>sp_N2 = uint256_zero, sp_TC = uint256_zero, sp_QID = uint256_zero, sp_HM3 = uint256_zero\<rparr>"

text \<open>\<open>rt_kprintf\<close>\<close>

definition kprintf :: "console_line \<Rightarrow> proto \<Rightarrow> proto" where
  "kprintf t s = s\<lparr>console := console s @ [t]\<rparr>"

definition kprintf_if :: "bool \<Rightarrow> console_line \<Rightarrow> proto \<Rightarrow> proto" where
  "kprintf_if b t s = (if b then kprintf t s else s)"

text \<open>A call of \<open>chebyshev_Tn\<close>; the second result goes to \<open>temp1\<close>, which nothing reads.\<close>

definition call_Tn :: "proto \<Rightarrow> uint256 \<Rightarrow> uint256 \<Rightarrow> uint256 \<Rightarrow> (proto \<times> uint256) option" where
  "call_Tn s n x p = do { (c, Tn, _) \<leftarrow> chebyshev_Tn (cheby s) n x p; Some (s\<lparr>cheby := c\<rparr>, Tn) }"

section \<open>Registration\<close>

definition rt_request :: "string list \<Rightarrow> proto \<Rightarrow> proto option" where
  "rt_request argv s =
     (if length argv < 4 then None
      else Some (let s = kprintf Device_information s;
          s = s\<lparr>client := (client s)\<lparr>userid := strtol10 (argv ! 1), password := strtol10 (argv ! 2),
                bio := strtol10 (argv ! 3)\<rparr>\<rparr>;
          s = kprintf (User_ID (userid (client s))) s;
          s = kprintf (Password_is (password (client s))) s
      in kprintf (Biological_is (bio (client s))) s))"

text \<open>The text to send, \<open>send_data\<close> with the three numbers appended; the result of \<open>send\<close> is ignored.\<close>

definition request_send :: "proto \<Rightarrow> string \<Rightarrow> proto \<times> string" where
  "request_send s send_data =
     (let s = kprintf (Id_is (userid (client s))) s;
          id_str = snprintf 16 ('' '' @ fmt_d (userid (client s)));
          Bio_str = snprintf 16 ('' '' @ fmt_d (bio (client s)));
          pw_str = snprintf 16 ('' '' @ fmt_d (password (client s)))
      in (s, send_data @ id_str @ pw_str @ Bio_str))"

definition register_proc ::
  "string \<Rightarrow> string \<Rightarrow> string \<Rightarrow> string \<Rightarrow> string \<Rightarrow> string \<Rightarrow> string \<Rightarrow> proto \<Rightarrow> proto" where
  "register_proc second third forth fifth sixth seventh eighth s =
     (let s = s\<lparr>st_A := snd (hex_to_uint256 second (st_A s))\<rparr>;
          s = s\<lparr>st_d := snd (hex_to_uint256 third (st_d s))\<rparr>;
          s = s\<lparr>st_N := snd (hex_to_uint256 forth (st_N s))\<rparr>;
          s = s\<lparr>st_x := snd (hex_to_uint256 fifth (st_x s))\<rparr>;
          s = s\<lparr>st_pk := snd (hex_to_uint256 sixth (st_pk s))\<rparr>;
          s = s\<lparr>st_L := snd (hex_to_uint256 seventh (st_L s))\<rparr>;
          s = s\<lparr>st_N1 := snd (hex_to_uint256 eighth (st_N1 s))\<rparr>
      in s\<lparr>client := (client s)\<lparr>cl_A := st_A s, cl_d := st_d s, cl_N := st_N s, cl_x := st_x s, cl_pk := st_pk s,
             cl_L := st_L s, cl_N1 := st_N1 s\<rparr>\<rparr>)"

section \<open>Decimal text to bytes\<close>

text \<open>
  One pass of the loop of \<open>auth_pre\<close> over the text at \<open>ptr\<close>, given by its character codes: the quotient by 256, written
  to \<open>next\<close> from index \<open>k\<close> on, and the remainder.  Division is that of C.  From the second pass on the text read lies
  in \<open>next\<close> too, at or behind the place written, so that each character is read before it is overwritten.
\<close>

fun dec_pass :: "nat \<Rightarrow> int \<Rightarrow> int list \<Rightarrow> int list \<times> int" where
  "dec_pass k carry [] = ([], carry)"
| "dec_pass k carry (c # cs) =
     (let digit = carry * 10 + (c - 48);
          (out, r) = dec_pass (if k < 255 then Suc k else k) (digit smod 256) cs
      in (if k < 255 then (48 + digit sdiv 256) mod 256 # out else out, r))"

partial_function (option) base256_loop :: "int list \<Rightarrow> bytes \<Rightarrow> bytes option" where
  "base256_loop ptr big_int_bytes =
     (if ptr = [] then Some big_int_bytes
      else (let (out, carry) = dec_pass 0 0 ptr;
                big_int_bytes = (if length big_int_bytes < 128 then big_int_bytes @ [word_of_int carry] else big_int_bytes);
                ptr = dropWhile (\<lambda>c. c = 48) out
            in if ptr = [] then Some big_int_bytes else base256_loop ptr big_int_bytes))"

text \<open>The bytes in big-endian order, after the loop that reverses them.\<close>

definition decimal_bytes :: "string \<Rightarrow> bytes option" where
  "decimal_bytes temp = map_option rev (base256_loop (map of_char temp) [])"

section \<open>Authentication\<close>

definition low_half :: "uint256 \<Rightarrow> uint256" where
  "low_half v = (set_uint256 0 0 0 0 0 0 0 0)[0 := v ! 0, 1 := v ! 1]"

text \<open>The first half of \<open>auth_pre\<close>: the pseudonym \<open>PID\<close> and the device's own \<open>A\<close>.\<close>

definition auth_identify :: "gm_sm3_context \<Rightarrow> proto \<Rightarrow> (proto \<times> uint256 \<times> uint256) option" where
  "auth_identify stk s = do {
     let cl = client s;
     let id_str = snprintf 16 (fmt_d (userid cl));
     let Bio_str = snprintf 16 (fmt_d (bio cl));
     let L_str = uint256_to_decstr (cl_L cl) 80;
     let s = kprintf Calculate_PID s;
     let s = kprintf (L_str_is L_str) s;
     big_int_bytes \<leftarrow> decimal_bytes (snprintf 128 (id_str @ L_str @ Bio_str));
     let PID = sm3_to_uint256 (gm_sm3 stk big_int_bytes);
     let s = kprintf Calculate_A s;
     let input_str = snprintf 128 (fmt_d (userid cl) @ fmt_d (password cl) @ fmt_d (bio cl));
     let A = uint256_xor (sm3_to_uint256 (gm_sm3 stk (str_bytes input_str))) (cl_L cl);
     Some (kprintf (A_is A) (s\<lparr>st_A := A\<rparr>), PID, A) }"

text \<open>The second half: the parameters of the request, after the self-authentication.\<close>

definition auth_request :: "uint256 \<Rightarrow> uint256 \<Rightarrow> proto \<Rightarrow> (proto \<times> Auth_Param) option" where
  "auth_request PID A s = do {
     let s = s\<lparr>client := (client s)\<lparr>cl_PID := uint256_copy PID\<rparr>\<rparr>;
     let s = kprintf Encrypt_parameters s;
     (s, QID) \<leftarrow> call_Tn s (cl_d (client s)) (low_half PID) (cl_N1 (client s));
     let s = kprintf (QID_is QID) s;
     let s = s\<lparr>client := (client s)\<lparr>cl_QID := uint256_copy QID\<rparr>\<rparr>;
     (s, QPW) \<leftarrow> call_Tn s (cl_d (client s)) (int_to_uint256 (password (client s))) (cl_N1 (client s));
     let s = kprintf (QPW_is QPW) s;
     (s, QA) \<leftarrow> call_Tn s (cl_d (client s)) (low_half A) (cl_N1 (client s));
     let s = kprintf (QA_is QA) s;
     let s = kprintf Initiate_request s;
     Some (s, \<lparr>ap_QA = uint256_copy QA, ap_QPW = uint256_copy QPW, ap_QID = uint256_copy QID\<rparr>) }"

definition auth_pre :: "gm_sm3_context \<Rightarrow> proto \<Rightarrow> Auth_Param \<Rightarrow> (proto \<times> Auth_Param) option" where
  "auth_pre stk s auth_param = do {
     (s, PID, A) \<leftarrow> auth_identify stk s;
     if uint256_equal A (cl_A (client s))
     then auth_request PID A (kprintf Self_authentication_passed s)
     else Some (kprintf Self_authentication_failed s, auth_param) }"

section \<open>Shared key, first phase\<close>

text \<open>The words of the message, the three numbers in them, and the check of their hash.\<close>

definition gen_scan :: "gm_sm3_context \<Rightarrow> string \<Rightarrow> proto \<Rightarrow> proto option" where
  "gen_scan stk recv_data s = do {
     let s = kprintf Verify_integrity s;
     ws \<leftarrow> sscanf_words recv_data [(20, scan_first s), (80, str_QID1 s), (80, str_M1 s), (80, str_HM21 s)];
     let QID1 = snd (hex_to_uint256 (ws ! 1) (st_QID1 s));
     let M1 = snd (hex_to_uint256 (ws ! 2) (st_M1 s));
     let HM2 = snd (hex_to_uint256 (ws ! 3) (st_HM2 s));
     let s = s\<lparr>scan_first := ws ! 0, str_QID1 := ws ! 1, str_M1 := ws ! 2, str_HM21 := ws ! 3,
               st_QID1 := QID1, st_M1 := M1, st_HM2 := HM2\<rparr>;
     let HM21 = sm3_to_uint256 (gm_sm3 stk (uint256_bytes QID1 @ uint256_bytes M1));
     let s = kprintf (HM21_is HM21) s;
     Some (kprintf_if (uint256_equal HM21 HM2) Message_complete s) }"

text \<open>The mask \<open>TA\<close>, and the identity in the message.\<close>

definition gen_identity :: "proto \<Rightarrow> (proto \<times> uint256 \<times> uint256) option" where
  "gen_identity s = do {
     let s = kprintf Verify_QID s;
     (s, TA) \<leftarrow> call_Tn s (low_half (cl_A (client s))) (cl_pk (client s)) (cl_N (client s));
     let s = s\<lparr>client := (client s)\<lparr>cl_TA := uint256_copy TA\<rparr>\<rparr>;
     let QID2 = uint256_xor (st_QID1 s) TA;
     let s = kprintf (QID_is QID2) s;
     let Client_QID = low_half (cl_QID (client s));
     Some (kprintf_if (uint256_equal QID2 Client_QID) ID_matches s, TA, QID2) }"

text \<open>The two random numbers of the session: the one received and the one of the device.\<close>

definition gen_nonces :: "(nat \<Rightarrow> u32) \<Rightarrow> uint256 \<Rightarrow> proto \<Rightarrow> (proto \<times> uint256 \<times> uint256) option" where
  "gen_nonces rand TA s = do {
     let a1 = uint256_xor (st_M1 s) TA;
     let s = kprintf (Received_a1 a1) s;
     let s = s\<lparr>client := (client s)\<lparr>cl_a1 := uint256_copy a1\<rparr>\<rparr>;
     let s = kprintf Key_request s;
     (temp3, pos) \<leftarrow> creat_number rand 32 (rand_pos s);
     let s = s\<lparr>rand_pos := pos\<rparr>;
     let s = kprintf Generates_random s;
     let b = ull_to_uint256 temp3;
     let s = kprintf (Random_is b) s;
     Some (s\<lparr>client := (client s)\<lparr>cl_b := uint256_copy b\<rparr>\<rparr>, a1, b) }"

text \<open>The three encrypted parameters and the answer.\<close>

definition gen_reply ::
  "gm_sm3_context \<Rightarrow> uint256 \<Rightarrow> uint256 \<Rightarrow> uint256 \<Rightarrow> uint256 \<Rightarrow> proto \<Rightarrow> (proto \<times> Share_Param) option" where
  "gen_reply stk TA QID2 a1 b s = do {
     let N2 = uint256_xor b TA;
     let c = fst (big_add a1 b);
     (s, TC) \<leftarrow> call_Tn s c (cl_pk (client s)) (cl_N (client s));
     (s, TA1) \<leftarrow> call_Tn s a1 (cl_pk (client s)) (cl_N (client s));
     (s, TB) \<leftarrow> call_Tn s b (cl_pk (client s)) (cl_N (client s));
     let s = s\<lparr>client := (client s)\<lparr>cl_TA1 := uint256_copy TA1, cl_TB := uint256_copy TB\<rparr>\<rparr>;
     let str_N2 = uint256_to_decstr N2 80;
     let str_TC1 = uint256_to_decstr TC 80;
     let str_QID2 = uint256_to_decstr QID2 80;
     let s = kprintf Generate_N2_TC s;
     let s = kprintf (N2_is str_N2) s;
     let s = kprintf (TC_str_is str_TC1) s;
     let concat1 = snprintf 256 (str_N2 @ str_TC1 @ str_QID2);
     let HM3 = sm3_to_uint256 (gm_sm3 stk (str_bytes concat1));
     Some (s, \<lparr>sp_N2 = uint256_copy N2, sp_TC = uint256_copy TC, sp_QID = uint256_copy QID2,
               sp_HM3 = uint256_copy HM3\<rparr>) }"

definition Sharedkey_Gen ::
  "gm_sm3_context \<Rightarrow> (nat \<Rightarrow> u32) \<Rightarrow> string \<Rightarrow> proto \<Rightarrow> (proto \<times> Share_Param) option" where
  "Sharedkey_Gen stk rand recv_data s = do {
     s \<leftarrow> gen_scan stk recv_data s;
     (s, TA, QID2) \<leftarrow> gen_identity s;
     (s, a1, b) \<leftarrow> gen_nonces rand TA s;
     gen_reply stk TA QID2 a1 b s }"

section \<open>Shared key, second phase\<close>

definition gen2_scan :: "gm_sm3_context \<Rightarrow> string \<Rightarrow> proto \<Rightarrow> proto option" where
  "gen2_scan stk recv_data s = do {
     let s = kprintf Verify_integrity s;
     ws \<leftarrow> sscanf_words recv_data [(20, scan_first s), (80, strr_TC s), (80, strr_QID3 s), (80, strr_HM5 s)];
     let TC1 = snd (hex_to_uint256 (ws ! 1) (st_TC1 s));
     let QID3 = snd (hex_to_uint256 (ws ! 2) (st_QID3 s));
     let HM5 = snd (hex_to_uint256 (ws ! 3) (st_HM5 s));
     let s = s\<lparr>scan_first := ws ! 0, strr_TC := ws ! 1, strr_QID3 := ws ! 2, strr_HM5 := ws ! 3,
               st_TC1 := TC1, st_QID3 := QID3, st_HM5 := HM5\<rparr>;
     let s = kprintf (TC_is TC1) s;
     let HM51 = sm3_to_uint256 (gm_sm3 stk (uint256_bytes TC1 @ uint256_bytes QID3));
     Some (kprintf_if (uint256_equal HM51 HM5) Information_intact s) }"

text \<open>The two sides of the identity between the three Chebyshev values.\<close>

definition verify_left :: "uint256 \<Rightarrow> uint256 \<Rightarrow> uint256 \<Rightarrow> uint256 \<Rightarrow> uint256" where
  "verify_left TA1 TB1 TC1 N =
     (let ta2 = uint256_mulmod TA1 TA1 N;
          tb2 = uint256_mulmod TB1 TB1 N;
          tc12 = uint256_mulmod TC1 TC1 N;
          tmp1 = uint256_addmod ta2 tb2 N
      in uint256_addmod tmp1 tc12 N)"

definition verify_right :: "uint256 \<Rightarrow> uint256 \<Rightarrow> uint256 \<Rightarrow> uint256 \<Rightarrow> uint256" where
  "verify_right TA1 TB1 TC1 N =
     (let tmp1 = uint256_mulmod TA1 TB1 N;
          tmp2 = uint256_mulmod tmp1 TC1 N;
          tmp1 = uint256_mulmod tmp2 [2, 0, 0, 0, 0, 0, 0, 0] N
      in uint256_addmod tmp1 [1, 0, 0, 0, 0, 0, 0, 0] N)"

definition gen2_verify :: "proto \<Rightarrow> proto option" where
  "gen2_verify s = do {
     let s = kprintf Verification_parameters s;
     (s, TA1) \<leftarrow> call_Tn s (cl_a1 (client s)) (cl_pk (client s)) (cl_N (client s));
     let s = kprintf (TA_is TA1) s;
     let TB1 = uint256_copy (cl_TB (client s));
     let s = kprintf (TB_is TB1) s;
     let N = uint256_copy (cl_N (client s));
     let s = s\<lparr>st_N := N\<rparr>;
     let s = kprintf (N_is N) s;
     let left = verify_left TA1 TB1 (st_TC1 s) N;
     let right = verify_right TA1 TB1 (st_TC1 s) N;
     Some (kprintf_if (uint256_equal left right)
       Same_a s) }"

definition gen2_key :: "gm_sm3_context \<Rightarrow> proto \<Rightarrow> proto" where
  "gen2_key stk s =
     (let TTA = uint256_copy (cl_TA (client s));
          sa = uint256_to_decstr (cl_a1 (client s)) 80;
          sb = uint256_to_decstr (cl_b (client s)) 80;
          sAA = uint256_to_decstr TTA 80;
          concat2 = snprintf 256 (sa @ sb @ sAA);
          KS = gm_sm3 stk (str_bytes concat2);
          s = kprintf Shared_key (s\<lparr>st_KS := KS\<rparr>)
      in kprintf (Key_bytes KS) s)"

definition Sharedkey_Gen2 :: "gm_sm3_context \<Rightarrow> string \<Rightarrow> proto \<Rightarrow> proto option" where
  "Sharedkey_Gen2 stk recv_data s = do {
     s \<leftarrow> gen2_scan stk recv_data s;
     s \<leftarrow> gen2_verify s;
     Some (gen2_key stk s) }"

section \<open>Printing changes the console only\<close>

lemma kprintf_simps [simp]:
  "client (kprintf t s) = client s" "st_A (kprintf t s) = st_A s" "st_d (kprintf t s) = st_d s"
  "st_N (kprintf t s) = st_N s" "st_x (kprintf t s) = st_x s" "st_pk (kprintf t s) = st_pk s"
  "st_L (kprintf t s) = st_L s" "st_N1 (kprintf t s) = st_N1 s" "st_QID1 (kprintf t s) = st_QID1 s"
  "st_M1 (kprintf t s) = st_M1 s" "st_HM2 (kprintf t s) = st_HM2 s" "st_TC1 (kprintf t s) = st_TC1 s"
  "st_QID3 (kprintf t s) = st_QID3 s" "st_HM5 (kprintf t s) = st_HM5 s" "scan_first (kprintf t s) = scan_first s"
  "str_QID1 (kprintf t s) = str_QID1 s" "str_M1 (kprintf t s) = str_M1 s" "str_HM21 (kprintf t s) = str_HM21 s"
  "strr_TC (kprintf t s) = strr_TC s" "strr_QID3 (kprintf t s) = strr_QID3 s" "strr_HM5 (kprintf t s) = strr_HM5 s"
  "st_KS (kprintf t s) = st_KS s" "cheby (kprintf t s) = cheby s" "rand_pos (kprintf t s) = rand_pos s"
  by (simp_all add: kprintf_def)

lemma kprintf_if_simps [simp]:
  "client (kprintf_if b t s) = client s" "st_A (kprintf_if b t s) = st_A s" "st_d (kprintf_if b t s) = st_d s"
  "st_N (kprintf_if b t s) = st_N s" "st_x (kprintf_if b t s) = st_x s" "st_pk (kprintf_if b t s) = st_pk s"
  "st_L (kprintf_if b t s) = st_L s" "st_N1 (kprintf_if b t s) = st_N1 s" "st_QID1 (kprintf_if b t s) = st_QID1 s"
  "st_M1 (kprintf_if b t s) = st_M1 s" "st_HM2 (kprintf_if b t s) = st_HM2 s" "st_TC1 (kprintf_if b t s) = st_TC1 s"
  "st_QID3 (kprintf_if b t s) = st_QID3 s" "st_HM5 (kprintf_if b t s) = st_HM5 s"
  "scan_first (kprintf_if b t s) = scan_first s" "str_QID1 (kprintf_if b t s) = str_QID1 s"
  "str_M1 (kprintf_if b t s) = str_M1 s" "str_HM21 (kprintf_if b t s) = str_HM21 s"
  "strr_TC (kprintf_if b t s) = strr_TC s" "strr_QID3 (kprintf_if b t s) = strr_QID3 s"
  "strr_HM5 (kprintf_if b t s) = strr_HM5 s" "st_KS (kprintf_if b t s) = st_KS s" "cheby (kprintf_if b t s) = cheby s"
  "rand_pos (kprintf_if b t s) = rand_pos s"
  by (simp_all add: kprintf_if_def)

end
