(* ===== verification/Protocol_Auth.thy ===== *)
theory Protocol_Auth
  imports Protocol
begin

text \<open>
  Registration and the authentication request: the conversion of a decimal text into bytes, the self-authentication, and
  the values the device sends.
\<close>

section \<open>Decimal text\<close>

definition dec_codes :: "int list \<Rightarrow> bool" where
  "dec_codes cs \<longleftrightarrow> list_all (\<lambda>c. 48 \<le> c \<and> c \<le> 57) cs"

fun dec_val :: "int list \<Rightarrow> int" where
  "dec_val [] = 0"
| "dec_val (c # cs) = (c - 48) * 10 ^ length cs + dec_val cs"

definition dec_text :: "string \<Rightarrow> nat" where
  "dec_text s = nat (dec_val (map of_char s))"

lemma dec_codes_simps [simp]:
  "dec_codes []" "dec_codes (c # cs) \<longleftrightarrow> 48 \<le> c \<and> c \<le> 57 \<and> dec_codes cs"
  "dec_codes (cs @ ds) \<longleftrightarrow> dec_codes cs \<and> dec_codes ds"
  by (auto simp: dec_codes_def)

lemma dec_val_range: "dec_codes cs \<Longrightarrow> 0 \<le> dec_val cs \<and> dec_val cs < 10 ^ length cs"
proof (induction cs)
  case (Cons c cs)
  then have c: "0 \<le> c - 48" "c - 48 \<le> 9" by simp_all
  then have "(c - 48) * 10 ^ length cs \<le> 9 * 10 ^ length cs" by (intro mult_right_mono) simp_all
  moreover have "0 \<le> (c - 48) * 10 ^ length cs" using c(1) by (intro mult_nonneg_nonneg) simp_all
  moreover have "0 \<le> dec_val cs \<and> dec_val cs < 10 ^ length cs" using Cons by simp
  moreover have "(10 :: int) ^ length (c # cs) = 10 * 10 ^ length cs" by simp
  ultimately show ?case unfolding dec_val.simps by linarith
qed simp

lemma dec_val_zero: "dec_codes cs \<Longrightarrow> dropWhile (\<lambda>c. c = 48) cs = [] \<longleftrightarrow> dec_val cs = 0"
proof (induction cs)
  case (Cons c cs)
  have "0 \<le> dec_val cs" using Cons.prems dec_val_range by simp
  moreover have "0 < (c - 48) * 10 ^ length cs" if "c \<noteq> 48" using that Cons.prems by simp
  ultimately show ?case using Cons by (cases "c = 48") (auto simp: add_nonneg_eq_0_iff)
qed simp

lemma dec_val_strip: "dec_val (dropWhile (\<lambda>c. c = 48) cs) = dec_val cs"
  by (induction cs) auto

lemma dec_codes_strip: "dec_codes cs \<Longrightarrow> dec_codes (dropWhile (\<lambda>c. c = 48) cs)"
  by (induction cs) auto

lemma pass_digit:
  fixes carry c :: int
  assumes "0 \<le> carry" "carry < 256" "48 \<le> c" "c \<le> 57"
  defines "g \<equiv> carry * 10 + (c - 48)"
  shows "g smod 256 = g mod 256" "(48 + g sdiv 256) mod 256 = 48 + g div 256" "0 \<le> g div 256" "g div 256 \<le> 9"
proof -
  have g: "0 \<le> g" "g < 2560" using assms by simp_all
  then show "g smod 256 = g mod 256" by (simp add: signed_modulo_int_def signed_divide_int_def minus_div_mult_eq_mod sgn_if)
  show r: "0 \<le> g div 256" "g div 256 \<le> 9" using g zdiv_mono1 [of g 2559 256] by (simp_all add: pos_imp_zdiv_nonneg_iff)
  then show "(48 + g sdiv 256) mod 256 = 48 + g div 256" using g by (simp add: signed_divide_int_def sgn_if)
qed

lemma dec_pass_val:
  "dec_codes cs \<Longrightarrow> 0 \<le> carry \<Longrightarrow> carry < 256 \<Longrightarrow> k + length cs \<le> 255 \<Longrightarrow> dec_pass k carry cs = (out, r) \<Longrightarrow>
   length out = length cs \<and> dec_codes out \<and> 0 \<le> r \<and> r < 256
   \<and> carry * 10 ^ length cs + dec_val cs = 256 * dec_val out + r"
proof (induction k carry cs arbitrary: out r rule: dec_pass.induct)
  case (2 k carry c cs)
  let ?g = "carry * 10 + (c - 48)"
  have k: "k < 255" using "2.prems"(4) by simp
  note d = pass_digit [OF "2.prems"(2,3), of c]
  have c: "48 \<le> c" "c \<le> 57" "dec_codes cs" using "2.prems"(1) by simp_all
  obtain out' where o: "dec_pass (Suc k) (?g mod 256) cs = (out', r)" "out = (48 + ?g div 256) # out'"
    using "2.prems"(5) k d(1,2) [OF c(1,2)] by (auto simp: Let_def split: prod.splits)
  have IH: "length out' = length cs \<and> dec_codes out' \<and> 0 \<le> r \<and> r < 256
     \<and> (?g mod 256) * 10 ^ length cs + dec_val cs = 256 * dec_val out' + r"
    using "2.IH" [OF refl, of out' r] k o(1) c "2.prems"(4) d(1) [OF c(1,2)] by simp
  have "carry * 10 ^ length (c # cs) + dec_val (c # cs) = ?g * 10 ^ length cs + dec_val cs" by (simp add: algebra_simps)
  also have "?g * 10 ^ length cs = (256 * (?g div 256) + ?g mod 256) * 10 ^ length cs" by simp
  also have "\<dots> = 256 * ((?g div 256) * 10 ^ length cs) + (?g mod 256) * 10 ^ length cs"
    by (simp only: distrib_right mult.assoc)
  finally show ?case using IH o(2) d(3,4) [OF c(1,2)] by simp
qed simp

lemma dec_pass_head: "48 \<le> c \<Longrightarrow> c \<le> 57 \<Longrightarrow> \<exists>out r. dec_pass 0 0 (c # cs) = (48 # out, r)"
  using pass_digit(2) [of 0 c] by (auto simp: Let_def split: prod.splits)

lemma base256_loop_val:
  "dec_codes ptr \<Longrightarrow> ptr \<noteq> [] \<Longrightarrow> length ptr \<le> 255 \<Longrightarrow> length acc + length ptr \<le> 128 \<Longrightarrow>
   \<exists>res. base256_loop ptr acc = Some (acc @ res) \<and> res \<noteq> [] \<and> int (bytes_val (rev res)) = dec_val ptr
     \<and> (0 < dec_val ptr \<longrightarrow> last res \<noteq> 0)"
proof (induction "length ptr" arbitrary: ptr acc rule: less_induct)
  case less
  obtain c cs where ptr: "ptr = c # cs" using less.prems(2) by (cases ptr) auto
  obtain out r where dp: "dec_pass 0 0 ptr = (out, r)" by fastforce
  have v: "length out = length ptr" "dec_codes out" "0 \<le> r" "r < 256" "dec_val ptr = 256 * dec_val out + r"
    using dec_pass_val [OF less.prems(1) _ _ _ dp] less.prems(3) by simp_all
  let ?w = "word_of_int r :: u8" and ?p = "dropWhile (\<lambda>c. c = 48) out"
  have w: "int (unat ?w) = r" using v(3,4) by (simp add: uint_word_of_int_eq take_bit_eq_mod)
  have len: "length ?p < length ptr"
    using dec_pass_head [of c cs] less.prems(1) dp v(1) length_dropWhile_le [of "\<lambda>c. c = 48" "tl out"] unfolding ptr
    by (auto simp: le_imp_less_Suc)
  have acc: "length acc < 128" using less.prems(4) ptr by simp
  show ?case
  proof (cases "?p = []")
    case True
    then have "dec_val out = 0" using dec_val_zero [OF v(2)] by simp
    then have r: "dec_val ptr = r" using v(5) by simp
    have "base256_loop ptr acc = Some (acc @ [?w])"
      using True dp acc less.prems(2) by (subst base256_loop.simps) simp
    moreover have "0 < r \<longrightarrow> ?w \<noteq> 0" using w by auto
    ultimately show ?thesis using w r by (intro exI [of _ "[?w]"]) simp
  next
    case False
    have "\<exists>res. base256_loop ?p (acc @ [?w]) = Some ((acc @ [?w]) @ res) \<and> res \<noteq> []
        \<and> int (bytes_val (rev res)) = dec_val ?p \<and> (0 < dec_val ?p \<longrightarrow> last res \<noteq> 0)"
      using less.prems(3,4) len False dec_codes_strip [OF v(2)] by (intro less.hyps) auto
    then obtain res where res: "base256_loop ?p (acc @ [?w]) = Some (acc @ ?w # res)" "res \<noteq> []"
        "int (bytes_val (rev res)) = dec_val out" "0 < dec_val out \<longrightarrow> last res \<noteq> 0"
      by (auto simp: dec_val_strip)
    have "0 < dec_val out" using False dec_val_zero [OF v(2)] dec_val_range [OF v(2)] by linarith
    moreover have "base256_loop ptr acc = Some (acc @ ?w # res)"
      using False dp acc less.prems(2) res(1) by (subst base256_loop.simps) (auto simp: Let_def)
    moreover have "int (bytes_val (rev (?w # res))) = dec_val ptr"
      using w res(3) v(5) by (simp add: bytes_val_append)
    ultimately show ?thesis using res(2,4) by (intro exI [of _ "?w # res"]) simp
  qed
qed

lemma digit_codes: "list_all c_isdigit s \<Longrightarrow> dec_codes (map of_char s)"
proof (induction s)
  case (Cons c s)
  have "(of_char c :: int) = int (of_char c)" by (simp add: of_nat_of_char)
  then show ?case using Cons by (simp add: c_isdigit_def)
qed simp

lemma decimal_bytes_val:
  assumes "list_all c_isdigit s" "s \<noteq> []" "length s \<le> 127"
  shows "\<exists>bs. decimal_bytes s = Some bs \<and> bs \<noteq> [] \<and> bytes_val bs = dec_text s \<and> (0 < dec_text s \<longrightarrow> hd bs \<noteq> 0)"
proof -
  obtain res where "base256_loop (map of_char s) [] = Some ([] @ res)" "res \<noteq> []"
    "int (bytes_val (rev res)) = dec_val (map of_char s)" "0 < dec_val (map of_char s) \<longrightarrow> last res \<noteq> 0"
    using base256_loop_val [OF digit_codes [OF assms(1)], of "[]"] assms(2,3) by auto
  then show ?thesis by (intro exI [of _ "rev res"]) (auto simp: decimal_bytes_def dec_text_def hd_rev)
qed

lemma fmt_u_digits: "list_all c_isdigit (fmt_u n) \<and> fmt_u n \<noteq> []"
proof (induction n rule: fmt_u.induct)
  case (1 n)
  have d: "c_isdigit (char_of (48 + k))" if "k < 10" for k :: nat using that by (simp add: c_isdigit_def)
  show ?case
  proof (cases "n < 10")
    case True
    then show ?thesis using d by (subst (1 2) fmt_u.simps) simp
  next
    case False
    then show ?thesis using 1 d [of "n mod 10"] by (subst (1 2) fmt_u.simps) simp
  qed
qed

lemma fmt_d_int32:
  assumes "- (2 ^ 31) \<le> i" "i < (2 ^ 31 :: int)"
  shows "length (fmt_d i) \<le> 11"
proof -
  have "length (fmt_u (nat \<bar>i\<bar>)) \<le> 10" using assms by (intro length_fmt_u) (simp_all add: nat_less_iff)
  then show ?thesis by (auto simp: fmt_d_def)
qed

lemma snprintf_fits: "length t < n \<Longrightarrow> snprintf n t = t"
  by (simp add: snprintf_def)

section \<open>Well-formed clients\<close>

definition client_ok :: "Client \<Rightarrow> bool" where
  "client_ok cl \<longleftrightarrow> list_all (\<lambda>i. - (2 ^ 31) \<le> i \<and> i < (2 ^ 31 :: int)) [userid cl, password cl, bio cl]
     \<and> list_all (\<lambda>v. length v = 8) [cl_A cl, cl_d cl, cl_N cl, cl_x cl, cl_pk cl, cl_L cl, cl_N1 cl, cl_PID cl, cl_QID cl,
          cl_a1 cl, cl_b cl, cl_TA cl, cl_TB cl, cl_TA1 cl, cl_TTA cl]"

lemma length_uint256 [simp]:
  "length (sm3_to_uint256 h) = 8" "length (int_to_uint256 i) = 8" "length (ull_to_uint256 u) = 8" "length (uint256_copy v) = 8"
  "length uint256_zero = 8" "length (uint256_xor a b) = 8" "length (low_half v) = 8"
  by (simp_all add: sm3_to_uint256_def int_to_uint256_def ull_to_uint256_def uint256_copy_def uint256_zero_def uint256_xor_def
      low_half_def set_uint256_def)

lemma uint256_copy_id: "length v = 8 \<Longrightarrow> uint256_copy v = v"
  unfolding uint256_copy_def by (metis map_nth)

lemma uint256_equal_iff: "length a = length b \<Longrightarrow> uint256_equal a b \<longleftrightarrow> a = b"
  by (induction a b rule: list_induct2) auto

lemma low_half_val: "limbs_val (low_half v) = unat (v ! 0) + 2 ^ 32 * unat (v ! 1)"
  by (simp add: low_half_def set_uint256_def)

lemma low_half_small: "limbs_val (low_half v) < 2 ^ 127"
  unfolding low_half_val using unat_u32_less [of "v ! 0"] unat_u32_less [of "v ! 1"] by simp

lemma int_to_uint256_small: "limbs_val (int_to_uint256 i) < 2 ^ 127"
proof -
  have "int_to_uint256 i = word_of_int i # replicate 7 0" by (simp add: int_to_uint256_def numeral_eq_Suc)
  then have "limbs_val (int_to_uint256 i) = unat (word_of_int i :: u32)" by (simp only: limbs_val.simps limbs_val_replicate_0)
  then show ?thesis using unat_u32_less [of "word_of_int i"] by simp
qed

lemma Tn_runs:
  assumes "length n = 8" "length x = 8" "length p = 8" "limbs_val p \<noteq> 0" "limbs_val x < limbs_val p \<or> limbs_val x < 2 ^ 127"
    and "carry4 st = 0" "limbs_val p \<le> 2 ^ 255"
  obtains c T T' where "chebyshev_Tn st n x p = Some (c, T, T')" "carry4 c = 0" "length T = 8"
    "int (limbs_val T) mod int (limbs_val p) = cheb (limbs_val n) (int (limbs_val x)) mod int (limbs_val p)"
proof -
  have "cheby_pre n x p" using assms(1-5) unfolding cheby_pre_def by blast
  from chebyshev_Tn_val [OF this assms(6)] show ?thesis using that assms(7) by blast
qed

section \<open>The authentication request\<close>

text \<open>What the device must show: the hash of its three numbers, masked with \<open>L\<close>.\<close>

definition device_A :: "Client \<Rightarrow> uint256" where
  "device_A cl = uint256_xor (sm3_to_uint256 (ref_sm3 (str_bytes (fmt_d (userid cl) @ fmt_d (password cl) @ fmt_d (bio cl)))))
     (cl_L cl)"

definition device_text :: "Client \<Rightarrow> string" where
  "device_text cl = fmt_d (userid cl) @ fmt_u (limbs_val (rev (cl_L cl))) @ fmt_d (bio cl)"

lemma sm3_ref: "length (sm3_buf ctx) = 64 \<Longrightarrow> gm_sm3 ctx input = ref_sm3 input"
  using gm_sm3_done_ref [OF gm_sm3_update_rep [OF sm3_rep_init], of ctx input] by (simp add: gm_sm3_def)

lemma auth_pre_prefix:
  assumes "client_ok (client s)" "0 \<le> userid (client s)" "0 \<le> bio (client s)"
  obtains bs where "decimal_bytes (snprintf 128 (snprintf 16 (fmt_d (userid (client s)))
      @ uint256_to_decstr (cl_L (client s)) 80 @ snprintf 16 (fmt_d (bio (client s))))) = Some bs"
    "bytes_val bs = dec_text (device_text (client s))"
proof -
  let ?cl = "client s"
  have l: "length (fmt_d (userid ?cl)) \<le> 11" "length (fmt_d (bio ?cl)) \<le> 11"
    using assms(1) by (auto simp: client_ok_def intro!: fmt_d_int32)
  have l8: "length (cl_L ?cl) = 8" using assms(1) by (simp add: client_ok_def)
  have L: "uint256_to_decstr (cl_L ?cl) 80 = fmt_u (limbs_val (rev (cl_L ?cl)))"
    "length (uint256_to_decstr (cl_L ?cl) 80) \<le> 78"
    using decstr_80 [OF l8] by blast+
  have len: "length (device_text ?cl) \<le> 100" using l L by (simp add: device_text_def)
  have "list_all c_isdigit (device_text ?cl)" "device_text ?cl \<noteq> []"
    using fmt_u_digits assms(2,3) by (simp_all add: device_text_def fmt_d_def)
  then obtain bs where "decimal_bytes (device_text ?cl) = Some bs" "bytes_val bs = dec_text (device_text ?cl)"
    using decimal_bytes_val len by fastforce
  moreover have "snprintf 128 (snprintf 16 (fmt_d (userid ?cl)) @ uint256_to_decstr (cl_L ?cl) 80
      @ snprintf 16 (fmt_d (bio ?cl))) = device_text ?cl"
    using l L len by (simp add: snprintf_fits device_text_def)
  ultimately show ?thesis using that by simp
qed

lemma input_text:
  assumes "client_ok cl"
  shows "snprintf 128 (fmt_d (userid cl) @ fmt_d (password cl) @ fmt_d (bio cl))
    = fmt_d (userid cl) @ fmt_d (password cl) @ fmt_d (bio cl)"
proof -
  have "length (fmt_d (userid cl)) \<le> 11" "length (fmt_d (password cl)) \<le> 11" "length (fmt_d (bio cl)) \<le> 11"
    using assms by (auto simp: client_ok_def intro!: fmt_d_int32)
  then show ?thesis by (intro snprintf_fits) simp
qed

lemma auth_identify_val:
  assumes "client_ok (client s)" "0 \<le> userid (client s)" "0 \<le> bio (client s)" "length (sm3_buf stk) = 64"
  obtains s1 bs where "auth_identify stk s = Some (s1, sm3_to_uint256 (ref_sm3 bs), device_A (client s))"
    "bytes_val bs = dec_text (device_text (client s))" "client s1 = client s" "cheby s1 = cheby s"
proof -
  obtain bs where bs: "decimal_bytes (snprintf 128 (snprintf 16 (fmt_d (userid (client s)))
      @ uint256_to_decstr (cl_L (client s)) 80 @ snprintf 16 (fmt_d (bio (client s))))) = Some bs"
    "bytes_val bs = dec_text (device_text (client s))"
    using auth_pre_prefix [OF assms(1-3)] by blast
  have "\<exists>s1. auth_identify stk s = Some (s1, sm3_to_uint256 (ref_sm3 bs), device_A (client s))
      \<and> client s1 = client s \<and> cheby s1 = cheby s"
    by (simp add: auth_identify_def Let_def bs(1) input_text [OF assms(1)] sm3_ref [OF assms(4)] device_A_def)
  then show ?thesis using that bs(2) by blast
qed

lemma auth_pre_accept:
  assumes ok: "client_ok (client s)" "0 \<le> userid (client s)" "0 \<le> bio (client s)" "length (sm3_buf stk) = 64"
    and A: "device_A (client s) = cl_A (client s)" and c4: "carry4 (cheby s) = 0"
    and N1: "0 < limbs_val (cl_N1 (client s))" "limbs_val (cl_N1 (client s)) \<le> 2 ^ 255"
  defines "T \<equiv> \<lambda>x. cheb (limbs_val (cl_d (client s))) (int (limbs_val x)) mod int (limbs_val (cl_N1 (client s)))"
    and "R \<equiv> \<lambda>v. int (limbs_val v) mod int (limbs_val (cl_N1 (client s)))"
  shows "\<exists>s' ap' bs. auth_pre stk s ap = Some (s', ap')
    \<and> bytes_val bs = dec_text (device_text (client s)) \<and> cl_PID (client s') = sm3_to_uint256 (ref_sm3 bs)
    \<and> R (ap_QID ap') = T (low_half (cl_PID (client s'))) \<and> R (ap_QPW ap') = T (int_to_uint256 (password (client s)))
    \<and> R (ap_QA ap') = T (low_half (cl_A (client s)))
    \<and> client s' = (client s)\<lparr>cl_PID := cl_PID (client s'), cl_QID := ap_QID ap'\<rparr>
    \<and> client_ok (client s') \<and> carry4 (cheby s') = 0"
proof -
  let ?cl = "client s"
  have len: "length (cl_d ?cl) = 8" "length (cl_N1 ?cl) = 8" "limbs_val (cl_N1 ?cl) \<noteq> 0"
    using ok(1) N1 by (simp_all add: client_ok_def)
  obtain s1 bs where id: "auth_identify stk s = Some (s1, sm3_to_uint256 (ref_sm3 bs), cl_A ?cl)"
    "bytes_val bs = dec_text (device_text ?cl)" "client s1 = ?cl" "cheby s1 = cheby s"
    using auth_identify_val [OF ok] A by metis
  let ?PID = "sm3_to_uint256 (ref_sm3 bs)"
  obtain c1 QID t1 where r1: "chebyshev_Tn (cheby s) (cl_d ?cl) (low_half ?PID) (cl_N1 ?cl) = Some (c1, QID, t1)"
    "carry4 c1 = 0" "length QID = 8" "R QID = T (low_half ?PID)"
    unfolding T_def R_def by (rule Tn_runs [OF len(1) _ len(2,3) _ c4 N1(2)]) (use low_half_small in auto)
  obtain c2 QPW t2 where r2: "chebyshev_Tn c1 (cl_d ?cl) (int_to_uint256 (password ?cl)) (cl_N1 ?cl) = Some (c2, QPW, t2)"
    "carry4 c2 = 0" "length QPW = 8" "R QPW = T (int_to_uint256 (password ?cl))"
    unfolding T_def R_def by (rule Tn_runs [OF len(1) _ len(2,3) _ r1(2) N1(2)]) (use int_to_uint256_small in auto)
  obtain c3 QA t3 where r3: "chebyshev_Tn c2 (cl_d ?cl) (low_half (cl_A ?cl)) (cl_N1 ?cl) = Some (c3, QA, t3)"
    "carry4 c3 = 0" "length QA = 8" "R QA = T (low_half (cl_A ?cl))"
    unfolding T_def R_def by (rule Tn_runs [OF len(1) _ len(2,3) _ r2(2) N1(2)]) (use low_half_small in auto)
  have eq: "uint256_equal (cl_A ?cl) (cl_A ?cl)" by (simp add: uint256_equal_iff)
  show ?thesis
    unfolding auth_pre_def auth_request_def Let_def
    using ok(1) id r1 r2 r3 eq by (simp add: call_Tn_def uint256_copy_id client_ok_def) blast
qed

lemma auth_pre_reject:
  assumes ok: "client_ok (client s)" "0 \<le> userid (client s)" "0 \<le> bio (client s)" "length (sm3_buf stk) = 64"
    and A: "device_A (client s) \<noteq> cl_A (client s)"
  shows "\<exists>s'. auth_pre stk s ap = Some (s', ap) \<and> client s' = client s"
proof -
  have "\<not> uint256_equal (device_A (client s)) (cl_A (client s))"
    using ok(1) A by (simp add: uint256_equal_iff client_ok_def device_A_def)
  moreover obtain s1 bs where "auth_identify stk s = Some (s1, sm3_to_uint256 (ref_sm3 bs), device_A (client s))"
    "client s1 = client s" using auth_identify_val [OF ok] by metis
  ultimately show ?thesis by (simp add: auth_pre_def)
qed

text \<open>
  C34. The authentication request.  For a device with nonnegative identity and biometric numbers, \<open>auth_pre\<close> returns.
  When the masked hash of the three numbers is not the registered \<open>A\<close>, the parameters to send and the client stay as
  they were.  When it is, the pseudonym is the SM3 hash of the bytes of the number whose decimal digits are those of the
  identity, of \<open>L\<close> and of the biometric, and the three parameters are the Chebyshev polynomial of degree \<open>d\<close>, modulo
  \<open>N1\<close>, at the lower halves of the pseudonym and of \<open>A\<close> and at the password; nothing of the client but the pseudonym
  and \<open>QID\<close> changes, and the carry variable of the Chebyshev routine stays clear.
\<close>

theorem auth_pre_spec:
  assumes ok: "client_ok (client s)" "0 \<le> userid (client s)" "0 \<le> bio (client s)" "length (sm3_buf stk) = 64"
    and c4: "carry4 (cheby s) = 0"
    and N1: "0 < limbs_val (cl_N1 (client s))" "limbs_val (cl_N1 (client s)) \<le> 2 ^ 255"
  defines "T \<equiv> \<lambda>x. cheb (limbs_val (cl_d (client s))) (int (limbs_val x)) mod int (limbs_val (cl_N1 (client s)))"
    and "R \<equiv> \<lambda>v. int (limbs_val v) mod int (limbs_val (cl_N1 (client s)))"
  shows "\<exists>s' ap' bs. auth_pre stk s ap = Some (s', ap')
    \<and> (if device_A (client s) = cl_A (client s)
       then bytes_val bs = dec_text (device_text (client s)) \<and> cl_PID (client s') = sm3_to_uint256 (ref_sm3 bs)
         \<and> R (ap_QID ap') = T (low_half (cl_PID (client s'))) \<and> R (ap_QPW ap') = T (int_to_uint256 (password (client s)))
         \<and> R (ap_QA ap') = T (low_half (cl_A (client s)))
         \<and> client s' = (client s)\<lparr>cl_PID := cl_PID (client s'), cl_QID := ap_QID ap'\<rparr>
         \<and> client_ok (client s') \<and> carry4 (cheby s') = 0
       else ap' = ap \<and> client s' = client s)"
proof (cases "device_A (client s) = cl_A (client s)")
  case True
  then show ?thesis using auth_pre_accept [OF ok True c4 N1, of ap] unfolding T_def R_def by simp
next
  case False
  then show ?thesis using auth_pre_reject [OF ok False, of ap] by auto
qed

definition sample_client :: Client where
  "sample_client = client_boot\<lparr>userid := 12, password := 34, bio := 56, cl_d := [5, 0, 0, 0, 0, 0, 0, 0],
     cl_N1 := [101, 0, 0, 0, 0, 0, 0, 0], cl_N := [101, 0, 0, 0, 0, 0, 0, 0], cl_pk := [7, 0, 0, 0, 0, 0, 0, 0]\<rparr>"

theorem auth_pre_spec_witness:
  "\<exists>s' ap'. auth_pre stack_ctx (proto_boot\<lparr>client := sample_client\<lparr>cl_A := device_A sample_client\<rparr>\<rparr>) auth_boot = Some (s', ap')
     \<and> int (limbs_val (ap_QPW ap')) mod 101 = cheb 5 (int (limbs_val (int_to_uint256 34))) mod 101"
proof -
  let ?s = "proto_boot\<lparr>client := sample_client\<lparr>cl_A := device_A sample_client\<rparr>\<rparr>"
  have ok: "client_ok (client ?s)" "0 \<le> userid (client ?s)" "0 \<le> bio (client ?s)" "length (sm3_buf stack_ctx) = 64"
    "carry4 (cheby ?s) = 0" "0 < limbs_val (cl_N1 (client ?s))" "limbs_val (cl_N1 (client ?s)) \<le> 2 ^ 255"
    by (simp_all add: client_ok_def sample_client_def client_boot_def device_A_def stack_ctx_def proto_boot_def cheby_boot_def)
  have "device_A (client ?s) = cl_A (client ?s)" by (simp add: device_A_def)
  then show ?thesis using auth_pre_spec [OF ok, of auth_boot] by (auto simp: sample_client_def)
qed

end
