(* ===== verification/Protocol_Key.thy ===== *)
theory Protocol_Key
  imports Protocol_Auth
begin

text \<open>
  The two phases of the shared key: what the device recovers from the messages of the authentication center, what it sends,
  the identity it checks, and the key it computes.
\<close>

section \<open>The state invariant\<close>

definition proto_ok :: "proto \<Rightarrow> bool" where
  "proto_ok s \<longleftrightarrow> client_ok (client s) \<and> list_all (\<lambda>v. length v = 8) [st_A s, st_d s, st_N s, st_x s, st_pk s, st_L s, st_N1 s,
     st_QID1 s, st_M1 s, st_HM2 s, st_TC1 s, st_QID3 s, st_HM5 s]"

lemma length_hex_segments: "length (snd (hex_segments is t res)) = length res"
  by (induction "is" t res rule: hex_segments.induct) (auto simp: Let_def split: prod.splits)

lemma length_hex_to_uint256 [simp]: "length (snd (hex_to_uint256 t res)) = length res"
  by (simp add: hex_to_uint256_def length_hex_segments)

lemma rt_request_ok: "rt_request argv s = Some s' \<Longrightarrow> proto_ok s \<Longrightarrow> proto_ok s'"
  using strtol10_range by (auto simp: rt_request_def Let_def proto_ok_def client_ok_def split: if_splits)

lemma register_proc_ok: "proto_ok s \<Longrightarrow> proto_ok (register_proc a b c d e f g s)"
  by (simp add: register_proc_def Let_def proto_ok_def client_ok_def)

lemma call_Tn_frame: "call_Tn s n x p = Some (s', T) \<Longrightarrow> \<exists>c. s' = s\<lparr>cheby := c\<rparr>"
  by (auto simp: call_Tn_def bind_eq_Some_conv)

lemmas proto_ok_defs = proto_ok_def client_ok_def Let_def bind_eq_Some_conv

lemma auth_identify_ok:
  "auth_identify stk s = Some (s1, PID, A) \<Longrightarrow> proto_ok s \<Longrightarrow> proto_ok s1 \<and> length PID = 8 \<and> length A = 8"
  by (auto simp: auth_identify_def proto_ok_defs)

lemma auth_request_ok: "auth_request PID A s = Some (s', ap) \<Longrightarrow> proto_ok s \<Longrightarrow> proto_ok s'"
  by (auto simp: auth_request_def proto_ok_defs dest!: call_Tn_frame)

lemma proto_ok_kprintf [simp]: "proto_ok (kprintf t s) = proto_ok s"
  by (simp add: proto_ok_def)

lemma auth_pre_ok: "auth_pre stk s ap = Some (s', ap') \<Longrightarrow> proto_ok s \<Longrightarrow> proto_ok s'"
  by (auto simp: auth_pre_def bind_eq_Some_conv split: if_splits dest!: auth_identify_ok auth_request_ok)

lemma auth_pre_rand: "auth_pre stk s ap = Some (s', ap') \<Longrightarrow> rand_pos s' = rand_pos s"
  by (auto simp: auth_pre_def auth_identify_def auth_request_def Let_def bind_eq_Some_conv split: if_splits dest!: call_Tn_frame)

lemma gen_scan_ok: "gen_scan stk msg s = Some s' \<Longrightarrow> proto_ok s \<Longrightarrow> proto_ok s'"
  by (auto simp: gen_scan_def proto_ok_defs)

lemma gen_identity_ok: "gen_identity s = Some (s', TA, Q) \<Longrightarrow> proto_ok s \<Longrightarrow> proto_ok s'"
  by (auto simp: gen_identity_def proto_ok_defs dest!: call_Tn_frame)

lemma gen_nonces_ok: "gen_nonces rand TA s = Some (s', a1, b) \<Longrightarrow> proto_ok s \<Longrightarrow> proto_ok s'"
  by (auto simp: gen_nonces_def proto_ok_defs)

lemma gen_reply_ok: "gen_reply stk TA Q a1 b s = Some (s', sp) \<Longrightarrow> proto_ok s \<Longrightarrow> proto_ok s'"
  by (auto simp: gen_reply_def proto_ok_defs dest!: call_Tn_frame)

lemma Sharedkey_Gen_ok: "Sharedkey_Gen stk rand msg s = Some (s', sp) \<Longrightarrow> proto_ok s \<Longrightarrow> proto_ok s'"
  using gen_scan_ok gen_identity_ok gen_nonces_ok gen_reply_ok by (auto simp: Sharedkey_Gen_def bind_eq_Some_conv)

lemma gen2_scan_ok: "gen2_scan stk msg s = Some s' \<Longrightarrow> proto_ok s \<Longrightarrow> proto_ok s'"
  by (auto simp: gen2_scan_def proto_ok_defs)

lemma gen2_verify_ok: "gen2_verify s = Some s' \<Longrightarrow> proto_ok s \<Longrightarrow> proto_ok s'"
  by (auto simp: gen2_verify_def proto_ok_defs dest!: call_Tn_frame)

lemma gen2_key_ok: "proto_ok (gen2_key stk s) = proto_ok s"
  by (simp add: gen2_key_def proto_ok_defs)

lemma Sharedkey_Gen2_ok: "Sharedkey_Gen2 stk msg s = Some s' \<Longrightarrow> proto_ok s \<Longrightarrow> proto_ok s'"
  using gen2_scan_ok gen2_verify_ok by (auto simp: Sharedkey_Gen2_def bind_eq_Some_conv gen2_key_ok)

section \<open>The check of the second phase\<close>

lemma addmod_residue:
  assumes "length a = 8" "length b = 8" "length m = 8" "limbs_val m \<le> 2 ^ 255" "limbs_val a \<le> limbs_val m"
    "limbs_val b < limbs_val m"
  shows "limbs_val (uint256_addmod a b m) mod limbs_val m = (limbs_val a + limbs_val b) mod limbs_val m"
    "limbs_val (uint256_addmod a b m) \<le> limbs_val m" "length (uint256_addmod a b m) = 8"
proof -
  have "limbs_val a + limbs_val b < 2 ^ 256" using assms(4-6) by simp
  note v = addmod_val [OF assms(1-3) this]
  show "limbs_val (uint256_addmod a b m) mod limbs_val m = (limbs_val a + limbs_val b) mod limbs_val m"
    unfolding v by (simp add: le_mod_geq)
  show "limbs_val (uint256_addmod a b m) \<le> limbs_val m" using assms(5,6) unfolding v by (simp split: if_split) linarith
  show "length (uint256_addmod a b m) = 8" by (rule v(2))
qed

text \<open>The products the check computes, on which the modular multiplication is exact.\<close>

definition verify_good :: "nat \<Rightarrow> nat \<Rightarrow> nat \<Rightarrow> nat \<Rightarrow> bool" where
  "verify_good A B C m \<longleftrightarrow> mulmod_good m (A * A) \<and> mulmod_good m (B * B) \<and> mulmod_good m (C * C) \<and> mulmod_good m (A * B)
     \<and> mulmod_good m (A * B mod m * C) \<and> mulmod_good m (A * B mod m * C mod m * 2)"

lemma sum3_mod: "(a mod m + b mod m + c mod m) mod m = (a + b + c) mod m" for a b c m :: nat
  by (intro mod_add_cong) simp_all

lemma prod3_mod: "(a * b mod m * c mod m * 2 mod m + 1) mod m = (2 * (a * b * c) + 1) mod m" for a b c m :: nat
proof (rule mod_add_cong [OF _ refl])
  have "a * b mod m * c mod m * 2 mod m mod m = a * b * c * 2 mod m" by (metis mod_mult_left_eq mod_mod_trivial)
  then show "a * b mod m * c mod m * 2 mod m mod m = 2 * (a * b * c) mod m" by (simp only: mult.commute [of 2])
qed

lemma residue_unique: "v mod m = r mod m \<Longrightarrow> v \<le> m \<Longrightarrow> r mod m \<noteq> 0 \<Longrightarrow> v = r mod m" for v m r :: nat
  by (cases "v = m") auto

lemma verify_left_val:
  assumes "length A = 8" "length B = 8" "length C = 8" "length m = 8" "1 < limbs_val m" "limbs_val m \<le> 2 ^ 255"
    "verify_good (limbs_val A) (limbs_val B) (limbs_val C) (limbs_val m)"
  defines "S \<equiv> limbs_val A * limbs_val A + limbs_val B * limbs_val B + limbs_val C * limbs_val C"
  assumes "S mod limbs_val m \<noteq> 0"
  shows "limbs_val (verify_left A B C m) = S mod limbs_val m" "length (verify_left A B C m) = 8"
proof -
  let ?m = "limbs_val m" and ?mm = "\<lambda>v. uint256_mulmod v v m"
  have sq: "limbs_val (?mm v) = limbs_val v * limbs_val v mod ?m" "length (?mm v) = 8"
    if "length v = 8" "mulmod_good ?m (limbs_val v * limbs_val v)" for v
    using mulmod_val [of v v m] that assms(4-6) by simp_all
  have g: "mulmod_good ?m (limbs_val A * limbs_val A)" "mulmod_good ?m (limbs_val B * limbs_val B)"
    "mulmod_good ?m (limbs_val C * limbs_val C)" using assms(7) by (simp_all add: verify_good_def)
  note a = sq [OF assms(1) g(1)] and b = sq [OF assms(2) g(2)] and c = sq [OF assms(3) g(3)]
  have lt: "limbs_val (?mm A) < ?m" "limbs_val (?mm B) < ?m" "limbs_val (?mm C) < ?m"
    using assms(5) a b c by simp_all
  note t = addmod_residue [OF a(2) b(2) assms(4,6) less_imp_le [OF lt(1)] lt(2)]
  note l = addmod_residue [OF t(3) c(2) assms(4,6) t(2) lt(3)]
  have "(limbs_val (uint256_addmod (?mm A) (?mm B) m) + limbs_val (?mm C)) mod ?m = S mod ?m"
    unfolding S_def mod_add_cong [OF t(1) refl] a(1) b(1) c(1) by (rule sum3_mod)
  then have "limbs_val (verify_left A B C m) mod ?m = S mod ?m" using l(1) unfolding verify_left_def Let_def by (rule trans [rotated])
  then show "limbs_val (verify_left A B C m) = S mod ?m"
    using l(2) assms(9) unfolding verify_left_def Let_def by (rule residue_unique)
  show "length (verify_left A B C m) = 8" using l(3) unfolding verify_left_def Let_def .
qed

lemma verify_right_val:
  assumes "length A = 8" "length B = 8" "length C = 8" "length m = 8" "1 < limbs_val m" "limbs_val m \<le> 2 ^ 255"
    "verify_good (limbs_val A) (limbs_val B) (limbs_val C) (limbs_val m)"
  defines "P \<equiv> 2 * (limbs_val A * limbs_val B * limbs_val C) + 1"
  assumes "P mod limbs_val m \<noteq> 0"
  shows "limbs_val (verify_right A B C m) = P mod limbs_val m" "length (verify_right A B C m) = 8"
proof -
  let ?m = "limbs_val m" and ?two = "[2, 0, 0, 0, 0, 0, 0, 0] :: u32 list" and ?one = "[1, 0, 0, 0, 0, 0, 0, 0] :: u32 list"
  let ?t1 = "uint256_mulmod A B m"
  let ?t2 = "uint256_mulmod ?t1 C m"
  let ?t3 = "uint256_mulmod ?t2 ?two m"
  have m0: "0 < ?m" using assms(5) by simp
  have t1: "limbs_val ?t1 = limbs_val A * limbs_val B mod ?m" "length ?t1 = 8"
    using mulmod_val [OF assms(1,2,4) m0 assms(6)] assms(7) by (simp_all add: verify_good_def)
  have t2: "limbs_val ?t2 = limbs_val A * limbs_val B mod ?m * limbs_val C mod ?m" "length ?t2 = 8"
    using mulmod_val [OF t1(2) assms(3,4) m0 assms(6)] assms(7) t1(1) by (simp_all add: verify_good_def)
  have two: "limbs_val ?two = 2" "length ?two = 8" "limbs_val ?one = 1" "length ?one = 8" by simp_all
  have t3: "limbs_val ?t3 = limbs_val A * limbs_val B mod ?m * limbs_val C mod ?m * 2 mod ?m" "length ?t3 = 8"
    using mulmod_val [OF t2(2) two(2) assms(4) m0 assms(6)] assms(7) t2(1) two(1) by (simp_all add: verify_good_def)
  have lt: "limbs_val ?t3 \<le> ?m" "limbs_val ?one < ?m" using t3(1) assms(5) two(3) by simp_all
  note r = addmod_residue [OF t3(2) two(4) assms(4,6) lt]
  have "(limbs_val ?t3 + 1) mod ?m = P mod ?m"
    unfolding t3(1) P_def by (rule prod3_mod)
  then have "limbs_val (verify_right A B C m) mod ?m = P mod ?m"
    using r(1) unfolding verify_right_def Let_def two(3) by (rule trans [rotated])
  then show "limbs_val (verify_right A B C m) = P mod ?m"
    using r(2) assms(9) unfolding verify_right_def Let_def by (rule residue_unique)
  show "length (verify_right A B C m) = 8" using r(3) unfolding verify_right_def Let_def .
qed

lemma verify_equal_iff:
  assumes "length A = 8" "length B = 8" "length C = 8" "length m = 8" "1 < limbs_val m" "limbs_val m \<le> 2 ^ 255"
    and good: "verify_good (limbs_val A) (limbs_val B) (limbs_val C) (limbs_val m)"
  defines "S \<equiv> limbs_val A * limbs_val A + limbs_val B * limbs_val B + limbs_val C * limbs_val C"
    and "P \<equiv> 2 * (limbs_val A * limbs_val B * limbs_val C) + 1"
  assumes nz: "S mod limbs_val m \<noteq> 0" "P mod limbs_val m \<noteq> 0"
  shows "uint256_equal (verify_left A B C m) (verify_right A B C m) \<longleftrightarrow> S mod limbs_val m = P mod limbs_val m"
proof -
  note l = verify_left_val [OF assms(1-6) good, folded S_def, OF nz(1)]
    and r = verify_right_val [OF assms(1-6) good, folded P_def, OF nz(2)]
  show ?thesis
    using l r limbs_val_inj [of "verify_left A B C m" "verify_right A B C m"] by (simp only: uint256_equal_iff)
qed

text \<open>
  The check of the second phase decides the identity.  For numbers below a modulus of at most \<open>2 ^ 255\<close>, when the
  products computed have no prefix that is a multiple of the modulus and neither side of the identity is zero modulo it, the
  two sides the device compares are equal exactly if \<open>A^2 + B^2 + C^2 = 2 A B C + 1\<close> modulo \<open>N\<close>; and this holds for the
  Chebyshev values at degrees \<open>a\<close>, \<open>b\<close> and \<open>a + b\<close>.
\<close>

lemma verify_decides:
  assumes "length A = 8" "length B = 8" "length C = 8" "length m = 8" "1 < limbs_val m" "limbs_val m \<le> 2 ^ 255"
    and good: "verify_good (limbs_val A) (limbs_val B) (limbs_val C) (limbs_val m)"
  defines "S \<equiv> limbs_val A * limbs_val A + limbs_val B * limbs_val B + limbs_val C * limbs_val C"
    and "P \<equiv> 2 * (limbs_val A * limbs_val B * limbs_val C) + 1"
  assumes nz: "S mod limbs_val m \<noteq> 0" "P mod limbs_val m \<noteq> 0"
  shows "(uint256_equal (verify_left A B C m) (verify_right A B C m) \<longleftrightarrow> S mod limbs_val m = P mod limbs_val m)
    \<and> (\<forall>a b x. int (limbs_val A) = cheb a x mod int (limbs_val m) \<and> int (limbs_val B) = cheb b x mod int (limbs_val m)
         \<and> int (limbs_val C) = cheb (a + b) x mod int (limbs_val m)
         \<longrightarrow> uint256_equal (verify_left A B C m) (verify_right A B C m))"
proof -
  note eq = verify_equal_iff [OF assms(1-6) good, folded S_def P_def, OF nz]
  have "S mod limbs_val m = P mod limbs_val m"
    if "int (limbs_val A) = cheb a x mod int (limbs_val m)" "int (limbs_val B) = cheb b x mod int (limbs_val m)"
      "int (limbs_val C) = cheb (a + b) x mod int (limbs_val m)" for a b x
    unfolding S_def P_def using that by (rule cheb.tn_triple)
  then show ?thesis using eq by blast
qed

lemma mulmod_good_check:
  assumes "P < 2 ^ n" "list_all (\<lambda>k. P div 2 ^ k mod m = 0 \<longrightarrow> P div 2 ^ k = 0) [0..<n]"
  shows "mulmod_good m P"
  unfolding mulmod_good_def
proof (intro allI impI)
  fix k assume "P div 2 ^ k mod m = 0"
  moreover have "P div 2 ^ k = 0" if "\<not> k < n"
  proof -
    have "(2 :: nat) ^ n \<le> 2 ^ k" using that by (intro power_increasing) simp_all
    then show ?thesis using assms(1) by (intro div_less) linarith
  qed
  ultimately show "P div 2 ^ k = 0" using assms(2) by (cases "k < n") (auto simp: list_all_iff)
qed

lemma verify_good_sample: "verify_good 7 26 59 101"
  unfolding verify_good_def
  by (intro conjI; rule mulmod_good_check [of _ 13]) (simp_all add: upt_rec)

section \<open>The messages of the center\<close>

definition hex64 :: "uint256 \<Rightarrow> string" where
  "hex64 v = snd (uint256_to_hex v 65)"

lemma hex64_read: "length v = 8 \<Longrightarrow> length old = 8 \<Longrightarrow> hex_to_uint256 (hex64 v) old = (0, v)"
  using hex_back [of v old 65] by (simp add: hex64_def)

lemma xdigit_not_space: "c_isxdigit c \<Longrightarrow> \<not> c_isspace c"
  by (auto simp: c_isxdigit_def c_isspace_def)

lemma hex64_word: "plain_word (hex64 v)" "length (hex64 v) = 64"
proof -
  let ?xs = "map (\<lambda>i. fmt_08X (v ! i)) (rev [0..<8])"
  have e: "hex64 v = concat ?xs" by (simp add: hex64_def uint256_to_hex_def)
  show len: "length (hex64 v) = 64" unfolding e by (simp add: length_concat comp_def upt_rec)
  have "list_all c_isxdigit (fmt_08X w)" for w unfolding fmt_08X_def by (rule fmt_hex_xdigits)
  then have "list_all c_isxdigit (hex64 v)" unfolding e by (auto simp: list_all_iff)
  then show "plain_word (hex64 v)" using len xdigit_not_space by (auto simp: plain_word_def list_all_iff)
qed

lemma sscanf_message:
  assumes "plain_word w" "length w < n" "list_all plain_word ws" "length ds = length ws"
    "list_all2 (\<lambda>d w. length w < fst d) ds ws"
  shows "sscanf_words (spaced (w # ws)) ((n, old) # ds) = Some (w # ws)"
  unfolding sscanf_words_def using assms by (subst c_words_spaced) (simp_all add: store_words_all)

section \<open>Runs of the two phases\<close>

text \<open>The value of the Chebyshev polynomial of degree \<open>n\<close> at the center's public key, modulo \<open>N\<close>.\<close>

definition pk_val :: "Client \<Rightarrow> nat \<Rightarrow> nat" where
  "pk_val cl n = nat (cheb n (int (limbs_val (cl_pk cl))) mod int (limbs_val (cl_N cl)))"

text \<open>A device that has received a usable modulus and public key.\<close>

definition key_ready :: "proto \<Rightarrow> bool" where
  "key_ready s \<longleftrightarrow> proto_ok s \<and> carry4 (cheby s) = 0 \<and> 1 < limbs_val (cl_N (client s)) \<and> limbs_val (cl_N (client s)) \<le> 2 ^ 255
     \<and> limbs_val (cl_pk (client s)) < limbs_val (cl_N (client s))"

lemma key_ready_lengths:
  assumes "key_ready s"
  shows "length (cl_pk (client s)) = 8" "length (cl_N (client s)) = 8" "length (cl_a1 (client s)) = 8"
    "length (cl_b (client s)) = 8" "length (cl_TA (client s)) = 8" "length (cl_TB (client s)) = 8" "length (cl_A (client s)) = 8"
    "length (st_QID1 s) = 8" "length (st_M1 s) = 8" "length (st_HM2 s) = 8" "length (st_TC1 s) = 8"
  using assms by (simp_all add: key_ready_def proto_ok_def client_ok_def)

lemma Tn_pk:
  assumes "key_ready s" "carry4 st = 0" "length n = 8"
  obtains c T T' where "chebyshev_Tn st n (cl_pk (client s)) (cl_N (client s)) = Some (c, T, T')" "carry4 c = 0" "length T = 8"
    "limbs_val T = pk_val (client s) (limbs_val n)"
proof -
  obtain c T T' where "chebyshev_Tn st n (cl_pk (client s)) (cl_N (client s)) = Some (c, T, T')" "carry4 c = 0" "length T = 8"
    "int (limbs_val T) = cheb (limbs_val n) (int (limbs_val (cl_pk (client s)))) mod int (limbs_val (cl_N (client s)))"
    using chebyshev_Tn_reduced [OF assms(2,3) key_ready_lengths(1,2) [OF assms(1)]] assms(1) unfolding key_ready_def by blast
  then show ?thesis using that by (simp add: pk_val_def)
qed

lemma pk_val_int:
  "1 < limbs_val (cl_N cl) \<Longrightarrow> int (pk_val cl n) = cheb n (int (limbs_val (cl_pk cl))) mod int (limbs_val (cl_N cl))"
  by (simp add: pk_val_def)

lemma uint256_xor_twice: "length a = 8 \<Longrightarrow> uint256_xor (uint256_xor a t) t = a"
  unfolding uint256_xor_def by (rule nth_equalityI) (auto simp: nth_upt xor.assoc)

lemma big_add_small:
  assumes "length a = 8" "length b = 8" "limbs_val a + limbs_val b < 2 ^ 256"
  shows "limbs_val (fst (big_add a b)) = limbs_val a + limbs_val b" "length (fst (big_add a b)) = 8"
proof -
  obtain r c where rc: "big_add a b = (r, c)" by fastforce
  have v: "length r = 8" "limbs_val r + 2 ^ 256 * unat c = limbs_val a + limbs_val b"
    using big_add_val [OF _ rc] assms(1,2) by simp_all
  then have "unat c = 0" using assms(3) by (cases "unat c") simp_all
  then show "limbs_val (fst (big_add a b)) = limbs_val a + limbs_val b" "length (fst (big_add a b)) = 8"
    using v rc by simp_all
qed

lemma ull_to_uint256_val: "limbs_val (ull_to_uint256 u) = unat u"
proof -
  have "ull_to_uint256 u = [ucast (u AND 0xFFFFFFFF), ucast (drop_bit 32 u AND 0xFFFFFFFF)] @ replicate 6 0"
    by (simp add: ull_to_uint256_def numeral_eq_Suc)
  then have "limbs_val (ull_to_uint256 u) = unat (ucast (u AND 0xFFFFFFFF) :: u32)
      + 2 ^ 32 * unat (ucast (drop_bit 32 u AND 0xFFFFFFFF) :: u32)"
    by (simp only: limbs_val_append limbs_val_replicate_0 limbs_val.simps) simp
  moreover have "unat (ucast (w AND 0xFFFFFFFF) :: u32) = unat w mod 2 ^ 32" for w :: u64
  proof -
    have "w AND 0xFFFFFFFF = take_bit 32 w" by (simp add: take_bit_eq_mask mask_eq_exp_minus_1)
    then show ?thesis by (simp add: unat_ucast_mod unat_take_bit_mod)
  qed
  moreover have "unat (drop_bit 32 u) = unat u div 2 ^ 32" by (rule unat_drop_bit_div)
  moreover have "unat u div 2 ^ 32 < 2 ^ 32" using unat_u64_less [of u] by (simp add: less_mult_imp_div_less)
  ultimately show ?thesis by simp
qed

lemma console_kprintf [simp]: "console (kprintf t s) = console s @ [t]"
  by (simp add: kprintf_def)

lemma console_kprintf_if: "b \<Longrightarrow> console (kprintf_if b t s) = console s @ [t]"
  by (simp add: kprintf_if_def)

lemma gen_scan_message:
  assumes "key_ready s" "length (sm3_buf stk) = 64" "plain_word w" "length w < 20" "length q = 8" "length m = 8" "length h = 8"
  obtains s1 where "gen_scan stk (spaced [w, hex64 q, hex64 m, hex64 h]) s = Some s1" "st_QID1 s1 = q" "st_M1 s1 = m"
    "client s1 = client s" "cheby s1 = cheby s" "rand_pos s1 = rand_pos s"
    "h = sm3_to_uint256 (ref_sm3 (uint256_bytes q @ uint256_bytes m)) \<longrightarrow> Message_complete \<in> set (console s1)"
proof -
  note l = key_ready_lengths [OF assms(1)]
  have sc: "sscanf_words (spaced [w, hex64 q, hex64 m, hex64 h])
      [(20, scan_first s), (80, str_QID1 s), (80, str_M1 s), (80, str_HM21 s)] = Some [w, hex64 q, hex64 m, hex64 h]"
    using assms(3,4) by (intro sscanf_message) (simp_all add: hex64_word)
  have "\<exists>s1. gen_scan stk (spaced [w, hex64 q, hex64 m, hex64 h]) s = Some s1 \<and> st_QID1 s1 = q \<and> st_M1 s1 = m
      \<and> client s1 = client s \<and> cheby s1 = cheby s \<and> rand_pos s1 = rand_pos s
      \<and> (h = sm3_to_uint256 (ref_sm3 (uint256_bytes q @ uint256_bytes m)) \<longrightarrow> Message_complete \<in> set (console s1))"
    using assms(2,5-7) l by (simp add: gen_scan_def Let_def sc hex64_read sm3_ref kprintf_if_def uint256_equal_iff del: spaced.simps)
  then show ?thesis using that by blast
qed

lemma gen_identity_val:
  assumes "key_ready s" "client s1 = client s" "cheby s1 = cheby s"
  obtains s2 TA where "gen_identity s1 = Some (s2, TA, uint256_xor (st_QID1 s1) TA)" "length TA = 8"
    "limbs_val TA = pk_val (client s) (limbs_val (low_half (cl_A (client s))))"
    "client s2 = (client s)\<lparr>cl_TA := TA\<rparr>" "st_M1 s2 = st_M1 s1" "rand_pos s2 = rand_pos s1" "carry4 (cheby s2) = 0"
    "set (console s1) \<subseteq> set (console s2)"
    "uint256_xor (st_QID1 s1) TA = low_half (cl_QID (client s)) \<longrightarrow> ID_matches \<in> set (console s2)"
proof -
  have "carry4 (cheby s) = 0" using assms(1) by (simp add: key_ready_def)
  then obtain c TA T' where T: "chebyshev_Tn (cheby s) (low_half (cl_A (client s))) (cl_pk (client s)) (cl_N (client s))
      = Some (c, TA, T')" "carry4 c = 0" "length TA = 8"
      "limbs_val TA = pk_val (client s) (limbs_val (low_half (cl_A (client s))))"
    using Tn_pk [OF assms(1)] length_uint256(7) by metis
  have "\<exists>s2. gen_identity s1 = Some (s2, TA, uint256_xor (st_QID1 s1) TA) \<and> client s2 = (client s)\<lparr>cl_TA := TA\<rparr>
      \<and> st_M1 s2 = st_M1 s1 \<and> rand_pos s2 = rand_pos s1 \<and> carry4 (cheby s2) = 0 \<and> set (console s1) \<subseteq> set (console s2)
      \<and> (uint256_xor (st_QID1 s1) TA = low_half (cl_QID (client s)) \<longrightarrow> ID_matches \<in> set (console s2))"
    using T assms(2,3)
    by (simp add: gen_identity_def Let_def call_Tn_def uint256_copy_id kprintf_if_def uint256_equal_iff) auto
  then show ?thesis using that T(3,4) by blast
qed

lemma gen_nonces_val:
  assumes "creat_number rand 32 (rand_pos s2) = Some (b, pos)"
  obtains s3 where "gen_nonces rand TA s2 = Some (s3, uint256_xor (st_M1 s2) TA, ull_to_uint256 b)"
    "client s3 = (client s2)\<lparr>cl_a1 := uint256_xor (st_M1 s2) TA, cl_b := ull_to_uint256 b\<rparr>" "rand_pos s3 = pos"
    "cheby s3 = cheby s2" "set (console s2) \<subseteq> set (console s3)"
proof -
  have "\<exists>s3. gen_nonces rand TA s2 = Some (s3, uint256_xor (st_M1 s2) TA, ull_to_uint256 b) \<and> rand_pos s3 = pos
    \<and> client s3 = (client s2)\<lparr>cl_a1 := uint256_xor (st_M1 s2) TA, cl_b := ull_to_uint256 b\<rparr>
    \<and> cheby s3 = cheby s2 \<and> set (console s2) \<subseteq> set (console s3)"
    using assms by (simp add: gen_nonces_def Let_def uint256_copy_id) auto
  then show ?thesis using that by blast
qed

lemma decstr3_fits:
  assumes "length u = 8" "length v = 8" "length w = 8"
  shows "snprintf 256 (uint256_to_decstr u 80 @ uint256_to_decstr v 80 @ uint256_to_decstr w 80)
    = fmt_u (limbs_val (rev u)) @ fmt_u (limbs_val (rev v)) @ fmt_u (limbs_val (rev w))"
  using decstr_80 [OF assms(1)] decstr_80 [OF assms(2)] decstr_80 [OF assms(3)] by (subst snprintf_fits) auto

lemma gen_reply_val:
  assumes "key_ready s" "cl_pk (client s3) = cl_pk (client s)" "cl_N (client s3) = cl_N (client s)" "carry4 (cheby s3) = 0"
    "length TA = 8" "length Q = 8" "length a = 8" "length b = 8" "limbs_val a + limbs_val b < 2 ^ 256" "length (sm3_buf stk) = 64"
  obtains s' sp TA1 where "gen_reply stk TA Q a b s3 = Some (s', sp)" "sp_N2 sp = uint256_xor b TA" "sp_QID sp = Q"
    "limbs_val (sp_TC sp) = pk_val (client s) (limbs_val a + limbs_val b)"
    "sp_HM3 sp = sm3_to_uint256 (ref_sm3 (str_bytes (fmt_u (limbs_val (rev (sp_N2 sp))) @ fmt_u (limbs_val (rev (sp_TC sp)))
       @ fmt_u (limbs_val (rev Q)))))"
    "client s' = (client s3)\<lparr>cl_TA1 := TA1, cl_TB := cl_TB (client s')\<rparr>"
    "limbs_val (cl_TB (client s')) = pk_val (client s) (limbs_val b)" "carry4 (cheby s') = 0"
    "rand_pos s' = rand_pos s3" "set (console s3) \<subseteq> set (console s')"
proof -
  note c = big_add_small [OF assms(7-9)]
  obtain c1 TC t1 where r1: "chebyshev_Tn (cheby s3) (fst (big_add a b)) (cl_pk (client s)) (cl_N (client s)) = Some (c1, TC, t1)"
    "carry4 c1 = 0" "length TC = 8" "limbs_val TC = pk_val (client s) (limbs_val a + limbs_val b)"
    using Tn_pk [OF assms(1,4) c(2)] c(1) by metis
  obtain c2 TA1 t2 where r2: "chebyshev_Tn c1 a (cl_pk (client s)) (cl_N (client s)) = Some (c2, TA1, t2)"
    "carry4 c2 = 0" "length TA1 = 8" using Tn_pk [OF assms(1) r1(2) assms(7)] by metis
  obtain c3 TB t3 where r3: "chebyshev_Tn c2 b (cl_pk (client s)) (cl_N (client s)) = Some (c3, TB, t3)"
    "carry4 c3 = 0" "length TB = 8" "limbs_val TB = pk_val (client s) (limbs_val b)"
    using Tn_pk [OF assms(1) r2(2) assms(8)] by metis
  let ?N2 = "uint256_xor b TA"
  let ?h = "sm3_to_uint256 (ref_sm3 (str_bytes (fmt_u (limbs_val (rev ?N2)) @ fmt_u (limbs_val (rev TC)) @ fmt_u (limbs_val (rev Q)))))"
  have "\<exists>s'. gen_reply stk TA Q a b s3 = Some (s', \<lparr>sp_N2 = ?N2, sp_TC = TC, sp_QID = Q, sp_HM3 = ?h\<rparr>)
      \<and> client s' = (client s3)\<lparr>cl_TA1 := TA1, cl_TB := TB\<rparr> \<and> carry4 (cheby s') = 0 \<and> rand_pos s' = rand_pos s3
      \<and> set (console s3) \<subseteq> set (console s')"
    using r1 r2 r3 assms(2,3,5,6,10)
    by (simp add: gen_reply_def Let_def call_Tn_def uint256_copy_id decstr3_fits sm3_ref) auto
  then show ?thesis using that [of _ _ TA1] r1(4) r3(4) by fastforce
qed

lemma Sharedkey_Gen_run:
  assumes "key_ready s" "length (sm3_buf stk) = 64" "creat_number rand 32 (rand_pos s) = Some (b, pos)"
    and TA: "length TA = 8" "limbs_val TA = pk_val (client s) (limbs_val (low_half (cl_A (client s))))"
    and a: "length a = 8" "limbs_val a + 2 ^ 32 \<le> 2 ^ 256" and h: "length h = 8"
  defines "q \<equiv> uint256_xor (low_half (cl_QID (client s))) TA" and "m \<equiv> uint256_xor a TA"
  shows "\<exists>s' sp. Sharedkey_Gen stk rand (spaced [''102'', hex64 q, hex64 m, hex64 h]) s = Some (s', sp)
    \<and> cl_a1 (client s') = a \<and> cl_b (client s') = ull_to_uint256 b \<and> cl_TA (client s') = TA
    \<and> limbs_val (cl_TB (client s')) = pk_val (client s) (unat b)
    \<and> uint256_xor (sp_N2 sp) TA = ull_to_uint256 b \<and> sp_QID sp = low_half (cl_QID (client s))
    \<and> limbs_val (sp_TC sp) = pk_val (client s) (limbs_val a + unat b)
    \<and> sp_HM3 sp = sm3_to_uint256 (ref_sm3 (str_bytes (fmt_u (limbs_val (rev (sp_N2 sp))) @ fmt_u (limbs_val (rev (sp_TC sp)))
        @ fmt_u (limbs_val (rev (sp_QID sp))))))
    \<and> ID_matches \<in> set (console s')
    \<and> (h = sm3_to_uint256 (ref_sm3 (uint256_bytes q @ uint256_bytes m)) \<longrightarrow> Message_complete \<in> set (console s'))
    \<and> key_ready s' \<and> rand_pos s' = pos"
proof -
  let ?msg = "spaced [''102'', hex64 q, hex64 m, hex64 h]" and ?b = "ull_to_uint256 b"
  have l8: "length q = 8" "length m = 8" by (simp_all add: q_def m_def)
  have w: "plain_word ''102''" "length ''102'' < 20" by (simp_all add: plain_word_def c_isspace_def)
  obtain s1 where s1: "gen_scan stk ?msg s = Some s1" "st_QID1 s1 = q" "st_M1 s1 = m" "client s1 = client s" "cheby s1 = cheby s"
    "rand_pos s1 = rand_pos s" "h = sm3_to_uint256 (ref_sm3 (uint256_bytes q @ uint256_bytes m)) \<longrightarrow> Message_complete \<in> set (console s1)"
    using gen_scan_message [OF assms(1,2) w l8 h] by metis
  obtain s2 U where s2: "gen_identity s1 = Some (s2, U, uint256_xor (st_QID1 s1) U)" "length U = 8"
    "limbs_val U = pk_val (client s) (limbs_val (low_half (cl_A (client s))))"
    "client s2 = (client s)\<lparr>cl_TA := U\<rparr>" "st_M1 s2 = st_M1 s1" "rand_pos s2 = rand_pos s1" "carry4 (cheby s2) = 0"
    "set (console s1) \<subseteq> set (console s2)"
    "uint256_xor (st_QID1 s1) U = low_half (cl_QID (client s)) \<longrightarrow> ID_matches \<in> set (console s2)"
    using gen_identity_val [OF assms(1) s1(4,5)] by metis
  have U: "U = TA" using limbs_val_inj [of U TA] s2(2,3) TA by simp
  have Q: "uint256_xor q TA = low_half (cl_QID (client s))" and A: "uint256_xor m TA = a"
    using a(1) by (simp_all add: q_def m_def uint256_xor_twice)
  obtain s3 where s3: "gen_nonces rand TA s2 = Some (s3, a, ?b)" "client s3 = (client s2)\<lparr>cl_a1 := a, cl_b := ?b\<rparr>"
    "rand_pos s3 = pos" "cheby s3 = cheby s2" "set (console s2) \<subseteq> set (console s3)"
    using gen_nonces_val [of rand s2 b pos TA] assms(3) s1(3,6) s2(5,6) A by auto
  have "unat b < 2 ^ 32" using creat_number_result [OF assms(3)] generate_odd_number_range(3) by fastforce
  then have sum: "limbs_val a + limbs_val ?b < 2 ^ 256" using a(2) by (simp only: ull_to_uint256_val)
  have pk: "cl_pk (client s3) = cl_pk (client s)" "cl_N (client s3) = cl_N (client s)" "carry4 (cheby s3) = 0"
    using s2(4,7) s3(2,4) by simp_all
  obtain s' sp TA1 where r: "gen_reply stk TA (low_half (cl_QID (client s))) a ?b s3 = Some (s', sp)"
    "sp_N2 sp = uint256_xor ?b TA" "sp_QID sp = low_half (cl_QID (client s))"
    "limbs_val (sp_TC sp) = pk_val (client s) (limbs_val a + limbs_val ?b)"
    "sp_HM3 sp = sm3_to_uint256 (ref_sm3 (str_bytes (fmt_u (limbs_val (rev (sp_N2 sp))) @ fmt_u (limbs_val (rev (sp_TC sp)))
       @ fmt_u (limbs_val (rev (low_half (cl_QID (client s))))))))"
    "client s' = (client s3)\<lparr>cl_TA1 := TA1, cl_TB := cl_TB (client s')\<rparr>"
    "limbs_val (cl_TB (client s')) = pk_val (client s) (limbs_val ?b)" "carry4 (cheby s') = 0"
    "rand_pos s' = rand_pos s3" "set (console s3) \<subseteq> set (console s')"
    by (rule gen_reply_val [OF assms(1) pk TA(1) _ a(1) _ sum assms(2)]) auto
  have run: "Sharedkey_Gen stk rand ?msg s = Some (s', sp)"
    using s1(1,2) s2(1) s3(1) r(1) U Q by (simp add: Sharedkey_Gen_def del: spaced.simps)
  have cl: "cl_a1 (client s') = a" "cl_b (client s') = ?b" "cl_TA (client s') = TA"
    "cl_N (client s') = cl_N (client s)" "cl_pk (client s') = cl_pk (client s)"
    by (subst r(6); simp add: s3(2) s2(4) U)+
  have "proto_ok s'" using Sharedkey_Gen_ok [OF run] assms(1) by (simp add: key_ready_def)
  then have ready: "key_ready s'" using cl(4,5) r(8) assms(1) by (simp add: key_ready_def)
  have console: "ID_matches \<in> set (console s')"
    "h = sm3_to_uint256 (ref_sm3 (uint256_bytes q @ uint256_bytes m)) \<longrightarrow> Message_complete \<in> set (console s')"
    using s1(2,7) s2(8,9) s3(5) r(10) U Q by auto
  show ?thesis
    using run cl(1-3) r(2-5,7,9) s3(3) ready console by (simp add: ull_to_uint256_val uint256_xor_twice del: spaced.simps)
qed

text \<open>
  C35. First phase with an honest center.  When the center masks the lower half of the registered \<open>QID\<close> and its random
  number \<open>a\<close> with the value of the device's secret at the public key, the device recovers \<open>a\<close>, recognises its \<open>QID\<close>,
  draws \<open>b\<close>, and answers with \<open>b\<close> under the same mask (so that the center recovers it), with its \<open>QID\<close>, with the Chebyshev
  value at \<open>a + b\<close> and with the hash of the three decimal texts; a right hash in the message is recognised; and the
  state is ready for the second phase.
\<close>

theorem Sharedkey_Gen_honest:
  assumes "key_ready s" "length (sm3_buf stk) = 64" "creat_number rand 32 (rand_pos s) = Some (b, pos)"
    and TA: "length TA = 8" "limbs_val TA = pk_val (client s) (limbs_val (low_half (cl_A (client s))))"
    and a: "length a = 8" "limbs_val a + 2 ^ 32 \<le> 2 ^ 256" and h: "length h = 8"
  defines "q \<equiv> uint256_xor (low_half (cl_QID (client s))) TA" and "m \<equiv> uint256_xor a TA"
  shows "\<exists>s' sp. Sharedkey_Gen stk rand (spaced [''102'', hex64 q, hex64 m, hex64 h]) s = Some (s', sp)
    \<and> cl_a1 (client s') = a \<and> cl_b (client s') = ull_to_uint256 b \<and> cl_TA (client s') = TA
    \<and> limbs_val (cl_TB (client s')) = pk_val (client s) (unat b)
    \<and> uint256_xor (sp_N2 sp) TA = ull_to_uint256 b \<and> sp_QID sp = low_half (cl_QID (client s))
    \<and> limbs_val (sp_TC sp) = pk_val (client s) (limbs_val a + unat b)
    \<and> sp_HM3 sp = sm3_to_uint256 (ref_sm3 (str_bytes (fmt_u (limbs_val (rev (sp_N2 sp))) @ fmt_u (limbs_val (rev (sp_TC sp)))
        @ fmt_u (limbs_val (rev (sp_QID sp))))))
    \<and> ID_matches \<in> set (console s')
    \<and> (h = sm3_to_uint256 (ref_sm3 (uint256_bytes q @ uint256_bytes m)) \<longrightarrow> Message_complete \<in> set (console s'))
    \<and> key_ready s' \<and> rand_pos s' = pos"
  unfolding q_def m_def using assms(1-8) by (rule Sharedkey_Gen_run)


definition sample_state :: proto where
  "sample_state = proto_boot\<lparr>client := sample_client\<rparr>"

lemma sample_ready: "key_ready sample_state"
  by (simp add: key_ready_def proto_ok_def client_ok_def sample_state_def sample_client_def client_boot_def proto_boot_def cheby_boot_def)

theorem Sharedkey_Gen_honest_witness:
  "\<exists>s' sp. Sharedkey_Gen stack_ctx (\<lambda>i. if i = 1 then 11 else 0) (spaced [''102'',
       hex64 (uint256_xor (low_half (cl_QID (client sample_state))) [1, 0, 0, 0, 0, 0, 0, 0]),
       hex64 (uint256_xor [9, 0, 0, 0, 0, 0, 0, 0] [1, 0, 0, 0, 0, 0, 0, 0]), hex64 uint256_zero]) sample_state = Some (s', sp)
     \<and> cl_a1 (client s') = [9, 0, 0, 0, 0, 0, 0, 0] \<and> ID_matches \<in> set (console s')"
proof -
  have "limbs_val (low_half (cl_A (client sample_state))) = 0"
    by (simp add: low_half_val sample_state_def sample_client_def client_boot_def uint256_zero_def)
  then have TA: "limbs_val [1, 0, 0, 0, 0, 0, 0, 0]
      = pk_val (client sample_state) (limbs_val (low_half (cl_A (client sample_state))))"
    by (simp add: pk_val_def sample_state_def sample_client_def)
  have c: "creat_number (\<lambda>i. if i = 1 then 11 else 0) 32 (rand_pos sample_state) = Some (2147483659, 7)"
    using creat_sample by (simp add: sample_state_def proto_boot_def)
  have k: "length (sm3_buf stack_ctx) = 64" "length [1, 0, 0, 0, 0, 0, 0, 0 :: u32] = 8" "length [9, 0, 0, 0, 0, 0, 0, 0 :: u32] = 8"
    "limbs_val [9, 0, 0, 0, 0, 0, 0, 0] + 2 ^ 32 \<le> 2 ^ 256" by (simp_all add: stack_ctx_def)
  show ?thesis
    using Sharedkey_Gen_honest [OF sample_ready k(1) c k(2) TA k(3,4) length_uint256(5)] by blast
qed

section \<open>The shared key\<close>

lemma gen2_scan_val:
  assumes "sscanf_words msg [(20, scan_first s), (80, strr_TC s), (80, strr_QID3 s), (80, strr_HM5 s)] = Some ws"
  obtains s1 where "gen2_scan stk msg s = Some s1" "client s1 = client s" "cheby s1 = cheby s"
    "st_TC1 s1 = snd (hex_to_uint256 (ws ! 1) (st_TC1 s))"
proof -
  have "\<exists>s1. gen2_scan stk msg s = Some s1 \<and> client s1 = client s \<and> cheby s1 = cheby s
    \<and> st_TC1 s1 = snd (hex_to_uint256 (ws ! 1) (st_TC1 s))"
    using assms by (simp add: gen2_scan_def Let_def)
  then show ?thesis using that by blast
qed

lemma gen2_verify_val:
  assumes "key_ready s" "client s1 = client s" "cheby s1 = cheby s"
  obtains s2 TA1 where "gen2_verify s1 = Some s2" "client s2 = client s" "carry4 (cheby s2) = 0" "length TA1 = 8"
    "limbs_val TA1 = pk_val (client s) (limbs_val (cl_a1 (client s)))"
    "uint256_equal (verify_left TA1 (cl_TB (client s)) (st_TC1 s1) (cl_N (client s)))
       (verify_right TA1 (cl_TB (client s)) (st_TC1 s1) (cl_N (client s))) \<longrightarrow> Same_a \<in> set (console s2)"
proof -
  note l = key_ready_lengths [OF assms(1)]
  have "carry4 (cheby s) = 0" using assms(1) by (simp add: key_ready_def)
  then obtain c TA1 T' where T: "chebyshev_Tn (cheby s) (cl_a1 (client s)) (cl_pk (client s)) (cl_N (client s)) = Some (c, TA1, T')"
    "carry4 c = 0" "length TA1 = 8" "limbs_val TA1 = pk_val (client s) (limbs_val (cl_a1 (client s)))"
    using Tn_pk [OF assms(1) _ l(3)] by metis
  have "\<exists>s2. gen2_verify s1 = Some s2 \<and> client s2 = client s \<and> carry4 (cheby s2) = 0
    \<and> (uint256_equal (verify_left TA1 (cl_TB (client s)) (st_TC1 s1) (cl_N (client s)))
       (verify_right TA1 (cl_TB (client s)) (st_TC1 s1) (cl_N (client s))) \<longrightarrow> Same_a \<in> set (console s2))"
    using T assms(2,3) l by (simp add: gen2_verify_def Let_def call_Tn_def uint256_copy_id kprintf_if_def)
  then show ?thesis using that T(3,4) by blast
qed

lemma gen2_key_val:
  assumes "length (sm3_buf stk) = 64" "key_ready s" "client s2 = client s"
  shows "st_KS (gen2_key stk s2) = ref_sm3 (str_bytes (fmt_u (limbs_val (rev (cl_a1 (client s))))
      @ fmt_u (limbs_val (rev (cl_b (client s)))) @ fmt_u (limbs_val (rev (cl_TA (client s))))))"
    and "client (gen2_key stk s2) = client s2" "cheby (gen2_key stk s2) = cheby s2"
    "set (console s2) \<subseteq> set (console (gen2_key stk s2))"
  using key_ready_lengths [OF assms(2)] assms(1,3)
  by (auto simp: gen2_key_def Let_def uint256_copy_id decstr3_fits sm3_ref)

lemma Sharedkey_Gen2_run:
  assumes "key_ready s" "length (sm3_buf stk) = 64"
    and "sscanf_words msg [(20, scan_first s), (80, strr_TC s), (80, strr_QID3 s), (80, strr_HM5 s)] = Some ws"
  defines "N \<equiv> limbs_val (cl_N (client s))" and "A \<equiv> pk_val (client s) (limbs_val (cl_a1 (client s)))"
    and "B \<equiv> limbs_val (cl_TB (client s))" and "C \<equiv> limbs_val (snd (hex_to_uint256 (ws ! 1) (st_TC1 s)))"
  shows "\<exists>s'. Sharedkey_Gen2 stk msg s = Some s' \<and> client s' = client s \<and> key_ready s'
    \<and> st_KS s' = ref_sm3 (str_bytes (fmt_u (limbs_val (rev (cl_a1 (client s)))) @ fmt_u (limbs_val (rev (cl_b (client s))))
        @ fmt_u (limbs_val (rev (cl_TA (client s))))))
    \<and> (B = pk_val (client s) (limbs_val (cl_b (client s)))
       \<and> C = pk_val (client s) (limbs_val (cl_a1 (client s)) + limbs_val (cl_b (client s)))
       \<and> verify_good A B C N \<and> (A * A + B * B + C * C) mod N \<noteq> 0 \<longrightarrow> Same_a \<in> set (console s'))"
proof -
  note l = key_ready_lengths [OF assms(1)]
  let ?TC = "snd (hex_to_uint256 (ws ! 1) (st_TC1 s))"
  obtain s1 where s1: "gen2_scan stk msg s = Some s1" "client s1 = client s" "cheby s1 = cheby s" "st_TC1 s1 = ?TC"
    using gen2_scan_val [OF assms(3)] by metis
  obtain s2 TA1 where s2: "gen2_verify s1 = Some s2" "client s2 = client s" "carry4 (cheby s2) = 0" "length TA1 = 8"
    "limbs_val TA1 = A" "uint256_equal (verify_left TA1 (cl_TB (client s)) (st_TC1 s1) (cl_N (client s)))
       (verify_right TA1 (cl_TB (client s)) (st_TC1 s1) (cl_N (client s))) \<longrightarrow> Same_a \<in> set (console s2)"
    unfolding A_def using gen2_verify_val [OF assms(1) s1(2,3)] by metis
  note k = gen2_key_val [OF assms(2,1) s2(2)]
  have run: "Sharedkey_Gen2 stk msg s = Some (gen2_key stk s2)" using s1(1) s2(1) by (simp add: Sharedkey_Gen2_def)
  have "proto_ok (gen2_key stk s2)" using Sharedkey_Gen2_ok [OF run] assms(1) by (simp add: key_ready_def)
  then have ready: "key_ready (gen2_key stk s2)" using assms(1) k(2,3) s2(2,3) by (simp add: key_ready_def)
  have "Same_a \<in> set (console (gen2_key stk s2))"
    if h: "B = pk_val (client s) (limbs_val (cl_b (client s)))"
      "C = pk_val (client s) (limbs_val (cl_a1 (client s)) + limbs_val (cl_b (client s)))"
      "verify_good A B C N" "(A * A + B * B + C * C) mod N \<noteq> 0"
  proof -
    have N: "1 < N" "N \<le> 2 ^ 255" using assms(1) by (simp_all add: key_ready_def N_def)
    have sums: "(A * A + B * B + C * C) mod N = (2 * (A * B * C) + 1) mod N"
      using cheb.tn_triple [of TA1 _ _ "cl_N (client s)" "cl_TB (client s)" _ ?TC] h(1,2) N(1) pk_val_int s2(5)
      unfolding A_def B_def C_def N_def by metis
    have g: "length ?TC = 8" using l(11) by simp
    have vg: "verify_good (limbs_val TA1) (limbs_val (cl_TB (client s))) (limbs_val ?TC) (limbs_val (cl_N (client s)))"
      using h(3) s2(5) by (simp add: B_def C_def N_def)
    have "uint256_equal (verify_left TA1 (cl_TB (client s)) ?TC (cl_N (client s)))
        (verify_right TA1 (cl_TB (client s)) ?TC (cl_N (client s)))"
      using verify_equal_iff [OF s2(4) l(6) g l(2) N(1,2) [unfolded N_def] vg] h(4) sums
      unfolding s2(5) B_def C_def N_def by (simp only: simp_thms not_False_eq_True)
    then show ?thesis using s2(6) s1(4) k(4) by auto
  qed
  then show ?thesis using run k(1,2) s2(2) ready by auto
qed

text \<open>
  C36. The shared key.  On every message whose words fit the buffers the second phase returns, and the key is the SM3 hash of
  the decimal texts of \<open>a\<close>, \<open>b\<close> and the mask \<open>TA\<close> stored in the first phase: the message, its hash and the check of
  the identity have no influence on it.  When the first word of the message is the Chebyshev value at \<open>a + b\<close> and the
  check is exact (\<open>verify_decides\<close>), the device reports that the random numbers agree.
\<close>

theorem Sharedkey_Gen2_key:
  assumes "key_ready s" "length (sm3_buf stk) = 64"
    and "sscanf_words msg [(20, scan_first s), (80, strr_TC s), (80, strr_QID3 s), (80, strr_HM5 s)] = Some ws"
  defines "N \<equiv> limbs_val (cl_N (client s))" and "A \<equiv> pk_val (client s) (limbs_val (cl_a1 (client s)))"
    and "B \<equiv> limbs_val (cl_TB (client s))" and "C \<equiv> limbs_val (snd (hex_to_uint256 (ws ! 1) (st_TC1 s)))"
  shows "\<exists>s'. Sharedkey_Gen2 stk msg s = Some s' \<and> client s' = client s \<and> key_ready s'
    \<and> st_KS s' = ref_sm3 (str_bytes (fmt_u (limbs_val (rev (cl_a1 (client s)))) @ fmt_u (limbs_val (rev (cl_b (client s))))
        @ fmt_u (limbs_val (rev (cl_TA (client s))))))
    \<and> (B = pk_val (client s) (limbs_val (cl_b (client s)))
       \<and> C = pk_val (client s) (limbs_val (cl_a1 (client s)) + limbs_val (cl_b (client s)))
       \<and> verify_good A B C N \<and> (A * A + B * B + C * C) mod N \<noteq> 0 \<longrightarrow> Same_a \<in> set (console s'))"
  unfolding N_def A_def B_def C_def using assms(1-3) by (rule Sharedkey_Gen2_run)


definition sample_state2 :: proto where
  "sample_state2 = proto_boot\<lparr>client := sample_client\<lparr>cl_pk := [2, 0, 0, 0, 0, 0, 0, 0], cl_a1 := [2, 0, 0, 0, 0, 0, 0, 0],
     cl_b := [3, 0, 0, 0, 0, 0, 0, 0], cl_TB := [26, 0, 0, 0, 0, 0, 0, 0]\<rparr>\<rparr>"

theorem Sharedkey_Gen2_key_witness:
  "\<exists>s'. Sharedkey_Gen2 stack_ctx (spaced [''103'', hex64 [59, 0, 0, 0, 0, 0, 0, 0], hex64 uint256_zero, hex64 uint256_zero])
     sample_state2 = Some s' \<and> Same_a \<in> set (console s')"
proof -
  let ?s = sample_state2 and ?C = "[59, 0, 0, 0, 0, 0, 0, 0] :: u32 list"
  let ?ws = "[''103'', hex64 ?C, hex64 uint256_zero, hex64 uint256_zero]"
  have ready: "key_ready ?s"
    by (simp add: key_ready_def proto_ok_def client_ok_def sample_state2_def sample_client_def client_boot_def proto_boot_def cheby_boot_def)
  have k: "length (sm3_buf stack_ctx) = 64" by (simp add: stack_ctx_def)
  have w: "plain_word ''103''" by (simp add: plain_word_def c_isspace_def)
  have sc: "sscanf_words (spaced ?ws) [(20, scan_first ?s), (80, strr_TC ?s), (80, strr_QID3 ?s), (80, strr_HM5 ?s)] = Some ?ws"
    by (intro sscanf_message w) (simp_all add: hex64_word)
  have C: "snd (hex_to_uint256 (?ws ! 1) (st_TC1 ?s)) = ?C"
    using hex64_read [of ?C "st_TC1 ?s"] key_ready_lengths [OF ready] by simp
  have ch: "cheb 2 2 = 7" "cheb 3 2 = 26" "cheb 5 2 = 362" by (simp_all add: eval_nat_numeral)
  have v: "pk_val (client ?s) 2 = 7" "pk_val (client ?s) 3 = 26" "pk_val (client ?s) (2 + 3) = 59"
    using ch by (simp_all add: pk_val_def sample_state2_def sample_client_def)
  have f: "limbs_val (cl_a1 (client ?s)) = 2" "limbs_val (cl_b (client ?s)) = 3" "limbs_val (cl_TB (client ?s)) = 26"
    "limbs_val (cl_N (client ?s)) = 101" "limbs_val ?C = 59"
    by (simp_all add: sample_state2_def sample_client_def)
  show ?thesis
    using Sharedkey_Gen2_key [OF ready k sc] unfolding C f v using verify_good_sample by auto
qed

end
