(* ===== verification/Tcp_Part.thy ===== *)
theory Tcp_Part
  imports Protocol_Key
begin

text \<open>
  \<open>tcp_part.c\<close>: the client that talks to the authentication center.  \<open>tcp\<close> holds the static variables of the file
  with the protocol state and the calls made so far, \<open>conn\<close> the run of \<open>tcpclient\<close> with its phase.  What the run holds of the
  system, its socket and its receive buffer, is no variable of the model but is computed from the calls (\<open>held\<close>).  The results of the network calls are inputs: a step relation gives the states that can be
  reached whatever the network does.
\<close>

section \<open>State\<close>

datatype tcp_line =
    No_memory
  | Socket_error
  | Connect_fail
  | Received_error
  | Got_q
  | Send_error
  | Send_warning
  | Registration_banner
  | Key_banner
  | Key_banner2
  | Unknown_request
  | Received_data string

text \<open>The text of each line; that of an unknown request is Chinese, in UTF-8.\<close>

primrec tcp_text :: "tcp_line \<Rightarrow> string" where
  "tcp_text No_memory = ''No memory'' @ newline"
| "tcp_text Socket_error = ''Socket error'' @ newline"
| "tcp_text Connect_fail = ''Connect fail!'' @ newline"
| "tcp_text Received_error = newline @ ''received error,close the socket.'' @ [CHR 0x0D] @ newline"
| "tcp_text Got_q = newline @ '' got a 'q' or 'Q',close the socket.'' @ [CHR 0x0D] @ newline"
| "tcp_text Send_error = newline @ ''send error,close the socket.'' @ [CHR 0x0D] @ newline"
| "tcp_text Send_warning = newline @ '' Send warning,send function return 0.'' @ [CHR 0x0D] @ newline"
| "tcp_text Registration_banner = newline
     @ ''---------The terminal device sends a registration request to the authentication center.---------'' @ newline"
| "tcp_text Key_banner = ''------------------------------------shared key generation phase''
     @ ''------------------------------------'' @ newline"
| "tcp_text Key_banner2 = ''------------------------------------shared key generation phase2''
     @ ''------------------------------------'' @ newline"
| "tcp_text Unknown_request = [CHR 0xE8, CHR 0xAF, CHR 0xB7, CHR 0xE6, CHR 0xB1, CHR 0x82, CHR 0xE6, CHR 0x97, CHR 0xA0,
     CHR 0xE6, CHR 0xB3, CHR 0x95, CHR 0xE8, CHR 0xA7, CHR 0xA3, CHR 0xE6, CHR 0x9E, CHR 0x90, CHR 0xE7, CHR 0xB1,
     CHR 0xBB, CHR 0xE5, CHR 0x9E, CHR 0x8B, CHR 0xEF, CHR 0xBC, CHR 0x81]"
| "tcp_text (Received_data d) = newline @ ''Received data = '' @ d @ '' ''"

text \<open>The calls: \<open>rt_kprintf\<close>, \<open>send\<close>, and the successful ones of \<open>rt_malloc\<close>, \<open>socket\<close>, \<open>closesocket\<close> and \<open>rt_free\<close>.\<close>

datatype tcp_out = Say tcp_line | Send string | Malloc_buffer | Open_socket | Close_socket | Free_buffer

record tcp =
  prot :: proto
  send_data :: string
  tcp_first :: string
  tcp_words :: "string list"
  auth_param :: Auth_Param
  share_param :: Share_Param
  trace :: "tcp_out list"

definition tcp_boot :: tcp where
  "tcp_boot = \<lparr>prot = proto_boot, send_data = [], tcp_first = [], tcp_words = replicate 7 [], auth_param = auth_boot,
     share_param = share_boot, trace = []\<rparr>"

definition out :: "tcp_out \<Rightarrow> tcp \<Rightarrow> tcp" where
  "out e t = t\<lparr>trace := trace t @ [e]\<rparr>"

section \<open>Handlers\<close>

definition save_parameter :: "string \<Rightarrow> tcp \<Rightarrow> tcp option" where
  "save_parameter recv_data t = do {
     ws \<leftarrow> sscanf_words recv_data ((20, tcp_first t) # map (\<lambda>w. (80, w)) (tcp_words t));
     let t = t\<lparr>tcp_first := ws ! 0, tcp_words := tl ws\<rparr>;
     Some (t\<lparr>prot := register_proc (ws ! 1) (ws ! 2) (ws ! 3) (ws ! 4) (ws ! 5) (ws ! 6) (ws ! 7) (prot t)\<rparr>) }"

text \<open>The case 101: registration data, answered by the authentication request.\<close>

definition handle_101 :: "gm_sm3_context \<Rightarrow> string \<Rightarrow> tcp \<Rightarrow> tcp option" where
  "handle_101 stk recv_data t = do {
     t \<leftarrow> save_parameter recv_data t;
     let t = out (Say Registration_banner) t;
     (p, ap) \<leftarrow> auth_pre stk (prot t) (auth_param t);
     let t = t\<lparr>prot := p, auth_param := ap\<rparr>;
     let str_QA = snd (uint256_to_hex (ap_QA ap) 65);
     let str_QID = snd (uint256_to_hex (ap_QID ap) 65);
     let str_QPW = snd (uint256_to_hex (ap_QPW ap) 65);
     Some (t\<lparr>send_data := ''202 '' @ str_QA @ '' '' @ str_QPW @ '' '' @ str_QID\<rparr>) }"

text \<open>The case 102: the first phase of the shared key.\<close>

definition handle_102 :: "gm_sm3_context \<Rightarrow> (nat \<Rightarrow> u32) \<Rightarrow> string \<Rightarrow> tcp \<Rightarrow> tcp option" where
  "handle_102 stk rand recv_data t = do {
     let t = out (Say Key_banner) t;
     (p, sp) \<leftarrow> Sharedkey_Gen stk rand recv_data (prot t);
     let t = t\<lparr>prot := p, share_param := sp\<rparr>;
     let str_N21 = snd (uint256_to_hex (sp_N2 sp) 65);
     let str_QID3 = snd (uint256_to_hex (sp_QID sp) 65);
     let str_TC1 = snd (uint256_to_hex (sp_TC sp) 80);
     let str_HM3 = snd (uint256_to_hex (sp_HM3 sp) 65);
     Some (t\<lparr>send_data := ''203 '' @ str_N21 @ '' '' @ str_QID3 @ '' '' @ str_TC1 @ '' '' @ str_HM3\<rparr>) }"

text \<open>The case 103: the second phase; the endless loop behind it is the phase \<open>Spinning\<close> below.\<close>

definition handle_103 :: "gm_sm3_context \<Rightarrow> string \<Rightarrow> tcp \<Rightarrow> tcp option" where
  "handle_103 stk recv_data t = do {
     let t = out (Say Key_banner2) t;
     p \<leftarrow> Sharedkey_Gen2 stk recv_data (prot t);
     Some (t\<lparr>prot := p\<rparr>) }"

text \<open>The classification of a message: the new state, and whether the code goes on to send.\<close>

definition classify :: "gm_sm3_context \<Rightarrow> (nat \<Rightarrow> u32) \<Rightarrow> string \<Rightarrow> tcp \<Rightarrow> (tcp \<times> bool) option" where
  "classify stk rand recv_data t = do {
     ws \<leftarrow> sscanf_words recv_data [(20, tcp_first t)];
     let t = t\<lparr>tcp_first := ws ! 0\<rparr>;
     let situation = strtol10 (tcp_first t);
     if situation = 101 then map_option (\<lambda>t. (t, True)) (handle_101 stk recv_data t)
     else if situation = 102 then map_option (\<lambda>t. (t, True)) (handle_102 stk rand recv_data t)
     else if situation = 103 then map_option (\<lambda>t. (t, False)) (handle_103 stk recv_data t)
     else Some (out (Say Unknown_request) t, True) }"

section \<open>The client\<close>

text \<open>
  \<open>Open\<close>: in the receive loop; \<open>Closed\<close>: returned; \<open>Spinning\<close>: in the endless loop of the case 103; \<open>Lost\<close>: a call that did
  not return normally.
\<close>

datatype phase = Open | Closed | Spinning | Lost

record conn =
  tcp_of :: tcp
  phase_of :: phase

text \<open>The four ways out of the loop: \<open>closesocket\<close>, a line, \<open>rt_free\<close>, \<open>break\<close>.\<close>

definition close_conn :: "tcp_line \<Rightarrow> conn \<Rightarrow> conn" where
  "close_conn l c = \<lparr>tcp_of = out Free_buffer (out (Say l) (out Close_socket (tcp_of c))), phase_of = Closed\<rparr>"

text \<open>
  \<open>tcpclient\<close> up to the loop, on the results of \<open>gethostbyname\<close> (whether a host was found), \<open>rt_malloc\<close> (whether there was
  memory), \<open>socket\<close> and \<open>connect\<close>.  A missing host is dereferenced after the socket has been made.
\<close>

definition tcpclient_start :: "bool \<Rightarrow> bool \<Rightarrow> int \<Rightarrow> int \<Rightarrow> tcp \<Rightarrow> conn" where
  "tcpclient_start host memory sock connected t =
     (if \<not> memory then \<lparr>tcp_of = out (Say No_memory) t, phase_of = Closed\<rparr>
      else let t = out Malloc_buffer t in
      if sock = -1 then \<lparr>tcp_of = out Free_buffer (out (Say Socket_error) t), phase_of = Closed\<rparr>
      else let t = out Open_socket t in
      if \<not> host then \<lparr>tcp_of = t, phase_of = Lost\<rparr>
      else if connected = -1
      then \<lparr>tcp_of = out Free_buffer (out Close_socket (out (Say Connect_fail) t)), phase_of = Closed\<rparr>
      else (let t = t\<lparr>send_data := ''201''\<rparr>;
                (p, d) = request_send (prot t) (send_data t);
                t = out (Send d) (t\<lparr>prot := p, send_data := d\<rparr>)
            in \<lparr>tcp_of = t, phase_of = Open\<rparr>))"

text \<open>Sending \<open>send_data\<close>, with the result \<open>ret\<close> of \<open>send\<close>.\<close>

definition reply :: "int \<Rightarrow> conn \<Rightarrow> conn" where
  "reply ret c =
     (let c = c\<lparr>tcp_of := out (Send (send_data (tcp_of c))) (tcp_of c)\<rparr>
      in if ret < 0 then close_conn Send_error c
         else if ret = 0 then c\<lparr>tcp_of := out (Say Send_warning) (tcp_of c)\<rparr>
         else c)"

text \<open>One pass of the loop, on the result of \<open>recv\<close> with the bytes received, and that of \<open>send\<close>.\<close>

definition tcpclient_pass ::
  "gm_sm3_context \<Rightarrow> (nat \<Rightarrow> u32) \<Rightarrow> int \<Rightarrow> bytes \<Rightarrow> int \<Rightarrow> conn \<Rightarrow> conn" where
  "tcpclient_pass stk rand bytes_received dat ret c =
     (if bytes_received < 0 then close_conn Received_error c
      else if bytes_received = 0 then close_conn Received_error c
      else (let recv_data = c_str (dat @ [0]) in
        if take 1 recv_data = ''q'' \<or> take 1 recv_data = ''Q'' then close_conn Got_q c
        else (case classify stk rand recv_data (tcp_of c) of
            None \<Rightarrow> c\<lparr>phase_of := Lost\<rparr>
          | Some (t, go_on) \<Rightarrow>
              if go_on then reply ret (c\<lparr>tcp_of := out (Say (Received_data recv_data)) t\<rparr>)
              else c\<lparr>tcp_of := t, phase_of := Spinning\<rparr>)))"

text \<open>The states of a run.  \<open>recv\<close> is given room for 2047 bytes.\<close>

inductive tcp_run :: "gm_sm3_context \<Rightarrow> (nat \<Rightarrow> u32) \<Rightarrow> tcp \<Rightarrow> conn \<Rightarrow> bool" for stk rand t0 where
  start: "tcp_run stk rand t0 (tcpclient_start host memory sock connected t0)"
| pass: "tcp_run stk rand t0 c \<Longrightarrow> phase_of c = Open \<Longrightarrow> n \<le> 2047 \<Longrightarrow> length dat = nat n \<Longrightarrow>
    tcp_run stk rand t0 (tcpclient_pass stk rand n dat ret c)"

inductive_cases tcp_run_cases: "tcp_run stk rand t0 c"

section \<open>What a run holds\<close>

text \<open>
  The socket and the buffer after a sequence of calls; \<open>None\<close> for a misuse: acquiring one a second time, closing or freeing one that is
  not held, sending without the socket, printing the received data without the buffer.
\<close>

datatype holding = Unused | Held | Released

fun use :: "tcp_out \<Rightarrow> holding \<times> holding \<Rightarrow> (holding \<times> holding) option" where
  "use (Say (Received_data d)) (s, b) = (if b = Held then Some (s, b) else None)"
| "use (Say l) (s, b) = Some (s, b)"
| "use (Send d) (s, b) = (if s = Held then Some (s, b) else None)"
| "use Malloc_buffer (s, b) = (if b = Unused then Some (s, Held) else None)"
| "use Open_socket (s, b) = (if s = Unused then Some (Held, b) else None)"
| "use Close_socket (s, b) = (if s = Held then Some (Released, b) else None)"
| "use Free_buffer (s, b) = (if b = Held then Some (s, Released) else None)"

fun uses :: "tcp_out list \<Rightarrow> holding \<times> holding \<Rightarrow> (holding \<times> holding) option" where
  "uses [] r = Some r"
| "uses (e # es) r = do { r \<leftarrow> use e r; uses es r }"

definition held :: "tcp_out list \<Rightarrow> (holding \<times> holding) option" where
  "held es = uses es (Unused, Unused)"

lemma uses_append: "uses (es @ es') r = do { r \<leftarrow> uses es r; uses es' r }"
proof (induction es arbitrary: r)
  case (Cons e es)
  then show ?case by (cases "use e r") simp_all
qed simp

lemma held_snoc [simp]: "held (es @ es') = do { r \<leftarrow> held es; uses es' r }"
  by (simp add: held_def uses_append)

lemma use_Say [simp]: "use (Say l) (s, Held) = Some (s, Held)"
  by (cases l) simp_all

section \<open>Invariant\<close>

definition sendable :: "string \<Rightarrow> bool" where
  "sendable d \<longleftrightarrow> take 3 d \<in> {''201'', ''202'', ''203''} \<and> length d < 1024"

definition tcp_ok :: "tcp \<Rightarrow> bool" where
  "tcp_ok t \<longleftrightarrow> proto_ok (prot t) \<and> length (tcp_words t) = 7
     \<and> (\<forall>d. Send d \<in> set (trace t) \<longrightarrow> sendable d)"

lemma out_simps [simp]:
  "prot (out e t) = prot t" "send_data (out e t) = send_data t" "tcp_words (out e t) = tcp_words t"
  "auth_param (out e t) = auth_param t" "share_param (out e t) = share_param t" "trace (out e t) = trace t @ [e]"
  "tcp_first (out e t) = tcp_first t"
  by (simp_all add: out_def)

lemma hex64_sizes: "snd (uint256_to_hex v 65) = hex64 v" "snd (uint256_to_hex v 80) = hex64 v"
  by (simp_all add: hex64_def uint256_to_hex_def)

lemma save_parameter_ok:
  assumes "save_parameter msg t = Some t'" "tcp_ok t"
  shows "tcp_ok t' \<and> trace t' = trace t"
proof -
  obtain ws where ws: "sscanf_words msg ((20, tcp_first t) # map (\<lambda>w. (80, w)) (tcp_words t)) = Some ws"
    "t' = t\<lparr>tcp_first := ws ! 0, tcp_words := tl ws,
       prot := register_proc (ws ! 1) (ws ! 2) (ws ! 3) (ws ! 4) (ws ! 5) (ws ! 6) (ws ! 7) (prot t)\<rparr>"
    using assms(1) by (auto simp: save_parameter_def bind_eq_Some_conv)
  have "length ws = 8" using length_store_words [OF ws(1) [unfolded sscanf_words_def]] assms(2) by (simp add: tcp_ok_def)
  then show ?thesis using assms(2) register_proc_ok by (simp add: ws(2) tcp_ok_def)
qed

lemma handle_101_ok:
  assumes "handle_101 stk msg t = Some t'" "tcp_ok t"
  shows "tcp_ok t' \<and> sendable (send_data t') \<and> trace t' = trace t @ [Say Registration_banner]"
proof -
  obtain t1 p ap where t1: "save_parameter msg t = Some t1" "auth_pre stk (prot t1) (auth_param t1) = Some (p, ap)"
    "t' = (out (Say Registration_banner) t1)\<lparr>prot := p, auth_param := ap,
       send_data := ''202 '' @ hex64 (ap_QA ap) @ '' '' @ hex64 (ap_QPW ap) @ '' '' @ hex64 (ap_QID ap)\<rparr>"
    using assms(1) by (auto simp: handle_101_def bind_eq_Some_conv hex64_sizes)
  then show ?thesis
    using save_parameter_ok [OF t1(1) assms(2)] auth_pre_ok [OF t1(2)]
    by (auto simp: tcp_ok_def sendable_def hex64_word)
qed

lemma handle_102_ok:
  assumes "handle_102 stk rand msg t = Some t'" "tcp_ok t"
  shows "tcp_ok t' \<and> sendable (send_data t') \<and> trace t' = trace t @ [Say Key_banner]"
proof -
  obtain p sp where t1: "Sharedkey_Gen stk rand msg (prot t) = Some (p, sp)"
    "t' = (out (Say Key_banner) t)\<lparr>prot := p, share_param := sp,
       send_data := ''203 '' @ hex64 (sp_N2 sp) @ '' '' @ hex64 (sp_QID sp) @ '' '' @ hex64 (sp_TC sp) @ '' '' @ hex64 (sp_HM3 sp)\<rparr>"
    using assms(1) by (auto simp: handle_102_def bind_eq_Some_conv hex64_sizes)
  then show ?thesis
    using Sharedkey_Gen_ok [OF t1(1)] assms(2) by (auto simp: tcp_ok_def sendable_def hex64_word)
qed

lemma handle_103_ok:
  "handle_103 stk msg t = Some t' \<Longrightarrow> tcp_ok t \<Longrightarrow> tcp_ok t' \<and> send_data t' = send_data t \<and> trace t' = trace t @ [Say Key_banner2]"
  using Sharedkey_Gen2_ok by (auto simp: handle_103_def bind_eq_Some_conv tcp_ok_def)

lemma classify_ok:
  assumes "classify stk rand msg t = Some (t', go)" "tcp_ok t" "sendable (send_data t)"
  shows "tcp_ok t' \<and> sendable (send_data t') \<and> (\<exists>l. trace t' = trace t @ [Say l])"
proof -
  obtain ws where ws: "sscanf_words msg [(20, tcp_first t)] = Some ws"
    using assms(1) unfolding classify_def by (cases "sscanf_words msg [(20, tcp_first t)]") simp_all
  define w where "w = ws ! 0"
  have t1: "tcp_ok (t\<lparr>tcp_first := w\<rparr>)" "trace (t\<lparr>tcp_first := w\<rparr>) = trace t"
    "(if strtol10 w = 101 then map_option (\<lambda>t. (t, True)) (handle_101 stk msg (t\<lparr>tcp_first := w\<rparr>))
      else if strtol10 w = 102 then map_option (\<lambda>t. (t, True)) (handle_102 stk rand msg (t\<lparr>tcp_first := w\<rparr>))
      else if strtol10 w = 103 then map_option (\<lambda>t. (t, False)) (handle_103 stk msg (t\<lparr>tcp_first := w\<rparr>))
      else Some (out (Say Unknown_request) (t\<lparr>tcp_first := w\<rparr>), True)) = Some (t', go)"
    using assms(1,2) by (auto simp: classify_def ws Let_def tcp_ok_def w_def split: if_splits)
  show ?thesis
    using t1(3) handle_101_ok [OF _ t1(1)] handle_102_ok [OF _ t1(1)] handle_103_ok [OF _ t1(1)] t1(1,2) assms(3)
    by (fastforce simp: tcp_ok_def split: if_splits)
qed

text \<open>What every state of a run satisfies.\<close>

definition conn_ok :: "conn \<Rightarrow> bool" where
  "conn_ok c \<longleftrightarrow> tcp_ok (tcp_of c) \<and> (phase_of c = Open \<longrightarrow> sendable (send_data (tcp_of c)))
     \<and> (if phase_of c = Closed then \<exists>s b. held (trace (tcp_of c)) = Some (s, b) \<and> s \<noteq> Held \<and> b \<noteq> Held
        else held (trace (tcp_of c)) = Some (Held, Held))"

lemma close_conn_ok: "conn_ok c \<Longrightarrow> phase_of c \<noteq> Closed \<Longrightarrow> conn_ok (close_conn l c)"
  by (auto simp: conn_ok_def close_conn_def tcp_ok_def)

lemma conn_ok_out:
  "conn_ok c \<Longrightarrow> phase_of c \<noteq> Closed \<Longrightarrow> use e (Held, Held) = Some (Held, Held) \<Longrightarrow> (\<And>d. e = Send d \<Longrightarrow> sendable d) \<Longrightarrow>
   conn_ok (c\<lparr>tcp_of := out e (tcp_of c)\<rparr>)"
  by (auto simp: conn_ok_def tcp_ok_def)

lemma reply_ok:
  assumes "conn_ok c" "phase_of c = Open"
  shows "conn_ok (reply ret c)"
proof -
  let ?c = "c\<lparr>tcp_of := out (Send (send_data (tcp_of c))) (tcp_of c)\<rparr>"
  have c: "conn_ok ?c" using assms by (intro conn_ok_out) (auto simp: conn_ok_def)
  then have "conn_ok (close_conn Send_error ?c)" using assms(2) by (intro close_conn_ok) simp_all
  moreover have "conn_ok (?c\<lparr>tcp_of := out (Say Send_warning) (tcp_of ?c)\<rparr>)"
    by (rule conn_ok_out [OF c]) (use assms(2) in simp_all)
  ultimately show ?thesis using c by (simp add: reply_def Let_def)
qed

lemma tcpclient_pass_ok:
  assumes "conn_ok c" "phase_of c = Open"
  shows "conn_ok (tcpclient_pass stk rand n dat ret c)"
proof -
  have close: "conn_ok (close_conn l c)" for l using assms by (intro close_conn_ok) simp_all
  have lost: "conn_ok (c\<lparr>phase_of := Lost\<rparr>)" using assms by (simp add: conn_ok_def)
  have cont: "conn_ok (c\<lparr>tcp_of := t\<rparr>) \<and> conn_ok (c\<lparr>tcp_of := t, phase_of := Spinning\<rparr>)"
    if "classify stk rand msg (tcp_of c) = Some (t, go)" for msg t go
    using classify_ok [OF that] assms by (auto simp: conn_ok_def)
  have "conn_ok (reply ret (c\<lparr>tcp_of := out (Say (Received_data msg)) t\<rparr>))"
    if "classify stk rand msg (tcp_of c) = Some (t, go)" for msg t go
    using conn_ok_out [of "c\<lparr>tcp_of := t\<rparr>" "Say (Received_data msg)"] cont [OF that] assms(2) by (intro reply_ok) simp_all
  then show ?thesis
    using close lost cont by (auto simp: tcpclient_pass_def Let_def split: option.splits)
qed

lemma request_send_ok:
  assumes "proto_ok p" "request_send p ''201'' = (p', d)"
  shows "proto_ok p'" "sendable d"
  using assms by (auto simp: request_send_def Let_def sendable_def snprintf_def)

lemma tcpclient_start_ok:
  assumes "tcp_ok t" "trace t = []"
  shows "conn_ok (tcpclient_start host memory sock connected t)"
proof -
  obtain p d where r: "request_send (prot t) ''201'' = (p, d)" by fastforce
  note ok = request_send_ok [OF _ r]
  show ?thesis using assms ok r by (auto simp: tcpclient_start_def conn_ok_def tcp_ok_def held_def Let_def)
qed

text \<open>The counts behind \<open>held\<close>: what has been acquired and given back.\<close>

lemma uses_counts:
  "uses es (s, b) = Some (s', b') \<Longrightarrow>
     count_list es Free_buffer + (if b' = Held then 1 else 0) = count_list es Malloc_buffer + (if b = Held then 1 else 0)
   \<and> count_list es Close_socket + (if s' = Held then 1 else 0) = count_list es Open_socket + (if s = Held then 1 else 0)"
proof (induction es arbitrary: s b)
  case (Cons e es)
  obtain s1 b1 where u: "use e (s, b) = Some (s1, b1)" "uses es (s1, b1) = Some (s', b')"
    using Cons.prems by (auto simp: bind_eq_Some_conv)
  show ?case using Cons.IH [OF u(2)] u(1) by (cases "(e, s, b)" rule: use.cases) (auto split: if_splits)
qed simp

lemma tcp_run_ok:
  assumes "tcp_ok t0" "trace t0 = []" "tcp_run stk rand t0 c"
  shows "conn_ok c"
  using assms(3) by (induction rule: tcp_run.induct) (auto intro: tcpclient_start_ok [OF assms(1,2)] tcpclient_pass_ok)

text \<open>
  C37. The client of the authentication center, whatever the network returns.  In every state of a run its calls use the socket and
  the buffer properly: each is acquired once at most and is held from then on until it is closed or freed, nothing is sent
  without the socket or read without the buffer, and nothing is closed or freed that is not held.  While the client is in its
  loops it holds both; once it has returned it has closed as many sockets as it has opened and freed as many buffers as it has
  allocated.  Every text sent is one of the three requests and fits the buffer; and the protocol state keeps its shape.
\<close>

theorem tcp_run_invariant:
  assumes "tcp_ok t0" "trace t0 = []" "tcp_run stk rand t0 c"
  shows "tcp_ok (tcp_of c) \<and> (phase_of c = Open \<longrightarrow> sendable (send_data (tcp_of c)))
    \<and> (phase_of c \<noteq> Closed \<longrightarrow> held (trace (tcp_of c)) = Some (Held, Held))
    \<and> (phase_of c = Closed \<longrightarrow> (\<exists>s b. held (trace (tcp_of c)) = Some (s, b) \<and> s \<noteq> Held \<and> b \<noteq> Held)
        \<and> count_list (trace (tcp_of c)) Close_socket = count_list (trace (tcp_of c)) Open_socket
        \<and> count_list (trace (tcp_of c)) Free_buffer = count_list (trace (tcp_of c)) Malloc_buffer)"
proof -
  have ok: "conn_ok c" using tcp_run_ok [OF assms] .
  have "count_list (trace (tcp_of c)) Close_socket = count_list (trace (tcp_of c)) Open_socket
      \<and> count_list (trace (tcp_of c)) Free_buffer = count_list (trace (tcp_of c)) Malloc_buffer"
    if "held (trace (tcp_of c)) = Some (s, b)" "s \<noteq> Held" "b \<noteq> Held" for s b
    using uses_counts [OF that(1) [unfolded held_def]] that(2,3) by simp
  then show ?thesis using ok by (auto simp: conn_ok_def split: if_splits)
qed

lemma tcp_boot_ok: "tcp_ok tcp_boot" "trace tcp_boot = []"
  by (simp_all add: tcp_ok_def tcp_boot_def proto_ok_def client_ok_def proto_boot_def client_boot_def)

text \<open>A connection on which the first \<open>recv\<close> fails: one socket opened and closed, one buffer allocated and freed.\<close>

theorem tcp_run_invariant_witness:
  "\<exists>c. tcp_run stack_ctx (\<lambda>i. 0) tcp_boot c \<and> phase_of c = Closed \<and> count_list (trace (tcp_of c)) Open_socket = 1
     \<and> count_list (trace (tcp_of c)) Close_socket = 1 \<and> count_list (trace (tcp_of c)) Free_buffer = count_list (trace (tcp_of c)) Malloc_buffer"
proof -
  define c0 where "c0 = tcpclient_start True True 3 0 tcp_boot"
  define c where "c = tcpclient_pass stack_ctx (\<lambda>i. 0) 0 [] 1 c0"
  have c0: "phase_of c0 = Open" "count_list (trace (tcp_of c0)) Open_socket = 1"
    by (simp_all add: c0_def tcpclient_start_def Let_def tcp_boot_def split: prod.splits)
  have c: "phase_of c = Closed" "count_list (trace (tcp_of c)) Open_socket = 1"
    using c0(2) by (simp_all add: c_def tcpclient_pass_def close_conn_def)
  have "tcp_run stack_ctx (\<lambda>i. 0) tcp_boot c" unfolding c_def c0_def
    by (intro tcp_run.intros) (simp_all add: c0(1) [unfolded c0_def])
  then show ?thesis using tcp_run_invariant [OF tcp_boot_ok] c by metis
qed

section \<open>Registration\<close>

lemma strtol10_cases: "strtol10 ''101'' = 101" "strtol10 ''102'' = 102" "strtol10 ''103'' = 103"
  by (simp_all add: strtol10_def c_isspace_def c_isdigit_def Let_def)

lemma classify_first:
  assumes "plain_word w" "length w < 20" "list_all plain_word ws"
  shows "sscanf_words (spaced (w # ws)) [(20, f)] = Some [w]"
  unfolding sscanf_words_def using assms by (subst c_words_spaced) simp_all

text \<open>The client after the registration data have been stored.\<close>

definition registered :: "uint256 list \<Rightarrow> Client \<Rightarrow> Client" where
  "registered vs cl = cl\<lparr>cl_A := vs ! 0, cl_d := vs ! 1, cl_N := vs ! 2, cl_x := vs ! 3, cl_pk := vs ! 4, cl_L := vs ! 5,
     cl_N1 := vs ! 6\<rparr>"

lemma length_7_cases: "length vs = 7 \<Longrightarrow> \<exists>a b c d e f g. vs = [a, b, c, d, e, f, g]"
  by (auto simp: numeral_eq_Suc length_Suc_conv)

lemma save_parameter_message:
  assumes "tcp_ok t" "length vs = 7" "list_all (\<lambda>v. length v = 8) vs" "plain_word w" "length w < 20"
  obtains t' where "save_parameter (spaced (w # map hex64 vs)) t = Some t'" "client (prot t') = registered vs (client (prot t))"
    "cheby (prot t') = cheby (prot t)" "rand_pos (prot t') = rand_pos (prot t)" "auth_param t' = auth_param t" "tcp_ok t'"
    "trace t' = trace t"
proof -
  have sc: "sscanf_words (spaced (w # map hex64 vs)) ((20, tcp_first t) # map (\<lambda>w. (80, w)) (tcp_words t)) = Some (w # map hex64 vs)"
    using assms by (intro sscanf_message) (simp_all add: tcp_ok_def list_all_iff hex64_word list_all2_conv_all_nth)
  obtain a b c d e f g where vs: "vs = [a, b, c, d, e, f, g]" using length_7_cases [OF assms(2)] by blast
  let ?p = "register_proc (hex64 a) (hex64 b) (hex64 c) (hex64 d) (hex64 e) (hex64 f) (hex64 g) (prot t)"
  have run: "save_parameter (spaced (w # map hex64 vs)) t = Some (t\<lparr>tcp_first := w, tcp_words := map hex64 vs, prot := ?p\<rparr>)"
    using sc by (simp add: save_parameter_def vs del: spaced.simps)
  have "client ?p = registered vs (client (prot t))" "cheby ?p = cheby (prot t)" "rand_pos ?p = rand_pos (prot t)"
    using assms(1,3) by (simp_all add: register_proc_def Let_def registered_def vs hex64_read tcp_ok_def proto_ok_def)
  then show ?thesis using run save_parameter_ok [OF run assms(1)] by (intro that [OF run]) simp_all
qed

lemma auth_101:
  assumes "tcp_ok t1" "length (sm3_buf stk) = 64" "carry4 (cheby (prot t1)) = 0" "0 \<le> userid (client (prot t1))"
    "0 \<le> bio (client (prot t1))" "0 < limbs_val (cl_N1 (client (prot t1)))" "limbs_val (cl_N1 (client (prot t1))) \<le> 2 ^ 255"
  defines "cl \<equiv> client (prot t1)"
    and "T \<equiv> \<lambda>x. cheb (limbs_val (cl_d (client (prot t1)))) (int (limbs_val x)) mod int (limbs_val (cl_N1 (client (prot t1))))"
    and "R \<equiv> \<lambda>v. int (limbs_val v) mod int (limbs_val (cl_N1 (client (prot t1))))"
  obtains p ap where "auth_pre stk (prot t1) (auth_param t1) = Some (p, ap)" "rand_pos p = rand_pos (prot t1)"
    "if device_A cl = cl_A cl
     then client p = cl\<lparr>cl_PID := cl_PID (client p), cl_QID := ap_QID ap\<rparr> \<and> carry4 (cheby p) = 0
       \<and> R (ap_QID ap) = T (low_half (cl_PID (client p))) \<and> R (ap_QPW ap) = T (int_to_uint256 (password cl))
       \<and> R (ap_QA ap) = T (low_half (cl_A cl))
     else client p = cl \<and> ap = auth_param t1"
proof -
  have ok: "client_ok (client (prot t1))" using assms(1) by (simp add: tcp_ok_def proto_ok_def)
  show ?thesis
  proof (cases "device_A cl = cl_A cl")
    case True
    then show ?thesis
      using auth_pre_accept [OF ok assms(4,5,2) True [unfolded cl_def] assms(3,6,7), of "auth_param t1"] auth_pre_rand that
      unfolding cl_def T_def R_def by fastforce
  next
    case False
    then show ?thesis
      using auth_pre_reject [OF ok assms(4,5,2) False [unfolded cl_def], of "auth_param t1"] auth_pre_rand that
      unfolding cl_def by fastforce
  qed
qed

lemma classify_101:
  assumes "tcp_ok t" "length vs = 7" "list_all (\<lambda>v. length v = 8) vs" "length (sm3_buf stk) = 64" "carry4 (cheby (prot t)) = 0"
    and "0 \<le> userid (client (prot t))" "0 \<le> bio (client (prot t))" "0 < limbs_val (vs ! 6)" "limbs_val (vs ! 6) \<le> 2 ^ 255"
  defines "cl \<equiv> registered vs (client (prot t))"
    and "T \<equiv> \<lambda>x. cheb (limbs_val (vs ! 1)) (int (limbs_val x)) mod int (limbs_val (vs ! 6))"
    and "R \<equiv> \<lambda>v. int (limbs_val v) mod int (limbs_val (vs ! 6))"
  shows "\<exists>t' ap. classify stk rand (spaced (''101'' # map hex64 vs)) t = Some (t', True)
    \<and> send_data t' = ''202 '' @ hex64 (ap_QA ap) @ '' '' @ hex64 (ap_QPW ap) @ '' '' @ hex64 (ap_QID ap)
    \<and> auth_param t' = ap \<and> rand_pos (prot t') = rand_pos (prot t)
    \<and> (if device_A cl = vs ! 0
       then client (prot t') = cl\<lparr>cl_PID := cl_PID (client (prot t')), cl_QID := ap_QID ap\<rparr> \<and> carry4 (cheby (prot t')) = 0
         \<and> R (ap_QID ap) = T (low_half (cl_PID (client (prot t')))) \<and> R (ap_QPW ap) = T (int_to_uint256 (password cl))
         \<and> R (ap_QA ap) = T (low_half (vs ! 0))
       else client (prot t') = cl \<and> ap = auth_param t)"
proof -
  let ?msg = "spaced (''101'' # map hex64 vs)" and ?t = "t\<lparr>tcp_first := ''101''\<rparr>"
  have w: "plain_word ''101''" "length ''101'' < 20" by (simp_all add: plain_word_def c_isspace_def)
  have t: "tcp_ok ?t" using assms(1) by (simp add: tcp_ok_def)
  obtain t1 where t1: "save_parameter ?msg ?t = Some t1" "client (prot t1) = cl" "cheby (prot t1) = cheby (prot t)"
    "rand_pos (prot t1) = rand_pos (prot t)" "auth_param t1 = auth_param t" "tcp_ok t1"
    by (rule save_parameter_message [OF t assms(2,3) w]) (auto simp: cl_def simp del: spaced.simps)
  have f: "cl_A cl = vs ! 0" "cl_d cl = vs ! 1" "cl_N1 cl = vs ! 6" "userid cl = userid (client (prot t))"
    "bio cl = bio (client (prot t))" by (simp_all add: cl_def registered_def)
  obtain p ap where p: "auth_pre stk (prot t1) (auth_param t1) = Some (p, ap)" "rand_pos p = rand_pos (prot t1)"
    "if device_A cl = vs ! 0
     then client p = cl\<lparr>cl_PID := cl_PID (client p), cl_QID := ap_QID ap\<rparr> \<and> carry4 (cheby p) = 0
       \<and> R (ap_QID ap) = T (low_half (cl_PID (client p))) \<and> R (ap_QPW ap) = T (int_to_uint256 (password cl))
       \<and> R (ap_QA ap) = T (low_half (vs ! 0))
     else client p = cl \<and> ap = auth_param t1"
    using auth_101 [OF t1(6) assms(4)] assms(5-9) t1(2,3) f unfolding T_def R_def by metis
  have first: "sscanf_words ?msg [(20, tcp_first t)] = Some [''101'']"
    using w by (intro classify_first) (simp_all add: list_all_iff hex64_word)
  have "\<exists>t'. classify stk rand ?msg t = Some (t', True)
      \<and> send_data t' = ''202 '' @ hex64 (ap_QA ap) @ '' '' @ hex64 (ap_QPW ap) @ '' '' @ hex64 (ap_QID ap)
      \<and> auth_param t' = ap \<and> prot t' = p"
    using first t1(1) p(1) by (simp add: classify_def strtol10_cases handle_101_def hex64_sizes del: spaced.simps)
  then show ?thesis using p(2,3) t1(4,5) by fastforce
qed

text \<open>
  C38. A registration message of the center, the word 101 and seven numbers in hexadecimal, is read back as these numbers: the
  client holds them afterwards.  The answer carries \<open>QA\<close>, \<open>QPW\<close> and \<open>QID\<close>; when the self-authentication of the
  device fails, it is sent all the same, with the values of the previous request.
\<close>

theorem registration_reply:
  assumes "tcp_ok t" "length vs = 7" "list_all (\<lambda>v. length v = 8) vs" "length (sm3_buf stk) = 64" "carry4 (cheby (prot t)) = 0"
    and "0 \<le> userid (client (prot t))" "0 \<le> bio (client (prot t))" "0 < limbs_val (vs ! 6)" "limbs_val (vs ! 6) \<le> 2 ^ 255"
  defines "cl \<equiv> registered vs (client (prot t))"
    and "T \<equiv> \<lambda>x. cheb (limbs_val (vs ! 1)) (int (limbs_val x)) mod int (limbs_val (vs ! 6))"
    and "R \<equiv> \<lambda>v. int (limbs_val v) mod int (limbs_val (vs ! 6))"
  shows "\<exists>t' ap. classify stk rand (spaced (''101'' # map hex64 vs)) t = Some (t', True)
    \<and> send_data t' = ''202 '' @ hex64 (ap_QA ap) @ '' '' @ hex64 (ap_QPW ap) @ '' '' @ hex64 (ap_QID ap)
    \<and> auth_param t' = ap \<and> rand_pos (prot t') = rand_pos (prot t)
    \<and> (if device_A cl = vs ! 0
       then client (prot t') = cl\<lparr>cl_PID := cl_PID (client (prot t')), cl_QID := ap_QID ap\<rparr> \<and> carry4 (cheby (prot t')) = 0
         \<and> R (ap_QID ap) = T (low_half (cl_PID (client (prot t')))) \<and> R (ap_QPW ap) = T (int_to_uint256 (password cl))
         \<and> R (ap_QA ap) = T (low_half (vs ! 0))
       else client (prot t') = cl \<and> ap = auth_param t)"
  unfolding cl_def T_def R_def using assms(1-9) by (rule classify_101)


definition sample_vs :: "uint256 list" where
  "sample_vs = [device_A client_boot, [5, 0, 0, 0, 0, 0, 0, 0], [101, 0, 0, 0, 0, 0, 0, 0], [3, 0, 0, 0, 0, 0, 0, 0],
     [7, 0, 0, 0, 0, 0, 0, 0], uint256_zero, [101, 0, 0, 0, 0, 0, 0, 0]]"

lemma sample_vs_ok:
  "length sample_vs = 7" "list_all (\<lambda>v. length v = 8) sample_vs" "0 < limbs_val (sample_vs ! 6)" "limbs_val (sample_vs ! 6) \<le> 2 ^ 255"
  "device_A (registered sample_vs client_boot) = sample_vs ! 0" "1 < limbs_val (sample_vs ! 2)" "limbs_val (sample_vs ! 2) \<le> 2 ^ 255"
  "limbs_val (sample_vs ! 4) < limbs_val (sample_vs ! 2)"
  by (simp_all add: sample_vs_def device_A_def registered_def client_boot_def)

lemma tcp_boot_simps:
  "client (prot tcp_boot) = client_boot" "carry4 (cheby (prot tcp_boot)) = 0" "rand_pos (prot tcp_boot) = 0"
  "0 \<le> userid (client (prot tcp_boot))" "0 \<le> bio (client (prot tcp_boot))" "length (sm3_buf stack_ctx) = 64"
  by (simp_all add: tcp_boot_def proto_boot_def client_boot_def cheby_boot_def stack_ctx_def)

theorem registration_reply_witness:
  "\<exists>t'. classify stack_ctx (\<lambda>i. 0) (spaced (''101'' # map hex64 sample_vs)) tcp_boot = Some (t', True)
     \<and> cl_d (client (prot t')) = [5, 0, 0, 0, 0, 0, 0, 0]"
proof -
  have d: "cl_d (registered sample_vs client_boot) = [5, 0, 0, 0, 0, 0, 0, 0]" by (simp add: registered_def sample_vs_def)
  show ?thesis
    using registration_reply [OF tcp_boot_ok(1) sample_vs_ok(1,2) tcp_boot_simps(6,2,4,5) sample_vs_ok(3,4), of "\<lambda>i. 0"]
    unfolding tcp_boot_simps(1) using sample_vs_ok(5) d
    by (metis Client.select_convs(5) Client.surjective Client.update_convs(11,12))
qed

section \<open>One pass on a text\<close>

lemma pass_text:
  assumes "CHR 0x00 \<notin> set msg" "msg = c # cs" "c \<noteq> CHR ''q''" "c \<noteq> CHR ''Q''" "classify stk rand msg (tcp_of k) = Some (t, go)"
    "0 < ret"
  shows "tcpclient_pass stk rand (int (length msg)) (str_bytes msg) ret k =
    (if go then k\<lparr>tcp_of := out (Send (send_data t)) (out (Say (Received_data msg)) t)\<rparr>
     else k\<lparr>tcp_of := t, phase_of := Spinning\<rparr>)"
proof -
  have "c_str (str_bytes msg @ [0]) = msg" using assms(1) by (rule c_str_str_bytes)
  then show ?thesis using assms by (auto simp: tcpclient_pass_def reply_def Let_def)
qed

end
