(* ===== verification/Session.thy ===== *)
theory Session
  imports Tcp_Part
begin

text \<open>
  A whole session of the device with an honest center: registration, the first and the second phase of the shared key, as
  passes of the receive loop of \<open>tcpclient\<close>.
\<close>

lemma hex64_clean: "CHR 0x00 \<notin> set (hex64 v)"
proof -
  have "list_all c_isxdigit (hex64 v)"
    unfolding hex64_def uint256_to_hex_def fmt_08X_def using fmt_hex_xdigits by (auto simp: list_all_iff)
  then show ?thesis by (auto simp: list_all_iff c_isxdigit_def)
qed

lemma spaced_clean: "\<forall>u \<in> set ws. CHR 0x00 \<notin> set u \<Longrightarrow> CHR 0x00 \<notin> set (spaced ws)"
  by (induction ws rule: spaced.induct) auto

lemma message_clean: "CHR 0x00 \<notin> set w \<Longrightarrow> CHR 0x00 \<notin> set (spaced (w # map hex64 vs))"
  using hex64_clean by (intro spaced_clean) auto

lemma spaced_head: "\<exists>cs. spaced ((c # w) # ws) = c # cs"
  by (cases ws) auto

text \<open>The client after registration is ready for the key.\<close>

lemma registered_ready:
  assumes "tcp_ok t'" "client (prot t') = (registered vs cl)\<lparr>cl_PID := x, cl_QID := y\<rparr>" "carry4 (cheby (prot t')) = 0"
    "1 < limbs_val (vs ! 2)" "limbs_val (vs ! 2) \<le> 2 ^ 255" "limbs_val (vs ! 4) < limbs_val (vs ! 2)"
  shows "key_ready (prot t')" "pk_val (client (prot t')) n = pk_val (registered vs cl) n" "cl_A (client (prot t')) = vs ! 0"
  using assms by (simp_all add: key_ready_def tcp_ok_def registered_def pk_val_def)

lemma classify_102:
  assumes "key_ready (prot t)" "length (sm3_buf stk) = 64" "creat_number rand 32 (rand_pos (prot t)) = Some (b, pos)"
    and "length TA = 8" "limbs_val TA = pk_val (client (prot t)) (limbs_val (low_half (cl_A (client (prot t)))))"
    and "length a = 8" "limbs_val a + 2 ^ 32 \<le> 2 ^ 256" "length h = 8"
  obtains t' where "classify stk rand (spaced (''102'' # map hex64 [uint256_xor (low_half (cl_QID (client (prot t)))) TA, uint256_xor a TA, h])) t
      = Some (t', True)" "key_ready (prot t')" "cl_a1 (client (prot t')) = a" "cl_b (client (prot t')) = ull_to_uint256 b"
    "cl_TA (client (prot t')) = TA" "uint256_xor (sp_N2 (share_param t')) TA = ull_to_uint256 b"
    "limbs_val (sp_TC (share_param t')) = pk_val (client (prot t)) (limbs_val a + unat b)"
    "send_data t' = spaced (''203'' # map hex64 [sp_N2 (share_param t'), sp_QID (share_param t'), sp_TC (share_param t'), sp_HM3 (share_param t')])"
proof -
  let ?msg = "spaced (''102'' # map hex64 [uint256_xor (low_half (cl_QID (client (prot t)))) TA, uint256_xor a TA, h])"
  have w: "plain_word ''102''" "length ''102'' < 20" by (simp_all add: plain_word_def c_isspace_def)
  obtain p sp where r: "Sharedkey_Gen stk rand ?msg (prot t) = Some (p, sp)" "cl_a1 (client p) = a" "cl_b (client p) = ull_to_uint256 b"
    "cl_TA (client p) = TA" "uint256_xor (sp_N2 sp) TA = ull_to_uint256 b"
    "limbs_val (sp_TC sp) = pk_val (client (prot t)) (limbs_val a + unat b)" "key_ready p"
    using Sharedkey_Gen_run [OF assms] unfolding list.map by blast
  have first: "sscanf_words ?msg [(20, tcp_first t)] = Some [''102'']"
    using w by (intro classify_first) (simp_all add: hex64_word)
  have "\<exists>t'. classify stk rand ?msg t = Some (t', True) \<and> prot t' = p \<and> share_param t' = sp
      \<and> send_data t' = ''203 '' @ hex64 (sp_N2 sp) @ '' '' @ hex64 (sp_QID sp) @ '' '' @ hex64 (sp_TC sp) @ '' '' @ hex64 (sp_HM3 sp)"
    using first r(1) by (simp add: classify_def strtol10_cases handle_102_def hex64_sizes del: spaced.simps list.map)
  then obtain t' where "classify stk rand ?msg t = Some (t', True)" "prot t' = p" "share_param t' = sp"
    "send_data t' = ''203 '' @ hex64 (sp_N2 sp) @ '' '' @ hex64 (sp_QID sp) @ '' '' @ hex64 (sp_TC sp) @ '' '' @ hex64 (sp_HM3 sp)" by blast
  then show ?thesis using r(2-7) by (intro that [of t']) simp_all
qed

lemma classify_103:
  assumes "key_ready (prot t)" "length (sm3_buf stk) = 64"
  obtains t' where "classify stk rand (spaced (''103'' # map hex64 [u, v, w])) t = Some (t', False)"
    "client (prot t') = client (prot t)"
    "st_KS (prot t') = ref_sm3 (str_bytes (fmt_u (limbs_val (rev (cl_a1 (client (prot t)))))
       @ fmt_u (limbs_val (rev (cl_b (client (prot t))))) @ fmt_u (limbs_val (rev (cl_TA (client (prot t)))))))"
proof -
  let ?msg = "spaced (''103'' # map hex64 [u, v, w])" and ?s = "prot t"
  have pw: "plain_word ''103''" "length ''103'' < 20" by (simp_all add: plain_word_def c_isspace_def)
  have sc: "sscanf_words ?msg [(20, scan_first ?s), (80, strr_TC ?s), (80, strr_QID3 ?s), (80, strr_HM5 ?s)]
      = Some (''103'' # map hex64 [u, v, w])"
    using pw by (intro sscanf_message) (simp_all add: hex64_word)
  obtain p where p: "Sharedkey_Gen2 stk ?msg ?s = Some p" "client p = client ?s"
    "st_KS p = ref_sm3 (str_bytes (fmt_u (limbs_val (rev (cl_a1 (client ?s)))) @ fmt_u (limbs_val (rev (cl_b (client ?s))))
       @ fmt_u (limbs_val (rev (cl_TA (client ?s))))))"
    using Sharedkey_Gen2_run [OF assms sc] by blast
  have first: "sscanf_words ?msg [(20, tcp_first t)] = Some [''103'']"
    using pw by (intro classify_first) (simp_all add: hex64_word)
  have "\<exists>t'. classify stk rand ?msg t = Some (t', False) \<and> prot t' = p"
    using first p(1) by (simp add: classify_def strtol10_cases handle_103_def del: spaced.simps list.map)
  then show ?thesis using that p(2,3) by metis
qed

lemma pass_message:
  assumes "classify stk rand (spaced ((CHR ''1'' # w) # map hex64 vs)) (tcp_of k) = Some (t, go)" "0 < ret"
    and "CHR 0x00 \<notin> set (CHR ''1'' # w)"
  defines "msg \<equiv> spaced ((CHR ''1'' # w) # map hex64 vs)"
  shows "tcpclient_pass stk rand (int (length msg)) (str_bytes msg) ret k =
    (if go then k\<lparr>tcp_of := out (Send (send_data t)) (out (Say (Received_data msg)) t)\<rparr>
     else k\<lparr>tcp_of := t, phase_of := Spinning\<rparr>)"
proof -
  obtain cs where cs: "msg = CHR ''1'' # cs" unfolding msg_def using spaced_head by blast
  have clean: "CHR 0x00 \<notin> set msg" unfolding msg_def by (rule message_clean [OF assms(3)])
  have neq: "CHR ''1'' \<noteq> CHR ''q''" "CHR ''1'' \<noteq> CHR ''Q''" by simp_all
  show ?thesis by (rule pass_text [OF clean cs neq assms(1) [folded msg_def] assms(2)])
qed

text \<open>
  C5. A whole session.  A device whose registered \<open>A\<close> fits its three numbers, in the receive loop of \<open>tcpclient\<close>, gets the
  registration message, then the first key message of an honest center (the \<open>QID\<close> of the device and the random number
  \<open>a\<close>, both under the mask), then the second one (the Chebyshev value the device has sent, and two further numbers).  It
  answers the first two messages and keeps receiving, the center can unmask \<open>b\<close> from the answer, and after the third message
  the device holds the key that is the hash of \<open>a\<close>, \<open>b\<close> and the mask; it then spins forever with its socket open and its buffer allocated.
\<close>

theorem session_key:
  fixes u v :: uint256
  assumes c: "conn_ok c" "phase_of c = Open" "carry4 (cheby (prot (tcp_of c))) = 0"
    and num: "0 \<le> userid (client (prot (tcp_of c)))" "0 \<le> bio (client (prot (tcp_of c)))"
    and vs: "length vs = 7" "list_all (\<lambda>v. length v = 8) vs" "0 < limbs_val (vs ! 6)" "limbs_val (vs ! 6) \<le> 2 ^ 255"
      "1 < limbs_val (vs ! 2)" "limbs_val (vs ! 2) \<le> 2 ^ 255" "limbs_val (vs ! 4) < limbs_val (vs ! 2)"
    and A: "device_A (registered vs (client (prot (tcp_of c)))) = vs ! 0"
    and stk: "length (sm3_buf stk) = 64" and b: "creat_number rand 32 (rand_pos (prot (tcp_of c))) = Some (b, pos)"
    and TA: "length TA = 8" "limbs_val TA = pk_val (registered vs (client (prot (tcp_of c)))) (limbs_val (low_half (vs ! 0)))"
    and a: "length a = 8" "limbs_val a + 2 ^ 32 \<le> 2 ^ 256" and h: "length h = 8" and ret: "0 < r1" "0 < r2" "0 < r3"
  defines "pass \<equiv> \<lambda>msg r k. tcpclient_pass stk rand (int (length msg)) (str_bytes msg) r k"
  defines "c1 \<equiv> pass (spaced (''101'' # map hex64 vs)) r1 c"
  defines "c2 \<equiv> pass (spaced (''102'' # map hex64 [uint256_xor (low_half (cl_QID (client (prot (tcp_of c1))))) TA, uint256_xor a TA, h])) r2 c1"
  defines "sp \<equiv> share_param (tcp_of c2)"
  defines "c3 \<equiv> pass (spaced (''103'' # map hex64 [sp_TC sp, u, v])) r3 c2"
  shows "phase_of c1 = Open \<and> phase_of c2 = Open \<and> phase_of c3 = Spinning \<and> held (trace (tcp_of c3)) = Some (Held, Held)
    \<and> last (trace (tcp_of c2)) = Send (spaced (''203'' # map hex64 [sp_N2 sp, sp_QID sp, sp_TC sp, sp_HM3 sp]))
    \<and> uint256_xor (sp_N2 sp) TA = ull_to_uint256 b
    \<and> limbs_val (sp_TC sp) = pk_val (registered vs (client (prot (tcp_of c)))) (limbs_val a + unat b)
    \<and> st_KS (prot (tcp_of c3)) = ref_sm3 (str_bytes (fmt_u (limbs_val (rev a)) @ fmt_u (limbs_val (rev (ull_to_uint256 b)))
        @ fmt_u (limbs_val (rev TA))))"
proof -
  let ?cl = "registered vs (client (prot (tcp_of c)))"
  have d: "CHR 0x00 \<notin> set ''101''" "CHR 0x00 \<notin> set ''102''" "CHR 0x00 \<notin> set ''103''" by simp_all
  have ok: "tcp_ok (tcp_of c)" "sendable (send_data (tcp_of c))" using c(1,2) by (simp_all add: conn_ok_def)
  obtain t1 where t1: "classify stk rand (spaced (''101'' # map hex64 vs)) (tcp_of c) = Some (t1, True)"
    "rand_pos (prot t1) = rand_pos (prot (tcp_of c))" "carry4 (cheby (prot t1)) = 0"
    "client (prot t1) = ?cl\<lparr>cl_PID := cl_PID (client (prot t1)), cl_QID := cl_QID (client (prot t1))\<rparr>"
    using classify_101 [OF ok(1) vs(1,2) stk c(3) num vs(3,4), of rand] A
    by (metis Client.select_convs(12) Client.surjective Client.update_convs(12))
  have c1: "phase_of c1 = Open" "prot (tcp_of c1) = prot t1"
    unfolding c1_def pass_def pass_message [OF t1(1) ret(1) d(1)] using c(2) by simp_all
  note r = registered_ready [OF _ t1(4,3) vs(5-7)]
  have "tcp_ok t1" using classify_ok [OF t1(1) ok] by simp
  note r = r(1) [OF this] r(2) [OF this] r(3) [OF this]
  obtain t2 where t2: "classify stk rand (spaced (''102'' # map hex64
        [uint256_xor (low_half (cl_QID (client (prot (tcp_of c1))))) TA, uint256_xor a TA, h])) (tcp_of c1) = Some (t2, True)"
    "key_ready (prot t2)" "cl_a1 (client (prot t2)) = a" "cl_b (client (prot t2)) = ull_to_uint256 b" "cl_TA (client (prot t2)) = TA"
    "uint256_xor (sp_N2 (share_param t2)) TA = ull_to_uint256 b"
    "limbs_val (sp_TC (share_param t2)) = pk_val ?cl (limbs_val a + unat b)"
    "send_data t2 = spaced (''203'' # map hex64 [sp_N2 (share_param t2), sp_QID (share_param t2), sp_TC (share_param t2), sp_HM3 (share_param t2)])"
    using classify_102 [of "tcp_of c1" stk rand b pos TA a h] stk b TA a h r t1(2) unfolding c1(2) by metis
  have c2: "phase_of c2 = Open" "prot (tcp_of c2) = prot t2" "share_param (tcp_of c2) = share_param t2"
    "last (trace (tcp_of c2)) = Send (send_data t2)"
    unfolding c2_def pass_def pass_message [OF t2(1) ret(2) d(2)] using c1 by simp_all
  obtain t3 where t3: "classify stk rand (spaced (''103'' # map hex64 [sp_TC sp, u, v])) (tcp_of c2) = Some (t3, False)"
    "st_KS (prot t3) = ref_sm3 (str_bytes (fmt_u (limbs_val (rev a)) @ fmt_u (limbs_val (rev (ull_to_uint256 b)))
       @ fmt_u (limbs_val (rev TA))))"
    using classify_103 [of "tcp_of c2" stk rand "sp_TC sp" u v] stk t2(2-5) unfolding c2(2) by metis
  have c3: "phase_of c3 = Spinning" "tcp_of c3 = t3"
    unfolding c3_def pass_def pass_message [OF t3(1) ret(3) d(3)] using c2 by simp_all
  have "conn_ok c1" unfolding c1_def pass_def by (rule tcpclient_pass_ok [OF c(1,2)])
  then have "conn_ok c2" unfolding c2_def pass_def using c1(1) by (rule tcpclient_pass_ok)
  then have "conn_ok c3" unfolding c3_def pass_def using c2(1) by (rule tcpclient_pass_ok)
  then have "held (trace (tcp_of c3)) = Some (Held, Held)" using c3(1) by (simp add: conn_ok_def)
  then show ?thesis using c1(1) c2 c3 t2(6-8) t3(2) unfolding sp_def by simp
qed

definition sample_conn :: conn where
  "sample_conn = tcpclient_start True True 3 0 tcp_boot"

lemma sample_conn_ok:
  "conn_ok sample_conn" "phase_of sample_conn = Open" "carry4 (cheby (prot (tcp_of sample_conn))) = 0"
  "client (prot (tcp_of sample_conn)) = client_boot" "rand_pos (prot (tcp_of sample_conn)) = 0"
proof -
  show "conn_ok sample_conn" unfolding sample_conn_def by (rule tcpclient_start_ok [OF tcp_boot_ok])
  show "phase_of sample_conn = Open" "carry4 (cheby (prot (tcp_of sample_conn))) = 0"
    "client (prot (tcp_of sample_conn)) = client_boot" "rand_pos (prot (tcp_of sample_conn)) = 0"
    using tcp_boot_simps by (simp_all add: sample_conn_def tcpclient_start_def request_send_def Let_def)
qed

definition sample_TA :: uint256 where
  "sample_TA = [of_nat (pk_val (registered sample_vs client_boot) (limbs_val (low_half (sample_vs ! 0)))), 0, 0, 0, 0, 0, 0, 0]"

lemma sample_TA_val:
  "length sample_TA = 8" "limbs_val sample_TA = pk_val (registered sample_vs client_boot) (limbs_val (low_half (sample_vs ! 0)))"
proof -
  let ?n = "pk_val (registered sample_vs client_boot) (limbs_val (low_half (sample_vs ! 0)))"
  have "limbs_val (cl_N (registered sample_vs client_boot)) = 101" by (simp add: registered_def sample_vs_def)
  then have "?n < 101" by (simp add: pk_val_def nat_less_iff)
  then have "unat (of_nat ?n :: u32) = ?n" by (simp add: unat_of_nat take_bit_eq_mod)
  then show "length sample_TA = 8" "limbs_val sample_TA = ?n" by (simp_all add: sample_TA_def)
qed

theorem session_key_witness:
  "\<exists>c3 :: conn. phase_of c3 = Spinning \<and> st_KS (prot (tcp_of c3)) = ref_sm3 (str_bytes (fmt_u (limbs_val (rev [9, 0, 0, 0, 0, 0, 0, 0]))
     @ fmt_u (limbs_val (rev (ull_to_uint256 2147483659))) @ fmt_u (limbs_val (rev sample_TA))))"
proof -
  have num: "0 \<le> userid (client (prot (tcp_of sample_conn)))" "0 \<le> bio (client (prot (tcp_of sample_conn)))"
    using sample_conn_ok(4) tcp_boot_simps(1,4,5) by simp_all
  have A: "device_A (registered sample_vs (client (prot (tcp_of sample_conn)))) = sample_vs ! 0"
    using sample_vs_ok(5) sample_conn_ok(4) by simp
  have b: "creat_number (\<lambda>i. if i = 1 then 11 else 0) 32 (rand_pos (prot (tcp_of sample_conn))) = Some (2147483659, 7)"
    using creat_sample sample_conn_ok(5) by simp
  have TA: "limbs_val sample_TA = pk_val (registered sample_vs (client (prot (tcp_of sample_conn)))) (limbs_val (low_half (sample_vs ! 0)))"
    using sample_TA_val(2) sample_conn_ok(4) by simp
  have a: "length [9, 0, 0, 0, 0, 0, 0, 0 :: u32] = 8" "limbs_val [9, 0, 0, 0, 0, 0, 0, 0] + 2 ^ 32 \<le> 2 ^ 256" by simp_all
  show ?thesis
    using session_key [OF sample_conn_ok(1-3) num sample_vs_ok(1-4,6-8) A tcp_boot_simps(6) b sample_TA_val(1) TA a length_uint256(5)
        zero_less_one zero_less_one zero_less_one, of uint256_zero uint256_zero]
    by blast
qed

end
