(* ===== verification/Stream_Cipher.thy ===== *)
theory Stream_Cipher
  imports Prelude
begin

text \<open>
  The contract between the ZUC-256 component and the RTP components that use it:
  \<open>crypt\<close> XORs its input with the key stream that \<open>stream\<close> produces from the same
  context.  From this alone follow length preservation, involution and the
  round trip of the partial encryption the video path uses, where a clear
  prefix of the payload also supplies the initialisation vector.
\<close>

definition xor_bytes :: "bytes \<Rightarrow> bytes \<Rightarrow> bytes" where
  "xor_bytes xs ys = map2 (XOR) xs ys"

lemma length_xor_bytes [simp]: "length (xor_bytes xs ys) = min (length xs) (length ys)"
  by (simp add: xor_bytes_def)

lemma xor_bytes_involution: "length xs \<le> length ys \<Longrightarrow> xor_bytes (xor_bytes xs ys) ys = xs"
proof (induction xs arbitrary: ys)
  case (Cons x xs)
  then obtain y ys' where ys: "ys = y # ys'" by (cases ys) auto
  have "(x XOR y) XOR y = x" by (simp only: xor.assoc xor_self_eq xor.right_neutral)
  then show ?case using Cons by (simp add: xor_bytes_def ys)
qed (simp add: xor_bytes_def)

lemma xor_bytes_take: "xor_bytes xs (take (length xs) ys) = xor_bytes xs ys"
proof (induction xs arbitrary: ys)
  case (Cons x xs)
  then show ?case by (cases ys) (simp_all add: xor_bytes_def)
qed (simp add: xor_bytes_def)

lemma xor_bytes_append:
  "length xs = length ks \<Longrightarrow> xor_bytes (xs @ ys) (ks @ ls) = xor_bytes xs ks @ xor_bytes ys ls"
  by (simp add: xor_bytes_def)

lemma xor_bytes_fixed: "length ks = length xs \<Longrightarrow> xor_bytes xs ks = xs \<longleftrightarrow> ks = replicate (length xs) 0"
proof (induction ks xs rule: list_induct2)
  case (Cons k ks x xs)
  have "x XOR (x XOR k) = k" by (simp only: xor.assoc [symmetric] xor_self_eq xor.left_neutral)
  then have "x XOR k = x \<longleftrightarrow> k = 0" by (metis xor_self_eq xor.right_neutral)
  then show ?case using Cons.IH by (simp add: xor_bytes_def)
qed (simp add: xor_bytes_def)

locale stream_cipher =
  fixes crypt :: "'c \<Rightarrow> bytes \<Rightarrow> 'c \<times> bytes"
    and stream :: "'c \<Rightarrow> nat \<Rightarrow> 'c \<times> bytes"
  assumes crypt_stream:
    "crypt c xs = (fst (stream c (length xs)), xor_bytes xs (snd (stream c (length xs))))"
    and length_stream: "length (snd (stream c n)) = n"
begin

lemma length_crypt: "length (snd (crypt c xs)) = length xs"
  by (simp add: crypt_stream length_stream)

lemma crypt_involution: "snd (crypt c (snd (crypt c xs))) = xs"
  by (simp add: crypt_stream length_stream xor_bytes_involution)

lemma crypt_same_context: "fst (crypt c (snd (crypt c xs))) = fst (crypt c xs)"
  by (simp add: crypt_stream length_stream)

lemma crypt_inj: "snd (crypt c xs) = snd (crypt c ys) \<longleftrightarrow> xs = ys"
  by (metis crypt_involution)

end

text \<open>
  A stream cipher whose context is set up from an initialisation vector of \<open>ivn\<close> bytes that the
  message itself carries.  \<open>start g iv\<close> initialises a context that held \<open>g\<close> before (C code
  leaves a local context uninitialised, \<open>shape\<close> says it is of the right type); the key stream must not
  depend on \<open>g\<close>.
\<close>

locale iv_cipher = stream_cipher crypt stream
  for crypt :: "'c \<Rightarrow> bytes \<Rightarrow> 'c \<times> bytes" and stream :: "'c \<Rightarrow> nat \<Rightarrow> 'c \<times> bytes" +
  fixes shape :: "'g \<Rightarrow> bool" and start :: "'g \<Rightarrow> bytes \<Rightarrow> 'c" and ivn :: nat
  assumes start_stream:
    "shape g \<Longrightarrow> shape g' \<Longrightarrow> length iv = ivn \<Longrightarrow> snd (stream (start g iv) n) = snd (stream (start g' iv) n)"
begin

lemma crypt_start:
  "shape g \<Longrightarrow> shape g' \<Longrightarrow> length iv = ivn \<Longrightarrow> snd (crypt (start g iv) xs) = snd (crypt (start g' iv) xs)"
  using start_stream [of g g' iv "length xs"] by (simp add: crypt_stream)

lemma crypt_start_involution:
  "shape g \<Longrightarrow> shape g' \<Longrightarrow> length iv = ivn \<Longrightarrow> snd (crypt (start g iv) (snd (crypt (start g' iv) xs))) = xs"
  using crypt_start [of g g' iv "snd (crypt (start g' iv) xs)"] by (simp add: crypt_involution)

text \<open>
  XOR the message from position \<open>skip\<close> on, with the vector read from \<open>off\<close>: when the vector lies
  in the clear prefix, doing it twice gives the message back.
\<close>

lemma protect_roundtrip:
  fixes off skip :: nat and msg :: bytes
  assumes "shape g" "shape g'" and "off + ivn \<le> skip" "skip \<le> length msg"
    and "enc = take skip msg @ snd (crypt (start g (take ivn (drop off msg))) (drop skip msg))"
  shows "take skip enc @ snd (crypt (start g' (take ivn (drop off enc))) (drop skip enc)) = msg"
proof -
  have enc: "drop skip enc = snd (crypt (start g (take ivn (drop off msg))) (drop skip msg))"
    "take skip enc = take skip msg"
    using assms(4) by (simp_all add: assms(5))
  have "take ivn (drop off xs) = take ivn (drop off (take skip xs))" for xs :: bytes
    using assms(3) by (simp add: drop_take min_def)
  then have "take ivn (drop off enc) = take ivn (drop off msg)"
    using enc(2) by metis
  moreover have "length (take ivn (drop off msg)) = ivn" using assms(3,4) by simp
  ultimately show ?thesis
    by (simp only: enc crypt_start_involution [OF assms(2,1)] append_take_drop_id)
qed

end

end
