(* ===== verification/ZUC256.thy ===== *)
theory ZUC256
  imports Stream_Cipher
begin

text \<open>
  The ZUC-256 stream cipher of \<open>applications/zuc256.c\<close>.  The record has the fields
  of \<open>zuc256_ctx_t\<close> (prefixed with \<open>z\<close>); functions that take a context pointer
  return the updated context.  A pointer that the code tests against null is an
  \<open>option\<close>.  The lemmas show the arithmetic modulo \<open>2 ^ 31 - 1\<close>, the range
  invariant of the feedback register, that \<open>zuc256_crypt\<close> XORs with exactly the
  bytes \<open>zuc256_keystream\<close> would produce, and what the two initialisation
  layouts depend on.
\<close>

section \<open>Tables\<close>

definition d2 :: bytes where
  "d2 = [0x64, 0x43, 0x7B, 0x2A, 0x11, 0x05, 0x51, 0x42,
     0x1A, 0x31, 0x18, 0x66, 0x14, 0x2E, 0x01, 0x5C]"

definition d3 :: bytes where
  "d3 = [0x22, 0x2F, 0x24, 0x2A, 0x6D, 0x40, 0x40, 0x40,
     0x40, 0x40, 0x40, 0x40, 0x40, 0x52, 0x10, 0x30]"

definition s0 :: bytes where
  "s0 = [0x3E, 0x72, 0x5B, 0x47, 0xCA, 0xE0, 0x00, 0x33, 0x04, 0xD1, 0x54, 0x98, 0x09, 0xB9, 0x6D, 0xCB,
     0x8F, 0xEA, 0x20, 0xAB, 0x6A, 0x41, 0x7C, 0x11, 0xCF, 0x7E, 0xC7, 0x7B, 0x73, 0xBC, 0x5C, 0x6F,
     0x45, 0x2E, 0x33, 0x67, 0x24, 0x4F, 0x6B, 0x48, 0x8A, 0x0F, 0x5F, 0xF7, 0x1A, 0xA2, 0xF3, 0x91,
     0xEB, 0x2D, 0x0E, 0x8B, 0xA9, 0x0C, 0x86, 0x1B, 0xAE, 0xC4, 0x10, 0x6C, 0xF0, 0x0A, 0x5A, 0xE9,
     0x3D, 0x46, 0x8E, 0xB4, 0xE5, 0x37, 0xE7, 0x0B, 0xE8, 0x2F, 0x2B, 0xA7, 0x3B, 0xD4, 0x9D, 0xFC,
     0x7D, 0x3F, 0x29, 0xB7, 0x99, 0x2C, 0x9A, 0xE3, 0x9E, 0xC6, 0x5D, 0x34, 0x1C, 0x9B, 0xAF, 0x1E,
     0x3A, 0x77, 0x70, 0xF1, 0x39, 0xAC, 0xD0, 0x1D, 0x5E, 0x62, 0xCE, 0x1F, 0x8C, 0xB3, 0xE1, 0xA5,
     0x27, 0x4B, 0x2A, 0xFD, 0xDB, 0x15, 0xA4, 0x4E, 0x95, 0xA0, 0x14, 0xF5, 0x4A, 0x61, 0x83, 0x38,
     0x6E, 0xD7, 0x84, 0x4D, 0x1B, 0x7F, 0xC2, 0xDC, 0xEF, 0x8D, 0xAD, 0xD8, 0x26, 0xB0, 0xD6, 0x93,
     0x60, 0x88, 0xA8, 0xBA, 0xC5, 0x21, 0x9C, 0xBD, 0x92, 0x16, 0xF9, 0xA6, 0xFB, 0xC1, 0x0D, 0x56,
     0x44, 0x85, 0x57, 0x12, 0xC3, 0xC9, 0x90, 0xEF, 0x58, 0x6F, 0x4C, 0x43, 0xB6, 0xD9, 0x68, 0x82,
     0x30, 0x52, 0x71, 0x5C, 0x9F, 0x36, 0x64, 0xA1, 0x94, 0xEA, 0x13, 0x2D, 0x22, 0xAD, 0x97, 0xB1,
     0x79, 0xF2, 0x17, 0x63, 0xB8, 0xD5, 0x89, 0x4C, 0x59, 0x23, 0x25, 0x66, 0x08, 0xD2, 0x35, 0xF8,
     0x19, 0x01, 0x46, 0x87, 0xA3, 0x55, 0x96, 0x69, 0x42, 0x0F, 0xE2, 0xCB, 0x32, 0x78, 0xA9, 0x7A,
     0x6A, 0xA4, 0xFB, 0xFB, 0xE4, 0x2C, 0xC8, 0xD3, 0x80, 0x05, 0xC0, 0x31, 0xB5, 0xF4, 0x40, 0x0D,
     0x75, 0x14, 0xC7, 0xD1, 0xB2, 0xF6, 0x65, 0x03, 0xB9, 0x09, 0x7E, 0x02, 0x11, 0x6D, 0xA0, 0x2E]"

definition s1 :: bytes where
  "s1 = [0x55, 0xC2, 0x63, 0x71, 0x3B, 0xC8, 0x47, 0x86, 0x9F, 0x3C, 0xDA, 0x5B, 0x29, 0xAA, 0xFD, 0x77,
     0x8C, 0xC5, 0x94, 0x0C, 0xA6, 0x1A, 0x13, 0x00, 0xE3, 0xA8, 0x16, 0x72, 0x40, 0xF9, 0xF8, 0x42,
     0x44, 0x26, 0x68, 0x96, 0x81, 0xD9, 0x45, 0x3E, 0x10, 0x76, 0xC6, 0xA7, 0x8B, 0x39, 0x43, 0xE1,
     0x3A, 0xB5, 0x56, 0x2A, 0xC0, 0x6D, 0xB3, 0x05, 0x22, 0x66, 0xBF, 0xDC, 0x0B, 0xFA, 0x62, 0x48,
     0x24, 0x91, 0x8A, 0x4B, 0x9A, 0x86, 0xE7, 0x1F, 0x6B, 0xD6, 0xE6, 0x18, 0x30, 0x0D, 0xAB, 0xF1,
     0xA2, 0x8D, 0x6F, 0x98, 0x0A, 0x7B, 0x0E, 0xC1, 0xEF, 0xDE, 0xDB, 0x1D, 0xA4, 0x9D, 0x2F, 0x5F,
     0xB4, 0xAF, 0xEC, 0x07, 0xE2, 0x67, 0xF0, 0xF6, 0x4F, 0x2B, 0xBD, 0xB8, 0x4E, 0x93, 0x92, 0x1B,
     0x37, 0xB0, 0x28, 0x60, 0x64, 0x15, 0xCD, 0xC3, 0xF4, 0x9C, 0x36, 0x1C, 0xA5, 0xD0, 0x5A, 0x7F,
     0xDB, 0x21, 0x50, 0xCF, 0x04, 0x88, 0x6A, 0x8E, 0x9B, 0xB6, 0x20, 0x14, 0xE0, 0x4A, 0x6C, 0x5D,
     0x46, 0x34, 0x2D, 0x49, 0x7C, 0x3D, 0x85, 0xA7, 0x99, 0x0F, 0xF2, 0x33, 0x59, 0x82, 0x3F, 0xE4,
     0xC9, 0xC7, 0x97, 0xA9, 0xEC, 0x3E, 0x01, 0xDD, 0xC4, 0x41, 0x31, 0x5C, 0x7A, 0x78, 0x95, 0x6E,
     0x27, 0xAB, 0x35, 0x52, 0x17, 0xBE, 0x02, 0x4C, 0x6F, 0xE8, 0xA1, 0xBD, 0x12, 0x0B, 0xC5, 0xCE,
     0xE9, 0x7D, 0x1E, 0xA3, 0x08, 0xB1, 0x65, 0x32, 0xB7, 0xF3, 0xF5, 0xC0, 0x87, 0xFE, 0x89, 0x25,
     0x5E, 0xC8, 0x2C, 0x51, 0x4D, 0xF7, 0x61, 0x54, 0xAE, 0x9E, 0x11, 0xD8, 0x3B, 0x73, 0xD5, 0xA0,
     0x5B, 0xD1, 0xE5, 0xF8, 0x6D, 0x43, 0x03, 0x96, 0x38, 0x4B, 0x44, 0x29, 0x19, 0xCA, 0xB2, 0xB9,
     0x84, 0x71, 0x8F, 0x53, 0x2A, 0x9F, 0x57, 0x0C, 0xA6, 0x16, 0x75, 0x40, 0x2E, 0xAD, 0x09, 0xD4]"

section \<open>Arithmetic modulo two to the 31 minus one, linear maps and S-boxes\<close>

definition P31 :: u32 where
  "P31 = 0x7FFFFFFF"

definition rol32 :: "u32 \<Rightarrow> nat \<Rightarrow> u32" where
  "rol32 x n = push_bit n x OR drop_bit (32 - n) x"

definition add31 :: "u32 \<Rightarrow> u32 \<Rightarrow> u32" where
  "add31 a b = (let x = a + b; x = x + drop_bit 31 x in x AND P31)"

definition mul31 :: "u32 \<Rightarrow> nat \<Rightarrow> u32" where
  "mul31 a n = (push_bit n a OR drop_bit (31 - n) a) AND P31"

definition L1 :: "u32 \<Rightarrow> u32" where
  "L1 x = x XOR rol32 x 2 XOR rol32 x 10 XOR rol32 x 18 XOR rol32 x 24"

definition L2 :: "u32 \<Rightarrow> u32" where
  "L2 x = x XOR rol32 x 8 XOR rol32 x 14 XOR rol32 x 22 XOR rol32 x 30"

definition S_func :: "u32 \<Rightarrow> u32" where
  "S_func x =
     (let b0 = s1 ! unat (x AND 0xFF);
          b1 = s0 ! unat (drop_bit 8 x AND 0xFF);
          b2 = s1 ! unat (drop_bit 16 x AND 0xFF);
          b3 = s0 ! unat (drop_bit 24 x AND 0xFF)
      in ucast b0 OR push_bit 8 (ucast b1) OR push_bit 16 (ucast b2) OR push_bit 24 (ucast b3))"

definition load2 :: "u8 \<Rightarrow> u8 \<Rightarrow> u8 \<Rightarrow> u8 \<Rightarrow> u32" where
  "load2 a b c d = (push_bit 23 (ucast a) OR push_bit 16 (ucast (b AND 0x7F)) OR push_bit 8 (ucast c) OR ucast d) AND P31"

section \<open>State and rounds\<close>

record zuc256_ctx =
  zs :: "u32 list"
  zR1 :: u32
  zR2 :: u32
  zkey :: bytes
  ziv :: bytes
  ziv_len :: u8

definition bit_reorg :: "zuc256_ctx \<Rightarrow> u32 \<times> u32 \<times> u32 \<times> u32" where
  "bit_reorg ctx = (let s = zs ctx in
     ((push_bit 1 (s ! 15) AND 0xFFFF0000) OR (s ! 14 AND 0xFFFF),
      (push_bit 16 (s ! 11) AND 0xFFFF0000) OR (drop_bit 15 (s ! 9) AND 0xFFFF),
      (push_bit 16 (s ! 7) AND 0xFFFF0000) OR (drop_bit 15 (s ! 5) AND 0xFFFF),
      (push_bit 16 (s ! 2) AND 0xFFFF0000) OR (drop_bit 15 (s ! 0) AND 0xFFFF)))"

definition F_func :: "zuc256_ctx \<Rightarrow> u32 \<Rightarrow> u32 \<Rightarrow> u32 \<Rightarrow> zuc256_ctx \<times> u32" where
  "F_func ctx x0 x1 x2 =
     (let w = (x0 XOR zR1 ctx) + zR2 ctx;
          w1 = zR1 ctx + x1;
          w2 = zR2 ctx XOR x2;
          tmp = push_bit 16 w1 OR drop_bit 16 w2;
          tmp2 = push_bit 16 w2 OR drop_bit 16 w1
      in (ctx\<lparr>zR1 := S_func (L1 tmp), zR2 := S_func (L2 tmp2)\<rparr>, w))"

definition lfsr_feedback :: "u32 list \<Rightarrow> u32" where
  "lfsr_feedback s =
     (let s16 = add31 (s ! 0) (mul31 (s ! 0) 8);
          s16 = add31 s16 (mul31 (s ! 4) 20);
          s16 = add31 s16 (mul31 (s ! 10) 21);
          s16 = add31 s16 (mul31 (s ! 13) 17)
      in add31 s16 (mul31 (s ! 15) 15))"

text \<open>\<open>memmove(s, s + 1, 15 words); s[15] = s16;\<close>\<close>

definition lfsr_shift :: "zuc256_ctx \<Rightarrow> u32 \<Rightarrow> zuc256_ctx" where
  "lfsr_shift ctx s16 = ctx\<lparr>zs := take 15 (drop 1 (zs ctx)) @ [s16]\<rparr>"

definition lfsr_init :: "zuc256_ctx \<Rightarrow> u32 \<Rightarrow> zuc256_ctx" where
  "lfsr_init ctx u = lfsr_shift ctx (add31 (lfsr_feedback (zs ctx)) u)"

definition lfsr_work :: "zuc256_ctx \<Rightarrow> zuc256_ctx" where
  "lfsr_work ctx = lfsr_shift ctx (lfsr_feedback (zs ctx))"

section \<open>Initialisation\<close>

definition load_iv16 :: "bytes \<Rightarrow> bytes \<Rightarrow> u32 list" where
  "load_iv16 key iv =
     [load2 (key ! 0) (d2 ! 0) (key ! 16) (key ! 24),
      load2 (key ! 1) (d2 ! 1) (key ! 17) (key ! 25),
      load2 (key ! 2) (d2 ! 2) (key ! 18) (key ! 26),
      load2 (key ! 3) (d2 ! 3) (key ! 19) (key ! 27),
      load2 (key ! 4) (d2 ! 4) (key ! 20) (key ! 28),
      load2 (key ! 5) (d2 ! 5) (key ! 21) (key ! 29),
      load2 (key ! 6) (d2 ! 6) (key ! 22) (key ! 30),
      load2 (key ! 7) (d2 ! 7) (iv ! 0) (iv ! 8),
      load2 (key ! 8) (d2 ! 8) (iv ! 1) (iv ! 9),
      load2 (key ! 9) (d2 ! 9) (iv ! 2) (iv ! 10),
      load2 (key ! 10) (d2 ! 10) (iv ! 3) (iv ! 11),
      load2 (key ! 11) (d2 ! 11) (iv ! 4) (iv ! 12),
      load2 (key ! 12) (d2 ! 12) (iv ! 5) (iv ! 13),
      load2 (key ! 13) (d2 ! 13) (iv ! 6) (iv ! 14),
      load2 (key ! 14) (d2 ! 14) (iv ! 7) (iv ! 15),
      load2 (key ! 15) (d2 ! 15) (key ! 23) (key ! 31)]"

definition OR_D_IV :: "u8 \<Rightarrow> u8 \<Rightarrow> u8" where
  "OR_D_IV d_const small_iv = d_const OR (small_iv AND 0x3F)"

definition load_iv25 :: "bytes \<Rightarrow> bytes \<Rightarrow> u32 list" where
  "load_iv25 key iv =
     (let k31_hi = drop_bit 4 (key ! 31) AND 0x0F; k31_lo = key ! 31 AND 0x0F in
     [load2 (key ! 0) (d3 ! 0) (key ! 21) (key ! 16),
      load2 (key ! 1) (d3 ! 1) (key ! 22) (key ! 17),
      load2 (key ! 2) (d3 ! 2) (key ! 23) (key ! 18),
      load2 (key ! 3) (d3 ! 3) (key ! 24) (key ! 19),
      load2 (key ! 4) (d3 ! 4) (key ! 25) (key ! 20),
      load2 (iv ! 0) (OR_D_IV (d3 ! 5) (iv ! 17)) (key ! 5) (key ! 26),
      load2 (iv ! 1) (OR_D_IV (d3 ! 6) (iv ! 18)) (key ! 6) (key ! 27),
      load2 (iv ! 10) (OR_D_IV (d3 ! 7) (iv ! 19)) (key ! 7) (iv ! 2),
      load2 (key ! 8) (OR_D_IV (d3 ! 8) (iv ! 20)) (iv ! 3) (iv ! 11),
      load2 (key ! 9) (OR_D_IV (d3 ! 9) (iv ! 21)) (iv ! 12) (iv ! 4),
      load2 (iv ! 5) (OR_D_IV (d3 ! 10) (iv ! 22)) (key ! 10) (key ! 28),
      load2 (key ! 11) (OR_D_IV (d3 ! 11) (iv ! 23)) (iv ! 6) (iv ! 13),
      load2 (key ! 12) (OR_D_IV (d3 ! 12) (iv ! 24)) (iv ! 7) (iv ! 14),
      load2 (key ! 13) (d3 ! 13) (iv ! 5) (iv ! 8),
      load2 (key ! 14) (d3 ! 14 OR k31_hi) (iv ! 16) (iv ! 9),
      load2 (key ! 15) (d3 ! 15 OR k31_lo) (key ! 30) (key ! 29)])"

definition init_round :: "zuc256_ctx \<Rightarrow> zuc256_ctx" where
  "init_round ctx =
     (case bit_reorg ctx of (x0, x1, x2, x3) \<Rightarrow>
        let (ctx, w) = F_func ctx x0 x1 x2 in lfsr_init ctx (drop_bit 1 w AND P31))"

definition zuc256_init_state :: "zuc256_ctx \<Rightarrow> bytes \<Rightarrow> bytes \<Rightarrow> nat \<Rightarrow> zuc256_ctx" where
  "zuc256_init_state ctx key iv iv_len =
     (let ctx = ctx\<lparr>zs := (if iv_len = 16 then load_iv16 key iv else load_iv25 key iv), zR1 := 0, zR2 := 0\<rparr>;
          ctx = (init_round ^^ 32) ctx
      in case bit_reorg ctx of (x0, x1, x2, x3) \<Rightarrow> lfsr_work (fst (F_func ctx x0 x1 x2)))"

definition zuc256_init ::
  "zuc256_ctx option \<Rightarrow> bytes option \<Rightarrow> bytes option \<Rightarrow> nat \<Rightarrow> int \<times> zuc256_ctx option" where
  "zuc256_init ctx key iv iv_len =
     (case (ctx, key, iv) of
        (Some c, Some k, Some v) \<Rightarrow>
          if iv_len \<noteq> 16 \<and> iv_len \<noteq> 25 then (-1, ctx)
          else (let c = c\<lparr>zkey := take 32 k, ziv := blit 0 (take iv_len v) (ziv c), ziv_len := of_nat iv_len\<rparr>
                in (0, Some (zuc256_init_state c (zkey c) (ziv c) iv_len)))
      | _ \<Rightarrow> (-1, ctx))"

section \<open>Key stream and encryption\<close>

definition zuc256_keystream_word :: "zuc256_ctx \<Rightarrow> zuc256_ctx \<times> u32" where
  "zuc256_keystream_word ctx =
     (case bit_reorg ctx of (x0, x1, x2, x3) \<Rightarrow>
        let (ctx, w) = F_func ctx x0 x1 x2; z = w XOR x3 in (lfsr_work ctx, z))"

fun zuc256_keystream :: "zuc256_ctx \<Rightarrow> nat \<Rightarrow> zuc256_ctx \<times> bytes" where
  "zuc256_keystream ctx len =
     (if len = 0 then (ctx, [])
      else let (ctx, w) = zuc256_keystream_word ctx;
               (ctx, rest) = zuc256_keystream ctx (len - min 4 len)
           in (ctx, take (min 4 len) (put_be32 w) @ rest))"

declare zuc256_keystream.simps [simp del]

text \<open>The inner loop XORs up to four input bytes with the bytes of one key stream word.\<close>

fun zuc256_crypt :: "zuc256_ctx \<Rightarrow> bytes \<Rightarrow> zuc256_ctx \<times> bytes" where
  "zuc256_crypt ctx xs =
     (if xs = [] then (ctx, [])
      else let (ctx, w) = zuc256_keystream_word ctx;
               (ctx, rest) = zuc256_crypt ctx (drop 4 xs)
           in (ctx, xor_bytes (take 4 xs) (put_be32 w) @ rest))"

declare zuc256_crypt.simps [simp del]

definition zuc256_xor_inplace :: "zuc256_ctx \<Rightarrow> bytes \<Rightarrow> zuc256_ctx \<times> bytes" where
  "zuc256_xor_inplace ctx xs = zuc256_crypt ctx xs"

section \<open>The cipher contract\<close>

lemma length_zuc256_keystream: "length (snd (zuc256_keystream ctx n)) = n"
proof (induction ctx n rule: zuc256_keystream.induct)
  case (1 ctx n)
  obtain c w where w: "zuc256_keystream_word ctx = (c, w)" by fastforce
  show ?case
  proof (cases "n = 0")
    case False
    then show ?thesis using "1.IH" [OF False w [symmetric]] w
      by (subst zuc256_keystream.simps) (auto simp: Let_def split: prod.splits)
  qed (simp add: zuc256_keystream.simps)
qed

lemma zuc256_crypt_stream:
  "zuc256_crypt ctx xs = (fst (zuc256_keystream ctx (length xs)), xor_bytes xs (snd (zuc256_keystream ctx (length xs))))"
proof (induction ctx xs rule: zuc256_crypt.induct)
  case (1 ctx xs)
  obtain c w where w: "zuc256_keystream_word ctx = (c, w)" by fastforce
  show ?case
  proof (cases "xs = []")
    case False
    obtain c' ks where ks: "zuc256_keystream c (length xs - 4) = (c', ks)" by fastforce
    have m: "length xs - min 4 (length xs) = length xs - 4" by simp
    have s: "zuc256_keystream ctx (length xs) = (c', take (min 4 (length xs)) (put_be32 w) @ ks)"
      using False w ks by (subst zuc256_keystream.simps) (simp add: m)
    have "xor_bytes xs (take (min 4 (length xs)) (put_be32 w) @ ks)
        = xor_bytes (take 4 xs @ drop 4 xs) (take (min 4 (length xs)) (put_be32 w) @ ks)" by simp
    also have "\<dots> = xor_bytes (take 4 xs) (take (min 4 (length xs)) (put_be32 w)) @ xor_bytes (drop 4 xs) ks"
      by (rule xor_bytes_append) simp
    also have "xor_bytes (take 4 xs) (take (min 4 (length xs)) (put_be32 w)) = xor_bytes (take 4 xs) (put_be32 w)"
      using xor_bytes_take [of "take 4 xs" "put_be32 w"] by (simp add: min.commute)
    finally show ?thesis
      using False w ks s "1.IH" [OF False w [symmetric]] by (subst zuc256_crypt.simps) simp
  qed (simp add: zuc256_crypt.simps zuc256_keystream.simps xor_bytes_def)
qed

section \<open>Arithmetic of the feedback register\<close>

lemma and_P31: "x AND P31 = take_bit 31 x"
  by (simp add: P31_def take_bit_eq_mask mask_eq_exp_minus_1)

lemma unat_and_P31 [c_value]: "unat (x AND P31) = unat x mod 2 ^ 31"
  unfolding and_P31 by (rule unat_take_bit_mod)

lemma and_P31_less: "unat (x AND P31) < 2 ^ 31"
  by (simp add: unat_and_P31)

lemma unat_add31:
  assumes "unat a < 2 ^ 31" "unat b < 2 ^ 31"
  shows "unat (add31 a b) = (if unat a + unat b < 2 ^ 31 then unat a + unat b else unat a + unat b - (2 ^ 31 - 1))"
proof -
  define t where "t = unat a + unat b"
  have ab: "unat (a + b) = t"
    using assms unfolding t_def by (intro unat_add_small) simp
  have d: "unat (drop_bit 31 (a + b)) = t div 2 ^ 31"
    by (simp only: unat_drop_bit_div ab)
  have t: "t < 2 ^ 31 \<and> t div 2 ^ 31 = 0 \<or> 2 ^ 31 \<le> t \<and> t < 2 ^ 32 - 1 \<and> t div 2 ^ 31 = 1"
    using assms unfolding t_def by auto
  then have "unat (a + b + drop_bit 31 (a + b)) = t + t div 2 ^ 31"
    by (subst unat_add_small) (auto simp: ab d)
  then have "unat (add31 a b) = (t + t div 2 ^ 31) mod 2 ^ 31"
    by (simp only: add31_def Let_def unat_and_P31)
  moreover have "(t + 1) mod 2 ^ 31 = t + 1 - 2 ^ 31" if "2 ^ 31 \<le> t" "t < 2 ^ 32 - 1"
    using that by (subst le_mod_geq) simp_all
  ultimately show ?thesis using t unfolding t_def [symmetric] by auto
qed

lemma add31_mod:
  assumes "unat a < 2 ^ 31" "unat b < 2 ^ 31"
  shows "unat (add31 a b) mod (2 ^ 31 - 1) = (unat a + unat b) mod (2 ^ 31 - 1)"
  unfolding unat_add31 [OF assms] using assms by (simp add: mod_if)

lemma unat_mul31:
  assumes "unat a < 2 ^ 31" "n \<le> 31"
  shows "unat (mul31 a n) = unat a mod 2 ^ (31 - n) * 2 ^ n + unat a div 2 ^ (31 - n)"
proof -
  have e: "(2::nat) ^ (31 - n) * 2 ^ n = 2 ^ 31" using assms(2) by (simp flip: power_add)
  have "mul31 a n = push_bit n (take_bit (31 - n) a) OR drop_bit (31 - n) a"
  proof (rule bit_word_eqI)
    fix i assume "i < LENGTH(32)"
    then show "bit (mul31 a n) i = bit (push_bit n (take_bit (31 - n) a) OR drop_bit (31 - n) a) i"
      using assms(2) not_bit_of_less [OF assms(1)]
      by (auto simp: mul31_def and_P31 bit_simps not_le)
  qed
  moreover have "unat (drop_bit (31 - n) a) < 2 ^ n"
    using assms e by (simp add: unat_drop_bit_div less_mult_imp_div_less mult.commute)
  moreover have "unat (take_bit (31 - n) a) * 2 ^ n < 2 ^ LENGTH(32)"
  proof -
    have "unat a mod 2 ^ (31 - n) * 2 ^ n < 2 ^ (31 - n) * 2 ^ n" by simp
    then show ?thesis unfolding e unat_take_bit_mod by simp
  qed
  ultimately show ?thesis
    by (simp only: unat_or_disjoint unat_take_bit_mod unat_drop_bit_div)
qed

lemma mersenne_split: "q * (1 + m) + r = (r + q) + q * (m :: nat)"
  by (simp add: algebra_simps)

lemma mul31_mod:
  assumes "unat a < 2 ^ 31" "n \<le> 31"
  shows "unat (mul31 a n) mod (2 ^ 31 - 1) = unat a * 2 ^ n mod (2 ^ 31 - 1)"
proof -
  let ?q = "unat a div 2 ^ (31 - n)" and ?r = "unat a mod 2 ^ (31 - n)"
  have "unat a * 2 ^ n = (?q * 2 ^ (31 - n) + ?r) * 2 ^ n" by (simp only: div_mult_mod_eq)
  also have "\<dots> = ?q * (2 ^ (31 - n) * 2 ^ n) + ?r * 2 ^ n" by (simp only: distrib_right mult.assoc)
  also have "(2::nat) ^ (31 - n) * 2 ^ n = 1 + (2 ^ 31 - 1)" using assms(2) by (simp flip: power_add)
  also have "?q * (1 + (2 ^ 31 - 1)) + ?r * 2 ^ n = (?r * 2 ^ n + ?q) + ?q * (2 ^ 31 - 1)"
    by (rule mersenne_split)
  finally show ?thesis unfolding unat_mul31 [OF assms] by (simp only: mod_mult_self1)
qed

lemma mul31_less: "unat (mul31 a n) < 2 ^ 31"
  unfolding mul31_def by (rule and_P31_less)

lemma add31_less: "unat (add31 a b) < 2 ^ 31"
  unfolding add31_def Let_def by (rule and_P31_less)

lemma lfsr_feedback_less: "unat (lfsr_feedback s) < 2 ^ 31"
  unfolding lfsr_feedback_def Let_def by (rule add31_less)

section \<open>The register invariant\<close>

text \<open>Sixteen cells of 31 bits, a full key and a full vector buffer.\<close>

definition zuc_ok :: "zuc256_ctx \<Rightarrow> bool" where
  "zuc_ok ctx \<longleftrightarrow> length (zs ctx) = 16 \<and> (\<forall>x \<in> set (zs ctx). unat x < 2 ^ 31)
     \<and> length (zkey ctx) = 32 \<and> length (ziv ctx) = 25"

lemma F_func_frame [simp]:
  "zs (fst (F_func ctx x0 x1 x2)) = zs ctx" "zkey (fst (F_func ctx x0 x1 x2)) = zkey ctx"
  "ziv (fst (F_func ctx x0 x1 x2)) = ziv ctx" "ziv_len (fst (F_func ctx x0 x1 x2)) = ziv_len ctx"
  by (simp_all add: F_func_def Let_def)

lemma zuc_ok_F_func: "zuc_ok (fst (F_func ctx x0 x1 x2)) = zuc_ok ctx"
  by (simp add: zuc_ok_def)

lemma zuc_ok_shift: "zuc_ok ctx \<Longrightarrow> unat s16 < 2 ^ 31 \<Longrightarrow> zuc_ok (lfsr_shift ctx s16)"
  by (auto simp: zuc_ok_def lfsr_shift_def dest!: in_set_takeD in_set_dropD)

lemma zuc_ok_work: "zuc_ok ctx \<Longrightarrow> zuc_ok (lfsr_work ctx)"
  unfolding lfsr_work_def by (intro zuc_ok_shift lfsr_feedback_less)

lemma zuc_ok_init_round: "zuc_ok ctx \<Longrightarrow> zuc_ok (init_round ctx)"
  unfolding init_round_def lfsr_init_def
  by (auto split: prod.splits intro!: zuc_ok_shift add31_less)
     (metis zuc_ok_F_func fst_conv)

lemma zuc_ok_word: "zuc_ok ctx \<Longrightarrow> zuc_ok (fst (zuc256_keystream_word ctx))"
  unfolding zuc256_keystream_word_def Let_def
  by (auto split: prod.splits intro!: zuc_ok_work) (metis zuc_ok_F_func fst_conv)

lemma zuc_ok_keystream: "zuc_ok ctx \<Longrightarrow> zuc_ok (fst (zuc256_keystream ctx n))"
proof (induction ctx n rule: zuc256_keystream.induct)
  case (1 ctx n)
  obtain c w where w: "zuc256_keystream_word ctx = (c, w)" by fastforce
  then have "zuc_ok c" using zuc_ok_word [OF "1.prems"] by simp
  then show ?case using "1.IH" [OF _ w [symmetric]] "1.prems" w
    by (subst zuc256_keystream.simps) (auto simp: Let_def split: prod.splits)
qed

lemma load2_less: "unat (load2 a b c d) < 2 ^ 31"
  unfolding load2_def by (rule and_P31_less)

lemma load_iv16_less: "x \<in> set (load_iv16 key iv) \<Longrightarrow> unat x < 2 ^ 31"
  unfolding load_iv16_def using load2_less [simplified] by auto

lemma load_iv25_less: "x \<in> set (load_iv25 key iv) \<Longrightarrow> unat x < 2 ^ 31"
  unfolding load_iv25_def Let_def using load2_less [simplified] by auto

lemma length_load_iv [simp]: "length (load_iv16 key iv) = 16" "length (load_iv25 key iv) = 16"
  by (simp_all add: load_iv16_def load_iv25_def Let_def)

lemma zuc_ok_init_state:
  assumes "length (zkey ctx) = 32" "length (ziv ctx) = 25"
  shows "zuc_ok (zuc256_init_state ctx key iv iv_len)"
proof -
  let ?c = "ctx\<lparr>zs := (if iv_len = 16 then load_iv16 key iv else load_iv25 key iv), zR1 := 0, zR2 := 0\<rparr>"
  have "zuc_ok ?c" using assms load_iv16_less load_iv25_less by (auto simp: zuc_ok_def)
  then have "zuc_ok ((init_round ^^ k) ?c)" for k
    by (induction k) (simp_all add: zuc_ok_init_round)
  then show ?thesis
    unfolding zuc256_init_state_def Let_def
    by (auto split: prod.splits intro!: zuc_ok_work simp: zuc_ok_F_func)
qed

section \<open>What the key stream depends on\<close>

text \<open>Only the register and the two memory cells matter, not the copies of key and vector.\<close>

definition zcore :: "zuc256_ctx \<Rightarrow> u32 list \<times> u32 \<times> u32" where
  "zcore ctx = (zs ctx, zR1 ctx, zR2 ctx)"

lemma zcore_round:
  assumes "zcore c = zcore c'"
  shows "zcore (init_round c) = zcore (init_round c')"
    and "zcore (lfsr_work (fst (F_func c x0 x1 x2))) = zcore (lfsr_work (fst (F_func c' x0 x1 x2)))"
    and "bit_reorg c = bit_reorg c'"
    and "snd (F_func c x0 x1 x2) = snd (F_func c' x0 x1 x2)"
  using assms
  by (auto simp: zcore_def init_round_def bit_reorg_def F_func_def lfsr_init_def lfsr_work_def
      lfsr_shift_def Let_def)

lemma zcore_word:
  assumes "zcore c = zcore c'"
  shows "zcore (fst (zuc256_keystream_word c)) = zcore (fst (zuc256_keystream_word c'))"
    and "snd (zuc256_keystream_word c) = snd (zuc256_keystream_word c')"
  using zcore_round(2-4) [OF assms]
  by (auto simp: zuc256_keystream_word_def Let_def split: prod.splits) (metis fst_conv snd_conv)+

lemma zcore_keystream:
  "zcore c = zcore c' \<Longrightarrow> snd (zuc256_keystream c n) = snd (zuc256_keystream c' n)"
proof (induction c n arbitrary: c' rule: zuc256_keystream.induct)
  case (1 c n)
  obtain d w where w: "zuc256_keystream_word c = (d, w)" by fastforce
  then obtain d' where w': "zuc256_keystream_word c' = (d', w)" "zcore d = zcore d'"
    using zcore_word [OF "1.prems"] by (metis prod.collapse fst_conv snd_conv)
  show ?case
  proof (cases "n = 0")
    case False
    then show ?thesis
      using "1.IH" [OF False w [symmetric] refl w'(2)] w w'(1)
      by (subst (1 2) zuc256_keystream.simps) (auto simp: Let_def split: prod.splits)
  qed (simp add: zuc256_keystream.simps)
qed

lemma zuc_iv_index:
  "(0::nat) < 16" "(1::nat) < 16" "(2::nat) < 16" "(3::nat) < 16" "(4::nat) < 16" "(5::nat) < 16"
  "(6::nat) < 16" "(7::nat) < 16" "(8::nat) < 16" "(9::nat) < 16" "(10::nat) < 16" "(11::nat) < 16"
  "(12::nat) < 16" "(13::nat) < 16" "(14::nat) < 16" "(15::nat) < 16"
  by simp_all

lemma zcore_init_state:
  assumes "\<And>i. i < 16 \<Longrightarrow> iv ! i = iv' ! i" "iv_len = 25 \<Longrightarrow> iv = iv'" "iv_len = 16 \<or> iv_len = 25"
  shows "zcore (zuc256_init_state c key iv iv_len) = zcore (zuc256_init_state c' key iv' iv_len)"
proof -
  have "load_iv16 key iv = load_iv16 key iv'"
    unfolding load_iv16_def by (simp only: assms(1) zuc_iv_index)
  then have l0: "(if iv_len = 16 then load_iv16 key iv else load_iv25 key iv)
      = (if iv_len = 16 then load_iv16 key iv' else load_iv25 key iv')"
    using assms by auto
  have r: "zcore d = zcore d' \<Longrightarrow> zcore ((init_round ^^ k) d) = zcore ((init_round ^^ k) d')" for d d' k
    by (induction k) (auto intro: zcore_round(1))
  define l where "l = (if iv_len = 16 then load_iv16 key iv' else load_iv25 key iv')"
  define d where "d c = (init_round ^^ 32) (c\<lparr>zs := l, zR1 := 0, zR2 := 0\<rparr>)" for c
  have d: "zcore (d c) = zcore (d c')"
    unfolding d_def by (rule r) (simp add: zcore_def)
  obtain x0 x1 x2 x3 where b: "bit_reorg (d c') = (x0, x1, x2, x3)"
    by (metis prod.collapse)
  show ?thesis
    unfolding zuc256_init_state_def Let_def l0 l_def [symmetric]
    by (simp only: d_def [symmetric] zcore_round(3) [OF d] b prod.case zcore_round(2) [OF d])
qed

lemma zcore_init:
  assumes "zuc256_init (Some g) (Some k) (Some iv) n = (0, Some c)"
    and "zuc256_init (Some g') (Some k) (Some iv) n = (0, Some c')" and "n \<le> length iv"
    and "length (ziv g) = 25" "length (ziv g') = 25"
  shows "zcore c = zcore c'"
proof -
  have n: "n = 16 \<or> n = 25" using assms(1) by (auto simp: zuc256_init_def split: if_splits)
  have "blit 0 (take n iv) (ziv g) ! i = blit 0 (take n iv) (ziv g') ! i" if "i < n" for i
    using that n assms(3-) by (subst (1 2) blit_nth) (auto simp: min_def)
  moreover have "blit 0 (take n iv) (ziv g) = blit 0 (take n iv) (ziv g')" if "n = 25"
    using that assms(3-) by (simp add: blit_def)
  ultimately have "zcore (zuc256_init_state h (take 32 k) (blit 0 (take n iv) (ziv g)) n)
      = zcore (zuc256_init_state h' (take 32 k) (blit 0 (take n iv) (ziv g')) n)" for h h'
    using n by (intro zcore_init_state) auto
  then show ?thesis
    using assms(1,2) n by (auto simp: zuc256_init_def Let_def split: if_splits)
qed

section \<open>The contracts on this cipher\<close>

text \<open>
  \<open>zuc_start key g iv\<close> is the context after a successful \<open>zuc256_init(&ctx, key, iv, 16)\<close> on a local
  \<open>ctx\<close> that held \<open>g\<close>.
\<close>

definition zuc_shape :: "zuc256_ctx \<Rightarrow> bool" where
  "zuc_shape g \<longleftrightarrow> length (zs g) = 16 \<and> length (zkey g) = 32 \<and> length (ziv g) = 25"

definition zuc_start :: "bytes \<Rightarrow> zuc256_ctx \<Rightarrow> bytes \<Rightarrow> zuc256_ctx" where
  "zuc_start key g iv = (case zuc256_init (Some g) (Some key) (Some iv) 16 of (_, Some c) \<Rightarrow> c | _ \<Rightarrow> g)"

lemma zuc_start_init: "zuc256_init (Some g) (Some key) (Some iv) 16 = (0, Some (zuc_start key g iv))"
  by (simp add: zuc_start_def zuc256_init_def Let_def)

lemma zuc_ok_start:
  assumes "zuc_shape g" "length key = 32" "length iv = 16"
  shows "zuc_ok (zuc_start key g iv)"
  unfolding zuc_start_def zuc256_init_def Let_def using assms
  by (auto intro!: zuc_ok_init_state simp: zuc_shape_def length_blit)

lemma zuc_ok_shape: "zuc_ok c \<Longrightarrow> zuc_shape c"
  by (simp add: zuc_ok_def zuc_shape_def)

lemma zuc_start_stream:
  assumes "zuc_shape g" "zuc_shape g'" "length iv = 16"
  shows "snd (zuc256_keystream (zuc_start key g iv) n) = snd (zuc256_keystream (zuc_start key g' iv) n)"
  using assms by (intro zcore_keystream zcore_init [OF zuc_start_init zuc_start_init]) (auto simp: zuc_shape_def)

interpretation zuc: iv_cipher zuc256_crypt zuc256_keystream zuc_shape "zuc_start key" 16 for key
  by unfold_locales (rule zuc256_crypt_stream, rule length_zuc256_keystream, rule zuc_start_stream)

section \<open>The key stream word by word\<close>

definition ks_step :: "zuc256_ctx \<Rightarrow> zuc256_ctx" where
  "ks_step ctx = fst (zuc256_keystream_word ctx)"

definition ks_word :: "zuc256_ctx \<Rightarrow> nat \<Rightarrow> u32" where
  "ks_word ctx i = snd (zuc256_keystream_word ((ks_step ^^ i) ctx))"

lemma ks_word_Suc: "ks_word ctx (Suc i) = ks_word (ks_step ctx) i"
  by (simp add: ks_word_def funpow_swap1)

lemma ks_words_Suc:
  "concat (map (\<lambda>i. put_be32 (ks_word ctx i)) [0..<Suc m])
   = put_be32 (ks_word ctx 0) @ concat (map (\<lambda>i. put_be32 (ks_word (ks_step ctx) i)) [0..<m])"
  by (simp only: upt_conv_Cons zero_less_Suc map_Suc_upt [symmetric] list.map map_map comp_def ks_word_Suc concat.simps)

lemma zuc256_keystream_ref:
  "zuc256_keystream ctx n = ((ks_step ^^ ((n + 3) div 4)) ctx,
     take n (concat (map (\<lambda>i. put_be32 (ks_word ctx i)) [0..<(n + 3) div 4])))"
proof (induction ctx n rule: zuc256_keystream.induct)
  case (1 ctx n)
  obtain c w where w: "zuc256_keystream_word ctx = (c, w)" by fastforce
  then have c: "c = ks_step ctx" "w = ks_word ctx 0" by (simp_all add: ks_step_def ks_word_def)
  show ?case
  proof (cases "n = 0")
    case False
    then have m: "(n + 3) div 4 = Suc ((n - min 4 n + 3) div 4)" by (auto simp: min_def)
    show ?thesis
      unfolding m ks_words_Suc using False w c "1.IH" [OF False w [symmetric] refl]
      by (subst zuc256_keystream.simps) (auto simp: Let_def funpow_swap1 min_def)
  qed (simp add: zuc256_keystream.simps)
qed

section \<open>The console demo\<close>

definition zuc_dump_hex :: "string \<Rightarrow> bytes \<Rightarrow> string" where
  "zuc_dump_hex label buf = label @ '':''
     @ concat (map (\<lambda>i. (if i mod 16 = 0 then newline @ '' '' else []) @ fmt_02X (buf ! i) @ '' '') [0..<length buf])
     @ newline"

definition demo_key :: bytes where
  "demo_key = map of_nat [0..<32]"

definition demo_iv :: bytes where
  "demo_iv = map of_nat [0xA0..<0xB0]"

definition demo_plaintext :: bytes where
  "demo_plaintext = str_bytes ''Hello ZUC-256 stream cipher!''"

text \<open>The arguments are the uninitialised local context and the console text so far.\<close>

definition zuc256_demo :: "zuc256_ctx \<Rightarrow> string \<Rightarrow> int \<times> string" where
  "zuc256_demo ctx out =
     (case zuc256_init (Some ctx) (Some demo_key) (Some demo_iv) 16 of
        (r, Some ctx) \<Rightarrow>
          if r \<noteq> 0 then (-1, out @ ''zuc256 init failed'' @ newline)
          else let (ctx, ciphertext) = zuc256_crypt ctx demo_plaintext in
            (case zuc256_init (Some ctx) (Some demo_key) (Some demo_iv) 16 of
               (r, Some ctx) \<Rightarrow>
                 if r \<noteq> 0 then (-1, out @ ''zuc256 re-init failed'' @ newline)
                 else let (ctx, decrypted) = zuc256_crypt ctx ciphertext in
                   (0, out @ ''zuc256 demo:'' @ newline
                     @ ''Plaintext: '' @ c_str (demo_plaintext @ [0]) @ newline
                     @ zuc_dump_hex ''Key'' demo_key @ zuc_dump_hex ''IV'' demo_iv
                     @ zuc_dump_hex ''Ciphertext'' ciphertext @ zuc_dump_hex ''Decrypted'' decrypted
                     @ ''Decrypted text: '' @ c_str (decrypted @ [0]) @ newline)
             | (r, None) \<Rightarrow> (-1, out))
      | (r, None) \<Rightarrow> (-1, out))"

section \<open>Properties\<close>

text \<open>
  C18. \<open>zuc256_init\<close> returns 0 exactly when no pointer is null and the vector has 16 or 25
  bytes, otherwise -1 with the context unchanged; a context of the declared sizes that it
  accepts has sixteen cells below \<open>2 ^ 31\<close>, holds key and vector length, and encryption keeps it so.
\<close>

theorem zuc256_init_spec:
  assumes "\<And>c. ctx = Some c \<Longrightarrow> zuc_shape c" "\<And>k. key = Some k \<Longrightarrow> length k = 32"
    and "\<And>v. iv = Some v \<Longrightarrow> iv_len \<le> length v"
  shows "case zuc256_init ctx key iv iv_len of (r, ctx') \<Rightarrow>
    (if ctx = None \<or> key = None \<or> iv = None \<or> iv_len \<notin> {16, 25} then r = -1 \<and> ctx' = ctx
     else r = 0 \<and> (\<exists>c. ctx' = Some c \<and> (\<forall>xs. zuc_ok (fst (zuc256_crypt c xs)))))"
proof -
  have "zuc_ok (fst (zuc256_crypt (zuc256_init_state
      (c\<lparr>zkey := take 32 k, ziv := blit 0 (take iv_len v) (ziv c), ziv_len := l\<rparr>) k' v' iv_len) xs))"
    if "ctx = Some c" "key = Some k" "iv = Some v" "iv_len = 16 \<or> iv_len = 25" for c k v k' v' l xs
    unfolding zuc256_crypt_stream fst_conv using assms that
    by (intro zuc_ok_keystream zuc_ok_init_state) (auto simp: zuc_shape_def length_blit)
  then show ?thesis
    by (cases ctx; cases key; cases iv) (auto simp: zuc256_init_def Let_def)
qed

definition zuc_zero_ctx :: zuc256_ctx where
  "zuc_zero_ctx = \<lparr>zs = replicate 16 0, zR1 = 0, zR2 = 0, zkey = replicate 32 0, ziv = replicate 25 0, ziv_len = 0\<rparr>"

lemma zuc_shape_zero: "zuc_shape zuc_zero_ctx"
  by (simp add: zuc_shape_def zuc_zero_ctx_def)

theorem zuc256_init_spec_witness:
  "case zuc256_init (Some zuc_zero_ctx) (Some demo_key) (Some demo_iv) 16 of (r, ctx') \<Rightarrow>
     r = 0 \<and> (\<exists>c. ctx' = Some c \<and> (\<forall>xs. zuc_ok (fst (zuc256_crypt c xs))))"
  using zuc256_init_spec [of "Some zuc_zero_ctx" "Some demo_key" "Some demo_iv" 16]
  by (simp add: zuc_shape_zero demo_key_def demo_iv_def)

text \<open>
  C7. Encryption and decryption with contexts initialised from the same key and vector, whatever
  the two contexts held before, give the plaintext back and keep its length.
\<close>

theorem zuc256_roundtrip:
  assumes "zuc256_init (Some g) (Some key) (Some iv) n = (0, Some c)"
    and "zuc256_init (Some g') (Some key) (Some iv) n = (0, Some c')"
    and "n \<le> length iv" "zuc_shape g" "zuc_shape g'"
  shows "snd (zuc256_crypt c' (snd (zuc256_crypt c xs))) = xs
    \<and> length (snd (zuc256_crypt c xs)) = length xs"
proof -
  have core: "zcore c = zcore c'" using assms unfolding zuc_shape_def by (intro zcore_init) auto
  then have "snd (zuc256_crypt c ys) = snd (zuc256_crypt c' ys)" for ys
    by (simp add: zuc256_crypt_stream zcore_keystream [OF core])
  then show ?thesis by (simp add: zuc.crypt_involution zuc.length_crypt)
qed

theorem zuc256_roundtrip_witness:
  "snd (zuc256_crypt (zuc_start demo_key zuc_zero_ctx demo_iv)
     (snd (zuc256_crypt (zuc_start demo_key zuc_zero_ctx demo_iv) [1, 2, 3]))) = [1, 2, 3]"
  using zuc256_roundtrip [OF zuc_start_init zuc_start_init, of demo_iv zuc_zero_ctx zuc_zero_ctx demo_key "[1, 2, 3]"]
  by (simp add: zuc_shape_zero demo_iv_def)

text \<open>
  C17. \<open>zuc256_crypt\<close> XORs byte \<open>i\<close> of the input with byte \<open>i mod 4\<close>, most significant first, of key
  stream word \<open>i div 4\<close>, and advances the cipher by one word per started group of four bytes.
\<close>

theorem zuc256_crypt_bytes:
  "fst (zuc256_crypt ctx xs) = (ks_step ^^ ((length xs + 3) div 4)) ctx
   \<and> (\<forall>i < length xs. snd (zuc256_crypt ctx xs) ! i = xs ! i XOR put_be32 (ks_word ctx (i div 4)) ! (i mod 4))"
proof -
  define m where "m = (length xs + 3) div 4"
  have "concat (map (\<lambda>j. put_be32 (ks_word ctx j)) [0..<m]) ! i = put_be32 (ks_word ctx (i div 4)) ! (i mod 4)"
    if "i < 4 * m" for i
    using that
  proof (induction m arbitrary: ctx i)
    case (Suc m)
    show ?case
    proof (cases "i < 4")
      case True
      then show ?thesis unfolding ks_words_Suc by (simp add: nth_append)
    next
      case False
      then have "i div 4 = Suc ((i - 4) div 4)" "i mod 4 = (i - 4) mod 4"
        by (simp_all add: le_div_geq le_mod_geq)
      then show ?thesis unfolding ks_words_Suc
        using False Suc.prems Suc.IH [of "i - 4" "ks_step ctx"] by (simp add: nth_append ks_word_Suc)
    qed
  qed simp
  moreover have "length xs \<le> 4 * m" unfolding m_def by presburger
  moreover have "length (concat (map (\<lambda>j. put_be32 (ks_word ctx j)) [0..<m])) = 4 * m"
    by (simp add: length_concat comp_def sum_list_triv)
  ultimately show ?thesis
    by (simp add: zuc256_crypt_stream zuc256_keystream_ref m_def [symmetric] xor_bytes_def)
qed

theorem zuc256_crypt_bytes_witness:
  "snd (zuc256_crypt zuc_zero_ctx [1, 2, 3, 4, 5, 6]) ! 5
   = 6 XOR put_be32 (snd (zuc256_keystream_word (fst (zuc256_keystream_word zuc_zero_ctx)))) ! 1"
  using zuc256_crypt_bytes [of zuc_zero_ctx "[1, 2, 3, 4, 5, 6]"] by (simp add: ks_word_def ks_step_def)

text \<open>
  A message encrypted in pieces whose lengths (the last one apart) are multiples of four comes
  out as if encrypted at once, as the key stream is only handed out in whole words.
\<close>

lemma zuc256_crypt_append:
  assumes "length xs mod 4 = 0"
  shows "zuc256_crypt ctx (xs @ ys) =
    (let (c, as) = zuc256_crypt ctx xs; (c', bs) = zuc256_crypt c ys in (c', as @ bs))"
  using assms
proof (induction "length xs div 4" arbitrary: xs ctx)
  case 0
  then have "xs = []" by (auto simp: div_eq_0_iff)
  then show ?case by (subst (2) zuc256_crypt.simps) (simp split: prod.splits)
next
  case (Suc m)
  then have l: "4 \<le> length xs" "xs \<noteq> []" by auto
  obtain c w where w: "zuc256_keystream_word ctx = (c, w)" by fastforce
  have "m = length (drop 4 xs) div 4" "length (drop 4 xs) mod 4 = 0"
    using Suc.hyps(2) Suc.prems l by (simp_all add: le_div_geq le_mod_geq)
  from Suc.hyps(1) [OF this, of c] show ?case
    using l w by (subst (1 2) zuc256_crypt.simps) (simp add: Let_def split: prod.splits)
qed

text \<open>
  One step of the feedback register computes the recurrence of ZUC modulo \<open>2 ^ 31 - 1\<close>:
  \<open>s16 = (1 + 2^8) s0 + 2^20 s4 + 2^21 s10 + 2^17 s13 + 2^15 s15\<close>, shifted in behind \<open>s1 ... s15\<close>.
\<close>

lemma lfsr_work_recurrence:
  assumes "zuc_ok ctx"
  defines "s \<equiv> \<lambda>i. unat (zs ctx ! i)"
  shows "take 15 (zs (lfsr_work ctx)) = drop 1 (zs ctx)
    \<and> unat (zs (lfsr_work ctx) ! 15) < 2 ^ 31
    \<and> unat (zs (lfsr_work ctx) ! 15) mod (2 ^ 31 - 1)
      = ((1 + 2 ^ 8) * s 0 + 2 ^ 20 * s 4 + 2 ^ 21 * s 10 + 2 ^ 17 * s 13 + 2 ^ 15 * s 15) mod (2 ^ 31 - 1)"
proof -
  have len: "length (zs ctx) = 16" and s: "i < 16 \<Longrightarrow> unat (zs ctx ! i) < 2 ^ 31" for i
    using assms(1) unfolding zuc_ok_def by (auto dest: nth_mem)
  have a: "unat (add31 x (mul31 (zs ctx ! i) n)) mod (2 ^ 31 - 1) = (unat x + s i * 2 ^ n) mod (2 ^ 31 - 1)"
    if "unat x < 2 ^ 31" "i < 16" "n \<le> 31" for x i n
    using add31_mod [OF that(1) mul31_less] mul31_mod [OF s [OF that(2)] that(3)] unfolding s_def
    by (metis mod_add_right_eq)
  have c: "(x + k) mod m = (y + k) mod m" if "x mod m = y mod m" for x y k m :: nat
    using that by (metis mod_add_left_eq)
  define t where "t = (\<lambda>x i n. add31 x (mul31 (zs ctx ! i) n))"
  have t: "unat (t x i n) < 2 ^ 31" for x i n unfolding t_def by (rule add31_less)
  have next_term: "unat (t x i n) mod (2 ^ 31 - 1) = (y + s i * 2 ^ n) mod (2 ^ 31 - 1)"
    if "unat x < 2 ^ 31" "unat x mod (2 ^ 31 - 1) = y mod (2 ^ 31 - 1)" "i < 16" "n \<le> 31" for x y i n
    unfolding t_def using a [OF that(1,3,4)] c [OF that(2), of "s i * 2 ^ n"] by (rule trans)
  have "unat (t (t (t (t (t (zs ctx ! 0) 0 8) 4 20) 10 21) 13 17) 15 15) mod (2 ^ 31 - 1)
    = (s 0 + s 0 * 2 ^ 8 + s 4 * 2 ^ 20 + s 10 * 2 ^ 21 + s 13 * 2 ^ 17 + s 15 * 2 ^ 15) mod (2 ^ 31 - 1)"
    by (intro next_term t s zuc_iv_index) (simp_all add: s_def)
  then have "unat (lfsr_feedback (zs ctx)) mod (2 ^ 31 - 1)
    = (s 0 + s 0 * 2 ^ 8 + s 4 * 2 ^ 20 + s 10 * 2 ^ 21 + s 13 * 2 ^ 17 + s 15 * 2 ^ 15) mod (2 ^ 31 - 1)"
    by (simp only: lfsr_feedback_def Let_def t_def)
  then show ?thesis
    using len lfsr_feedback_less [of "zs ctx"] by (simp add: lfsr_work_def lfsr_shift_def nth_append algebra_simps)
qed

text \<open>
  With a 25-byte vector, byte 15 never reaches the state: two vectors that differ only there
  load the same register and give the same key stream (byte 5 is used twice instead).
\<close>

lemma zuc256_iv25_byte15_unused:
  assumes "length iv = 25"
  shows "zcore (zuc256_init_state ctx key (iv[15 := b]) 25) = zcore (zuc256_init_state ctx key iv 25)"
proof -
  have "iv[15 := b] ! i = iv ! i" if "i \<noteq> 15" for i using that by simp
  then have "load_iv25 key (iv[15 := b]) = load_iv25 key iv"
    unfolding load_iv25_def Let_def by simp
  then show ?thesis unfolding zuc256_init_state_def by simp
qed

text \<open>
  The substitution layer is not a permutation, neither in the bytes that go through \<open>s0\<close> nor in
  those that go through \<open>s1\<close>: both tables repeat entries, so \<open>F_func\<close> loses information.
\<close>

lemma S_func_not_injective:
  "S_func 0x00000600 \<noteq> S_func 0x00000700 \<and> S_func 0x00000700 = S_func 0x00002200
   \<and> S_func 0x00000004 = S_func 0x000000DC"
  by (simp add: S_func_def Let_def s0_def s1_def)

text \<open>
  \<open>zuc256_demo\<close> succeeds whatever its stack holds, and the text it prints ends with the
  decryption of its own ciphertext, the plaintext.
\<close>

lemma zuc256_demo_ok:
  assumes "zuc_shape ctx"
  shows "\<exists>mid. zuc256_demo ctx out
    = (0, out @ mid @ ''Decrypted text: Hello ZUC-256 stream cipher!'' @ newline)"
proof -
  let ?c = "zuc_start demo_key ctx demo_iv"
  obtain c x where x: "zuc256_crypt ?c demo_plaintext = (c, x)" by fastforce
  have "zuc_ok c"
    using zuc_ok_keystream [OF zuc_ok_start [OF assms], of demo_key demo_iv "length demo_plaintext"] x
    by (simp add: zuc256_crypt_stream demo_key_def demo_iv_def)
  then have "zuc_shape c" by (rule zuc_ok_shape)
  then have "snd (zuc256_crypt (zuc_start demo_key c demo_iv) x) = demo_plaintext"
    using zuc.crypt_start_involution [OF _ assms, of c demo_iv demo_key demo_plaintext] x
    by (simp add: demo_iv_def)
  moreover have "c_str (demo_plaintext @ [0]) = ''Hello ZUC-256 stream cipher!''"
    unfolding demo_plaintext_def by (rule c_str_str_bytes) simp
  ultimately show ?thesis
    by (auto simp: zuc256_demo_def zuc_start_init x split: prod.splits)
qed

end
