(* ===== verification/Rtp_Client.thy ===== *)
theory Rtp_Client
  imports ZUC256 "HOL-Library.Monad_Syntax"
begin

text \<open>
  The sending half of the video path, \<open>applications/rtsp_rtp_client.c\<close>: RTSP handshake, RTP header
  parsing, partial encryption of HEVC I frames with ZUC-256, and the loop that forwards every
  packet.  A packet is the whole receive buffer together with the number of bytes received, since the
  code reads past that number (header extension, initialisation vector) into what the buffer held
  before.  Lengths and offsets are \<open>int\<close> as in the code, and
  every byte read, the vector and the encrypted region are looked up by checked accesses: an index before or behind the
  buffer gives \<open>None\<close> for the whole call.  The error value of \<open>rtp_header_len\<close> is -1, as in the code.  The tick counter, the uninitialised
  local cipher context and the results of the socket calls are arguments.
\<close>

section \<open>Packets\<close>

definition g_session_key :: bytes where
  "g_session_key = replicate 32 0x11"

definition SKIP_PAYLOAD_PREFIX :: nat where
  "SKIP_PAYLOAD_PREFIX = 64"

definition RT_TICK_PER_SECOND :: u32 where
  "RT_TICK_PER_SECOND = 1000"

definition hevc_iframe :: "u8 \<Rightarrow> bool" where
  "hevc_iframe t \<longleftrightarrow> t = 19 \<or> t = 20 \<or> t = 21"

text \<open>A byte of the buffer, and a block of it; \<open>None\<close> outside.\<close>

definition byte_at :: "bytes \<Rightarrow> int \<Rightarrow> u8 option" where
  "byte_at buf i = (if 0 \<le> i \<and> i < int (length buf) then Some (buf ! nat i) else None)"

definition block_at :: "bytes \<Rightarrow> int \<Rightarrow> int \<Rightarrow> bytes option" where
  "block_at buf i n =
     (if 0 \<le> i \<and> 0 \<le> n \<and> i + n \<le> int (length buf) then Some (take (nat n) (drop (nat i) buf)) else None)"

definition rtp_header_len :: "bytes \<Rightarrow> int \<Rightarrow> int option" where
  "rtp_header_len rtp len =
     (if len < 12 then Some (- 1)
      else do {
        b \<leftarrow> byte_at rtp 0;
        let cc = b AND 0x0F;
        let x = drop_bit 4 b AND 0x01;
        let hdr_len = 12 + uint cc * 4;
        if x \<noteq> 0 then do {
          hi \<leftarrow> byte_at rtp (hdr_len + 2);
          lo \<leftarrow> byte_at rtp (hdr_len + 3);
          let ext_len = (push_bit 8 (ucast hi) OR ucast lo :: u16);
          Some (hdr_len + (4 + uint ext_len * 4))
        } else Some hdr_len
      })"

text \<open>What the code prints, as values.\<close>

datatype rtp_log =
    ENC_single u8 u32
  | ENC_fu u8 u32
  | RTP_fwd u32 u16 u32 nat
  | ENC_avg u32 u32

record rtp_client =
  skip_remain :: int
  g_enc_delay_sum_tick :: u64
  g_enc_pkt_cnt :: u32
  console :: "rtp_log list"

text \<open>\<open>(tick_end - tick_start) * 1000000 / RT_TICK_PER_SECOND\<close>, all in 32 bits.\<close>

definition delay_us :: "u32 \<Rightarrow> u32 \<Rightarrow> u32" where
  "delay_us t0 t1 = (t1 - t0) * 1000000 div RT_TICK_PER_SECOND"

definition account :: "u32 \<Rightarrow> u32 \<Rightarrow> rtp_log \<Rightarrow> rtp_client \<Rightarrow> rtp_client" where
  "account t0 t1 line st = st\<lparr>g_enc_delay_sum_tick := g_enc_delay_sum_tick st + ucast (t1 - t0),
     g_enc_pkt_cnt := g_enc_pkt_cnt st + 1, console := console st @ [line]\<rparr>"

text \<open>Initialise the local context \<open>g\<close> and XOR \<open>n\<close> bytes of the buffer from \<open>from\<close> on in place.\<close>

definition zuc_region :: "zuc256_ctx \<Rightarrow> bytes \<Rightarrow> nat \<Rightarrow> nat \<Rightarrow> bytes \<Rightarrow> bytes" where
  "zuc_region g iv from n rtp =
     (case snd (zuc256_init (Some g) (Some g_session_key) (Some iv) 16) of
        Some zuc \<Rightarrow> blit from (snd (zuc256_xor_inplace zuc (take n (drop from rtp)))) rtp
      | None \<Rightarrow> rtp)"

text \<open>The same for an offset and a length computed by the code: the region is read and written inside the buffer or not at all.\<close>

definition xor_region :: "zuc256_ctx \<Rightarrow> bytes \<Rightarrow> int \<Rightarrow> int \<Rightarrow> bytes \<Rightarrow> bytes option" where
  "xor_region g iv from n rtp = do { _ \<leftarrow> block_at rtp from n; Some (zuc_region g iv (nat from) (nat n) rtp) }"

text \<open>The prefix of a fragment left in clear, and what remains to be left in clear after it.\<close>

definition fu_skip :: "bool \<Rightarrow> int \<Rightarrow> int \<Rightarrow> int \<times> int" where
  "fu_skip start remain frag_len =
     (let remain = (if start then int SKIP_PAYLOAD_PREFIX else remain)
      in if remain > 0 then let skip = (if frag_len < remain then frag_len else remain) in (skip, remain - skip)
         else (0, remain))"

definition process_fu ::
  "zuc256_ctx \<Rightarrow> u32 \<Rightarrow> u32 \<Rightarrow> rtp_client \<Rightarrow> bytes \<Rightarrow> int \<Rightarrow> int \<Rightarrow> (rtp_client \<times> bytes) option" where
  "process_fu g t0 t1 st rtp payload payload_len =
     (if payload_len < 3 then Some (st, rtp)
      else do {
        fu_header \<leftarrow> byte_at rtp (payload + 2);
        let start = (fu_header AND 0x80 \<noteq> 0);
        let orig_type = fu_header AND 0x3F;
        if \<not> hevc_iframe orig_type then Some (st, rtp)
        else (let (skip, remain) = fu_skip start (skip_remain st) (payload_len - 3);
                  st = st\<lparr>skip_remain := remain\<rparr>;
                  frag = payload + 3 + skip;
                  frag_len = payload_len - 3 - skip
              in if frag_len \<le> 0 then Some (st, rtp)
                 else do {
                   iv \<leftarrow> block_at rtp (payload + 3) 16;
                   rtp \<leftarrow> xor_region g iv frag frag_len rtp;
                   Some (if start then account t0 t1 (ENC_fu orig_type (delay_us t0 t1)) st else st, rtp)
                 })
      })"

definition process_rtp_packet ::
  "zuc256_ctx \<Rightarrow> u32 \<Rightarrow> u32 \<Rightarrow> rtp_client \<Rightarrow> bytes \<Rightarrow> int \<Rightarrow> (rtp_client \<times> bytes) option" where
  "process_rtp_packet g t0 t1 st rtp len = do {
     hdr_len \<leftarrow> rtp_header_len rtp len;
     if hdr_len < 0 \<or> len \<le> hdr_len + 2 then Some (st, rtp)
     else do {
       let payload = hdr_len;
       let payload_len = len - hdr_len;
       b \<leftarrow> byte_at rtp payload;
       let nal_type = drop_bit 1 b AND 0x3F;
       if nal_type \<noteq> 49 then
         (if \<not> hevc_iframe nal_type then Some (st, rtp)
          else if payload_len \<le> 2 + int SKIP_PAYLOAD_PREFIX then Some (st, rtp)
          else do {
            let enc = payload + 2 + int SKIP_PAYLOAD_PREFIX;
            let enc_len = payload_len - 2 - int SKIP_PAYLOAD_PREFIX;
            iv \<leftarrow> block_at rtp (payload + 2) 16;
            rtp \<leftarrow> xor_region g iv enc enc_len rtp;
            Some (account t0 t1 (ENC_single nal_type (delay_us t0 t1)) st, rtp)
          })
       else process_fu g t0 t1 st rtp payload payload_len
     } }"

section \<open>Forwarding\<close>

text \<open>
  One pass through the receive loop: what \<open>recvfrom\<close> delivers (\<open>None\<close> for an error; it cuts a datagram
  to the size of the buffer), the ticks read in it and the content of the stack slot of the cipher.
\<close>

record recv_event =
  ev_data :: "bytes option"
  ev_t0 :: u32
  ev_t1 :: u32
  ev_stack :: zuc256_ctx

record rtp_loop =
  rbuf :: bytes
  cnt :: u32
  client :: rtp_client
  sent :: "bytes list"

definition RTP_BUF_SIZE :: nat where
  "RTP_BUF_SIZE = 1600"

text \<open>\<open>RT_TICK_PER_SECOND * g_enc_pkt_cnt\<close> is a 32-bit product; it is zero only after \<open>2 ^ 29\<close> I frames.\<close>

definition avg_us :: "u64 \<Rightarrow> u32 \<Rightarrow> u32" where
  "avg_us sum_tick n = ucast (sum_tick * 1000000 div ucast (RT_TICK_PER_SECOND * n))"

definition rtp_seq :: "bytes \<Rightarrow> u16" where
  "rtp_seq buf = push_bit 8 (ucast (buf ! 2)) OR ucast (buf ! 3)"

definition forward_report :: "u32 \<Rightarrow> u16 \<Rightarrow> u32 \<Rightarrow> nat \<Rightarrow> rtp_client \<Rightarrow> rtp_client" where
  "forward_report c seq ts n st =
     (if c mod 100 = 0 then
        st\<lparr>console := console st @ [RTP_fwd c seq ts n]
          @ (if g_enc_pkt_cnt st > 0 then [ENC_avg (avg_us (g_enc_delay_sum_tick st) (g_enc_pkt_cnt st)) (g_enc_pkt_cnt st)] else [])\<rparr>
      else st)"

definition rtp_forward_step :: "recv_event \<Rightarrow> rtp_loop \<Rightarrow> rtp_loop option" where
  "rtp_forward_step ev lp =
     (case ev_data ev of
        None \<Rightarrow> Some lp
      | Some d \<Rightarrow>
          let data = take RTP_BUF_SIZE d; n = length data in
          if n = 0 then Some lp
          else let buf = blit 0 data (rbuf lp); seq = rtp_seq buf; ts = get_be32 buf 4 in
            (case process_rtp_packet (ev_stack ev) (ev_t0 ev) (ev_t1 ev) (client lp) buf (int n) of
               None \<Rightarrow> None
             | Some (st, buf) \<Rightarrow>
                 Some \<lparr>rbuf = buf, cnt = cnt lp + 1, client = forward_report (cnt lp + 1) seq ts n st,
                   sent = sent lp @ [take n buf]\<rparr>))"

text \<open>The endless loop, for as many receptions as the list has.\<close>

fun rtp_recv_forward_loop :: "recv_event list \<Rightarrow> rtp_loop \<Rightarrow> rtp_loop option" where
  "rtp_recv_forward_loop [] lp = Some lp"
| "rtp_recv_forward_loop (ev # evs) lp =
     (case rtp_forward_step ev lp of None \<Rightarrow> None | Some lp \<Rightarrow> rtp_recv_forward_loop evs lp)"

section \<open>RTSP session\<close>

text \<open>\<open>tcp_connect\<close> and \<open>udp_bind\<close> on the results of \<open>socket\<close> and \<open>connect\<close> or \<open>bind\<close>: the value returned
  and the sockets closed.\<close>

definition tcp_connect :: "int \<Rightarrow> int \<Rightarrow> int \<times> int list" where
  "tcp_connect sock conn = (if sock < 0 then (-1, []) else if conn < 0 then (-1, [sock]) else (sock, []))"

definition udp_bind :: "int \<Rightarrow> int \<Rightarrow> int \<times> int list" where
  "udp_bind sock bnd = (if sock < 0 then (-1, []) else if bnd < 0 then (-1, [sock]) else (sock, []))"

record rtsp_state =
  rtsp_sock :: int
  rtp_recv_sock :: int
  rtp_send_sock :: int
  session_id :: string
  cseq :: int
  rtsp_sent :: "string list"

abbreviation crlf :: string where
  "crlf \<equiv> [CHR 0x0D, CHR 0x0A]"

definition RTSP_URL :: string where
  "RTSP_URL = ''rtsp://10.25.9.28:5543/live''"

text \<open>\<open>rt_vsnprintf\<close> cuts the text to the 512-byte buffer and its terminating zero.\<close>

definition rtsp_send :: "string \<Rightarrow> rtsp_state \<Rightarrow> rtsp_state" where
  "rtsp_send txt st = st\<lparr>rtsp_sent := rtsp_sent st @ [take 511 txt]\<rparr>"

text \<open>\<open>None\<close> is an error of \<open>recv\<close> (which delivers at most \<open>size - 1\<close> bytes): the buffer stays as it was.\<close>

definition rtsp_recv :: "bytes option \<Rightarrow> bytes \<Rightarrow> bytes" where
  "rtsp_recv reply buf =
     (case reply of
        None \<Rightarrow> buf
      | Some d \<Rightarrow> let data = take (length buf - 1) d; n = length data
                 in if n > 0 then (blit 0 data buf)[n := 0] else buf)"

fun strstr :: "string \<Rightarrow> string \<Rightarrow> string option" where
  "strstr s pat = (if take (length pat) s = pat then Some s
     else case s of [] \<Rightarrow> None | _ # t \<Rightarrow> strstr t pat)"

declare strstr.simps [simp del]

text \<open>\<open>sscanf(p, "Session: %63[^;\r\n]", session_id)\<close> for a \<open>p\<close> that \<open>strstr\<close> found.\<close>

definition scan_session :: "string \<Rightarrow> string \<Rightarrow> string" where
  "scan_session p old =
     (let t = take 63 (takeWhile (\<lambda>c. c \<noteq> CHR '';'' \<and> c \<noteq> CHR 0x0D \<and> c \<noteq> CHR 0x0A) (dropWhile c_isspace (drop 8 p)))
      in if t = [] then old else t)"

definition describe_request :: "int \<Rightarrow> string" where
  "describe_request n = ''DESCRIBE '' @ RTSP_URL @ '' RTSP/1.0'' @ crlf
     @ ''CSeq: '' @ fmt_d n @ crlf @ ''Accept: application/sdp'' @ crlf @ crlf"

definition setup_request :: "int \<Rightarrow> string" where
  "setup_request n = ''SETUP '' @ RTSP_URL @ ''/trackID=1 RTSP/1.0'' @ crlf
     @ ''CSeq: '' @ fmt_d n @ crlf @ ''Transport: RTP/AVP;unicast;client_port=5008-5009'' @ crlf @ crlf"

definition play_request :: "int \<Rightarrow> string \<Rightarrow> string" where
  "play_request n session = ''PLAY '' @ RTSP_URL @ '' RTSP/1.0'' @ crlf
     @ ''CSeq: '' @ fmt_d n @ crlf @ ''Session: '' @ session @ crlf @ ''Range: npt=0.000-'' @ crlf @ crlf"

text \<open>
  The arguments are the result of \<open>tcp_connect\<close>, the replies to the three requests and the content of
  the uninitialised reply buffer.  \<open>sscanf\<close> on the null pointer of a failed \<open>strstr\<close> is the value \<open>None\<close>.
\<close>

definition rtsp_handshake ::
  "int \<Rightarrow> bytes option \<Rightarrow> bytes option \<Rightarrow> bytes option \<Rightarrow> bytes \<Rightarrow> rtsp_state \<Rightarrow> (int \<times> rtsp_state) option" where
  "rtsp_handshake sock reply1 reply2 reply3 buf st =
     (let st = st\<lparr>rtsp_sock := sock\<rparr> in
      if rtsp_sock st < 0 then Some (-1, st)
      else
        let st = (rtsp_send (describe_request (cseq st)) st)\<lparr>cseq := cseq st + 1\<rparr>;
            buf = rtsp_recv reply1 buf;
            st = (rtsp_send (setup_request (cseq st)) st)\<lparr>cseq := cseq st + 1\<rparr>;
            buf = rtsp_recv reply2 buf
        in case strstr (c_str buf) ''Session:'' of
             None \<Rightarrow> None
           | Some p \<Rightarrow>
               let st = st\<lparr>session_id := scan_session p (session_id st)\<rparr>;
                   st = (rtsp_send (play_request (cseq st) (session_id st)) st)\<lparr>cseq := cseq st + 1\<rparr>
               in Some (0, st))"

definition rtsp_rtp_thread ::
  "(int \<times> rtsp_state) option \<Rightarrow> int \<Rightarrow> int \<Rightarrow> recv_event list \<Rightarrow> rtp_loop \<Rightarrow> (rtsp_state \<times> rtp_loop) option" where
  "rtsp_rtp_thread handshake recv_sock send_sock evs lp =
     (case handshake of
        None \<Rightarrow> None
      | Some (r, st) \<Rightarrow>
          if r \<noteq> 0 then Some (st, lp)
          else let st = st\<lparr>rtp_recv_sock := recv_sock, rtp_send_sock := send_sock\<rparr>
               in map_option (Pair st) (rtp_recv_forward_loop evs lp))"

text \<open>\<open>rtsp_rtp_start\<close> on the result of \<open>rt_thread_create\<close>: the value returned and the threads started.\<close>

definition rtsp_rtp_start :: "'tid option \<Rightarrow> int \<times> 'tid list" where
  "rtsp_rtp_start tid = (case tid of Some t \<Rightarrow> (0, [t]) | None \<Rightarrow> (-1, []))"

section \<open>Encrypted regions\<close>

lemma zuc_region_start:
  "zuc_region g iv from n rtp
   = blit from (snd (zuc256_crypt (zuc_start g_session_key g iv) (take n (drop from rtp)))) rtp"
  by (simp add: zuc_region_def zuc_start_init zuc256_xor_inplace_def)

lemma zuc_region_frame [c_length]:
  assumes "from + n \<le> length rtp"
  shows "length (zuc_region g iv from n rtp) = length rtp"
    and "k \<le> from \<Longrightarrow> take k (zuc_region g iv from n rtp) = take k rtp"
    and "from + n \<le> k \<Longrightarrow> drop k (zuc_region g iv from n rtp) = drop k rtp"
  using assms by (auto simp: zuc_region_start blit_def zuc.length_crypt min_def)

section \<open>Clear prefix of a fragmented unit\<close>

text \<open>The fragments of one unit in order: the first has the start bit.\<close>

fun fu_skips :: "bool \<Rightarrow> int \<Rightarrow> int list \<Rightarrow> int list" where
  "fu_skips start remain [] = []"
| "fu_skips start remain (n # ns) = (let (skip, remain) = fu_skip start remain n in skip # fu_skips False remain ns)"

lemma fu_skip_min:
  "0 \<le> n \<Longrightarrow> fu_skip start r n =
     (let m = if start then 64 else r in if m > 0 then (min n m, m - min n m) else (0, m))"
  by (auto simp: fu_skip_def SKIP_PAYLOAD_PREFIX_def Let_def min_def)

lemma fu_skip_bounds: "fu_skip start r n = (skip, remain) \<Longrightarrow> 0 \<le> n \<Longrightarrow> 0 \<le> skip \<and> skip \<le> n"
  by (auto simp: fu_skip_min Let_def split: if_splits)

lemma fu_skips_total:
  "\<forall>n \<in> set ns. 0 \<le> n \<Longrightarrow> 0 \<le> r \<Longrightarrow> sum_list (fu_skips start r ns) = min (if start \<and> ns \<noteq> [] then 64 else r) (sum_list ns)"
proof (induction ns arbitrary: start r)
  case (Cons n ns)
  have "0 \<le> sum_list ns" using Cons.prems(1) by (intro sum_list_nonneg) simp
  then show ?case using Cons.IH [of "(if start then 64 else r) - min n (if start then 64 else r)" False] Cons.prems
    by (cases start) (auto simp: fu_skip_min Let_def min_def split: if_splits)
qed simp

section \<open>Safety of packet processing\<close>

lemma byte_at_ok: "0 \<le> i \<Longrightarrow> i < int (length buf) \<Longrightarrow> byte_at buf i = Some (buf ! nat i)"
  by (simp add: byte_at_def)

lemma block_at_ok:
  "0 \<le> i \<Longrightarrow> 0 \<le> n \<Longrightarrow> i + n \<le> int (length buf) \<Longrightarrow> block_at buf i n = Some (take (nat n) (drop (nat i) buf))"
  by (simp add: block_at_def)

lemma xor_region_ok:
  "0 \<le> from \<Longrightarrow> 0 \<le> n \<Longrightarrow> from + n \<le> int (length rtp) \<Longrightarrow>
   xor_region g iv from n rtp = Some (zuc_region g iv (nat from) (nat n) rtp)"
  by (simp add: xor_region_def block_at_def)

text \<open>A region that is changed keeps the length of the buffer, everything before it and everything behind it.\<close>

lemma xor_region_frame:
  assumes "xor_region g iv from n rtp = Some rtp'" "k \<le> from" "from + n \<le> len"
  shows "length rtp' = length rtp \<and> take (nat k) rtp' = take (nat k) rtp \<and> drop (nat len) rtp' = drop (nat len) rtp"
proof -
  have r: "rtp' = zuc_region g iv (nat from) (nat n) rtp" "0 \<le> from" "0 \<le> n" "from + n \<le> int (length rtp)"
    using assms(1) by (auto simp: xor_region_def block_at_def split: if_splits)
  have "nat from + nat n \<le> length rtp" "nat k \<le> nat from" "nat from + nat n \<le> nat len" using r(2-4) assms(2,3) by linarith+
  then show ?thesis unfolding r(1) by (simp add: zuc_region_frame)
qed

text \<open>The header is at most 262216 bytes long, at least 12, and its fields lie in the first 76 bytes.\<close>

lemma rtp_header_len_cases:
  assumes "rtp_header_len rtp len = Some h"
  obtains "len < 12" "h = - 1" | "12 \<le> len" "12 \<le> h"
  using assms by (auto simp: rtp_header_len_def Let_def bind_eq_Some_conv split: if_splits)

lemma rtp_header_len_defined:
  assumes "76 \<le> length rtp"
  shows "\<exists>h. rtp_header_len rtp len = Some h"
proof -
  have "uint (rtp ! 0 AND 0x0F) \<le> 15" using word_and_le1 [of "rtp ! 0" "0x0F"] by (simp add: word_le_def and.commute)
  then have r: "byte_at rtp (12 + uint (rtp ! 0 AND 0x0F) * 4 + d) \<noteq> None" if "d \<in> {2, 3}" for d
    using that assms by (auto simp: byte_at_def)
  have "byte_at rtp 0 = Some (rtp ! 0)" using assms by (subst byte_at_ok) auto
  then show ?thesis using r [of 2] r [of 3] by (auto simp: rtp_header_len_def Let_def)
qed

lemma process_fu_frame:
  assumes "process_fu g t0 t1 st rtp h (len - h) = Some (st', rtp')"
  shows "length rtp' = length rtp \<and> take (nat (h + 3)) rtp' = take (nat (h + 3)) rtp \<and> drop (nat len) rtp' = drop (nat len) rtp"
proof (cases "rtp' = rtp")
  case False
  have le: "3 \<le> len - h" using assms False by (auto simp: process_fu_def split: if_splits)
  obtain fu where fu: "byte_at rtp (h + 2) = Some fu" "hevc_iframe (fu AND 0x3F)"
    using assms False le by (auto simp: process_fu_def Let_def bind_eq_Some_conv split: if_splits)
  obtain skip remain where s: "fu_skip (fu AND 0x80 \<noteq> 0) (skip_remain st) (len - h - 3) = (skip, remain)" by fastforce
  have f: "3 \<le> len - h" "fu_skip (fu AND 0x80 \<noteq> 0) (skip_remain st) (len - h - 3) = (skip, remain)"
    "\<exists>iv. xor_region g iv (h + 3 + skip) (len - h - 3 - skip) rtp = Some rtp'"
    using assms False le s fu by (auto simp: process_fu_def Let_def bind_eq_Some_conv split: if_splits)
  show ?thesis using f(3) xor_region_frame [of g _ "h + 3 + skip" "len - h - 3 - skip" rtp rtp' "h + 3" len]
    fu_skip_bounds [OF f(2)] f(1) by auto
qed simp

lemma process_frame:
  assumes "process_rtp_packet g t0 t1 st rtp len = Some (st', rtp')"
  shows "length rtp' = length rtp \<and> drop (nat len) rtp' = drop (nat len) rtp
    \<and> (\<exists>h. rtp_header_len rtp len = Some h \<and> take (nat (h + 3)) rtp' = take (nat (h + 3)) rtp \<and> (h < 0 \<longrightarrow> rtp' = rtp))"
proof -
  obtain h where h: "rtp_header_len rtp len = Some h" using assms by (auto simp: process_rtp_packet_def bind_eq_Some_conv)
  show ?thesis
  proof (cases "rtp' = rtp")
    case False
    then have pos: "0 \<le> h" "h + 2 < len" using assms h by (auto simp: process_rtp_packet_def split: if_splits)
    consider iv where "xor_region g iv (h + 2 + 64) (len - h - 2 - 64) rtp = Some rtp'"
      | "process_fu g t0 t1 st rtp h (len - h) = Some (st', rtp')"
      using assms h pos False
      by (fastforce simp: process_rtp_packet_def Let_def bind_eq_Some_conv SKIP_PAYLOAD_PREFIX_def split: if_splits)
    then show ?thesis
    proof cases
      case 1
      then show ?thesis using xor_region_frame [OF 1, of "h + 3" len] h pos by simp
    next
      case 2
      then show ?thesis using process_fu_frame [OF 2] h pos by simp
    qed
  qed (use h in simp)
qed

lemma process_fu_safe:
  assumes "0 \<le> h" "h + 2 < len" "len + 16 \<le> int (length rtp)"
  shows "process_fu g t0 t1 st rtp h (len - h) \<noteq> None"
proof -
  obtain skip remain where s: "fu_skip (rtp ! nat (h + 2) AND 0x80 \<noteq> 0) (skip_remain st) (len - h - 3) = (skip, remain)" by fastforce
  have b: "0 \<le> skip" "skip \<le> len - h - 3" using fu_skip_bounds [OF s] assms(2) by auto
  have "byte_at rtp (h + 2) = Some (rtp ! nat (h + 2))" using assms by (intro byte_at_ok) auto
  moreover have "block_at rtp (h + 3) 16 = Some (take (nat 16) (drop (nat (h + 3)) rtp))" using assms by (intro block_at_ok) auto
  moreover have "xor_region g iv (h + 3 + skip) (len - h - 3 - skip) rtp
      = Some (zuc_region g iv (nat (h + 3 + skip)) (nat (len - h - 3 - skip)) rtp)" for iv
    using assms b by (intro xor_region_ok) auto
  ultimately show ?thesis using s by (simp add: process_fu_def Let_def)
qed

lemma process_rtp_packet_safe_aux:
  assumes "len + 16 \<le> int (length rtp)" "76 \<le> length rtp"
  shows "process_rtp_packet g t0 t1 st rtp len \<noteq> None"
proof -
  obtain h where h: "rtp_header_len rtp len = Some h" using rtp_header_len_defined [OF assms(2)] by blast
  show ?thesis
  proof (cases "h < 0 \<or> len \<le> h + 2")
    case True
    then show ?thesis using h by (auto simp: process_rtp_packet_def)
  next
    case False
    then have "byte_at rtp h = Some (rtp ! nat h)" "block_at rtp (h + 2) 16 = Some (take (nat 16) (drop (nat (h + 2)) rtp))"
      using assms(1) by (auto simp: byte_at_def block_at_def)
    moreover have "66 < len - h \<Longrightarrow> xor_region g iv (h + 66) (len - h - 66) rtp
        = Some (zuc_region g iv (nat (h + 66)) (nat (len - h - 66)) rtp)" for iv
      using False assms(1) by (intro xor_region_ok) auto
    ultimately show ?thesis
      using h False process_fu_safe [of h len rtp g t0 t1 st] assms(1)
      by (auto simp: process_rtp_packet_def Let_def SKIP_PAYLOAD_PREFIX_def algebra_simps)
  qed
qed

lemma process_frame_12:
  assumes "process_rtp_packet g t0 t1 st rtp len = Some (st', rtp')"
  shows "take 12 rtp' = take 12 rtp"
proof -
  obtain h where h: "rtp_header_len rtp len = Some h" "take (nat (h + 3)) rtp' = take (nat (h + 3)) rtp" "h < 0 \<longrightarrow> rtp' = rtp"
    using process_frame [OF assms] by blast
  show ?thesis
  proof (cases "h < 0")
    case False
    then have "12 \<le> nat (h + 3)" using h(1) by (auto elim: rtp_header_len_cases)
    then show ?thesis using arg_cong [OF h(2), of "take 12"] by (simp add: min_absorb1)
  qed (use h(3) in simp)
qed

section \<open>Properties\<close>

text \<open>
  Processing a received packet, single unit or fragment, never changes the length of the buffer, the
  bytes after the packet, or the RTP header with the payload header and fragment header that follow it.
\<close>

lemma process_rtp_packet_frame:
  assumes "process_rtp_packet g t0 t1 st rtp len = Some (st', rtp')" "rtp_header_len rtp len = Some h"
  shows "length rtp' = length rtp \<and> take (nat (h + 3)) rtp' = take (nat (h + 3)) rtp \<and> drop (nat len) rtp' = drop (nat len) rtp"
  using process_frame [OF assms(1)] assms(2) by auto

text \<open>A start fragment of an IDR unit behind a plain header, with 8 payload bytes.\<close>

definition sample_fu :: bytes where
  "sample_fu = 0x80 # replicate 11 0 @ [98, 1, 0x93] @ replicate 8 7"

definition client_boot :: rtp_client where
  "client_boot = \<lparr>skip_remain = 0, g_enc_delay_sum_tick = 0, g_enc_pkt_cnt = 0, console = []\<rparr>"

text \<open>
  C20. Processing a packet stays inside the receive buffer: when the buffer has room for sixteen bytes behind the packet and for
  the longest fixed part of a header (76 bytes), which holds for the 1600-byte buffer and packets of up to 1584 bytes, no read
  of the header fields, of the unit and fragment headers or of the vector and no access of the encryption is outside, whatever
  the bytes of the packet, its extension length included; and the first twelve bytes, the bytes behind the packet and the size
  of the buffer are kept.
\<close>

theorem process_rtp_packet_safe:
  assumes "len + 16 \<le> int (length rtp)" "76 \<le> length rtp"
  shows "\<exists>st' rtp'. process_rtp_packet g t0 t1 st rtp len = Some (st', rtp') \<and> length rtp' = length rtp
    \<and> take 12 rtp' = take 12 rtp \<and> drop (nat len) rtp' = drop (nat len) rtp"
proof -
  obtain st' rtp' where p: "process_rtp_packet g t0 t1 st rtp len = Some (st', rtp')"
    using process_rtp_packet_safe_aux [OF assms] by fastforce
  show ?thesis using p process_frame [OF p] process_frame_12 [OF p] by blast
qed

theorem process_rtp_packet_safe_witness:
  "\<exists>st' rtp'. process_rtp_packet zuc_zero_ctx 0 0 client_boot ([0x9F] @ replicate 1599 0xFF) 1584 = Some (st', rtp')
     \<and> length rtp' = 1600"
proof -
  let ?p = "[0x9F] @ replicate 1599 0xFF :: bytes"
  have l: "length ?p = 1600" by simp
  show ?thesis using process_rtp_packet_safe [of 1584 ?p zuc_zero_ctx 0 0 client_boot] unfolding l by auto
qed

text \<open>
  A continuation fragment whose header extension fills the buffer up to its last byte makes the
  16-byte copy of the initialisation vector run past the end of the 1600-byte buffer.
\<close>

lemma process_rtp_packet_overread:
  "process_rtp_packet g t0 t1 client_boot
     ([0x90] @ replicate 13 0 @ [1, 139] @ replicate 1580 0 @ [98, 1, 19, 0]) 1600 = None"
proof -
  let ?p = "[0x90] @ replicate 13 0 @ [1, 139] @ replicate 1580 0 @ [98, 1, 19, 0] :: bytes"
  have "rtp_header_len ?p 1600 = Some 1596"
    by (simp add: rtp_header_len_def byte_at_def nth_append nth_Cons')
  moreover have "byte_at ?p 1596 = Some 98" "byte_at ?p 1598 = Some 19" "block_at ?p 1599 16 = None"
    by (simp_all add: byte_at_def block_at_def nth_append nth_Cons')
  ultimately show ?thesis
    by (simp add: process_rtp_packet_def process_fu_def fu_skip_min hevc_iframe_def client_boot_def)
qed

text \<open>Without room for the fixed part of the header, its extension length is read outside the buffer.\<close>

lemma rtp_header_len_overread: "rtp_header_len ([0x9F] @ replicate 27 0) 12 = None"
  by (simp add: rtp_header_len_def byte_at_def)

text \<open>
  The fragments of one unit, taken in order, leave exactly its first 64 bytes in clear (all of
  them when the unit is shorter): no skip exceeds its fragment, they add up to 64 at most, and once a fragment is
  encrypted every later one is encrypted from its first byte on.
\<close>

lemma fu_skips_clear_prefix:
  assumes "\<forall>n \<in> set ns. 0 \<le> n"
  shows "sum_list (fu_skips True r ns) = min 64 (sum_list ns)
   \<and> list_all2 (\<le>) (fu_skips True r ns) ns
   \<and> (\<forall>i < length ns. fu_skips True r ns ! i = min (ns ! i) (max 0 (64 - sum_list (take i ns))))"
proof -
  have "list_all2 (\<le>) (fu_skips s r ns) ns
      \<and> (\<forall>i < length ns. fu_skips s r ns ! i = min (ns ! i) (max 0 ((if s then 64 else r) - sum_list (take i ns))))"
    if "0 \<le> r" for s r
    using assms that
  proof (induction ns arbitrary: s r)
    case (Cons n ns)
    let ?m = "if s then 64 else r"
    have m: "0 \<le> ?m - min n ?m" "0 \<le> n" using Cons.prems by auto
    have f: "fu_skip s r n = (min n ?m, ?m - min n ?m)" using Cons.prems by (auto simp: fu_skip_min Let_def)
    have IH: "list_all2 (\<le>) (fu_skips False (?m - min n ?m) ns) ns"
      "\<forall>i < length ns. fu_skips False (?m - min n ?m) ns ! i = min (ns ! i) (max 0 (?m - min n ?m - sum_list (take i ns)))"
      using Cons.IH [of "?m - min n ?m" False] Cons.prems m by simp_all
    have "fu_skips s r (n # ns) ! i = min ((n # ns) ! i) (max 0 (?m - sum_list (take i (n # ns))))" if "i < length (n # ns)" for i
    proof (cases i)
      case 0
      then show ?thesis using Cons.prems f by simp
    next
      case (Suc k)
      have "0 \<le> sum_list (take k ns)" using Cons.prems by (intro sum_list_nonneg) (auto dest: in_set_takeD)
      then show ?thesis using Suc that IH(2) m(2) f by auto
    qed
    then show ?case using IH(1) f by (simp add: min_def)
  qed simp
  from this [of 0 True] have "list_all2 (\<le>) (fu_skips True 0 ns) ns"
      "\<forall>i < length ns. fu_skips True 0 ns ! i = min (ns ! i) (max 0 (64 - sum_list (take i ns)))" by simp_all
  moreover have "fu_skips True r ns = fu_skips True 0 ns" by (cases ns) (simp_all add: fu_skip_def)
  moreover have "sum_list (fu_skips True 0 ns) = min 64 (sum_list ns)"
    using fu_skips_total [OF assms, of 0 True] by (cases ns) simp_all
  ultimately show ?thesis by simp
qed

definition datagrams :: "recv_event list \<Rightarrow> bytes list" where
  "datagrams evs = filter (\<lambda>d. d \<noteq> []) (List.map_filter ev_data evs)"

lemma datagrams_Cons: "datagrams (ev # evs) = (case ev_data ev of Some d \<Rightarrow> if d \<noteq> [] then [d] else [] | None \<Rightarrow> []) @ datagrams evs"
  by (auto simp: datagrams_def map_filter_simps split: option.splits)

definition same_header :: "bytes \<Rightarrow> bytes \<Rightarrow> bool" where
  "same_header d s \<longleftrightarrow> length s = length d \<and> take 12 s = take 12 d"

lemma rtp_forward_step_ok:
  assumes "ev_data ev = Some d" "d \<noteq> []" "length d \<le> 1584" "length (rbuf lp) = 1600"
  obtains lp' s where "rtp_forward_step ev lp = Some lp'" "length (rbuf lp') = 1600" "cnt lp' = cnt lp + 1"
    "sent lp' = sent lp @ [s]" "same_header d s"
proof -
  let ?buf = "blit 0 d (rbuf lp)"
  have buf: "length ?buf = 1600" "take (length d) ?buf = d" using assms by (simp_all add: blit_def)
  obtain st rtp where p: "process_rtp_packet (ev_stack ev) (ev_t0 ev) (ev_t1 ev) (client lp) ?buf (int (length d)) = Some (st, rtp)"
    using process_rtp_packet_safe_aux [of "int (length d)" ?buf] buf assms(3) by fastforce
  have f: "length rtp = 1600" "take 12 rtp = take 12 ?buf" using process_frame [OF p] process_frame_12 [OF p] buf(1) by simp_all
  have "take 12 (take (length d) rtp) = take 12 d"
    using f(2) buf(2) by (metis take_take min.commute)
  then have "same_header d (take (length d) rtp)" using f(1) assms(3) by (simp add: same_header_def)
  then show ?thesis
    using that p assms f by (simp add: rtp_forward_step_def RTP_BUF_SIZE_def Let_def)
qed

text \<open>
  C19. As long as the datagrams fit the buffer with sixteen bytes to spare, the forwarding loop sends on
  every non-empty datagram it receives, once and in order, with its length and its twelve-byte header unchanged,
  and counts it.
\<close>

theorem rtp_recv_forward_loop_forwards:
  assumes "length (rbuf lp) = 1600" "\<forall>d \<in> set (datagrams evs). length d \<le> 1584"
  shows "\<exists>lp' out. rtp_recv_forward_loop evs lp = Some lp' \<and> length (rbuf lp') = 1600
    \<and> sent lp' = sent lp @ out \<and> list_all2 same_header (datagrams evs) out
    \<and> cnt lp' = cnt lp + of_nat (length out)"
  using assms
proof (induction evs arbitrary: lp)
  case Nil
  then show ?case by (simp add: datagrams_def map_filter_simps)
next
  case (Cons ev evs)
  show ?case
  proof (cases "\<exists>d. ev_data ev = Some d \<and> d \<noteq> []")
    case True
    then obtain d where d: "ev_data ev = Some d" "d \<noteq> []" by blast
    then have dg: "datagrams (ev # evs) = d # datagrams evs" by (simp add: datagrams_Cons)
    with Cons.prems obtain lp1 s where s: "rtp_forward_step ev lp = Some lp1" "length (rbuf lp1) = 1600"
      "cnt lp1 = cnt lp + 1" "sent lp1 = sent lp @ [s]" "same_header d s"
      using rtp_forward_step_ok [OF d, of lp] by auto
    obtain lp' out where "rtp_recv_forward_loop evs lp1 = Some lp'" "length (rbuf lp') = 1600"
      "sent lp' = sent lp1 @ out" "list_all2 same_header (datagrams evs) out" "cnt lp' = cnt lp1 + of_nat (length out)"
      using Cons.IH [OF s(2)] Cons.prems dg by auto
    with s show ?thesis unfolding dg by (intro exI [of _ lp'] exI [of _ "s # out"]) simp
  next
    case False
    then have "datagrams (ev # evs) = datagrams evs" "rtp_forward_step ev lp = Some lp"
      by (auto simp: datagrams_Cons rtp_forward_step_def Let_def split: option.splits)
    then show ?thesis using Cons by simp
  qed
qed

definition sample_event :: recv_event where
  "sample_event = \<lparr>ev_data = Some sample_fu, ev_t0 = 0, ev_t1 = 0, ev_stack = zuc_zero_ctx\<rparr>"

theorem rtp_recv_forward_loop_forwards_witness:
  "\<exists>lp' out. rtp_recv_forward_loop [sample_event, sample_event]
      \<lparr>rbuf = replicate 1600 0, cnt = 0, client = client_boot, sent = []\<rparr> = Some lp'
    \<and> sent lp' = out \<and> list_all2 same_header [sample_fu, sample_fu] out"
proof -
  have d: "datagrams [sample_event, sample_event] = [sample_fu, sample_fu]"
    by (simp add: datagrams_def map_filter_simps sample_event_def sample_fu_def)
  show ?thesis
    using rtp_recv_forward_loop_forwards [of "\<lparr>rbuf = replicate 1600 0, cnt = 0, client = client_boot, sent = []\<rparr>"
        "[sample_event, sample_event]"]
    unfolding d by (auto simp: sample_fu_def)
qed

section \<open>Properties of the RTSP session\<close>

lemma strstr_first:
  "\<forall>i < length pre. take (length pat) (drop i (pre @ pat @ r)) \<noteq> pat \<Longrightarrow> strstr (pre @ pat @ r) pat = Some (pat @ r)"
proof (induction pre)
  case (Cons c pre)
  have "take (length pat) (drop i (pre @ pat @ r)) \<noteq> pat" if "i < length pre" for i
    using Cons.prems [rule_format, of "Suc i"] that by simp
  then show ?case using Cons.IH Cons.prems [rule_format, of 0] by (subst strstr.simps) simp
qed (simp add: strstr.simps)

lemma length_fmt_d: "0 \<le> i \<Longrightarrow> i < 2 ^ 31 \<Longrightarrow> length (fmt_d i) \<le> 10"
  using length_fmt_u [of 10 "nat i"] by (simp add: fmt_d_def)

lemma request_fits:
  assumes "0 \<le> n" "n < 2 ^ 31" "length s \<le> 63"
  shows "take 511 (describe_request n) = describe_request n" "take 511 (setup_request n) = setup_request n"
    "take 511 (play_request n s) = play_request n s"
  using length_fmt_d [OF assms(1,2)] assms(3)
  by (simp_all add: describe_request_def setup_request_def play_request_def RTSP_URL_def)

lemma c_str_reply:
  assumes "length buf = 1024" "s \<noteq> []" "length s \<le> 1023" "CHR 0x00 \<notin> set s"
  shows "c_str (rtsp_recv (Some (str_bytes s)) buf) = s"
proof -
  have "(blit 0 (str_bytes s) buf)[length s := 0] = (str_bytes s @ [0]) @ drop (Suc (length s)) buf"
    using assms(1,3) Cons_nth_drop_Suc [of "length s" buf, symmetric] by (simp add: blit_def list_update_append)
  then have "c_str (rtsp_recv (Some (str_bytes s)) buf) = c_str ((str_bytes s @ [0]) @ drop (Suc (length s)) buf)"
    using assms by (simp add: rtsp_recv_def str_bytes_def)
  also have "\<dots> = c_str (str_bytes s @ [0])" by (auto simp: c_str_def takeWhile_append)
  finally show ?thesis by (simp add: c_str_str_bytes assms(4))
qed

lemma scan_session_id:
  assumes "sid \<noteq> []" "length sid \<le> 63" "\<not> c_isspace (hd sid)"
    and "\<forall>c \<in> set sid. c \<noteq> CHR '';'' \<and> c \<noteq> CHR 0x0D \<and> c \<noteq> CHR 0x0A"
    and "sep = CHR '';'' \<or> sep = CHR 0x0D"
  shows "scan_session (''Session:'' @ '' '' @ sid @ sep # rest) old = sid"
proof -
  have "c_isspace CHR '' ''" by (simp add: c_isspace_def)
  moreover have "dropWhile c_isspace (sid @ sep # rest) = sid @ sep # rest"
    using assms(1,3) by (cases sid) simp_all
  moreover have "takeWhile (\<lambda>c. c \<noteq> CHR '';'' \<and> c \<noteq> CHR 0x0D \<and> c \<noteq> CHR 0x0A) (sid @ sep # rest) = sid"
    using assms(4,5) by (subst takeWhile_append2) auto
  ultimately show ?thesis using assms(1,2) by (simp add: scan_session_def)
qed

text \<open>
  C31. When the connection is up and the reply to SETUP carries a session identifier of at most 63
  characters, the handshake succeeds and sends exactly the three requests, uncut, with consecutive sequence
  numbers, PLAY naming that session.
\<close>

theorem rtsp_handshake_ok:
  assumes "0 \<le> sock" "0 \<le> cseq st" "cseq st < 2 ^ 31 - 3" "length buf = 1024"
    and "reply2 = pre @ ''Session:'' @ '' '' @ sid @ sep # rest" "length reply2 \<le> 1023" "CHR 0x00 \<notin> set reply2"
    and "\<forall>i < length pre. take 8 (drop i reply2) \<noteq> ''Session:''"
    and "sid \<noteq> []" "length sid \<le> 63" "\<not> c_isspace (hd sid)"
    and "\<forall>c \<in> set sid. c \<noteq> CHR '';'' \<and> c \<noteq> CHR 0x0D \<and> c \<noteq> CHR 0x0A" "sep = CHR '';'' \<or> sep = CHR 0x0D"
  shows "rtsp_handshake sock reply1 (Some (str_bytes reply2)) reply3 buf st
    = Some (0, st\<lparr>rtsp_sock := sock, session_id := sid, cseq := cseq st + 3,
        rtsp_sent := rtsp_sent st @ [describe_request (cseq st), setup_request (cseq st + 1), play_request (cseq st + 2) sid]\<rparr>)"
proof -
  have "length (rtsp_recv reply1 buf) = 1024"
    using assms(4) by (simp add: rtsp_recv_def Let_def length_blit split: option.splits)
  then have "c_str (rtsp_recv (Some (str_bytes reply2)) (rtsp_recv reply1 buf)) = reply2"
    using assms(5-7) by (intro c_str_reply) simp_all
  moreover have l8: "length ''Session:'' = 8" by simp
  moreover have "strstr reply2 ''Session:'' = Some (''Session:'' @ '' '' @ sid @ sep # rest)"
    unfolding assms(5) by (rule strstr_first, unfold l8) (rule assms(8) [unfolded assms(5)])
  moreover have "scan_session (''Session:'' @ '' '' @ sid @ sep # rest) (session_id st) = sid"
    by (rule scan_session_id) (use assms(9-13) in auto)
  moreover note request_fits [OF _ _ assms(10)] 
  ultimately show ?thesis
    using assms(1-3) by (simp add: rtsp_handshake_def rtsp_send_def Let_def add.commute)
qed

definition rtsp_boot :: rtsp_state where
  "rtsp_boot = \<lparr>rtsp_sock = -1, rtp_recv_sock = -1, rtp_send_sock = -1, session_id = [], cseq = 1, rtsp_sent = []\<rparr>"

definition sample_reply :: string where
  "sample_reply = ''OK Session: 7f;timeout=60''"

theorem rtsp_handshake_ok_witness:
  "\<exists>st. rtsp_handshake 3 None (Some (str_bytes sample_reply)) None (replicate 1024 0) rtsp_boot
    = Some (0, st) \<and> session_id st = ''7f''"
proof -
  have "\<forall>i < length ''OK ''. take 8 (drop i sample_reply) \<noteq> ''Session:''"
    by (simp add: sample_reply_def less_Suc_eq all_conj_distrib)
  then show ?thesis
    using rtsp_handshake_ok [of 3 rtsp_boot "replicate 1024 0" sample_reply "''OK ''" "''7f''"
      "CHR '';''" "''timeout=60''" None None]
    by (simp add: rtsp_boot_def c_isspace_def sample_reply_def)
qed

text \<open>
  The handshake fails cleanly, sending nothing, exactly when the connection is down; a reply
  to SETUP without the word \<open>Session:\<close> is not checked for and ends in \<open>sscanf\<close> on a null pointer.
\<close>

lemma rtsp_handshake_failures:
  "(sock < 0 \<longrightarrow> rtsp_handshake sock r1 r2 r3 buf st = Some (-1, st\<lparr>rtsp_sock := sock\<rparr>))
   \<and> (0 \<le> sock \<longrightarrow> rtsp_handshake sock r1 r2 r3 buf st \<noteq> None \<longrightarrow> fst (the (rtsp_handshake sock r1 r2 r3 buf st)) = 0)
   \<and> (0 \<le> sock \<longrightarrow> (rtsp_handshake sock r1 r2 r3 buf st = None
        \<longleftrightarrow> strstr (c_str (rtsp_recv r2 (rtsp_recv r1 buf))) ''Session:'' = None))"
  by (auto simp: rtsp_handshake_def Let_def rtsp_send_def split: option.splits)

end
