(* ===== verification/Rtp_Receiver.thy ===== *)
theory Rtp_Receiver
  imports Rtp_Client
begin

text \<open>
  The receiving half of the video path, \<open>applications/rtp_udp_receiver.c\<close>, and what it makes of the
  packets the sending half produces.  The packet model is that of the sender: the whole buffer and the
  number of bytes received.  The key table of this file has the same content as the sender's, so
  \<open>zuc_region\<close> serves both.  The header here always counts twelve bytes, and the two length tests bound every access by the
  number of bytes received.
\<close>

section \<open>Decryption\<close>

definition RTP_HEADER_LEN :: nat where
  "RTP_HEADER_LEN = 12"

definition hevc_nalu_type :: "bytes \<Rightarrow> nat \<Rightarrow> u8" where
  "hevc_nalu_type buf nalu = drop_bit 1 (buf ! nalu) AND 0x3F"

datatype dec_log =
    DEC_frame u8 u32
  | RTP_pkt u32 u16 u32 nat
  | DEC_avg u32 u32

record rtp_dec =
  g_dec_delay_sum_tick :: u64
  g_dec_frame_cnt :: u32
  dec_console :: "dec_log list"

definition decrypt_rtp_packet ::
  "zuc256_ctx \<Rightarrow> u32 \<Rightarrow> u32 \<Rightarrow> rtp_dec \<Rightarrow> bytes \<Rightarrow> nat \<Rightarrow> rtp_dec \<times> bytes" where
  "decrypt_rtp_packet g t0 t1 st rtp len =
     (if len \<le> RTP_HEADER_LEN + 2 then (st, rtp)
      else let payload = RTP_HEADER_LEN; payload_len = len - RTP_HEADER_LEN;
               nalu_type = hevc_nalu_type rtp payload
           in if payload_len \<le> 2 + SKIP_PAYLOAD_PREFIX then (st, rtp)
              else let dec_start = payload + 2 + SKIP_PAYLOAD_PREFIX;
                       dec_len = payload_len - 2 - SKIP_PAYLOAD_PREFIX;
                       iv = take 16 (drop (payload + 2) rtp);
                       rtp = zuc_region g iv dec_start dec_len rtp
                   in (st\<lparr>g_dec_delay_sum_tick := g_dec_delay_sum_tick st + ucast (t1 - t0),
                         g_dec_frame_cnt := g_dec_frame_cnt st + 1,
                         dec_console := dec_console st @ [DEC_frame nalu_type (delay_us t0 t1)]\<rparr>, rtp))"

section \<open>Reception loop\<close>

record dec_loop =
  dbuf :: bytes
  pkt_cnt :: u32
  dec :: rtp_dec

definition receive_report :: "u32 \<Rightarrow> u16 \<Rightarrow> u32 \<Rightarrow> nat \<Rightarrow> rtp_dec \<Rightarrow> rtp_dec" where
  "receive_report c seq ts n st =
     (if c mod 100 = 0 then
        st\<lparr>dec_console := dec_console st @ [RTP_pkt c seq ts n]
          @ (if g_dec_frame_cnt st > 0 then [DEC_avg (avg_us (g_dec_delay_sum_tick st) (g_dec_frame_cnt st)) (g_dec_frame_cnt st)] else [])\<rparr>
      else st)"

definition rtp_receive_step :: "recv_event \<Rightarrow> dec_loop \<Rightarrow> dec_loop" where
  "rtp_receive_step ev lp =
     (case ev_data ev of
        None \<Rightarrow> lp
      | Some d \<Rightarrow>
          let data = take RTP_BUF_SIZE d; n = length data in
          if n = 0 then lp
          else let buf = blit 0 data (dbuf lp); seq = rtp_seq buf; ts = get_be32 buf 4;
                   (st, buf) = decrypt_rtp_packet (ev_stack ev) (ev_t0 ev) (ev_t1 ev) (dec lp) buf n
               in \<lparr>dbuf = buf, pkt_cnt = pkt_cnt lp + 1, dec = receive_report (pkt_cnt lp + 1) seq ts n st\<rparr>)"

text \<open>The endless loop, for as many receptions as the list has.\<close>

definition rtp_receive_loop :: "recv_event list \<Rightarrow> dec_loop \<Rightarrow> dec_loop" where
  "rtp_receive_loop evs lp = foldl (\<lambda>lp ev. rtp_receive_step ev lp) lp evs"

text \<open>
  \<open>rtp_receiver_thread\<close> on the results of \<open>socket\<close> and \<open>bind\<close>: the sockets closed and the state of the
  loop if it was entered; \<open>rtp_receiver_start\<close> on the result of \<open>rt_thread_create\<close>.
\<close>

definition rtp_receiver_thread :: "int \<Rightarrow> int \<Rightarrow> recv_event list \<Rightarrow> dec_loop \<Rightarrow> int list \<times> dec_loop option" where
  "rtp_receiver_thread sock bnd evs lp =
     (if sock < 0 then ([], None)
      else if bnd < 0 then ([sock], None)
      else ([], Some (rtp_receive_loop evs lp)))"

definition rtp_receiver_start :: "'tid option \<Rightarrow> int \<times> 'tid list" where
  "rtp_receiver_start tid = (case tid of Some t \<Rightarrow> (0, [t]) | None \<Rightarrow> (-1, []))"

section \<open>Sender and receiver\<close>

text \<open>A whole region in clear, the rest XORed: the message view of \<open>zuc_region\<close>.\<close>

lemma zuc_region_take:
  assumes "from \<le> len" "len \<le> length rtp"
  shows "take len (zuc_region g iv from (len - from) rtp)
    = take from (take len rtp) @ snd (zuc256_crypt (zuc_start g_session_key g iv) (drop from (take len rtp)))"
  using assms by (simp add: zuc_region_start blit_def zuc.length_crypt drop_take)

lemma zuc_region_iv:
  "take 16 (drop off rtp) = take 16 (drop off (take len rtp))" if "off + 16 \<le> len"
  using that by (simp add: drop_take min_def)

lemma zuc_region_roundtrip:
  assumes "zuc_shape g" "zuc_shape g'" "off + 16 \<le> from" "from \<le> len" "len \<le> length rtp"
  defines "enc \<equiv> zuc_region g (take 16 (drop off rtp)) from (len - from) rtp"
  shows "zuc_region g' (take 16 (drop off enc)) from (len - from) enc = rtp"
proof -
  let ?dec = "zuc_region g' (take 16 (drop off enc)) from (len - from) enc"
  have l: "len \<le> length enc" "length enc = length rtp"
    using assms(4,5) by (simp_all add: enc_def zuc_region_frame)
  have iv: "take 16 (drop off xs) = take 16 (drop off (take len xs))" for xs :: bytes
    using assms(3,4) by (intro zuc_region_iv) simp
  have "take len enc = take from (take len rtp) @ snd (zuc256_crypt (zuc_start g_session_key g (take 16 (drop off (take len rtp)))) (drop from (take len rtp)))"
    unfolding enc_def by (subst zuc_region_take [OF assms(4,5)]) (simp only: iv [of rtp])
  from zuc.protect_roundtrip [OF assms(1-3) _ this] assms(4,5)
  have "take len ?dec = take len rtp"
    by (subst zuc_region_take [OF assms(4) l(1)]) (simp add: iv [of enc])
  moreover have "drop len ?dec = drop len rtp"
    using assms(4,5) l by (simp add: zuc_region_frame) (simp add: enc_def zuc_region_frame)
  ultimately show ?thesis by (metis append_take_drop_id)
qed

text \<open>A header without contributing sources and without extension has twelve bytes.\<close>

definition plain_header :: "bytes \<Rightarrow> bool" where
  "plain_header rtp \<longleftrightarrow> rtp ! 0 AND 0x0F = 0 \<and> drop_bit 4 (rtp ! 0) AND 0x01 = 0"

lemma plain_header_len:
  "plain_header rtp \<Longrightarrow> len \<le> length rtp \<Longrightarrow> rtp_header_len rtp (int len) = Some (if len < 12 then - 1 else 12)"
  by (auto simp: plain_header_def rtp_header_len_def byte_at_def)

lemma decrypt_region:
  "snd (decrypt_rtp_packet g t0 t1 st rtp len)
   = (if len \<le> 78 then rtp else zuc_region g (take 16 (drop 14 rtp)) 78 (len - 78) rtp)"
  by (auto simp: decrypt_rtp_packet_def RTP_HEADER_LEN_def SKIP_PAYLOAD_PREFIX_def Let_def)

lemma process_single:
  assumes "plain_header rtp" "hevc_iframe (hevc_nalu_type rtp 12)" "len \<le> length rtp"
  shows "map_option snd (process_rtp_packet g t0 t1 st rtp (int len))
    = Some (if len \<le> 78 then rtp else zuc_region g (take 16 (drop 14 rtp)) 78 (len - 78) rtp)"
proof -
  have "hevc_nalu_type rtp 12 \<noteq> 49" using assms(2) by (auto simp: hevc_iframe_def)
  moreover have "12 < len \<Longrightarrow> byte_at rtp 12 = Some (rtp ! 12)" using assms(3) by (simp add: byte_at_def)
  moreover have "78 < len \<Longrightarrow> block_at rtp 14 16 = Some (take 16 (drop 14 rtp))" using assms(3) by (simp add: block_at_def)
  moreover have "78 < len \<Longrightarrow> xor_region g iv 78 (int len - 78) rtp = Some (zuc_region g iv 78 (len - 78) rtp)" for iv
    using assms(3) by (subst xor_region_ok) (simp_all add: nat_diff_distrib')
  ultimately show ?thesis using assms
    by (auto simp: process_rtp_packet_def plain_header_len hevc_nalu_type_def SKIP_PAYLOAD_PREFIX_def Let_def)
qed

lemma zuc_region_xor:
  assumes "from + n \<le> length rtp"
  shows "zuc_region g iv from n rtp
    = blit from (xor_bytes (take n (drop from rtp)) (snd (zuc256_keystream (zuc_start g_session_key g iv) n))) rtp"
  using assms by (simp add: zuc_region_start zuc256_crypt_stream)

section \<open>Properties\<close>

text \<open>
  C3. An I frame sent as a single unit behind a plain header survives the video path: what the sender
  makes of the packet, the receiver turns back into the original buffer, whatever the stack slots of
  the two cipher contexts held.
\<close>

theorem video_path_roundtrip:
  assumes "zuc_shape g" "zuc_shape g'" "len \<le> length rtp"
    and "plain_header rtp" "hevc_iframe (hevc_nalu_type rtp 12)"
  shows "\<exists>st' enc. process_rtp_packet g t0 t1 st rtp (int len) = Some (st', enc)
    \<and> snd (decrypt_rtp_packet g' t2 t3 dst enc len) = rtp"
proof -
  obtain st' enc where p: "process_rtp_packet g t0 t1 st rtp (int len) = Some (st', enc)"
    and enc: "enc = (if len \<le> 78 then rtp else zuc_region g (take 16 (drop 14 rtp)) 78 (len - 78) rtp)"
    using process_single [OF assms(4,5,3), of g t0 t1 st] by auto
  have "snd (decrypt_rtp_packet g' t2 t3 dst enc len) = rtp"
    using zuc_region_roundtrip [OF assms(1,2) _ _ assms(3), of 14 78] by (simp add: decrypt_region enc)
  with p show ?thesis by blast
qed

definition sample_idr :: bytes where
  "sample_idr = [0x80] @ replicate 11 0 @ [38, 1] @ replicate 80 7"

theorem video_path_roundtrip_witness:
  "\<exists>st' enc. process_rtp_packet zuc_zero_ctx 0 0 client_boot sample_idr 94 = Some (st', enc)
    \<and> snd (decrypt_rtp_packet zuc_zero_ctx 0 0 \<lparr>g_dec_delay_sum_tick = 0, g_dec_frame_cnt = 0, dec_console = []\<rparr> enc 94) = sample_idr"
  by (rule video_path_roundtrip [OF zuc_shape_zero zuc_shape_zero, of 94, unfolded of_nat_numeral])
    (simp_all add: sample_idr_def plain_header_def hevc_nalu_type_def hevc_iframe_def nth_append)

text \<open>
  A packet that is not an I frame is sent on unchanged, but the receiver, whose test of the unit type
  is commented out, still XORs it from byte 78 on: the viewer gets the packet that was sent
  only if that key stream is all zero.
\<close>

lemma receiver_alters_other_frames:
  fixes g' :: zuc256_ctx and rtp :: bytes
  assumes "78 < len" "len \<le> length rtp" "plain_header rtp"
    and "hevc_nalu_type rtp 12 \<noteq> 49" "\<not> hevc_iframe (hevc_nalu_type rtp 12)"
  defines "ks \<equiv> snd (zuc256_keystream (zuc_start g_session_key g' (take 16 (drop 14 rtp))) (len - 78))"
  shows "process_rtp_packet g t0 t1 st rtp (int len) = Some (st, rtp)
    \<and> snd (decrypt_rtp_packet g' t2 t3 dst rtp len) = blit 78 (xor_bytes (take (len - 78) (drop 78 rtp)) ks) rtp
    \<and> (snd (decrypt_rtp_packet g' t2 t3 dst rtp len) = rtp \<longleftrightarrow> ks = replicate (len - 78) 0)"
proof -
  let ?m = "take (len - 78) (drop 78 rtp)"
  have d: "snd (decrypt_rtp_packet g' t2 t3 dst rtp len) = blit 78 (xor_bytes ?m ks) rtp"
    using assms(1,2) by (simp add: decrypt_region zuc_region_xor ks_def)
  have l: "length ks = length ?m" "length ?m = len - 78"
    using assms(1,2) by (simp_all add: ks_def zuc.length_stream)
  have "blit 78 ?m rtp = rtp" using assms(1,2) by (intro blit_self) simp
  then have "blit 78 (xor_bytes ?m ks) rtp = rtp \<longleftrightarrow> xor_bytes ?m ks = ?m"
    using assms(1,2) l blit_inj [of 78 rtp "xor_bytes ?m ks" ?m] by simp
  then show ?thesis using d l xor_bytes_fixed [OF l(1)] assms
    by (simp add: process_rtp_packet_def plain_header_len hevc_nalu_type_def byte_at_def)
qed

text \<open>
  A starting fragment of an I frame does not survive: the receiver starts one byte before the first
  encrypted byte (it takes no account of the fragment header), so that byte 78, which was sent in clear,
  comes out XORed with the first byte of a key stream, and the packet is restored only if that byte is zero.
\<close>

lemma receiver_alters_fragments:
  fixes g' :: zuc256_ctx and rtp :: bytes
  assumes "79 < len" "len \<le> length rtp" "plain_header rtp" "hevc_nalu_type rtp 12 = 49"
    and "hevc_iframe (rtp ! 14 AND 0x3F)" "rtp ! 14 AND 0x80 \<noteq> 0"
  defines "ks \<equiv> snd (zuc256_keystream (zuc_start g_session_key g' (take 16 (drop 14 rtp))) (len - 78))"
  shows "\<exists>st' enc. process_rtp_packet g t0 t1 st rtp (int len) = Some (st', enc) \<and> enc ! 78 = rtp ! 78
    \<and> snd (decrypt_rtp_packet g' t2 t3 dst enc len) ! 78 = rtp ! 78 XOR ks ! 0"
proof -
  let ?enc = "zuc_region g (take 16 (drop 15 rtp)) 79 (len - 79) rtp"
  have "byte_at rtp 14 = Some (rtp ! 14)" "block_at rtp 15 16 = Some (take 16 (drop 15 rtp))"
    "xor_region g iv 79 (int len - 79) rtp = Some (zuc_region g iv 79 (len - 79) rtp)" for iv
    using assms(1,2) by (simp_all add: byte_at_def block_at_def xor_region_ok nat_diff_distrib')
  then have "map_option snd (process_fu g t0 t1 st rtp 12 (int len - 12)) = Some ?enc"
    using assms(1,2,5,6) by (auto simp: process_fu_def fu_skip_min Let_def)
  then obtain st' where p: "process_rtp_packet g t0 t1 st rtp (int len) = Some (st', ?enc)"
    using assms(1-4) by (auto simp: process_rtp_packet_def plain_header_len hevc_nalu_type_def byte_at_def)
  have f: "length ?enc = length rtp" "take 79 ?enc = take 79 rtp"
    using assms(1,2) by (simp_all add: zuc_region_frame)
  then have e: "?enc ! 78 = rtp ! 78" using nth_take [of 78 79 ?enc] nth_take [of 78 79 rtp] by simp
  have "take 16 (drop 14 ?enc) = take 16 (drop 14 rtp)"
    using f(2) zuc_region_iv [of 14 79 ?enc] zuc_region_iv [of 14 79 rtp] by simp
  then have "snd (decrypt_rtp_packet g' t2 t3 dst ?enc len) = blit 78 (xor_bytes (take (len - 78) (drop 78 ?enc)) ks) ?enc"
    using assms(1,2) f(1) by (simp add: decrypt_region zuc_region_xor ks_def)
  then have "snd (decrypt_rtp_packet g' t2 t3 dst ?enc len) ! 78 = rtp ! 78 XOR ks ! 0"
    using assms(1,2) f(1) e by (simp add: blit_nth xor_bytes_def ks_def zuc.length_stream)
  with p e show ?thesis by blast
qed

end
