(* ===== verification/Rtp_Fu.thy ===== *)
theory Rtp_Fu
  imports Rtp_Client
begin

text \<open>
  The UDP forwarder of \<open>applications/rtsp.c\<close>: RTP parsing and the reassembly of fragmented HEVC units in
  a pool of eight growing buffers, one per RTP timestamp.  A buffer's \<open>data\<close> is \<open>None\<close> for the null
  pointer, otherwise the allocated block.  The allocator is an argument: \<open>mem n\<close> says whether a request
  of \<open>n\<close> bytes succeeds, \<open>junk\<close> is the content of fresh memory.  \<open>size_t\<close> has 32 bits, so that doubling the
  capacity is written out modulo \<open>2 ^ 32\<close>, and the doubling loop may not end: then the result is \<open>None\<close>.
  The pool refines a partial map from timestamps to the bytes collected so far (\<open>fu_abs\<close>).
\<close>

section \<open>Buffers\<close>

record FuBuffer =
  fb_active :: bool
  fb_timestamp :: u32
  fb_data :: "bytes option"
  fb_size :: nat
  fb_capacity :: nat

definition MAX_FU_BUFFERS :: nat where
  "MAX_FU_BUFFERS = 8"

definition fu_buffer_reset :: "FuBuffer \<Rightarrow> FuBuffer" where
  "fu_buffer_reset buf = buf\<lparr>fb_data := None, fb_size := 0, fb_capacity := 0, fb_active := False, fb_timestamp := 0\<rparr>"

partial_function (option) fu_grow :: "nat \<Rightarrow> nat \<Rightarrow> nat option" where
  "fu_grow need new_cap = (if new_cap < need then fu_grow need (new_cap * 2 mod 2 ^ 32) else Some new_cap)"

definition fu_buffer_reserve :: "(nat \<Rightarrow> bool) \<Rightarrow> u8 \<Rightarrow> FuBuffer \<Rightarrow> nat \<Rightarrow> (bool \<times> FuBuffer) option" where
  "fu_buffer_reserve mem junk buf need =
     (if fb_capacity buf \<ge> need then Some (True, buf)
      else case fu_grow need (if fb_capacity buf \<noteq> 0 then fb_capacity buf * 2 mod 2 ^ 32 else 2048) of
             None \<Rightarrow> None
           | Some new_cap \<Rightarrow>
               if \<not> mem new_cap then Some (False, buf)
               else let old = (case fb_data buf of None \<Rightarrow> [] | Some d \<Rightarrow> d)
                    in Some (True, buf\<lparr>fb_data := Some (take new_cap old @ replicate (new_cap - length old) junk),
                         fb_capacity := new_cap\<rparr>))"

definition fu_find :: "FuBuffer list \<Rightarrow> u32 \<Rightarrow> nat option" where
  "fu_find pool ts = find (\<lambda>i. fb_active (pool ! i) \<and> fb_timestamp (pool ! i) = ts) [0..<MAX_FU_BUFFERS]"

definition fu_free :: "FuBuffer list \<Rightarrow> nat option" where
  "fu_free pool = find (\<lambda>i. \<not> fb_active (pool ! i)) [0..<MAX_FU_BUFFERS]"

definition fu_buffer_get :: "FuBuffer list \<Rightarrow> u32 \<Rightarrow> bool \<Rightarrow> FuBuffer list \<times> nat option" where
  "fu_buffer_get pool ts create_if_missing =
     (case fu_find pool ts of
        Some i \<Rightarrow> (pool, Some i)
      | None \<Rightarrow>
          if \<not> create_if_missing then (pool, None)
          else case fu_free pool of
                 Some i \<Rightarrow> (pool[i := \<lparr>fb_active = True, fb_timestamp = ts, fb_data = None, fb_size = 0, fb_capacity = 0\<rparr>], Some i)
               | None \<Rightarrow> (pool[0 := (fu_buffer_reset (pool ! 0))\<lparr>fb_active := True, fb_timestamp := ts\<rparr>], Some 0))"

section \<open>Packets\<close>

record RtpHeader =
  h_seq :: u16
  h_timestamp :: u32
  h_ssrc :: u32
  h_marker :: u8

definition parse_rtp :: "bytes \<Rightarrow> (RtpHeader \<times> bytes) option" where
  "parse_rtp packet =
     (if length packet < 12 then None
      else Some (\<lparr>h_seq = push_bit 8 (ucast (packet ! 2)) OR ucast (packet ! 3),
                  h_timestamp = get_be32 packet 4, h_ssrc = get_be32 packet 8,
                  h_marker = drop_bit 7 (packet ! 1) AND 0x1\<rparr>, drop 12 packet))"

text \<open>\<open>memcpy(buf->data + buf->size, xs, n); buf->size += n;\<close>\<close>

definition fu_append :: "bytes \<Rightarrow> FuBuffer \<Rightarrow> FuBuffer" where
  "fu_append xs buf = buf\<lparr>fb_data := map_option (blit (fb_size buf) xs) (fb_data buf), fb_size := fb_size buf + length xs\<rparr>"

definition orig_hdr :: "u16 \<Rightarrow> u8 \<Rightarrow> u16" where
  "orig_hdr payload_hdr orig_type =
     (let f = drop_bit 15 payload_hdr AND 0x01;
          layer_id = drop_bit 3 payload_hdr AND 0x3F;
          tid = payload_hdr AND 0x07
      in push_bit 15 f OR push_bit 9 (ucast orig_type) OR push_bit 3 layer_id OR tid)"

text \<open>The start code and unit header that a starting fragment writes.\<close>

definition fu_begin :: "(nat \<Rightarrow> bool) \<Rightarrow> u8 \<Rightarrow> u16 \<Rightarrow> u8 \<Rightarrow> bool \<Rightarrow> FuBuffer \<Rightarrow> (bool \<times> FuBuffer) option" where
  "fu_begin mem junk payload_hdr orig_type is_start buf =
     (if is_start then
        let buf = buf\<lparr>fb_size := 0\<rparr>; h = orig_hdr payload_hdr orig_type in
        (case fu_buffer_reserve mem junk buf (fb_size buf + 6) of
           None \<Rightarrow> None
         | Some (ok, buf) \<Rightarrow>
             if \<not> ok then Some (False, buf)
             else Some (True, fu_append [0x00, 0x00, 0x00, 0x01, ucast (drop_bit 8 h AND 0xFF), ucast (h AND 0xFF)] buf))
      else if \<not> fb_active buf then Some (False, buf)
      else Some (True, buf))"

definition fu_process ::
  "(nat \<Rightarrow> bool) \<Rightarrow> u8 \<Rightarrow> bytes \<Rightarrow> u32 \<Rightarrow> FuBuffer list \<Rightarrow> (FuBuffer list \<times> bytes option) option" where
  "fu_process mem junk payload ts pool =
     (if length payload < 3 then Some (pool, None)
      else
        let payload_hdr = push_bit 8 (ucast (payload ! 0)) OR ucast (payload ! 1) :: u16;
            nalu_type = drop_bit 9 payload_hdr AND 0x3F
        in if nalu_type \<noteq> 49 then Some (pool, None)
        else
          let fu_header = payload ! 2;
              is_start = (fu_header AND 0x80 \<noteq> 0);
              is_end = (fu_header AND 0x40 \<noteq> 0);
              orig_type = fu_header AND 0x3F
          in case fu_buffer_get pool ts is_start of
               (pool, None) \<Rightarrow> Some (pool, None)
             | (pool, Some i) \<Rightarrow>
                 (case fu_begin mem junk payload_hdr orig_type is_start (pool ! i) of
                    None \<Rightarrow> None
                  | Some (ok, buf) \<Rightarrow>
                      if \<not> ok then Some (pool[i := buf], None)
                      else (case fu_buffer_reserve mem junk buf (fb_size buf + (length payload - 3)) of
                              None \<Rightarrow> None
                            | Some (ok, buf) \<Rightarrow>
                                if \<not> ok then Some (pool[i := buf], None)
                                else let buf = fu_append (drop 3 payload) buf in
                                  if \<not> is_end then Some (pool[i := buf], None)
                                  else Some (pool[i := fu_buffer_reset buf],
                                         if mem (fb_size buf)
                                         then Some (take (fb_size buf) (case fb_data buf of None \<Rightarrow> [] | Some d \<Rightarrow> d))
                                         else None))))"

section \<open>The forwarder\<close>

text \<open>\<open>None\<close> in \<open>fw_file\<close> is the null \<open>FILE\<close> pointer; the log has the packet number and size of the two lines
  printed for every hundredth packet.\<close>

record fwd_loop =
  fw_count :: u32
  fw_pool :: "FuBuffer list"
  fw_sent :: "bytes list"
  fw_file :: "bytes option"
  fw_log :: "(u32 \<times> nat) list"

definition WRITE_OUTPUT :: bool where
  "WRITE_OUTPUT = False"

definition LOG_EVERY :: u32 where
  "LOG_EVERY = 100"

definition BUFFER_SIZE :: nat where
  "BUFFER_SIZE = 65535"

definition write_nalu :: "bytes \<Rightarrow> fwd_loop \<Rightarrow> fwd_loop" where
  "write_nalu nalu lp = lp\<lparr>fw_file := map_option (\<lambda>f. f @ nalu) (fw_file lp)\<rparr>"

definition dump_packet :: "(nat \<Rightarrow> bool) \<Rightarrow> u8 \<Rightarrow> bytes \<Rightarrow> fwd_loop \<Rightarrow> fwd_loop option" where
  "dump_packet mem junk packet lp =
     (case parse_rtp packet of
        None \<Rightarrow> Some lp
      | Some (rtp, payload) \<Rightarrow>
          if payload = [] then Some lp
          else let nalu_type = drop_bit 1 (payload ! 0) AND 0x3F in
            if nalu_type = 49 then
              (case fu_process mem junk payload (h_timestamp rtp) (fw_pool lp) of
                 None \<Rightarrow> None
               | Some (pool, nalu) \<Rightarrow>
                   let lp = lp\<lparr>fw_pool := pool\<rparr>
                   in Some (case nalu of None \<Rightarrow> lp | Some d \<Rightarrow> write_nalu d lp))
            else Some (if mem (length payload + 4) then write_nalu ([0x00, 0x00, 0x00, 0x01] @ payload) lp else lp))"

definition rtp_client_step :: "(nat \<Rightarrow> bool) \<Rightarrow> u8 \<Rightarrow> bytes option \<Rightarrow> fwd_loop \<Rightarrow> fwd_loop option" where
  "rtp_client_step mem junk received lp =
     (case received of
        None \<Rightarrow> Some lp
      | Some d \<Rightarrow>
          let packet = take BUFFER_SIZE d; got = length packet in
          if got = 0 then Some lp
          else let pkt_count = fw_count lp + 1;
                   lp = lp\<lparr>fw_count := pkt_count, fw_sent := fw_sent lp @ [packet],
                     fw_log := fw_log lp @ (if pkt_count mod LOG_EVERY = 0 then [(pkt_count, got)] else [])\<rparr>
               in if WRITE_OUTPUT \<and> fw_file lp \<noteq> None then dump_packet mem junk packet lp else Some lp)"

fun rtp_client_packets :: "(nat \<Rightarrow> bool) \<Rightarrow> u8 \<Rightarrow> bytes option list \<Rightarrow> fwd_loop \<Rightarrow> fwd_loop option" where
  "rtp_client_packets mem junk [] lp = Some lp"
| "rtp_client_packets mem junk (r # rs) lp =
     (case rtp_client_step mem junk r lp of None \<Rightarrow> None | Some lp \<Rightarrow> rtp_client_packets mem junk rs lp)"

text \<open>\<open>setup_socket\<close> on the results of \<open>socket\<close> and \<open>bind\<close>.\<close>

definition setup_socket :: "int \<Rightarrow> int \<Rightarrow> bool \<Rightarrow> bool \<times> int" where
  "setup_socket sock bnd bind_socket =
     (if sock = -1 then (False, sock)
      else if bind_socket \<and> bnd \<noteq> 0 then (False, sock)
      else (True, sock))"

definition fu_pool_boot :: "FuBuffer list" where
  "fu_pool_boot = replicate MAX_FU_BUFFERS
     \<lparr>fb_active = False, fb_timestamp = 0, fb_data = None, fb_size = 0, fb_capacity = 0\<rparr>"

text \<open>The sockets closed on return, and the state of the packet loop when it is reached.\<close>

definition rtp_client_loop ::
  "(nat \<Rightarrow> bool) \<Rightarrow> u8 \<Rightarrow> int \<Rightarrow> int \<Rightarrow> int \<Rightarrow> bool \<Rightarrow> bytes option list \<Rightarrow> int list \<times> fwd_loop option" where
  "rtp_client_loop mem junk sock1 bnd1 sock2 resolved rs =
     (let (ok, recv_sock) = setup_socket sock1 bnd1 True in
      if \<not> ok then ([], None)
      else let (ok, forward_sock) = setup_socket sock2 0 False in
        if \<not> ok then ([recv_sock], None)
        else if \<not> resolved then ([recv_sock, forward_sock], None)
        else ([], rtp_client_packets mem junk rs
               \<lparr>fw_count = 0, fw_pool = fu_pool_boot, fw_sent = [], fw_file = None, fw_log = []\<rparr>))"

record rtp_cfg =
  listen_ip :: string
  listen_port :: u16
  forward_ip :: string
  forward_port :: u16

text \<open>\<open>atoi\<close>: white space, an optional sign, digits.\<close>

definition atoi :: "string \<Rightarrow> int" where
  "atoi s =
     (let s = dropWhile c_isspace s;
          neg = (s \<noteq> [] \<and> hd s = CHR ''-'');
          s = (if s \<noteq> [] \<and> (hd s = CHR ''-'' \<or> hd s = CHR ''+'') then tl s else s);
          v = foldl (\<lambda>a c. 10 * a + (of_char c - 48)) 0 (takeWhile c_isdigit s) :: int
      in if neg then - v else v)"

text \<open>\<open>rt_snprintf(field, 32, "%s", s)\<close>\<close>

definition set_ip :: "string \<Rightarrow> string" where
  "set_ip s = take 31 s"

text \<open>
  \<open>rtp_client_start\<close> on the results of \<open>rt_malloc\<close> and \<open>rt_thread_create\<close>: the value returned, and the
  configuration a started thread copies (\<open>rtp_client_thread\<close>) before it enters the loop.
\<close>

definition rtp_client_start :: "bool \<Rightarrow> bool \<Rightarrow> string list \<Rightarrow> int \<times> rtp_cfg option" where
  "rtp_client_start malloc_ok thread_ok argv =
     (if \<not> malloc_ok then (-1, None)
      else let cfg = \<lparr>listen_ip = set_ip ''10.25.9.198'', listen_port = 5008,
                      forward_ip = set_ip ''10.25.9.113'', forward_port = 5006\<rparr>;
               cfg = (if length argv \<ge> 3 then cfg\<lparr>forward_ip := set_ip (argv ! 1), forward_port := of_int (atoi (argv ! 2))\<rparr> else cfg);
               cfg = (if length argv \<ge> 5 then cfg\<lparr>listen_ip := set_ip (argv ! 3), listen_port := of_int (atoi (argv ! 4))\<rparr> else cfg)
           in if thread_ok then (0, Some cfg) else (-1, None))"

section \<open>Growing\<close>

lemma fu_grow_ok:
  assumes "0 < c" "c < 2 ^ 32" "need \<le> 2 ^ 31"
  shows "\<exists>c'. fu_grow need c = Some c' \<and> need \<le> c' \<and> c \<le> c' \<and> c' < 2 ^ 32 \<and> (c' = c \<or> c' < 2 * need)"
  using assms
proof (induction "need - c" arbitrary: c rule: less_induct)
  case less
  show ?case
  proof (cases "c < need")
    case True
    then have m: "c * 2 mod 2 ^ 32 = c * 2" using less.prems by simp
    have "need - c * 2 < need - c" using True less.prems by simp
    from less.hyps [OF this] obtain c' where "fu_grow need (c * 2) = Some c'" "need \<le> c'" "c * 2 \<le> c'"
      "c' < 2 ^ 32" "c' = c * 2 \<or> c' < 2 * need"
      using less.prems True by auto
    then show ?thesis using True by (subst fu_grow.simps) (auto simp: m)
  qed (use less.prems in \<open>auto simp: fu_grow.simps\<close>)
qed

lemma fu_grow_zero:
  assumes "0 < need"
  shows "fu_grow need 0 = None"
proof (rule ccontr)
  assume "fu_grow need 0 \<noteq> None"
  then obtain c where ret: "fu_grow need 0 = Some c" by blast
  let ?P = "\<lambda>n (c :: nat) (r :: nat). \<not> (n = need \<and> c = 0)"
  have "?P need 0 c"
  proof (rule fu_grow.raw_induct [of ?P, OF _ ret])
    fix f n c r
    assume IH: "\<And>n c r. f n c = Some r \<Longrightarrow> ?P n c r"
      and eq: "(if c < n then f n (c * 2 mod 2 ^ 32) else Some c) = Some r"
    show "?P n c r" using IH [of n 0 r] eq assms by (cases "c = 0") auto
  qed
  then show False by simp
qed

lemma fu_grow_wraps:
  assumes "2 ^ 31 < need" "k \<le> 31"
  shows "fu_grow need (2 ^ (31 - k)) = None"
  using assms(2)
proof (induction k)
  case 0
  then show ?case using assms(1) fu_grow_zero [of need] by (subst fu_grow.simps) simp
next
  case (Suc k)
  have e: "(2::nat) ^ (31 - Suc k) * 2 = 2 ^ (31 - k)" using Suc.prems
    by (metis Suc_diff_Suc Suc_le_lessD power_Suc2)
  have "(2::nat) ^ (31 - k) \<le> 2 ^ 31" by (rule power_increasing) simp_all
  then have "(2::nat) ^ (31 - Suc k) * 2 mod 2 ^ 32 = 2 ^ (31 - k)" "(2::nat) ^ (31 - Suc k) < need"
    unfolding e using assms(1) e by simp_all
  then show ?case using Suc by (subst fu_grow.simps) simp
qed

section \<open>The pool invariant\<close>

text \<open>
  The block of a buffer has the recorded capacity and holds the recorded size, an idle buffer owns no
  memory (so that taking it over leaks none), and no two active buffers have the same timestamp.
\<close>

definition fu_ok :: "FuBuffer \<Rightarrow> bool" where
  "fu_ok buf \<longleftrightarrow> fb_size buf \<le> fb_capacity buf \<and> fb_capacity buf < 2 ^ 32
     \<and> (case fb_data buf of None \<Rightarrow> fb_capacity buf = 0 | Some d \<Rightarrow> length d = fb_capacity buf)
     \<and> (fb_active buf \<or> fb_data buf = None)"

definition fu_pool_ok :: "FuBuffer list \<Rightarrow> bool" where
  "fu_pool_ok pool \<longleftrightarrow> length pool = 8 \<and> (\<forall>i < 8. fu_ok (pool ! i))
     \<and> (\<forall>i < 8. \<forall>j < 8. fb_active (pool ! i) \<and> fb_active (pool ! j)
          \<and> fb_timestamp (pool ! i) = fb_timestamp (pool ! j) \<longrightarrow> i = j)"

definition fu_bytes :: "FuBuffer \<Rightarrow> bytes" where
  "fu_bytes buf = take (fb_size buf) (case fb_data buf of None \<Rightarrow> [] | Some d \<Rightarrow> d)"

definition fu_abs :: "FuBuffer list \<Rightarrow> u32 \<Rightarrow> bytes option" where
  "fu_abs pool ts = map_option (\<lambda>i. fu_bytes (pool ! i)) (fu_find pool ts)"

lemma fu_ok_reset [simp]: "fu_ok (fu_buffer_reset buf)"
  by (simp add: fu_ok_def fu_buffer_reset_def)

lemma fu_ok_fresh [simp]:
  "fu_ok \<lparr>fb_active = a, fb_timestamp = ts, fb_data = None, fb_size = 0, fb_capacity = 0\<rparr>"
  "fu_bytes \<lparr>fb_active = a, fb_timestamp = ts, fb_data = None, fb_size = 0, fb_capacity = 0\<rparr> = []"
  by (simp_all add: fu_ok_def fu_bytes_def)

lemma fu_pool_boot_ok: "fu_pool_ok fu_pool_boot"
  by (simp add: fu_pool_ok_def fu_pool_boot_def MAX_FU_BUFFERS_def)

lemma fu_reserve_ok:
  assumes "fu_ok buf" "fb_active buf" "need \<le> 2 ^ 31"
  shows "\<exists>ok buf'. fu_buffer_reserve mem junk buf need = Some (ok, buf') \<and> fu_ok buf' \<and> fb_active buf'
    \<and> fb_timestamp buf' = fb_timestamp buf \<and> fb_size buf' = fb_size buf \<and> fu_bytes buf' = fu_bytes buf
    \<and> (ok \<longrightarrow> need \<le> fb_capacity buf') \<and> ((\<forall>n. mem n) \<longrightarrow> ok)"
proof (cases "fb_capacity buf \<ge> need")
  case False
  let ?c = "if fb_capacity buf \<noteq> 0 then fb_capacity buf * 2 mod 2 ^ 32 else 2048"
  have c: "fb_capacity buf * 2 mod 2 ^ 32 = fb_capacity buf * 2" using False assms(3) by simp
  have "0 < ?c" "?c < 2 ^ 32" "fb_capacity buf \<le> ?c" unfolding c using False assms(3) by auto
  then obtain c' where c': "fu_grow need ?c = Some c'" "need \<le> c'" "fb_capacity buf \<le> c'" "c' < 2 ^ 32"
    using fu_grow_ok [of ?c need] assms(3) by fastforce
  have "fb_capacity buf < c'" using c'(2) False by simp
  then show ?thesis using False assms c' unfolding fu_buffer_reserve_def
    by (auto simp: fu_ok_def fu_bytes_def Let_def split: option.splits)
qed (use assms in \<open>auto simp: fu_buffer_reserve_def\<close>)

lemma fu_append_ok:
  assumes "fu_ok buf" "fb_active buf" "fb_size buf + length xs \<le> fb_capacity buf"
  shows "fu_ok (fu_append xs buf)" "fu_bytes (fu_append xs buf) = fu_bytes buf @ xs"
    "fb_active (fu_append xs buf)" "fb_timestamp (fu_append xs buf) = fb_timestamp buf"
    "fb_size (fu_append xs buf) = fb_size buf + length xs"
  using assms by (auto simp: fu_ok_def fu_bytes_def fu_append_def blit_def split: option.splits)

section \<open>The pool as a map\<close>

lemma find_upt: "find P [0..<n] = Some i \<longleftrightarrow> i < n \<and> P i \<and> (\<forall>j < i. \<not> P j)"
  by (auto simp: find_Some_iff)

lemma fu_find_Some:
  "fu_pool_ok pool \<Longrightarrow> fu_find pool ts = Some i \<longleftrightarrow> i < 8 \<and> fb_active (pool ! i) \<and> fb_timestamp (pool ! i) = ts"
  unfolding fu_find_def find_upt fu_pool_ok_def MAX_FU_BUFFERS_def
  by (auto; metis less_trans nat_neq_iff)

lemma fu_free_Some: "fu_free pool = Some i \<Longrightarrow> i < 8 \<and> \<not> fb_active (pool ! i)"
  by (auto simp: fu_free_def find_Some_iff MAX_FU_BUFFERS_def)

lemma fu_free_None: "fu_free pool = None \<Longrightarrow> i < 8 \<Longrightarrow> fb_active (pool ! i)"
  by (auto simp: fu_free_def find_None_iff MAX_FU_BUFFERS_def)

lemma fu_abs_Some:
  "fu_pool_ok pool \<Longrightarrow> fu_abs pool ts = Some x \<longleftrightarrow>
     (\<exists>i < 8. fb_active (pool ! i) \<and> fb_timestamp (pool ! i) = ts \<and> x = fu_bytes (pool ! i))"
  by (auto simp: fu_abs_def fu_find_Some)

lemma option_eqI: "(\<And>x. a = Some x \<longleftrightarrow> b = Some x) \<Longrightarrow> a = b"
  by (metis not_Some_eq)

lemma fu_abs_None:
  assumes "fu_pool_ok pool"
  shows "fu_abs pool ts = None \<longleftrightarrow> (\<forall>i < 8. \<not> (fb_active (pool ! i) \<and> fb_timestamp (pool ! i) = ts))"
  using fu_find_Some [OF assms, of ts] by (cases "fu_find pool ts") (auto simp: fu_abs_def)

lemma fu_pool_put:
  assumes "fu_pool_ok pool" "i < 8" "fu_ok b" "fb_active b"
    and "\<And>j. j < 8 \<Longrightarrow> j \<noteq> i \<Longrightarrow> fb_active (pool ! j) \<Longrightarrow> fb_timestamp (pool ! j) \<noteq> fb_timestamp b"
  shows "fu_pool_ok (pool[i := b])"
    and "fu_abs (pool[i := b])
      = (if fb_active (pool ! i) then (fu_abs pool)(fb_timestamp (pool ! i) := None) else fu_abs pool)
          (fb_timestamp b \<mapsto> fu_bytes b)"
proof -
  have l: "length pool = 8" using assms(1) by (simp add: fu_pool_ok_def)
  show ok: "fu_pool_ok (pool[i := b])"
    using assms by (auto simp: fu_pool_ok_def nth_list_update; metis)
  show "fu_abs (pool[i := b])
      = (if fb_active (pool ! i) then (fu_abs pool)(fb_timestamp (pool ! i) := None) else fu_abs pool)
          (fb_timestamp b \<mapsto> fu_bytes b)"
  proof (rule ext, rule option_eqI)
    fix t x
    have u: "fb_timestamp (pool ! j) \<noteq> fb_timestamp (pool ! i)"
      if "fb_active (pool ! i)" "j < 8" "j \<noteq> i" "fb_active (pool ! j)" for j
      using that assms(1,2) unfolding fu_pool_ok_def by metis
    show "fu_abs (pool[i := b]) t = Some x \<longleftrightarrow>
      ((if fb_active (pool ! i) then (fu_abs pool)(fb_timestamp (pool ! i) := None) else fu_abs pool)
          (fb_timestamp b \<mapsto> fu_bytes b)) t = Some x"
      using assms(2,4,5) l u by (auto simp: fu_abs_Some [OF ok] fu_abs_Some [OF assms(1)] nth_list_update; metis)
  qed
qed

lemma fu_pool_drop:
  assumes "fu_pool_ok pool" "i < 8" "fu_ok b" "\<not> fb_active b" "fb_active (pool ! i)"
  shows "fu_pool_ok (pool[i := b])" and "fu_abs (pool[i := b]) = (fu_abs pool)(fb_timestamp (pool ! i) := None)"
proof -
  have l: "length pool = 8" using assms(1) by (simp add: fu_pool_ok_def)
  show ok: "fu_pool_ok (pool[i := b])"
    using assms by (auto simp: fu_pool_ok_def nth_list_update)
  have u: "fb_timestamp (pool ! j) \<noteq> fb_timestamp (pool ! i)" if "j < 8" "j \<noteq> i" "fb_active (pool ! j)" for j
    using that assms(1,2,5) unfolding fu_pool_ok_def by metis
  show "fu_abs (pool[i := b]) = (fu_abs pool)(fb_timestamp (pool ! i) := None)"
    by (rule ext, rule option_eqI)
      (use assms(2,4) l u in \<open>auto simp: fu_abs_Some [OF ok] fu_abs_Some [OF assms(1)] nth_list_update; metis\<close>)
qed

section \<open>Reassembly against the map\<close>

text \<open>What one fragment does to the map: \<open>hdr\<close> is what a starting fragment puts in front.\<close>

definition fu_step_spec :: "(u32 \<rightharpoonup> bytes) \<Rightarrow> u32 \<Rightarrow> bool \<Rightarrow> bool \<Rightarrow> bytes \<Rightarrow> bytes \<Rightarrow> (u32 \<rightharpoonup> bytes) \<times> bytes option" where
  "fu_step_spec m ts is_start is_end hdr chunk =
     (case (if is_start then Some hdr else m ts) of
        None \<Rightarrow> (m, None)
      | Some acc \<Rightarrow> if is_end then (m(ts := None), Some (acc @ chunk)) else (m(ts \<mapsto> acc @ chunk), None))"

text \<open>A unit that starts while all eight buffers are busy evicts the unit in buffer 0.\<close>

definition fu_evict :: "FuBuffer list \<Rightarrow> u32 \<Rightarrow> bool \<Rightarrow> (u32 \<rightharpoonup> bytes)" where
  "fu_evict pool ts is_start =
     (if is_start \<and> fu_abs pool ts = None \<and> fu_free pool = None
      then (fu_abs pool)(fb_timestamp (pool ! 0) := None) else fu_abs pool)"

definition fu_unit_header :: "bytes \<Rightarrow> bytes" where
  "fu_unit_header payload =
     (let h = orig_hdr (push_bit 8 (ucast (payload ! 0)) OR ucast (payload ! 1)) (payload ! 2 AND 0x3F)
      in [0x00, 0x00, 0x00, 0x01, ucast (drop_bit 8 h AND 0xFF), ucast (h AND 0xFF)])"

lemma fu_size_bytes: "fu_ok buf \<Longrightarrow> length (fu_bytes buf) = fb_size buf"
  by (auto simp: fu_ok_def fu_bytes_def split: option.splits)

lemma fu_get_ok:
  assumes "fu_pool_ok pool" "fu_buffer_get pool ts s = (pool', r)"
  shows "case r of None \<Rightarrow> pool' = pool \<and> fu_abs pool ts = None \<and> \<not> s
    | Some i \<Rightarrow> i < 8 \<and> fu_pool_ok pool' \<and> fb_active (pool' ! i) \<and> fb_timestamp (pool' ! i) = ts
        \<and> (fu_abs pool ts = Some (fu_bytes (pool' ! i)) \<or> fu_abs pool ts = None \<and> s)
        \<and> fu_abs pool' = (fu_evict pool ts s)(ts \<mapsto> fu_bytes (pool' ! i))"
proof (cases "fu_find pool ts")
  case (Some i)
  then have "fu_abs pool ts = Some (fu_bytes (pool ! i))" by (simp add: fu_abs_def)
  moreover have "pool' = pool" "r = Some i" using assms(2) Some by (simp_all add: fu_buffer_get_def)
  moreover have "i < 8 \<and> fb_active (pool ! i) \<and> fb_timestamp (pool ! i) = ts"
    using fu_find_Some [OF assms(1)] Some by simp
  ultimately show ?thesis using assms(1) by (simp add: fu_evict_def fun_upd_idem)
next
  case None
  then have n: "fu_abs pool ts = None" by (simp add: fu_abs_def)
  have l: "length pool = 8" using assms(1) by (simp add: fu_pool_ok_def)
  let ?b = "\<lparr>fb_active = True, fb_timestamp = ts, fb_data = None, fb_size = 0, fb_capacity = 0\<rparr>"
  have put: "fu_pool_ok (pool[i := ?b])" "fu_abs (pool[i := ?b])
      = (if fb_active (pool ! i) then (fu_abs pool)(fb_timestamp (pool ! i) := None) else fu_abs pool)(ts \<mapsto> [])"
    if "i < 8" for i
    using fu_pool_put [OF assms(1) that, of ?b] n by (simp_all add: fu_abs_None [OF assms(1)])
  have r: "(fu_buffer_reset (pool ! 0))\<lparr>fb_active := True, fb_timestamp := ts\<rparr> = ?b"
    by (simp add: fu_buffer_reset_def)
  define i where "i = (case fu_free pool of Some i \<Rightarrow> i | None \<Rightarrow> 0)"
  have i: "i < 8" "fb_active (pool ! i) \<longleftrightarrow> fu_free pool = None" "fu_free pool = None \<Longrightarrow> i = 0"
    using fu_free_Some [of pool] fu_free_None [of pool 0] by (cases "fu_free pool"; simp add: i_def)+
  have g: "pool' = (if s then pool[i := ?b] else pool)" "r = (if s then Some i else None)"
    using assms(2) None r by (auto simp: fu_buffer_get_def i_def split: option.splits if_splits)
  have "pool[i := ?b] ! i = ?b" using l i(1) by simp
  then show ?thesis using g n i put [OF i(1)] by (auto simp: fu_evict_def simp del: fun_upd_apply)
qed

lemma fu_begin_ok:
  assumes "fu_ok buf" "fb_active buf" "\<forall>n. mem n"
  shows "\<exists>buf'. fu_begin mem junk h t s buf = Some (True, buf') \<and> fu_ok buf' \<and> fb_active buf'
    \<and> fb_timestamp buf' = fb_timestamp buf
    \<and> fu_bytes buf' = (if s then [0x00, 0x00, 0x00, 0x01, ucast (drop_bit 8 (orig_hdr h t) AND 0xFF), ucast (orig_hdr h t AND 0xFF)]
        else fu_bytes buf)"
proof (cases s)
  case True
  have "fu_ok (buf\<lparr>fb_size := 0\<rparr>)" "fu_bytes (buf\<lparr>fb_size := 0\<rparr>) = []"
    using assms(1) by (auto simp: fu_ok_def fu_bytes_def split: option.splits)
  moreover from this obtain buf' where "fu_buffer_reserve mem junk (buf\<lparr>fb_size := 0\<rparr>) 6 = Some (True, buf')" "fu_ok buf'"
    "fb_active buf'" "fb_timestamp buf' = fb_timestamp buf" "fb_size buf' = 0" "fu_bytes buf' = []" "6 \<le> fb_capacity buf'"
    using fu_reserve_ok [of "buf\<lparr>fb_size := 0\<rparr>" 6 mem junk] assms(2,3) by auto
  ultimately show ?thesis using True by (auto simp: fu_begin_def Let_def fu_append_ok)
qed (use assms in \<open>simp add: fu_begin_def\<close>)

lemma fu_add_ok:
  assumes "fu_ok buf" "fb_active buf" "\<forall>n. mem n" "fb_size buf + length xs \<le> 2 ^ 31"
  shows "\<exists>buf'. fu_buffer_reserve mem junk buf (fb_size buf + length xs) = Some (True, buf') \<and> fu_ok (fu_append xs buf')
    \<and> fb_active (fu_append xs buf') \<and> fb_timestamp (fu_append xs buf') = fb_timestamp buf
    \<and> fu_bytes (fu_append xs buf') = fu_bytes buf @ xs"
proof -
  obtain buf' where b: "fu_buffer_reserve mem junk buf (fb_size buf + length xs) = Some (True, buf')" "fu_ok buf'"
    "fb_active buf'" "fb_timestamp buf' = fb_timestamp buf" "fb_size buf' = fb_size buf" "fu_bytes buf' = fu_bytes buf"
    "fb_size buf + length xs \<le> fb_capacity buf'"
    using fu_reserve_ok [OF assms(1,2,4), of mem junk] assms(3) by auto
  then show ?thesis using fu_append_ok [of buf' xs] by simp
qed

lemma fu_process_step:
  assumes "fu_pool_ok pool" "3 \<le> length payload" "\<forall>n. mem n"
    and "drop_bit 9 (push_bit 8 (ucast (payload ! 0)) OR ucast (payload ! 1) :: u16) AND 0x3F = 49"
    and "is_start \<longleftrightarrow> payload ! 2 AND 0x80 \<noteq> 0" "is_end \<longleftrightarrow> payload ! 2 AND 0x40 \<noteq> 0"
    and "6 + length payload \<le> 2 ^ 31"
      "\<And>acc. fu_abs pool ts = Some acc \<Longrightarrow> length acc + length payload \<le> 2 ^ 31"
  shows "\<exists>pool' out. fu_process mem junk payload ts pool = Some (pool', out) \<and> fu_pool_ok pool'
    \<and> (fu_abs pool', out) = fu_step_spec (fu_evict pool ts is_start) ts is_start is_end (fu_unit_header payload) (drop 3 payload)"
proof -
  obtain pool1 r where get: "fu_buffer_get pool ts is_start = (pool1, r)" by fastforce
  note get_ok = fu_get_ok [OF assms(1) get]
  note defs = fu_process_def Let_def assms(4,5,6) [symmetric]
  show ?thesis
  proof (cases r)
    case None
    then show ?thesis using get_ok get assms(1,2) by (simp add: defs fu_step_spec_def fu_evict_def assms(4))
  next
    case (Some i)
    let ?h = "push_bit 8 (ucast (payload ! 0)) OR ucast (payload ! 1) :: u16" and ?b = "pool1 ! i"
    have i: "i < 8" "fu_pool_ok pool1" "fb_active ?b" "fb_timestamp ?b = ts"
      "fu_abs pool ts = Some (fu_bytes ?b) \<or> fu_abs pool ts = None \<and> is_start"
      "fu_abs pool1 = (fu_evict pool ts is_start)(ts \<mapsto> fu_bytes ?b)"
      using get_ok Some by auto
    have b: "fu_ok ?b" using i(1,2) by (simp add: fu_pool_ok_def)
    obtain b1 where b1: "fu_begin mem junk ?h (payload ! 2 AND 0x3F) is_start ?b = Some (True, b1)" "fu_ok b1" "fb_active b1"
      "fb_timestamp b1 = ts" "fu_bytes b1 = (if is_start then fu_unit_header payload else fu_bytes ?b)"
      using fu_begin_ok [OF b i(3) assms(3), of junk ?h "payload ! 2 AND 0x3F" is_start] i(4)
      by (auto simp: fu_unit_header_def Let_def)
    have "fb_size b1 + length (drop 3 payload) \<le> 2 ^ 31"
      using b1(5) fu_size_bytes [OF b1(2)] assms(7,8) i(5) by (auto simp: fu_unit_header_def Let_def split: if_splits)
    from fu_add_ok [OF b1(2,3) assms(3) this] obtain b2 where
      b2: "fu_buffer_reserve mem junk b1 (fb_size b1 + length (drop 3 payload)) = Some (True, b2)"
      "fu_ok (fu_append (drop 3 payload) b2)" "fb_active (fu_append (drop 3 payload) b2)"
      "fb_timestamp (fu_append (drop 3 payload) b2) = ts"
      "fu_bytes (fu_append (drop 3 payload) b2) = fu_bytes b1 @ drop 3 payload"
      using b1(4) by blast
    have ev: "\<not> is_start \<Longrightarrow> (fu_evict pool ts is_start) ts = Some (fu_bytes ?b)"
      using i(5) by (auto simp: fu_evict_def)
    have u: "j < 8 \<Longrightarrow> j \<noteq> i \<Longrightarrow> fb_active (pool1 ! j) \<Longrightarrow> fb_timestamp (pool1 ! j) \<noteq> ts" for j
      using i(1-4) unfolding fu_pool_ok_def by metis
    note put = fu_pool_put [OF i(2,1) b2(2,3), unfolded b2(4), OF u]
    note dr = fu_pool_drop [OF i(2,1) fu_ok_reset _ i(3)]
    show ?thesis
      using get Some b1(1) b2 put dr i(3,4,6) assms(2,3) ev b1(5)
      by (cases is_end) (auto simp: defs assms(4) fu_step_spec_def fu_buffer_reset_def fu_bytes_def)
  qed
qed

section \<open>Fragmentation\<close>

text \<open>
  The fragmentation of RFC 7798: the payload header is the unit header with its type replaced by 49, the
  fragment header has the start bit, the end bit and the type.
\<close>

definition fu_hdr :: "u8 \<Rightarrow> bool \<Rightarrow> bool \<Rightarrow> u8" where
  "fu_hdr h0 s e = (if s then 0x80 else 0) OR (if e then 0x40 else 0) OR (drop_bit 1 h0 AND 0x3F)"

definition fu_fragment :: "u8 \<Rightarrow> u8 \<Rightarrow> bool \<Rightarrow> bool \<Rightarrow> bytes \<Rightarrow> bytes" where
  "fu_fragment h0 h1 s e chunk =
     [h0 AND 0x81 OR 98, h1, fu_hdr h0 s e] @ chunk"

definition fu_fragments :: "u8 \<Rightarrow> u8 \<Rightarrow> bytes \<Rightarrow> bytes list \<Rightarrow> bytes \<Rightarrow> bytes list" where
  "fu_fragments h0 h1 first mids final =
     fu_fragment h0 h1 True False first # map (fu_fragment h0 h1 False False) mids @ [fu_fragment h0 h1 False True final]"

fun fu_run :: "(nat \<Rightarrow> bool) \<Rightarrow> u8 \<Rightarrow> u32 \<Rightarrow> bytes list \<Rightarrow> FuBuffer list \<Rightarrow> (FuBuffer list \<times> bytes list) option" where
  "fu_run mem junk ts [] pool = Some (pool, [])"
| "fu_run mem junk ts (p # ps) pool =
     (case fu_process mem junk p ts pool of
        None \<Rightarrow> None
      | Some (pool, out) \<Rightarrow>
          map_option (\<lambda>(pool, units). (pool, (case out of None \<Rightarrow> [] | Some u \<Rightarrow> [u]) @ units)) (fu_run mem junk ts ps pool))"

lemma fragment_type_49:
  "drop_bit 9 (push_bit 8 (ucast (h0 AND 0x81 OR 98 :: u8)) OR ucast (h1 :: u8) :: u16) AND 0x3F = 49"
  by (rule u16_eqI) (simp_all add: bit_simps no_bit8)

lemma orig_hdr_fragment:
  "orig_hdr (push_bit 8 (ucast (h0 AND 0x81 OR 98 :: u8)) OR ucast (h1 :: u8)) (drop_bit 1 h0 AND 0x3F)
   = push_bit 8 (ucast h0) OR ucast h1"
  unfolding orig_hdr_def Let_def
  by (rule u16_eqI, simp_all add: bit_simps no_bit8) (simp_all add: numeral_2_eq_2 numeral_3_eq_3)

lemma split_u16:
  "ucast (drop_bit 8 (push_bit 8 (ucast h0) OR ucast (h1 :: u8) :: u16) AND 0xFF) = (h0 :: u8)"
  "ucast ((push_bit 8 (ucast (h0 :: u8)) OR ucast (h1 :: u8) :: u16) AND 0xFF) = h1"
  by (rule u8_eqI; simp add: bit_simps no_bit8)+

lemma fragment_header:
  "fu_hdr h0 s e AND 0x3F = drop_bit 1 h0 AND 0x3F"
  "fu_hdr h0 s e AND 0x80 \<noteq> 0 \<longleftrightarrow> s" "fu_hdr h0 s e AND 0x40 \<noteq> 0 \<longleftrightarrow> e"
proof -
  show "fu_hdr h0 s e AND 0x3F = drop_bit 1 h0 AND 0x3F"
    unfolding fu_hdr_def by (rule u8_eqI) (simp_all add: bit_simps no_bit8)
  show "fu_hdr h0 s e AND 0x80 \<noteq> 0 \<longleftrightarrow> s"
    using and_exp_eq_0_iff_not_bit [of "fu_hdr h0 s e" 7] by (simp add: fu_hdr_def bit_simps)
  show "fu_hdr h0 s e AND 0x40 \<noteq> 0 \<longleftrightarrow> e"
    using and_exp_eq_0_iff_not_bit [of "fu_hdr h0 s e" 6] by (simp add: fu_hdr_def bit_simps)
qed

lemma fu_fragment_nth:
  "fu_fragment h0 h1 s e chunk ! 0 = h0 AND 0x81 OR 98" "fu_fragment h0 h1 s e chunk ! 1 = h1"
  "fu_fragment h0 h1 s e chunk ! 2 = fu_hdr h0 s e" "length (fu_fragment h0 h1 s e chunk) = 3 + length chunk"
  "drop 3 (fu_fragment h0 h1 s e chunk) = chunk"
  by (simp_all add: fu_fragment_def)

lemma fu_unit_header_fragment: "fu_unit_header (fu_fragment h0 h1 s e chunk) = [0, 0, 0, 1, h0, h1]"
  unfolding fu_unit_header_def Let_def fu_fragment_nth fragment_header(1) orig_hdr_fragment split_u16 by (rule refl)

lemma fu_fragment_step:
  assumes "fu_pool_ok pool" "\<forall>n. mem n" "9 + length chunk \<le> 2 ^ 31"
    and "\<And>acc. fu_abs pool ts = Some acc \<Longrightarrow> length acc + 3 + length chunk \<le> 2 ^ 31"
  shows "\<exists>pool' out. fu_process mem junk (fu_fragment h0 h1 s e chunk) ts pool = Some (pool', out) \<and> fu_pool_ok pool'
    \<and> (fu_abs pool', out) = fu_step_spec (fu_evict pool ts s) ts s e [0, 0, 0, 1, h0, h1] chunk"
  by (rule fu_process_step [of pool "fu_fragment h0 h1 s e chunk" mem s e ts junk,
        unfolded fu_fragment_nth fu_unit_header_fragment, OF assms(1) _ assms(2) fragment_type_49
        fragment_header(2,3) [symmetric]])
    (use assms(3,4) in \<open>auto simp: add.assoc\<close>)

lemma fu_continue:
  assumes "fu_pool_ok pool" "\<forall>n. mem n" "fu_abs pool ts = Some acc"
    and "9 + length acc + length (concat mids) + length final \<le> 2 ^ 31"
  shows "\<exists>pool'. fu_run mem junk ts (map (fu_fragment h0 h1 False False) mids @ [fu_fragment h0 h1 False True final]) pool
      = Some (pool', [acc @ concat mids @ final]) \<and> fu_pool_ok pool' \<and> fu_abs pool' = (fu_abs pool)(ts := None)"
  using assms
proof (induction mids arbitrary: pool acc)
  case Nil
  obtain pool1 where "fu_process mem junk (fu_fragment h0 h1 False True final) ts pool = Some (pool1, Some (acc @ final))"
    "fu_pool_ok pool1" "fu_abs pool1 = (fu_abs pool)(ts := None)"
    using fu_fragment_step [of pool mem final ts junk h0 h1 False True] Nil
    by (auto simp: fu_step_spec_def fu_evict_def)
  then show ?case by (simp add: fun_eq_iff)
next
  case (Cons m mids)
  obtain pool1 where p: "fu_process mem junk (fu_fragment h0 h1 False False m) ts pool = Some (pool1, None)"
    "fu_pool_ok pool1" "fu_abs pool1 = (fu_abs pool)(ts \<mapsto> acc @ m)"
    using fu_fragment_step [of pool mem m ts junk h0 h1 False False] Cons.prems
    by (auto simp: fu_step_spec_def fu_evict_def)
  then show ?case using Cons.IH [OF p(2) Cons.prems(2), of "acc @ m"] Cons.prems(4) by (auto simp: fun_eq_iff)
qed

text \<open>
  C4. With memory available, a fragment of a unit (payload type 49) does to the reassembly pool exactly what
  \<open>fu_step_spec\<close> does to a map from timestamps to collected bytes: a starting fragment begins a unit with start
  code and original unit header, evicting the unit in buffer 0 only if all buffers are busy; a continuation extends
  the unit of its timestamp or is ignored; an ending one delivers the unit and frees its buffer.  The pool invariant
  (capacities, no memory in idle buffers, distinct timestamps) is kept.
\<close>

theorem fu_process_refines:
  assumes "fu_pool_ok pool" "3 \<le> length payload" "\<forall>n. mem n"
    and "drop_bit 9 (push_bit 8 (ucast (payload ! 0)) OR ucast (payload ! 1) :: u16) AND 0x3F = 49"
    and "is_start \<longleftrightarrow> payload ! 2 AND 0x80 \<noteq> 0" "is_end \<longleftrightarrow> payload ! 2 AND 0x40 \<noteq> 0"
    and "6 + length payload \<le> 2 ^ 31"
      "\<And>acc. fu_abs pool ts = Some acc \<Longrightarrow> length acc + length payload \<le> 2 ^ 31"
  shows "\<exists>pool' out. fu_process mem junk payload ts pool = Some (pool', out) \<and> fu_pool_ok pool'
    \<and> (fu_abs pool', out) = fu_step_spec (fu_evict pool ts is_start) ts is_start is_end (fu_unit_header payload) (drop 3 payload)"
  using assms by (rule fu_process_step)

lemma fu_pool_boot_empty: "fu_abs fu_pool_boot ts = None"
  unfolding fu_abs_None [OF fu_pool_boot_ok] by (simp add: fu_pool_boot_def MAX_FU_BUFFERS_def)

theorem fu_process_refines_witness:
  "\<exists>pool'. fu_process (\<lambda>_. True) 0 (fu_fragment 38 1 True False [9, 9]) 7 fu_pool_boot = Some (pool', None)
    \<and> fu_abs pool' 7 = Some [0, 0, 0, 1, 38, 1, 9, 9]"
  using fu_process_refines [of fu_pool_boot "fu_fragment 38 1 True False [9, 9]" "\<lambda>_. True" True False 7 0,
      unfolded fu_fragment_nth fu_unit_header_fragment, OF fu_pool_boot_ok _ _ fragment_type_49
      fragment_header(2,3) [symmetric]]
  by (auto simp: fu_step_spec_def fu_pool_boot_empty)

text \<open>
  C6. A unit fragmented as RFC 7798 says (at least two fragments) is reassembled: processing its
  fragments in order delivers exactly one unit, start code, original header and the bytes of all fragments,
  and leaves no buffer behind for its timestamp.
\<close>

theorem fu_reassembly:
  assumes "fu_pool_ok pool" "\<forall>n. mem n" "15 + length (first @ concat mids @ final) \<le> 2 ^ 31"
    and "fu_abs pool ts = None"
  shows "\<exists>pool'. fu_run mem junk ts (fu_fragments h0 h1 first mids final) pool
      = Some (pool', [[0, 0, 0, 1, h0, h1] @ first @ concat mids @ final])
    \<and> fu_pool_ok pool' \<and> fu_abs pool' ts = None"
proof -
  obtain pool1 where p: "fu_process mem junk (fu_fragment h0 h1 True False first) ts pool = Some (pool1, None)"
    "fu_pool_ok pool1" "fu_abs pool1 ts = Some ([0, 0, 0, 1, h0, h1] @ first)"
    using fu_fragment_step [of pool mem first ts junk h0 h1 True False] assms by (auto simp: fu_step_spec_def)
  from fu_continue [OF p(2) assms(2) p(3), of mids final junk h0 h1] assms(3) p(1)
  show ?thesis by (auto simp: fu_fragments_def)
qed

theorem fu_reassembly_witness:
  "\<exists>pool'. fu_run (\<lambda>_. True) 0 7 (fu_fragments 38 1 [1, 2] [[3], [4]] [5]) fu_pool_boot
     = Some (pool', [[0, 0, 0, 1, 38, 1, 1, 2, 3, 4, 5]])"
  using fu_reassembly [OF fu_pool_boot_ok, of "\<lambda>_. True" "[1, 2]" "[[3], [4]]" "[5]" 7 0 38 1]
  by (auto simp: fu_pool_boot_empty)

text \<open>
  C32. The doubling loop of \<open>fu_buffer_reserve\<close> ends, with a capacity of at least what is needed and less
  than twice that (or the first size tried), for every request up to \<open>2 ^ 31\<close> bytes; for a larger one,
  starting from a power of two as the code does, the 32-bit capacity wraps to zero and the loop never ends.
\<close>

theorem fu_grow_terminates:
  "(0 < c \<and> c < 2 ^ 32 \<and> need \<le> 2 ^ 31 \<longrightarrow>
      (\<exists>c'. fu_grow need c = Some c' \<and> need \<le> c' \<and> c' < 2 ^ 32 \<and> (c' = c \<or> c' < 2 * need)))
   \<and> (2 ^ 31 < need \<and> k \<le> 31 \<longrightarrow> fu_grow need (2 ^ k) = None)"
  using fu_grow_ok [of c need] fu_grow_wraps [of need "31 - k"] by auto

theorem fu_grow_terminates_witness:
  "(\<exists>c'. fu_grow 5000 2048 = Some c' \<and> 5000 \<le> c' \<and> c' < 10000) \<and> fu_grow (2 ^ 31 + 1) (2 ^ 11) = None"
  using fu_grow_terminates [of 2048 5000 0] fu_grow_terminates [of 1 "2 ^ 31 + 1" 11] by auto

text \<open>
  Every non-empty datagram is forwarded unchanged and in order, the packets are counted, and no
  unit is ever reassembled or written: with \<open>WRITE_OUTPUT\<close> zero the pool stays as it was.
\<close>

lemma rtp_client_forwards:
  "\<exists>lp'. rtp_client_packets mem junk rs lp = Some lp'
    \<and> fw_sent lp' = fw_sent lp @ filter (\<lambda>d. d \<noteq> []) (map (take 65535) (List.map_filter id rs))
    \<and> fw_count lp' = fw_count lp + of_nat (length (filter (\<lambda>d. d \<noteq> []) (List.map_filter id rs)))
    \<and> fw_pool lp' = fw_pool lp \<and> fw_file lp' = fw_file lp"
proof (induction rs arbitrary: lp)
  case Nil
  then show ?case by (simp add: map_filter_simps)
next
  case (Cons r rs)
  show ?case
  proof (cases "r = None \<or> r = Some []")
    case True
    then have "rtp_client_step mem junk r lp = Some lp" by (auto simp: rtp_client_step_def)
    then show ?thesis using Cons.IH [of lp] True by (auto simp: map_filter_simps)
  next
    case False
    then obtain d where d: "r = Some d" "d \<noteq> []" by auto
    define lp1 where "lp1 = lp\<lparr>fw_count := fw_count lp + 1, fw_sent := fw_sent lp @ [take BUFFER_SIZE d],
      fw_log := fw_log lp @ (if (fw_count lp + 1) mod LOG_EVERY = 0 then [(fw_count lp + 1, length (take BUFFER_SIZE d))] else [])\<rparr>"
    have "rtp_client_step mem junk r lp = Some lp1"
      using d by (simp add: rtp_client_step_def Let_def WRITE_OUTPUT_def BUFFER_SIZE_def lp1_def)
    moreover obtain lp' where "rtp_client_packets mem junk rs lp1 = Some lp'"
      "fw_sent lp' = fw_sent lp1 @ filter (\<lambda>d. d \<noteq> []) (map (take 65535) (List.map_filter id rs))"
      "fw_count lp' = fw_count lp1 + of_nat (length (filter (\<lambda>d. d \<noteq> []) (List.map_filter id rs)))"
      "fw_pool lp' = fw_pool lp1" "fw_file lp' = fw_file lp1"
      using Cons.IH [of lp1] by blast
    ultimately show ?thesis using d by (intro exI [of _ lp']) (simp add: map_filter_simps lp1_def BUFFER_SIZE_def id_def)
  qed
qed

end
