(* ===== verification/Ring_Buffer.thy ===== *)
theory Ring_Buffer
  imports Prelude
begin

text \<open>
  The byte ring buffer of the kernel's device layer (\<open>ringbuffer.c\<close>, \<open>ringbuffer.h\<close>).  The reader and the writer have an
  index into the pool and a mirror bit each; equal indices mean empty in the same mirror and full in different ones.  The
  locale \<open>byte_fifo\<close> states what a queue of bytes promises, and what follows for sequences of operations; the ring
  buffer is an instance, with the list of the bytes between the two indices as its abstract value.
\<close>

section \<open>The structure\<close>

text \<open>The two indices are bit fields of 15 bits; the size is a positive \<open>rt_int16_t\<close>.\<close>

record rt_ringbuffer =
  buffer_ptr :: bytes
  read_mirror :: bool
  read_index :: nat
  write_mirror :: bool
  write_index :: nat
  buffer_size :: nat

datatype rt_ringbuffer_state = RT_RINGBUFFER_EMPTY | RT_RINGBUFFER_FULL | RT_RINGBUFFER_HALFFULL

definition rt_ringbuffer_status :: "rt_ringbuffer \<Rightarrow> rt_ringbuffer_state" where
  "rt_ringbuffer_status rb =
     (if read_index rb = write_index rb
      then (if read_mirror rb = write_mirror rb then RT_RINGBUFFER_EMPTY else RT_RINGBUFFER_FULL)
      else RT_RINGBUFFER_HALFFULL)"

definition rt_ringbuffer_data_len :: "rt_ringbuffer \<Rightarrow> nat" where
  "rt_ringbuffer_data_len rb =
     (case rt_ringbuffer_status rb of
        RT_RINGBUFFER_EMPTY \<Rightarrow> 0
      | RT_RINGBUFFER_FULL \<Rightarrow> buffer_size rb
      | RT_RINGBUFFER_HALFFULL \<Rightarrow>
          if write_index rb > read_index rb then write_index rb - read_index rb
          else buffer_size rb - (read_index rb - write_index rb))"

definition rt_ringbuffer_space_len :: "rt_ringbuffer \<Rightarrow> nat" where
  "rt_ringbuffer_space_len rb = buffer_size rb - rt_ringbuffer_data_len rb"

definition rt_ringbuffer_get_size :: "rt_ringbuffer \<Rightarrow> nat" where
  "rt_ringbuffer_get_size rb = buffer_size rb"

section \<open>Operations\<close>

text \<open>\<open>RT_ALIGN_DOWN(size, 4)\<close>\<close>

definition align_down :: "nat \<Rightarrow> nat" where
  "align_down n = n - n mod 4"

definition rt_ringbuffer_init :: "bytes \<Rightarrow> nat \<Rightarrow> rt_ringbuffer" where
  "rt_ringbuffer_init pool n = \<lparr>buffer_ptr = pool, read_mirror = False, read_index = 0, write_mirror = False, write_index = 0,
     buffer_size = align_down n\<rparr>"

text \<open>
  The two \<open>memcpy\<close> of a block of \<open>n\<close> bytes at the write index; the result is the new structure and the new index, where
  the block reaches or passes the end of the pool the writer enters the other mirror.
\<close>

definition write_block :: "rt_ringbuffer \<Rightarrow> bytes \<Rightarrow> nat \<Rightarrow> rt_ringbuffer" where
  "write_block rb ptr n =
     (let room = buffer_size rb - write_index rb in
      if room > n
      then rb\<lparr>buffer_ptr := blit (write_index rb) (take n ptr) (buffer_ptr rb), write_index := (write_index rb + n) mod 2 ^ 15\<rparr>
      else rb\<lparr>buffer_ptr := blit 0 (take (n - room) (drop room ptr)) (blit (write_index rb) (take room ptr) (buffer_ptr rb)),
              write_mirror := \<not> write_mirror rb, write_index := (n - room) mod 2 ^ 15\<rparr>)"

text \<open>The length of \<open>put\<close>, \<open>put_force\<close> and \<open>get\<close> is an \<open>rt_uint16_t\<close>: what a caller passes is taken modulo \<open>2 ^ 16\<close>.\<close>

definition rt_ringbuffer_put :: "rt_ringbuffer \<Rightarrow> bytes \<Rightarrow> nat \<Rightarrow> rt_ringbuffer \<times> nat" where
  "rt_ringbuffer_put rb ptr n =
     (let n = n mod 2 ^ 16; size = rt_ringbuffer_space_len rb in
      if size = 0 then (rb, 0)
      else (let n = (if size < n then size else n) in (write_block rb ptr n, n)))"

definition rt_ringbuffer_put_force :: "rt_ringbuffer \<Rightarrow> bytes \<Rightarrow> nat \<Rightarrow> rt_ringbuffer \<times> nat" where
  "rt_ringbuffer_put_force rb ptr n =
     (let n = n mod 2 ^ 16; space = rt_ringbuffer_space_len rb;
          (ptr, n) = (if n > buffer_size rb then (drop (n - buffer_size rb) ptr, buffer_size rb) else (ptr, n));
          rb' = write_block rb ptr n
      in if buffer_size rb - write_index rb > n
         then (if n > space then rb'\<lparr>read_index := write_index rb'\<rparr> else rb', n)
         else (if n > space then rb'\<lparr>read_mirror := \<not> read_mirror rb', read_index := write_index rb'\<rparr> else rb', n))"

definition rt_ringbuffer_get :: "rt_ringbuffer \<Rightarrow> nat \<Rightarrow> rt_ringbuffer \<times> bytes" where
  "rt_ringbuffer_get rb n =
     (let n = n mod 2 ^ 16; size = rt_ringbuffer_data_len rb in
      if size = 0 then (rb, [])
      else (let n = (if size < n then size else n);
                room = buffer_size rb - read_index rb
            in if room > n
               then (rb\<lparr>read_index := (read_index rb + n) mod 2 ^ 15\<rparr>, take n (drop (read_index rb) (buffer_ptr rb)))
               else (rb\<lparr>read_mirror := \<not> read_mirror rb, read_index := (n - room) mod 2 ^ 15\<rparr>,
                     take room (drop (read_index rb) (buffer_ptr rb)) @ take (n - room) (buffer_ptr rb))))"

text \<open>\<open>rt_ringbuffer_peak\<close> gives a pointer into the pool and a length: the bytes there.\<close>

definition rt_ringbuffer_peak :: "rt_ringbuffer \<Rightarrow> rt_ringbuffer \<times> bytes" where
  "rt_ringbuffer_peak rb =
     (let size = rt_ringbuffer_data_len rb in
      if size = 0 then (rb, [])
      else (let ptr = drop (read_index rb) (buffer_ptr rb) in
        if buffer_size rb - read_index rb > size
        then (rb\<lparr>read_index := (read_index rb + size) mod 2 ^ 15\<rparr>, take size ptr)
        else (let size = buffer_size rb - read_index rb
              in (rb\<lparr>read_mirror := \<not> read_mirror rb, read_index := 0\<rparr>, take size ptr))))"

definition rt_ringbuffer_putchar :: "rt_ringbuffer \<Rightarrow> u8 \<Rightarrow> rt_ringbuffer \<times> nat" where
  "rt_ringbuffer_putchar rb ch =
     (if rt_ringbuffer_space_len rb = 0 then (rb, 0)
      else (let rb = rb\<lparr>buffer_ptr := (buffer_ptr rb)[write_index rb := ch]\<rparr>
            in if write_index rb = buffer_size rb - 1
               then (rb\<lparr>write_mirror := \<not> write_mirror rb, write_index := 0\<rparr>, 1)
               else (rb\<lparr>write_index := (write_index rb + 1) mod 2 ^ 15\<rparr>, 1)))"

definition rt_ringbuffer_putchar_force :: "rt_ringbuffer \<Rightarrow> u8 \<Rightarrow> rt_ringbuffer \<times> nat" where
  "rt_ringbuffer_putchar_force rb ch =
     (let old_state = rt_ringbuffer_status rb;
          rb = rb\<lparr>buffer_ptr := (buffer_ptr rb)[write_index rb := ch]\<rparr>
      in if write_index rb = buffer_size rb - 1
         then (let rb = rb\<lparr>write_mirror := \<not> write_mirror rb, write_index := 0\<rparr>
               in (if old_state = RT_RINGBUFFER_FULL
                   then rb\<lparr>read_mirror := \<not> read_mirror rb, read_index := write_index rb\<rparr> else rb, 1))
         else (let rb = rb\<lparr>write_index := (write_index rb + 1) mod 2 ^ 15\<rparr>
               in (if old_state = RT_RINGBUFFER_FULL then rb\<lparr>read_index := write_index rb\<rparr> else rb, 1)))"

definition rt_ringbuffer_getchar :: "rt_ringbuffer \<Rightarrow> rt_ringbuffer \<times> u8 option" where
  "rt_ringbuffer_getchar rb =
     (if rt_ringbuffer_data_len rb = 0 then (rb, None)
      else (let ch = buffer_ptr rb ! read_index rb
            in if read_index rb = buffer_size rb - 1
               then (rb\<lparr>read_mirror := \<not> read_mirror rb, read_index := 0\<rparr>, Some ch)
               else (rb\<lparr>read_index := (read_index rb + 1) mod 2 ^ 15\<rparr>, Some ch)))"

definition rt_ringbuffer_reset :: "rt_ringbuffer \<Rightarrow> rt_ringbuffer" where
  "rt_ringbuffer_reset rb = rb\<lparr>read_mirror := False, read_index := 0, write_mirror := False, write_index := 0\<rparr>"

text \<open>
  \<open>rt_ringbuffer_create\<close>, on the results of the two allocations (the second is the pool): the ring buffer, and how many
  blocks of memory have been given back.
\<close>

definition rt_ringbuffer_create :: "nat \<Rightarrow> bool \<Rightarrow> bytes option \<Rightarrow> rt_ringbuffer option \<times> nat" where
  "rt_ringbuffer_create n got_rb pool =
     (if \<not> got_rb then (None, 0)
      else case pool of None \<Rightarrow> (None, 1) | Some p \<Rightarrow> (Some (rt_ringbuffer_init p (align_down n)), 0))"

text \<open>\<open>rt_ringbuffer_destroy\<close> gives back the pool and the structure.\<close>

definition rt_ringbuffer_destroy :: "rt_ringbuffer \<Rightarrow> rt_ringbuffer option \<times> nat" where
  "rt_ringbuffer_destroy rb = (None, 2)"

section \<open>A queue of bytes\<close>

locale byte_fifo =
  fixes put :: "'q \<Rightarrow> bytes \<Rightarrow> nat \<Rightarrow> 'q \<times> nat" and get :: "'q \<Rightarrow> nat \<Rightarrow> 'q \<times> bytes"
    and invar :: "'q \<Rightarrow> bool" and cap :: "'q \<Rightarrow> nat" and content :: "'q \<Rightarrow> bytes"
  assumes put: "invar q \<Longrightarrow> put q xs (length xs) = (q', k) \<Longrightarrow>
      invar q' \<and> cap q' = cap q \<and> k = min (length xs mod 2 ^ 16) (cap q - length (content q)) \<and> content q' = content q @ take k xs"
    and get: "invar q \<Longrightarrow> get q n = (q', ys) \<Longrightarrow>
      invar q' \<and> cap q' = cap q \<and> ys = take (n mod 2 ^ 16) (content q) \<and> content q' = drop (n mod 2 ^ 16) (content q)"
begin

text \<open>A sequence of operations: a block to put, or a number of bytes to get.\<close>

primrec run :: "(bytes + nat) list \<Rightarrow> 'q \<Rightarrow> bytes \<Rightarrow> bytes \<Rightarrow> 'q \<times> bytes \<times> bytes" where
  "run [] q taken given = (q, taken, given)"
| "run (e # es) q taken given =
     (case e of Inl xs \<Rightarrow> (let (q', k) = put q xs (length xs) in run es q' (taken @ take k xs) given)
      | Inr n \<Rightarrow> (let (q', ys) = get q n in run es q' taken (given @ ys)))"

lemma run_fifo:
  "invar q \<Longrightarrow> run es q taken given = (q', taken', given') \<Longrightarrow> content q0 @ taken = given @ content q \<Longrightarrow>
   invar q' \<and> cap q' = cap q \<and> content q0 @ taken' = given' @ content q'"
proof (induction es arbitrary: q taken given)
  case (Cons e es)
  show ?case
  proof (cases e)
    case (Inl xs)
    obtain q1 k where q1: "put q xs (length xs) = (q1, k)" by fastforce
    note p = put [OF Cons.prems(1) q1]
    have "run es q1 (taken @ take k xs) given = (q', taken', given')" using Cons.prems(2) Inl q1 by simp
    moreover have "content q0 @ (taken @ take k xs) = given @ content q1" using p Cons.prems(3) by simp
    ultimately show ?thesis using Cons.IH [of q1 "taken @ take k xs" given] p by simp
  next
    case (Inr n)
    obtain q1 ys where q1: "get q n = (q1, ys)" by fastforce
    note g = get [OF Cons.prems(1) q1]
    have "run es q1 taken (given @ ys) = (q', taken', given')" using Cons.prems(2) Inr q1 by simp
    moreover have "content q0 @ taken = (given @ ys) @ content q1" using g Cons.prems(3) by simp
    ultimately show ?thesis using Cons.IH [of q1 taken "given @ ys"] g by simp
  qed
qed simp

end

section \<open>The ring buffer is such a queue\<close>

definition rb_ok :: "rt_ringbuffer \<Rightarrow> bool" where
  "rb_ok rb \<longleftrightarrow> 0 < buffer_size rb \<and> buffer_size rb < 2 ^ 15 \<and> buffer_size rb \<le> length (buffer_ptr rb)
     \<and> read_index rb < buffer_size rb \<and> write_index rb < buffer_size rb
     \<and> (if read_mirror rb = write_mirror rb then read_index rb \<le> write_index rb else write_index rb \<le> read_index rb)"

definition rb_list :: "rt_ringbuffer \<Rightarrow> bytes" where
  "rb_list rb = map (\<lambda>i. buffer_ptr rb ! ((read_index rb + i) mod buffer_size rb)) [0..<rt_ringbuffer_data_len rb]"

lemma data_len_ok:
  assumes "rb_ok rb"
  shows "rt_ringbuffer_data_len rb = (if read_mirror rb = write_mirror rb then write_index rb - read_index rb
      else buffer_size rb - read_index rb + write_index rb)"
    and "rt_ringbuffer_data_len rb \<le> buffer_size rb"
    and "(read_index rb + rt_ringbuffer_data_len rb) mod buffer_size rb = write_index rb"
  using assms unfolding rb_ok_def rt_ringbuffer_data_len_def rt_ringbuffer_status_def
  by (auto split: if_splits)

lemma length_rb_list [simp]: "length (rb_list rb) = rt_ringbuffer_data_len rb"
  by (simp add: rb_list_def)

lemma mod_wrap: "x < 2 * n \<Longrightarrow> x mod n = (if x < n then x else x - n)" for x n :: nat
  using mod_less [of "x - n" n] by (auto simp: mod_if)

text \<open>A block of \<open>k\<close> bytes lands on the cells \<open>w, w + 1, ...\<close> modulo the size, and no other cell of the ring changes.\<close>

lemma write_block_nth:
  assumes "rb_ok rb" "k \<le> length xs" "k \<le> buffer_size rb" "i < buffer_size rb"
  shows "buffer_ptr (write_block rb xs k) ! ((write_index rb + i) mod buffer_size rb)
    = (if i < k then xs ! i else buffer_ptr rb ! ((write_index rb + i) mod buffer_size rb))"
proof -
  have m: "(write_index rb + i) mod buffer_size rb
      = (if write_index rb + i < buffer_size rb then write_index rb + i else write_index rb + i - buffer_size rb)"
    using assms unfolding rb_ok_def by (intro mod_wrap) simp
  show ?thesis
    using assms unfolding m rb_ok_def write_block_def Let_def
    by (auto simp: blit_nth length_blit)
qed

lemma write_block_ok:
  assumes "rb_ok rb" "k \<le> length xs" "k \<le> rt_ringbuffer_space_len rb"
  shows "rb_ok (write_block rb xs k)"
    and "rt_ringbuffer_data_len (write_block rb xs k) = rt_ringbuffer_data_len rb + k"
proof -
  note L = data_len_ok [OF assms(1)]
  have le: "rt_ringbuffer_data_len rb + k \<le> buffer_size rb" using assms(3) L(2) unfolding rt_ringbuffer_space_len_def by simp
  show ok: "rb_ok (write_block rb xs k)"
    using assms(1,2) le L(1) unfolding rb_ok_def write_block_def Let_def
    by (auto simp: length_blit split: if_splits)
  show "rt_ringbuffer_data_len (write_block rb xs k) = rt_ringbuffer_data_len rb + k"
    unfolding data_len_ok(1) [OF ok] L(1) using assms(1) le L(1)
    unfolding rb_ok_def write_block_def Let_def
    by (auto split: if_splits)
qed

lemma write_block_same [simp]:
  "buffer_size (write_block rb xs k) = buffer_size rb" "read_index (write_block rb xs k) = read_index rb"
  "read_mirror (write_block rb xs k) = read_mirror rb"
  by (simp_all add: write_block_def Let_def)

lemma write_block_list:
  assumes "rb_ok rb" "k \<le> length xs" "k \<le> rt_ringbuffer_space_len rb"
  shows "rb_list (write_block rb xs k) = rb_list rb @ take k xs"
proof (rule nth_equalityI)
  note L = data_len_ok [OF assms(1)] and W = write_block_ok [OF assms]
  let ?n = "buffer_size rb" and ?r = "read_index rb" and ?l = "rt_ringbuffer_data_len rb" and ?w = "write_index rb"
  have le: "?l + k \<le> ?n" using assms(3) L(2) unfolding rt_ringbuffer_space_len_def by simp
  show "length (rb_list (write_block rb xs k)) = length (rb_list rb @ take k xs)" using W(2) assms(2) by simp
  fix i assume "i < length (rb_list (write_block rb xs k))"
  then have i: "i < ?l + k" using W(2) by simp
  have at: "rb_list (write_block rb xs k) ! i = buffer_ptr (write_block rb xs k) ! ((?r + i) mod ?n)"
    using i W(2) unfolding rb_list_def by simp
  show "rb_list (write_block rb xs k) ! i = (rb_list rb @ take k xs) ! i"
  proof (cases "i < ?l")
    case True
    have j: "(?w + (i + ?n - ?l)) mod ?n = (?r + i) mod ?n"
    proof -
      have "(?w + (i + ?n - ?l)) mod ?n = (?r + ?l + (i + ?n - ?l)) mod ?n" unfolding L(3) [symmetric] by (rule mod_add_left_eq)
      also have "?r + ?l + (i + ?n - ?l) = ?r + i + ?n" using True L(2) by simp
      finally show ?thesis by simp
    qed
    have "i + ?n - ?l < ?n" "\<not> i + ?n - ?l < k" using True L(2) le by linarith+
    then show ?thesis
      using write_block_nth [OF assms(1,2), of "i + ?n - ?l"] le True unfolding at j
      by (simp add: nth_append rb_list_def)
  next
    case False
    have j: "(?w + (i - ?l)) mod ?n = (?r + i) mod ?n"
      unfolding L(3) [symmetric] mod_add_left_eq using False by simp
    have "i - ?l < ?n" "i - ?l < k" using le False i by linarith+
    then show ?thesis
      using write_block_nth [OF assms(1,2), of "i - ?l"] le False assms(2) unfolding at j
      by (simp add: nth_append)
  qed
qed

lemma put_fifo:
  assumes "rb_ok rb" "n \<le> length xs" "rt_ringbuffer_put rb xs n = (rb', k)"
  shows "rb_ok rb' \<and> buffer_size rb' = buffer_size rb \<and> k = min (n mod 2 ^ 16) (buffer_size rb - length (rb_list rb))
    \<and> rb_list rb' = rb_list rb @ take k xs"
proof (cases "rt_ringbuffer_space_len rb = 0")
  case True
  then show ?thesis using assms unfolding rt_ringbuffer_put_def by (auto simp: rt_ringbuffer_space_len_def)
next
  case False
  let ?k = "min (n mod 2 ^ 16) (rt_ringbuffer_space_len rb)"
  have "rt_ringbuffer_put rb xs n = (write_block rb xs ?k, ?k)"
    using False unfolding rt_ringbuffer_put_def Let_def by (simp add: min_def)
  then have e: "rb' = write_block rb xs ?k" "k = ?k" using assms(3) by simp_all
  have "n mod 2 ^ 16 \<le> n" by simp
  then have "?k \<le> length xs" "?k \<le> rt_ringbuffer_space_len rb" using assms(2) by linarith+
  then show ?thesis
    unfolding e using write_block_ok(1) [OF assms(1)] write_block_list [OF assms(1)]
    by (simp add: rt_ringbuffer_space_len_def)
qed

text \<open>Moving the read index over \<open>k\<close> stored bytes drops them, whatever the way the index and the mirror are computed.\<close>

definition skip :: "rt_ringbuffer \<Rightarrow> nat \<Rightarrow> rt_ringbuffer" where
  "skip rb k =
     (if buffer_size rb - read_index rb > k then rb\<lparr>read_index := read_index rb + k\<rparr>
      else rb\<lparr>read_mirror := \<not> read_mirror rb, read_index := k - (buffer_size rb - read_index rb)\<rparr>)"

lemma skip_ok:
  assumes "rb_ok rb" "k \<le> rt_ringbuffer_data_len rb"
  shows "rb_ok (skip rb k)" and "rt_ringbuffer_data_len (skip rb k) = rt_ringbuffer_data_len rb - k"
    and "(read_index rb + k) mod buffer_size rb = read_index (skip rb k)"
proof -
  note L = data_len_ok [OF assms(1)]
  show ok: "rb_ok (skip rb k)"
    using assms L(1) unfolding rb_ok_def skip_def by (auto split: if_splits)
  show "rt_ringbuffer_data_len (skip rb k) = rt_ringbuffer_data_len rb - k"
    unfolding data_len_ok(1) [OF ok] L(1) using assms L(1) unfolding rb_ok_def skip_def by (auto split: if_splits)
  have "(read_index rb + k) mod buffer_size rb
      = (if read_index rb + k < buffer_size rb then read_index rb + k else read_index rb + k - buffer_size rb)"
    using assms L(2) unfolding rb_ok_def by (intro mod_wrap) linarith
  then show "(read_index rb + k) mod buffer_size rb = read_index (skip rb k)"
    using assms(1) unfolding skip_def rb_ok_def by auto
qed

lemma skip_list:
  assumes "rb_ok rb" "k \<le> rt_ringbuffer_data_len rb"
  shows "rb_list (skip rb k) = drop k (rb_list rb)"
proof (rule nth_equalityI)
  note S = skip_ok [OF assms]
  have same: "buffer_ptr (skip rb k) = buffer_ptr rb" "buffer_size (skip rb k) = buffer_size rb" by (simp_all add: skip_def)
  show "length (rb_list (skip rb k)) = length (drop k (rb_list rb))" using S(2) by simp
  fix i assume "i < length (rb_list (skip rb k))"
  then have i: "i < rt_ringbuffer_data_len rb - k" using S(2) by simp
  have "(read_index (skip rb k) + i) mod buffer_size rb = (read_index rb + (k + i)) mod buffer_size rb"
    unfolding S(3) [symmetric] mod_add_left_eq by (simp add: add.assoc)
  then show "rb_list (skip rb k) ! i = drop k (rb_list rb) ! i"
    using i S(2) unfolding rb_list_def same by (simp add: less_diff_conv add.commute)
qed

lemma take_rb_list:
  assumes "rb_ok rb" "k \<le> rt_ringbuffer_data_len rb"
  shows "take k (rb_list rb) = (let room = buffer_size rb - read_index rb in
      if room > k then take k (drop (read_index rb) (buffer_ptr rb))
      else take room (drop (read_index rb) (buffer_ptr rb)) @ take (k - room) (buffer_ptr rb))"
proof (rule nth_equalityI)
  note L = data_len_ok [OF assms(1)]
  show "length (take k (rb_list rb)) = length (let room = buffer_size rb - read_index rb in
      if room > k then take k (drop (read_index rb) (buffer_ptr rb))
      else take room (drop (read_index rb) (buffer_ptr rb)) @ take (k - room) (buffer_ptr rb))"
    using assms L(2) unfolding rb_ok_def Let_def by auto
  fix i assume "i < length (take k (rb_list rb))"
  then have i: "i < k" by simp
  have "(read_index rb + i) mod buffer_size rb
      = (if read_index rb + i < buffer_size rb then read_index rb + i else read_index rb + i - buffer_size rb)"
    using assms L(2) i unfolding rb_ok_def by (intro mod_wrap) linarith
  then have "take k (rb_list rb) ! i = buffer_ptr rb ! (if read_index rb + i < buffer_size rb then read_index rb + i
      else read_index rb + i - buffer_size rb)"
    using i assms(2) unfolding rb_list_def by simp
  then show "take k (rb_list rb) ! i = (let room = buffer_size rb - read_index rb in
      if room > k then take k (drop (read_index rb) (buffer_ptr rb))
      else take room (drop (read_index rb) (buffer_ptr rb)) @ take (k - room) (buffer_ptr rb)) ! i"
    using assms L(2) i unfolding rb_ok_def Let_def by (auto simp: nth_append add.commute)
qed

lemma get_fifo:
  assumes "rb_ok rb" "rt_ringbuffer_get rb n = (rb', ys)"
  shows "rb_ok rb' \<and> buffer_size rb' = buffer_size rb \<and> ys = take (n mod 2 ^ 16) (rb_list rb)
    \<and> rb_list rb' = drop (n mod 2 ^ 16) (rb_list rb)"
proof (cases "rt_ringbuffer_data_len rb = 0")
  case True
  then have "rb_list rb = []" by (simp add: rb_list_def)
  then show ?thesis using True assms unfolding rt_ringbuffer_get_def by auto
next
  case False
  let ?n = "n mod 2 ^ 16"
  define k where "k = min ?n (rt_ringbuffer_data_len rb)"
  have k: "k \<le> rt_ringbuffer_data_len rb" "k \<le> buffer_size rb"
    using data_len_ok(2) [OF assms(1)] unfolding k_def by simp_all
  have t: "take ?n (rb_list rb) = take k (rb_list rb)" "drop ?n (rb_list rb) = drop k (rb_list rb)"
    unfolding k_def by (simp_all add: min_def)
  have n: "(if rt_ringbuffer_data_len rb < ?n then rt_ringbuffer_data_len rb else ?n) = k" unfolding k_def by simp
  have b: "read_index rb < buffer_size rb" "buffer_size rb < 2 ^ 15" using assms(1) unfolding rb_ok_def by simp_all
  have "rt_ringbuffer_get rb n = (skip rb k, take k (rb_list rb))"
    unfolding take_rb_list [OF assms(1) k(1)] rt_ringbuffer_get_def n Let_def skip_def
    using False b k(2) by simp
  then have "rb' = skip rb k" "ys = take k (rb_list rb)" using assms(2) by simp_all
  then show ?thesis
    using skip_ok(1) [OF assms(1) k(1)] skip_list [OF assms(1) k(1)] t by (simp add: skip_def)
qed

interpretation rb: byte_fifo rt_ringbuffer_put rt_ringbuffer_get rb_ok buffer_size rb_list
  by unfold_locales (rule put_fifo get_fifo; simp)+

section \<open>The single-byte operations, the overwriting ones and the set-up\<close>

lemma putchar_put:
  assumes "rb_ok rb"
  shows "rt_ringbuffer_putchar rb c = rt_ringbuffer_put rb [c] 1"
  using assms unfolding rt_ringbuffer_putchar_def rt_ringbuffer_put_def write_block_def rb_ok_def Let_def
  by (auto simp: blit_def upd_conv_take_nth_drop)

lemma getchar_get:
  assumes "rb_ok rb"
  shows "rt_ringbuffer_getchar rb
    = (let (rb', ys) = rt_ringbuffer_get rb 1 in (rb', if ys = [] then None else Some (hd ys)))"
  using assms unfolding rt_ringbuffer_getchar_def rt_ringbuffer_get_def rb_ok_def Let_def
  by (auto simp: take_Suc hd_drop_conv_nth)

lemma init_ok:
  assumes "n < 2 ^ 15" "4 \<le> n" "n \<le> length pool"
  shows "rb_ok (rt_ringbuffer_init pool n) \<and> rb_list (rt_ringbuffer_init pool n) = []"
proof -
  have "n mod 4 < 4" by simp
  then have "0 < n - n mod 4" "n - n mod 4 < 2 ^ 15" "n - n mod 4 \<le> length pool" using assms by linarith+
  then show ?thesis
    using assms unfolding rt_ringbuffer_init_def rb_ok_def align_down_def rb_list_def rt_ringbuffer_data_len_def
      rt_ringbuffer_status_def by simp
qed

lemma create_ok:
  assumes "n < 2 ^ 15" "4 \<le> n" "align_down n \<le> length pool"
  shows "\<exists>rb. rt_ringbuffer_create n True (Some pool) = (Some rb, 0) \<and> rb_ok rb \<and> rb_list rb = []"
proof -
  have "align_down n = 4 * (n div 4)" by (simp add: align_down_def minus_mod_eq_mult_div)
  moreover have "1 \<le> n div 4" using div_le_mono [OF assms(2), of 4] by simp
  moreover have "align_down n \<le> n" by (simp add: align_down_def)
  ultimately have "align_down n < 2 ^ 15" "4 \<le> align_down n" using assms(1) by linarith+
  then show ?thesis using init_ok assms(3) by (simp add: rt_ringbuffer_create_def)
qed

lemma reset_ok:
  "rb_ok rb \<Longrightarrow> rb_ok (rt_ringbuffer_reset rb) \<and> rb_list (rt_ringbuffer_reset rb) = []
     \<and> buffer_size (rt_ringbuffer_reset rb) = buffer_size rb"
  unfolding rt_ringbuffer_reset_def rb_ok_def rb_list_def rt_ringbuffer_data_len_def rt_ringbuffer_status_def by simp

lemma peak_list:
  assumes "rb_ok rb" "rt_ringbuffer_peak rb = (rb', ys)"
  shows "rb_ok rb' \<and> rb_list rb = ys @ rb_list rb' \<and> (rb_list rb \<noteq> [] \<longrightarrow> ys \<noteq> [])"
proof (cases "rt_ringbuffer_data_len rb = 0")
  case True
  then have "rb_list rb = []" by (simp add: rb_list_def)
  then show ?thesis using True assms unfolding rt_ringbuffer_peak_def by auto
next
  case False
  define k where "k = min (rt_ringbuffer_data_len rb) (buffer_size rb - read_index rb)"
  have k: "k \<le> rt_ringbuffer_data_len rb" unfolding k_def by simp
  have b: "read_index rb < buffer_size rb" "buffer_size rb < 2 ^ 15" "rt_ringbuffer_data_len rb \<le> buffer_size rb"
    using assms(1) data_len_ok(2) [OF assms(1)] unfolding rb_ok_def by simp_all
  have "rt_ringbuffer_peak rb = (skip rb k, take k (rb_list rb))"
    unfolding take_rb_list [OF assms(1) k] rt_ringbuffer_peak_def Let_def skip_def
    using False b unfolding k_def by (simp add: min_def)
  then have e: "rb' = skip rb k" "ys = take k (rb_list rb)" using assms(2) by simp_all
  moreover have "0 < k" using False b(1) unfolding k_def by simp
  ultimately show ?thesis
    using skip_ok(1) [OF assms(1) k] skip_list [OF assms(1) k] by auto
qed

text \<open>After a block that did not fit, the ring read from the new write index on holds the last bytes of the stream.\<close>

lemma overwrite_list:
  assumes "rb_ok rb" "n \<le> length xs" "n \<le> buffer_size rb" "buffer_size rb \<le> rt_ringbuffer_data_len rb + n"
  shows "map (\<lambda>i. buffer_ptr (write_block rb xs n) ! ((write_index rb + n + i) mod buffer_size rb)) [0..<buffer_size rb]
    = drop (rt_ringbuffer_data_len rb + n - buffer_size rb) (rb_list rb @ take n xs)" (is "?l = ?r")
proof (rule nth_equalityI)
  note L = data_len_ok [OF assms(1)]
  show "length ?l = length ?r" using assms(2-4) by simp
  let ?n = "buffer_size rb" and ?w = "write_index rb" and ?d = "rt_ringbuffer_data_len rb"
  fix i assume "i < length ?l"
  then have i: "i < ?n" by simp
  have r: "?r ! i = (rb_list rb @ take n xs) ! (?d + n - ?n + i)" using i assms(2-4) by (subst nth_drop) simp_all
  show "?l ! i = ?r ! i"
  proof (cases "n + i < ?n")
    case True
    have "(?w + n + i) mod ?n = (read_index rb + ?d + (n + i)) mod ?n"
      unfolding L(3) [symmetric] mod_add_left_eq add.assoc ..
    also have "\<dots> = (read_index rb + (?d + n - ?n + i) + ?n) mod ?n" using assms(4) by (simp add: add.assoc)
    finally have j: "(?w + n + i) mod ?n = (read_index rb + (?d + n - ?n + i)) mod ?n" by simp
    have "?l ! i = buffer_ptr rb ! ((?w + n + i) mod ?n)"
      using write_block_nth [OF assms(1-3) True] i by (simp add: add.assoc)
    moreover have "?d + n - ?n + i < ?d" using True assms(4) by linarith
    ultimately show ?thesis unfolding r j by (simp add: nth_append rb_list_def)
  next
    case False
    have lt: "n + i - ?n < n" "n + i - ?n < ?n" using False i assms(3) by linarith+
    have "(?w + n + i) mod ?n = (?w + (n + i - ?n) + ?n) mod ?n" using False by (simp add: add.assoc)
    then have j: "(?w + n + i) mod ?n = (?w + (n + i - ?n)) mod ?n" by simp
    have "?l ! i = xs ! (n + i - ?n)"
      using write_block_nth [OF assms(1-3) lt(2)] lt(1) i unfolding j [symmetric] by simp
    moreover have "?d + n - ?n + i - ?d = n + i - ?n" "\<not> ?d + n - ?n + i < ?d" using False assms(4) by linarith+
    ultimately show ?thesis unfolding r using lt(1) by (simp add: nth_append)
  qed
qed

lemma full_list:
  assumes "rb_ok rb" "read_index rb = write_index rb" "read_mirror rb \<noteq> write_mirror rb"
  shows "rb_list rb = map (\<lambda>i. buffer_ptr rb ! ((write_index rb + i) mod buffer_size rb)) [0..<buffer_size rb]"
proof -
  have "rt_ringbuffer_data_len rb = buffer_size rb"
    using assms unfolding rt_ringbuffer_data_len_def rt_ringbuffer_status_def by simp
  then show ?thesis using assms(2) by (simp add: rb_list_def)
qed

text \<open>
  A forced block that fits is an ordinary one.  One that does not leaves the buffer full of the last bytes of the stream
  when the writer is in the other mirror than the reader, and empty otherwise.
\<close>

lemma write_block_index:
  assumes "rb_ok rb" "n \<le> length xs" "n \<le> buffer_size rb"
  shows "write_index (write_block rb xs n) = (write_index rb + n) mod buffer_size rb"
    and "write_index (write_block rb xs n) < buffer_size rb"
    and "buffer_size rb \<le> length (buffer_ptr (write_block rb xs n))"
proof -
  have m: "(write_index rb + n) mod buffer_size rb
      = (if write_index rb + n < buffer_size rb then write_index rb + n else write_index rb + n - buffer_size rb)"
    using assms unfolding rb_ok_def by (intro mod_wrap) linarith
  show "write_index (write_block rb xs n) = (write_index rb + n) mod buffer_size rb"
    using assms unfolding m rb_ok_def write_block_def Let_def by auto
  show "write_index (write_block rb xs n) < buffer_size rb"
    using assms unfolding rb_ok_def write_block_def Let_def by auto
  show "buffer_size rb \<le> length (buffer_ptr (write_block rb xs n))"
    using assms unfolding rb_ok_def write_block_def Let_def by (auto simp: length_blit)
qed

lemma u16_small: "rb_ok rb \<Longrightarrow> n \<le> buffer_size rb \<Longrightarrow> n mod 2 ^ 16 = n"
  by (rule mod_less) (auto simp: rb_ok_def)

lemma put_force_overwrite:
  assumes "rb_ok rb" "n \<le> length xs" "n \<le> buffer_size rb" "n > rt_ringbuffer_space_len rb"
    and "rt_ringbuffer_put_force rb xs n = (rb', k)"
  shows "rb_ok rb' \<and> k = n \<and> buffer_size rb' = buffer_size rb \<and>
    rb_list rb' = (if read_mirror rb = write_mirror rb then []
      else drop (rt_ringbuffer_data_len rb + n - buffer_size rb) (rb_list rb @ take n xs))"
proof -
  note L = data_len_ok [OF assms(1)] and W = write_block_index [OF assms(1-3)]
  let ?b = "write_block rb xs n"
  have ge: "buffer_size rb \<le> rt_ringbuffer_data_len rb + n" using assms(4) unfolding rt_ringbuffer_space_len_def by linarith
  define v where "v = (if buffer_size rb - write_index rb > n then read_mirror rb else \<not> read_mirror rb)"
  have e: "rb' = ?b\<lparr>read_mirror := v, read_index := write_index ?b\<rparr>" "k = n"
    using assms(3-5) unfolding rt_ringbuffer_put_force_def u16_small [OF assms(1,3)] Let_def v_def by (auto split: if_splits)
  have mirror: "write_mirror ?b = (if buffer_size rb - write_index rb > n then write_mirror rb else \<not> write_mirror rb)"
    by (simp add: write_block_def Let_def)
  have wrap: "\<not> buffer_size rb - write_index rb > n" if "read_mirror rb = write_mirror rb"
    using that assms(1,4) L(1) unfolding rt_ringbuffer_space_len_def rb_ok_def by auto
  have vm: "v = write_mirror ?b \<longleftrightarrow> read_mirror rb = write_mirror rb"
    using mirror wrap unfolding v_def by auto
  have "buffer_size rb < 2 ^ 15" "0 < buffer_size rb" using assms(1) unfolding rb_ok_def by simp_all
  then have ok: "rb_ok rb'" using W(2,3) unfolding e rb_ok_def by simp
  have "rb_list rb' = []" if "read_mirror rb = write_mirror rb"
    using that vm unfolding e rb_list_def rt_ringbuffer_data_len_def rt_ringbuffer_status_def by simp
  moreover have "rb_list rb' = drop (rt_ringbuffer_data_len rb + n - buffer_size rb) (rb_list rb @ take n xs)"
    if "read_mirror rb \<noteq> write_mirror rb"
  proof -
    have "rb_list rb' = map (\<lambda>i. buffer_ptr ?b ! ((write_index ?b + i) mod buffer_size rb)) [0..<buffer_size rb]"
      using full_list [OF ok] that vm unfolding e by simp
    then show ?thesis
      unfolding W(1) mod_add_left_eq overwrite_list [OF assms(1-3) ge] .
  qed
  ultimately show ?thesis using ok e by simp
qed

lemma put_force_fits:
  assumes "rb_ok rb" "n \<le> length xs" "n \<le> rt_ringbuffer_space_len rb"
  shows "rt_ringbuffer_put_force rb xs n = (write_block rb xs n, n)"
proof -
  have le: "n \<le> buffer_size rb" using assms(3) unfolding rt_ringbuffer_space_len_def by simp
  show ?thesis using assms(3) le unfolding rt_ringbuffer_put_force_def u16_small [OF assms(1) le] Let_def by auto
qed

lemma put_force_cut:
  assumes "rb_ok rb" "length xs < 2 ^ 16"
  shows "rt_ringbuffer_put_force rb xs (length xs)
    = (let ys = drop (length xs - buffer_size rb) xs in rt_ringbuffer_put_force rb ys (length ys))"
proof -
  have "length (drop (length xs - buffer_size rb) xs) < 2 ^ 16" using assms(2) by simp
  note m = mod_less [OF assms(2)] mod_less [OF this]
  show ?thesis unfolding rt_ringbuffer_put_force_def Let_def m by simp
qed

lemma putchar_force_put_force:
  assumes "rb_ok rb"
  shows "rt_ringbuffer_putchar_force rb c = rt_ringbuffer_put_force rb [c] 1"
proof -
  note L = data_len_ok [OF assms]
  have f: "rt_ringbuffer_status rb = RT_RINGBUFFER_FULL \<longleftrightarrow> rt_ringbuffer_space_len rb = 0"
    using assms L(1) unfolding rt_ringbuffer_status_def rt_ringbuffer_space_len_def rb_ok_def by auto
  show ?thesis
    using assms unfolding rt_ringbuffer_putchar_force_def rt_ringbuffer_put_force_def write_block_def rb_ok_def Let_def f
    by (auto simp: blit_def upd_conv_take_nth_drop)
qed

section \<open>Properties\<close>

text \<open>
  C21.  A ring buffer set up over a pool of at least four bytes is a queue: whatever blocks are offered and however many bytes
  are asked for, in whatever order, the structure stays well-formed, never holds more than its size, and the bytes it has
  accepted are exactly the bytes it has delivered followed by the bytes it still holds.  The lengths are unrestricted: the
  operations take them modulo \<open>2 ^ 16\<close>.
\<close>

theorem ringbuffer_stream:
  assumes "4 \<le> n" "n < 2 ^ 15" "n \<le> length pool"
    and "byte_fifo.run rt_ringbuffer_put rt_ringbuffer_get es (rt_ringbuffer_init pool n) [] [] = (rb', taken, given)"
  shows "rb_ok rb' \<and> buffer_size rb' = align_down n \<and> length (rb_list rb') \<le> buffer_size rb' \<and> taken = given @ rb_list rb'"
proof -
  note i = init_ok [OF assms(2,1,3)]
  have "rb_ok rb' \<and> buffer_size rb' = buffer_size (rt_ringbuffer_init pool n)
      \<and> rb_list (rt_ringbuffer_init pool n) @ taken = given @ rb_list rb'"
    using rb.run_fifo [OF conjunct1 [OF i] assms(4), of "rt_ringbuffer_init pool n"] i by simp
  moreover have "buffer_size (rt_ringbuffer_init pool n) = align_down n" by (simp add: rt_ringbuffer_init_def)
  ultimately show ?thesis using i data_len_ok(2) [of rb'] by simp
qed

lemmas ring_eval = rt_ringbuffer_put_def rt_ringbuffer_get_def rt_ringbuffer_init_def rt_ringbuffer_space_len_def
  rt_ringbuffer_data_len_def rt_ringbuffer_status_def write_block_def blit_def align_down_def

text \<open>A pool of seven bytes gives a buffer of four: of five bytes offered four are taken, and the writer wraps after a read.\<close>

theorem ringbuffer_stream_witness:
  "\<exists>rb'. byte_fifo.run rt_ringbuffer_put rt_ringbuffer_get [Inl [1, 2, 3, 4, 5], Inr 2, Inl [6, 7, 8], Inr 3]
      (rt_ringbuffer_init [0, 0, 0, 0, 0, 0, 0] 7) [] [] = (rb', [1, 2, 3, 4, 6, 7], [1, 2, 3, 4, 6])
    \<and> rb_ok rb' \<and> buffer_size rb' = align_down 7 \<and> length (rb_list rb') \<le> buffer_size rb'
    \<and> [1, 2, 3, 4, 6, 7] = [1, 2, 3, 4, 6] @ rb_list rb'"
proof -
  have "\<exists>rb'. byte_fifo.run rt_ringbuffer_put rt_ringbuffer_get [Inl [1, 2, 3, 4, 5], Inr 2, Inl [6, 7, 8], Inr 3]
      (rt_ringbuffer_init [0, 0, 0, 0, 0, 0, 0] 7) [] [] = (rb', [1, 2, 3, 4, 6, 7], [1, 2, 3, 4, 6])"
    by (simp add: ring_eval Let_def)
  then obtain rb' where r: "byte_fifo.run rt_ringbuffer_put rt_ringbuffer_get [Inl [1, 2, 3, 4, 5], Inr 2, Inl [6, 7, 8], Inr 3]
      (rt_ringbuffer_init [0, 0, 0, 0, 0, 0, 0] 7) [] [] = (rb', [1, 2, 3, 4, 6, 7], [1, 2, 3, 4, 6])" by blast
  then show ?thesis using ringbuffer_stream [OF _ _ _ r] by auto
qed

text \<open>
  A forced block of less than \<open>2 ^ 16\<close> bytes is cut to its last \<open>buffer_size\<close> bytes, and appended when there is room.  When there is not, the buffer
  afterwards holds the last \<open>buffer_size\<close> bytes of the stream if the writer had entered the other mirror already; if reader
  and writer are in the same mirror, both mirror bits are inverted and the buffer is left empty, the new block included.
\<close>

lemma put_force_spec:
  assumes "rb_ok rb" "rt_ringbuffer_put_force rb xs (length xs) = (rb', k)"
    and "ys = drop (length xs - buffer_size rb) xs" "length xs < 2 ^ 16"
  shows "rb_ok rb' \<and> k = length ys \<and> rb_list rb' =
    (if length ys \<le> rt_ringbuffer_space_len rb then rb_list rb @ ys
     else if read_mirror rb = write_mirror rb then []
     else drop (length (rb_list rb) + length ys - buffer_size rb) (rb_list rb @ ys))"
proof -
  have r: "rt_ringbuffer_put_force rb ys (length ys) = (rb', k)"
    using assms(2) put_force_cut [OF assms(1,4)] unfolding assms(3) Let_def by simp
  show ?thesis
  proof (cases "length ys \<le> rt_ringbuffer_space_len rb")
    case True
    then show ?thesis
      using r put_force_fits [OF assms(1) order_refl True] write_block_ok(1) [OF assms(1) order_refl True]
        write_block_list [OF assms(1) order_refl True] by auto
  next
    case False
    have "length ys \<le> buffer_size rb" unfolding assms(3) by simp
    then show ?thesis using put_force_overwrite [OF assms(1) _ _ _ r] False by simp
  qed
qed

end
