(* ===== verification/Main_App.thy ===== *)
theory Main_App
  imports Uint256 ZUC256 ChebyShev
begin

text \<open>
  The program body (\<open>main.c\<close>) and the console commands that exercise the arithmetic (\<open>cheby_test\<close> and \<open>rt_test\<close> of
  \<open>ChebyShev.c\<close>, \<open>print_hex\<close> of \<open>SM3.c\<close>).  What a command does to the board is a list of events, in order; a command that
  never returns takes the number of rounds it has made as an argument.
\<close>

datatype app_event =
    Console string
  | Pin_mode_output nat
  | Pin_write nat bool
  | Gpio_init
  | Gpio_write bool
  | Mdelay nat

definition cr_nl :: string where
  "cr_nl = CHR 0x0D # newline"

text \<open>\<open>%08x\<close>\<close>

definition fmt_08x :: "u32 \<Rightarrow> string" where
  "fmt_08x w = concat (map fmt_02x (put_be32 w))"

section \<open>The blinking diodes\<close>

text \<open>\<open>main\<close> after \<open>n\<close> rounds of its loop; the argument is the core clock the banner prints.\<close>

definition main_round :: "app_event list" where
  "main_round = [Gpio_write True, Mdelay 500, Gpio_write False, Mdelay 500]"

definition main_prog :: "int \<Rightarrow> nat \<Rightarrow> app_event list" where
  "main_prog SystemCoreClock n =
     [Console (''MCU: CH32V307'' @ newline), Console (''SysClk: '' @ fmt_d SystemCoreClock @ ''Hz'' @ newline),
      Console (''www.wch.cn'' @ newline), Gpio_init, Gpio_write False] @ concat (replicate n main_round)"

definition LED0_PIN :: nat where
  "LED0_PIN = 35"

definition led_round :: "nat \<Rightarrow> app_event list" where
  "led_round count =
     [Pin_write LED0_PIN False, Console (''led on, count : '' @ fmt_u count @ cr_nl), Mdelay 500,
      Pin_write LED0_PIN True, Console (''led off'' @ cr_nl), Mdelay 500]"

definition led :: "u32 \<Rightarrow> int \<times> app_event list" where
  "led sp = (0, [Pin_mode_output LED0_PIN, Console (''led_SP:'' @ fmt_08x sp @ cr_nl)] @ concat (map led_round [0..<10]))"

section \<open>The key stream commands\<close>

text \<open>The static context \<open>zuc\<close> of \<open>main.c\<close> is the state; the key and the vector are the constants of the demo.\<close>

definition zuc_keystream_start :: "zuc256_ctx \<Rightarrow> zuc256_ctx" where
  "zuc_keystream_start zuc =
     (case snd (zuc256_init (Some zuc) (Some (map of_nat [0..<32])) (Some (map of_nat [0xA0..<0xB0])) 16) of
        Some zuc \<Rightarrow> zuc | None \<Rightarrow> zuc)"

definition zuc_keystream_run :: "zuc256_ctx \<Rightarrow> zuc256_ctx \<times> app_event" where
  "zuc_keystream_run zuc =
     (let (zuc, ks) = zuc256_keystream_word zuc in (zuc, Console (''KS = '' @ fmt_08X ks @ newline)))"

primrec zuc_rounds :: "nat \<Rightarrow> zuc256_ctx \<Rightarrow> zuc256_ctx \<times> app_event list" where
  "zuc_rounds 0 zuc = (zuc, [])"
| "zuc_rounds (Suc n) zuc =
     (let (zuc, e) = zuc_keystream_run zuc; (zuc, es) = zuc_rounds n zuc in (zuc, e # Mdelay 10 # es))"

definition zuc_keys :: "nat \<Rightarrow> zuc256_ctx \<Rightarrow> zuc256_ctx \<times> app_event list" where
  "zuc_keys n zuc = zuc_rounds n (zuc_keystream_start zuc)"

text \<open>\<open>zuc_time\<close> measures ten thousand words, between two readings of the tick counter.\<close>

primrec zuc_burst :: "nat \<Rightarrow> zuc256_ctx \<Rightarrow> zuc256_ctx" where
  "zuc_burst 0 zuc = zuc"
| "zuc_burst (Suc n) zuc = zuc_burst n (fst (zuc256_keystream_word zuc))"

definition zuc_time :: "u32 \<Rightarrow> u32 \<Rightarrow> zuc256_ctx \<Rightarrow> zuc256_ctx \<times> app_event list" where
  "zuc_time t0 t1 zuc =
     (zuc_burst 10000 (zuc_keystream_start zuc), [Console (fmt_d (sint (t1 - t0)) @ newline)])"

section \<open>The Chebyshev commands\<close>

text \<open>The file-level variables of \<open>ChebyShev.c\<close>: the arguments, the results, and the statics of \<open>chebyshev_Tn\<close>.\<close>

record cheby_vars =
  cv_x :: "u32 list"
  cv_n :: "u32 list"
  cv_p :: "u32 list"
  cv_Tn :: "u32 list"
  cv_Tn_1 :: "u32 list"
  cv_st :: cheby_statics

definition cheby_vars_boot :: cheby_vars where
  "cheby_vars_boot = \<lparr>cv_x = replicate 8 0, cv_n = replicate 8 0, cv_p = replicate 8 0, cv_Tn = replicate 8 0,
     cv_Tn_1 = replicate 8 0, cv_st = cheby_boot\<rparr>"

definition test_Tn :: "cheby_vars \<Rightarrow> cheby_vars option" where
  "test_Tn v = map_option (\<lambda>(st, Tn, Tn_1). v\<lparr>cv_Tn := Tn, cv_Tn_1 := Tn_1, cv_st := st\<rparr>)
     (chebyshev_Tn (cv_st v) (cv_n v) (cv_x v) (cv_p v))"

definition cheby_args :: "cheby_vars \<Rightarrow> cheby_vars" where
  "cheby_args v = v\<lparr>cv_n := set_uint256 0 0 0 0 0x98f104a0 0xbd397d85 0x48cc9cd2 0x782ee4a9,
     cv_x := set_uint256 0 0 0 0 0xbdcaf3f5 0xf1cbbf85 0x9ba39225 0x738d42b1,
     cv_p := set_uint256 0 0 0 0 0x959dd95b 0xa0b0ff95 0x63b313db 0xfb224c23\<rparr>"

definition cheby_report :: "cheby_vars \<Rightarrow> app_event list" where
  "cheby_report v =
     [Console (''Chebyshev T_n(x) mod p where:'' @ newline),
      Console ''x = '', Console (print_uint256 (cv_x v)), Console ''n = '', Console (print_uint256 (cv_n v)),
      Console ''p = '', Console (print_uint256 (cv_p v)), Console (''Result:'' @ newline),
      Console ''Tn     = '', Console (print_uint256 (cv_Tn v)), Console ''Tn-1   = '', Console (print_uint256 (cv_Tn_1 v))]"

definition cheby_test :: "cheby_vars \<Rightarrow> (cheby_vars \<times> app_event list) option" where
  "cheby_test v = map_option (\<lambda>v. (v, cheby_report v)) (test_Tn (cheby_args v))"

text \<open>
  \<open>rt_test\<close> starts \<open>cheby_test\<close> in a thread of a lower priority than the shell's, and calls \<open>chebyshev_Tn\<close> on the same
  variables itself; nothing in its own body blocks, so the thread runs after it.  The memory statistics before and after
  are arguments.
\<close>

definition rt_test ::
  "bool \<Rightarrow> u32 \<times> u32 \<times> u32 \<Rightarrow> u32 \<times> u32 \<times> u32 \<Rightarrow> cheby_vars \<Rightarrow> (cheby_vars \<times> app_event list) option" where
  "rt_test created info info_1 v =
     (case (info, info_1) of ((total0, used, max_used), (total_1, used_1, max_used_1)) \<Rightarrow> do {
        v \<leftarrow> test_Tn v;
        let own = [Console (''total:'' @ fmt_d (sint (total_1 - total0))), Console (''used:'' @ fmt_d (sint (used_1 - used))),
                   Console (''max_used:'' @ fmt_d (sint (max_used_1 - max_used)))];
        (v, es) \<leftarrow> (if created then cheby_test v else Some (v, []));
        Some (v, own @ es) })"

definition print_hex :: "bytes \<Rightarrow> nat \<Rightarrow> app_event list" where
  "print_hex data len = map (\<lambda>i. Console (fmt_02x (data ! i))) [0..<len] @ [Console newline]"

section \<open>The printed key stream\<close>

lemma zuc_keystream_start: "zuc_keystream_start zuc = zuc_start (map of_nat [0..<32]) zuc (map of_nat [0xA0..<0xB0])"
  by (simp only: zuc_keystream_start_def zuc_start_init snd_conv option.case)

definition ks_line :: "u32 \<Rightarrow> app_event list" where
  "ks_line w = [Console (''KS = '' @ fmt_08X w @ newline), Mdelay 10]"

lemma zuc_rounds_words:
  "zuc_rounds n c = ((ks_step ^^ n) c, concat (map (\<lambda>i. ks_line (ks_word c i)) [0..<n]))"
proof (induction n arbitrary: c)
  case (Suc n)
  have run: "zuc_keystream_run c = (ks_step c, Console (''KS = '' @ fmt_08X (ks_word c 0) @ newline))"
    by (simp add: zuc_keystream_run_def ks_step_def ks_word_def case_prod_beta)
  have "concat (map (\<lambda>i. ks_line (ks_word c i)) [0..<Suc n])
      = ks_line (ks_word c 0) @ concat (map (\<lambda>i. ks_line (ks_word (ks_step c) i)) [0..<n])"
    by (simp only: upt_conv_Cons zero_less_Suc map_Suc_upt [symmetric] list.map map_map comp_def ks_word_Suc concat.simps)
  then show ?case
    using Suc.IH [of "ks_step c"] run by (simp add: ks_line_def funpow_swap1 del: upt_Suc)
qed simp

lemma zuc_burst_steps: "zuc_burst n c = (ks_step ^^ n) c"
  by (induction n arbitrary: c) (simp_all add: ks_step_def funpow_swap1)

lemma keystream_words:
  "zuc256_keystream c (4 * n) = ((ks_step ^^ n) c, concat (map put_be32 (map (ks_word c) [0..<n])))"
proof -
  have e: "(4 * n + 3) div 4 = n" by simp
  have "length (concat (map put_be32 ws)) = 4 * length ws" for ws by (induction ws) simp_all
  from this [of "map (ks_word c) [0..<n]"]
  have "length (concat (map (\<lambda>i. put_be32 (ks_word c i)) [0..<n])) = 4 * n" by (simp add: comp_def)
  then show ?thesis unfolding zuc256_keystream_ref e by (simp add: comp_def)
qed

lemma put_be32_inj: "put_be32 v = put_be32 w \<Longrightarrow> v = w"
  using get_put_be32 [of "[]" v "[]"] get_put_be32 [of "[]" w "[]"] by simp

lemma concat_put_be32_inj:
  "length vs = length ws \<Longrightarrow> concat (map put_be32 vs) = concat (map put_be32 ws) \<Longrightarrow> vs = ws"
  by (induction vs ws rule: list_induct2) (auto dest: put_be32_inj)

text \<open>
  The command \<open>zuc_keys\<close> prints, one word per line, exactly the key stream that \<open>zuc256_keystream\<close> yields from the freshly
  initialised context, for as many rounds as it runs and whatever the static context held before; \<open>zuc_time\<close>, from the
  same start, leaves the context where ten thousand words leave it.
\<close>

lemma zuc_keys_stream:
  assumes "zuc_shape g" "zuc_shape g'"
  shows "\<exists>ws. length ws = n \<and> snd (zuc256_keystream (zuc_keystream_start g) (4 * n)) = concat (map put_be32 ws)
      \<and> zuc_keys n g = (fst (zuc256_keystream (zuc_keystream_start g) (4 * n)), concat (map ks_line ws))
      \<and> snd (zuc_keys n g') = snd (zuc_keys n g)
      \<and> fst (zuc_time t0 t1 g) = fst (zuc256_keystream (zuc_keystream_start g) 40000)"
proof (intro exI conjI)
  let ?c = "zuc_keystream_start g" and ?d = "zuc_keystream_start g'"
  show "length (map (ks_word ?c) [0..<n]) = n" by simp
  show "snd (zuc256_keystream ?c (4 * n)) = concat (map put_be32 (map (ks_word ?c) [0..<n]))" by (simp add: keystream_words)
  show "zuc_keys n g = (fst (zuc256_keystream ?c (4 * n)), concat (map ks_line (map (ks_word ?c) [0..<n])))"
    by (simp add: zuc_keys_def zuc_rounds_words keystream_words comp_def)
  have "concat (map put_be32 (map (ks_word ?d) [0..<n])) = concat (map put_be32 (map (ks_word ?c) [0..<n]))"
    using zuc_start_stream [OF assms, of "map of_nat [0xA0..<0xB0]" "map of_nat [0..<32]" "4 * n"]
    unfolding zuc_keystream_start keystream_words by simp
  then have "map (ks_word ?d) [0..<n] = map (ks_word ?c) [0..<n]"
    by (intro concat_put_be32_inj) simp_all
  then have "map (\<lambda>i. ks_line (ks_word ?d i)) [0..<n] = map (\<lambda>i. ks_line (ks_word ?c i)) [0..<n]" by simp
  then show "snd (zuc_keys n g') = snd (zuc_keys n g)"
    by (simp only: zuc_keys_def zuc_rounds_words snd_conv)
  show "fst (zuc_time t0 t1 g) = fst (zuc256_keystream ?c 40000)"
    using keystream_words [of ?c 10000] by (simp add: zuc_time_def zuc_burst_steps del: funpow.simps)
qed

section \<open>The Chebyshev commands\<close>

text \<open>The variables between two commands: no carry left over, and the arguments of \<open>cheby_test\<close> or those of the start.\<close>

definition cheby_ready :: "cheby_vars \<Rightarrow> bool" where
  "cheby_ready v \<longleftrightarrow> carry4 (cv_st v) = 0 \<and> (cv_n v = replicate 8 0 \<or> cheby_args v = v)"

definition N_arg :: nat where "N_arg = 0x98f104a0bd397d8548cc9cd2782ee4a9"

definition X_arg :: nat where "X_arg = 0xbdcaf3f5f1cbbf859ba39225738d42b1"

definition P_arg :: nat where "P_arg = 0x959dd95ba0b0ff9563b313dbfb224c23"

lemma cheby_args_vals:
  "limbs_val (cv_n (cheby_args v)) = N_arg" "limbs_val (cv_x (cheby_args v)) = X_arg" "limbs_val (cv_p (cheby_args v)) = P_arg"
  "length (cv_n (cheby_args v)) = 8" "length (cv_x (cheby_args v)) = 8" "length (cv_p (cheby_args v)) = 8"
  by (simp_all add: cheby_args_def set_uint256_def N_arg_def X_arg_def P_arg_def)

lemma test_Tn_args:
  assumes "carry4 (cv_st v) = 0"
  shows "\<exists>v'. test_Tn (cheby_args v) = Some v' \<and> cheby_ready v'
    \<and> int (limbs_val (cv_Tn v')) = cheb N_arg (int X_arg) mod int P_arg
    \<and> int (limbs_val (cv_Tn_1 v')) = cheb (N_arg - 1) (int X_arg) mod int P_arg"
proof -
  note a = cheby_args_vals [of v]
  have st: "cv_st (cheby_args v) = cv_st v" by (simp add: cheby_args_def)
  have pre: "cheby_pre (cv_n (cheby_args v)) (cv_x (cheby_args v)) (cv_p (cheby_args v))"
    unfolding cheby_pre_def a by (simp add: X_arg_def P_arg_def)
  have big: "limbs_val (cv_n (cheby_args v)) > 1" "limbs_val (cv_p (cheby_args v)) \<le> 2 ^ 255"
    unfolding a by (simp_all add: N_arg_def P_arg_def)
  from chebyshev_Tn_large [OF pre assms big(1)] obtain s T T1 where
    T: "chebyshev_Tn (cv_st v) (cv_n (cheby_args v)) (cv_x (cheby_args v)) (cv_p (cheby_args v)) = Some (s, T, T1)"
    "int (limbs_val T) = cheb N_arg (int X_arg) mod int P_arg"
    "int (limbs_val T1) = cheb (N_arg - 1) (int X_arg) mod int P_arg" "carry4 s = 0"
    using big(2) unfolding a by blast
  have c: "test_Tn (cheby_args v) = Some ((cheby_args v)\<lparr>cv_Tn := T, cv_Tn_1 := T1, cv_st := s\<rparr>)"
    unfolding test_Tn_def st T(1) by simp
  have "cheby_ready ((cheby_args v)\<lparr>cv_Tn := T, cv_Tn_1 := T1, cv_st := s\<rparr>)"
    using T(4) by (simp add: cheby_ready_def cheby_args_def)
  then show ?thesis using c T by simp
qed

lemma test_Tn_ready:
  assumes "cheby_ready v"
  shows "\<exists>v'. test_Tn v = Some v' \<and> cheby_ready v'"
proof (cases "cheby_args v = v")
  case True
  then show ?thesis using test_Tn_args [of v] assms by (auto simp: cheby_ready_def)
next
  case False
  then have n: "cv_n v = replicate 8 0" and c: "carry4 (cv_st v) = 0" using assms by (auto simp: cheby_ready_def)
  have "test_Tn v = Some (v\<lparr>cv_Tn := limb_one, cv_Tn_1 := replicate 8 0\<rparr>)"
    unfolding test_Tn_def n using chebyshev_Tn_small [of "replicate 8 0" "cv_st v" "cv_x v" "cv_p v"] by simp
  then show ?thesis using n c by (simp add: cheby_ready_def)
qed

text \<open>
  From the start on, and after any number of runs of either command, \<open>rt_test\<close> and \<open>cheby_test\<close> return, and leave and
  print \<open>T_n(x) mod p\<close> and \<open>T_(n-1)(x) mod p\<close> for the three constants of \<open>cheby_test\<close>, although its \<open>x\<close> is not reduced.
\<close>

lemma cheby_commands:
  assumes "cheby_ready v"
  shows "cheby_ready cheby_vars_boot
    \<and> (\<exists>v'. cheby_test v = Some (v', cheby_report v') \<and> cheby_ready v'
        \<and> int (limbs_val (cv_Tn v')) = cheb N_arg (int X_arg) mod int P_arg
        \<and> int (limbs_val (cv_Tn_1 v')) = cheb (N_arg - 1) (int X_arg) mod int P_arg)
    \<and> (\<exists>v' own. rt_test True info info_1 v = Some (v', own @ cheby_report v') \<and> cheby_ready v'
        \<and> int (limbs_val (cv_Tn v')) = cheb N_arg (int X_arg) mod int P_arg)"
proof (intro conjI)
  show "cheby_ready cheby_vars_boot" by (simp add: cheby_ready_def cheby_vars_boot_def cheby_boot_def)
  have test: "\<exists>v'. cheby_test w = Some (v', cheby_report v') \<and> cheby_ready v'
      \<and> int (limbs_val (cv_Tn v')) = cheb N_arg (int X_arg) mod int P_arg
      \<and> int (limbs_val (cv_Tn_1 v')) = cheb (N_arg - 1) (int X_arg) mod int P_arg" if "cheby_ready w" for w
    using test_Tn_args [of w] that by (auto simp: cheby_test_def cheby_ready_def [of w])
  then show "\<exists>v'. cheby_test v = Some (v', cheby_report v') \<and> cheby_ready v'
      \<and> int (limbs_val (cv_Tn v')) = cheb N_arg (int X_arg) mod int P_arg
      \<and> int (limbs_val (cv_Tn_1 v')) = cheb (N_arg - 1) (int X_arg) mod int P_arg" using assms .
  obtain w where w: "test_Tn v = Some w" "cheby_ready w" using test_Tn_ready [OF assms] by blast
  show "\<exists>v' own. rt_test True info info_1 v = Some (v', own @ cheby_report v') \<and> cheby_ready v'
        \<and> int (limbs_val (cv_Tn v')) = cheb N_arg (int X_arg) mod int P_arg"
    using test [OF w(2)] w(1) by (cases info; cases info_1) (auto simp: rt_test_def)
qed

section \<open>The diode command\<close>

definition pin_level :: "app_event \<Rightarrow> bool option" where
  "pin_level e = (case e of Pin_write p b \<Rightarrow> if p = LED0_PIN then Some b else None | _ \<Rightarrow> None)"

lemma led_blinks: "List.map_filter pin_level (snd (led sp)) = concat (replicate 10 [False, True])"
proof -
  have e: "List.map_filter pin_level (concat (map led_round ns)) = concat (replicate (length ns) [False, True])" for ns
    by (induction ns) (simp_all add: led_round_def pin_level_def List.map_filter_simps)
  show ?thesis
    using e [of "[0..<10]"] by (simp add: led_def pin_level_def List.map_filter_simps del: upt_Suc upt_rec_numeral)
qed

end
