(* ===== verification/Eth_Dma.thy ===== *)
theory Eth_Dma
  imports Prelude
begin

text \<open>
  The Ethernet driver's data path (\<open>drv/drv_eth.c\<close>): the two chains of DMA descriptors as the HAL sets them up, the receive
  interrupt, the receive and transmit hooks the network stack calls, and the device operations.  A buffer address is an
  offset into \<open>Rx_Buff\<close> or \<open>Tx_Buff\<close>, the address of a descriptor its index in the table.  The DMA engine fills and releases
  descriptors on its own; its steps are part of the step relation \<open>eth_step\<close>.  An access outside the two arrays is \<open>None\<close>.
\<close>

section \<open>Constants and state\<close>

definition ETH_MAX_PACKET_SIZE :: nat where "ETH_MAX_PACKET_SIZE = 1520"

definition ETH_RXBUFNB :: nat where "ETH_RXBUFNB = 6"

definition ETH_TXBUFNB :: nat where "ETH_TXBUFNB = 6"

definition ETH_DMATxDesc_OWN :: u32 where "ETH_DMATxDesc_OWN = 0x80000000"
definition ETH_DMATxDesc_IC :: u32 where "ETH_DMATxDesc_IC = 0x40000000"
definition ETH_DMATxDesc_LS :: u32 where "ETH_DMATxDesc_LS = 0x20000000"
definition ETH_DMATxDesc_FS :: u32 where "ETH_DMATxDesc_FS = 0x10000000"
definition ETH_DMATxDesc_TCH :: u32 where "ETH_DMATxDesc_TCH = 0x00100000"
definition ETH_DMATxDesc_TBS1 :: u32 where "ETH_DMATxDesc_TBS1 = 0x00001FFF"
definition ETH_DMARxDesc_OWN :: u32 where "ETH_DMARxDesc_OWN = 0x80000000"
definition ETH_DMARxDesc_FL :: u32 where "ETH_DMARxDesc_FL = 0x3FFF0000"
definition ETH_DMARxDesc_ES :: u32 where "ETH_DMARxDesc_ES = 0x00008000"
definition ETH_DMARxDesc_RCH :: u32 where "ETH_DMARxDesc_RCH = 0x00004000"
definition ETH_DMARxDesc_FS :: u32 where "ETH_DMARxDesc_FS = 0x00000200"
definition ETH_DMARxDesc_LS :: u32 where "ETH_DMARxDesc_LS = 0x00000100"
definition ETH_DMASR_RBUS :: u32 where "ETH_DMASR_RBUS = 0x80"
definition ETH_DMASR_TUS :: u32 where "ETH_DMASR_TUS = 0x20"
definition ETH_DMASR_TBUS :: u32 where "ETH_DMASR_TBUS = 0x04"
definition ETH_DMA_IT_NIS :: u32 where "ETH_DMA_IT_NIS = 0x10000"
definition ETH_DMA_IT_R :: u32 where "ETH_DMA_IT_R = 0x40"
definition ETH_DMA_IT_T :: u32 where "ETH_DMA_IT_T = 0x01"
definition ETH_ERROR :: u32 where "ETH_ERROR = 0"

record ETH_DMADESC =
  Status :: u32
  ControlBufferSize :: u32
  Buffer1Addr :: nat
  Buffer2NextDescAddr :: nat

record FrameType =
  fr_length :: u32
  fr_buffer :: nat
  fr_descriptor :: "nat option"

datatype eth_msg =
    Rx_desc_own
  | Rx_error_frame u32
  | Rx_callback_err int
  | Tx_buffer_not_valid
  | P_null

record eth_dma =
  DMARxDscrTab :: "ETH_DMADESC list"
  DMATxDscrTab :: "ETH_DMADESC list"
  Rx_Buff :: bytes
  Tx_Buff :: bytes
  DMARxDescToGet :: nat
  DMATxDescToSet :: nat
  DMASR :: u32
  rx_polls :: nat
  tx_polls :: nat
  eth_frame :: FrameType
  eth_log :: "eth_msg list"

definition say :: "eth_msg \<Rightarrow> eth_dma \<Rightarrow> eth_dma" where
  "say m s = s\<lparr>eth_log := eth_log s @ [m]\<rparr>"

text \<open>The bits of the status register are cleared by writing ones.\<close>

definition write_DMASR :: "u32 \<Rightarrow> eth_dma \<Rightarrow> eth_dma" where
  "write_DMASR x s = s\<lparr>DMASR := DMASR s AND NOT x\<rparr>"

abbreviation rx_cur :: "eth_dma \<Rightarrow> ETH_DMADESC" where
  "rx_cur s \<equiv> DMARxDscrTab s ! DMARxDescToGet s"

abbreviation tx_cur :: "eth_dma \<Rightarrow> ETH_DMADESC" where
  "tx_cur s \<equiv> DMATxDscrTab s ! DMATxDescToSet s"

section \<open>The descriptor chains\<close>

definition chain_next :: "nat \<Rightarrow> nat \<Rightarrow> nat" where
  "chain_next count i = (if i < count - 1 then i + 1 else 0)"

definition ETH_DMATxDescChainInit :: "nat \<Rightarrow> eth_dma \<Rightarrow> eth_dma" where
  "ETH_DMATxDescChainInit count s = s\<lparr>DMATxDescToSet := 0,
     DMATxDscrTab := map (\<lambda>i. (DMATxDscrTab s ! i)\<lparr>Status := ETH_DMATxDesc_TCH OR ETH_DMATxDesc_IC,
       Buffer1Addr := i * ETH_MAX_PACKET_SIZE, Buffer2NextDescAddr := chain_next count i\<rparr>) [0..<count]\<rparr>"

definition ETH_DMARxDescChainInit :: "nat \<Rightarrow> eth_dma \<Rightarrow> eth_dma" where
  "ETH_DMARxDescChainInit count s = s\<lparr>DMARxDescToGet := 0,
     DMARxDscrTab := map (\<lambda>i. (DMARxDscrTab s ! i)\<lparr>Status := ETH_DMARxDesc_OWN,
       ControlBufferSize := ETH_DMARxDesc_RCH OR of_nat ETH_MAX_PACKET_SIZE,
       Buffer1Addr := i * ETH_MAX_PACKET_SIZE, Buffer2NextDescAddr := chain_next count i\<rparr>) [0..<count]\<rparr>"

section \<open>Receiving\<close>

definition ETH_RxPkt_ChainMode :: "eth_dma \<Rightarrow> eth_dma \<times> FrameType" where
  "ETH_RxPkt_ChainMode s =
     (let d = rx_cur s; frame = \<lparr>fr_length = 0, fr_buffer = 0, fr_descriptor = None\<rparr> in
      if Status d AND ETH_DMARxDesc_OWN \<noteq> 0
      then (let s = (if DMASR s AND ETH_DMASR_RBUS \<noteq> 0
                     then (write_DMASR ETH_DMASR_RBUS s)\<lparr>rx_polls := rx_polls s + 1\<rparr> else s)
            in (say Rx_desc_own s, frame\<lparr>fr_length := ETH_ERROR\<rparr>))
      else (let good = Status d AND ETH_DMARxDesc_ES = 0 \<and> Status d AND ETH_DMARxDesc_LS \<noteq> 0
                       \<and> Status d AND ETH_DMARxDesc_FS \<noteq> 0;
                framelength = (if good then drop_bit 16 (Status d AND ETH_DMARxDesc_FL) - 4 else ETH_ERROR);
                frame = (if good then frame\<lparr>fr_buffer := Buffer1Addr d\<rparr> else frame);
                s = (if good then s else say (Rx_error_frame (Status d)) s);
                s = s\<lparr>DMARxDscrTab := (DMARxDscrTab s)[DMARxDescToGet s := d\<lparr>Status := Status d OR ETH_DMARxDesc_OWN\<rparr>]\<rparr>;
                frame = frame\<lparr>fr_length := framelength, fr_descriptor := Some (DMARxDescToGet s)\<rparr>
            in (s\<lparr>DMARxDescToGet := Buffer2NextDescAddr d\<rparr>, frame)))"

text \<open>The interrupt routine; \<open>ready\<close> is what \<open>eth_device_ready\<close> answers.\<close>

definition ETH_IRQHandler :: "int \<Rightarrow> eth_dma \<Rightarrow> eth_dma" where
  "ETH_IRQHandler ready s =
     (let s = (if DMASR s AND ETH_DMA_IT_R \<noteq> 0
               then (let (s, frame) = ETH_RxPkt_ChainMode (write_DMASR ETH_DMA_IT_R s); s = s\<lparr>eth_frame := frame\<rparr>
                     in if ready \<noteq> 0 then say (Rx_callback_err ready) s else s)
               else s);
          s = (if DMASR s AND ETH_DMA_IT_T \<noteq> 0 then write_DMASR ETH_DMA_IT_T s else s)
      in write_DMASR ETH_DMA_IT_NIS s)"

text \<open>
  The copy into the packet buffers of the stack; \<open>pbuf_alloc\<close> gives the lengths of the buffers of the chain it has
  allocated for a frame of the given length.
\<close>

fun rx_copy :: "nat list \<Rightarrow> nat \<Rightarrow> bytes \<Rightarrow> bytes list option" where
  "rx_copy [] pos mem = Some []"
| "rx_copy (n # ns) pos mem =
     (if pos + n \<le> length mem then map_option (\<lambda>ps. take n (drop pos mem) # ps) (rx_copy ns (pos + n) mem) else None)"

definition rt_ch32_eth_rx :: "(nat \<Rightarrow> nat list option) \<Rightarrow> eth_dma \<Rightarrow> (eth_dma \<times> bytes list option) option" where
  "rt_ch32_eth_rx pbuf_alloc s =
     (if fr_length (eth_frame s) = 0 then Some (s, None)
      else let len = unat (fr_length (eth_frame s)) mod 2 ^ 16;
               s = s\<lparr>eth_frame := (eth_frame s)\<lparr>fr_length := 0\<rparr>\<rparr>;
               buffer = fr_buffer (eth_frame s)
           in case (if len > 0 then pbuf_alloc len else None) of
                Some ns \<Rightarrow> map_option (\<lambda>ps. (s, Some ps)) (rx_copy ns buffer (Rx_Buff s))
              | None \<Rightarrow> Some (say P_null s, None))"

section \<open>Transmitting\<close>

definition ERR_OK :: int where "ERR_OK = 0"

definition ERR_USE :: int where "ERR_USE = - 8"

text \<open>The loop over the packet buffers: whether it went to the end, the transmit memory and the length so far.\<close>

fun tx_copy :: "u32 \<Rightarrow> bytes list \<Rightarrow> nat \<Rightarrow> bytes \<Rightarrow> u32 \<Rightarrow> (bool \<times> bytes \<times> u32) option" where
  "tx_copy status [] buffer mem framelength = Some (True, mem, framelength)"
| "tx_copy status (q # qs) buffer mem framelength =
     (if status AND ETH_DMATxDesc_OWN \<noteq> 0 then Some (False, mem, framelength)
      else if buffer + length q \<le> length mem
      then tx_copy status qs (buffer + length q) (blit buffer q mem) (framelength + of_nat (length q))
      else None)"

definition rt_ch32_eth_tx :: "eth_dma \<Rightarrow> bytes list \<Rightarrow> (eth_dma \<times> int) option" where
  "rt_ch32_eth_tx s p =
     (let d = tx_cur s in
      case tx_copy (Status d) p (Buffer1Addr d) (Tx_Buff s) 0 of
        None \<Rightarrow> None
      | Some (ok, mem, framelength) \<Rightarrow>
          (let s = s\<lparr>Tx_Buff := mem\<rparr>;
               (s, ret) = (if ok
                 then (s\<lparr>DMATxDscrTab := (DMATxDscrTab s)[DMATxDescToSet s := d\<lparr>
                         ControlBufferSize := framelength AND ETH_DMATxDesc_TBS1,
                         Status := Status d OR (ETH_DMATxDesc_LS OR ETH_DMATxDesc_FS) OR ETH_DMATxDesc_OWN\<rparr>]\<rparr>, ERR_OK)
                 else (say Tx_buffer_not_valid s, ERR_USE));
               s = (if DMASR s AND ETH_DMASR_TBUS \<noteq> 0
                    then (write_DMASR ETH_DMASR_TUS s)\<lparr>tx_polls := tx_polls s + 1\<rparr> else s)
           in Some (s\<lparr>DMATxDescToSet := Buffer2NextDescAddr d\<rparr>, ret)))"

section \<open>The device\<close>

datatype eth_handler = H_init | H_open | H_close | H_read | H_write | H_control | H_rx | H_tx

record rt_ch32_eth =
  dev_addr :: bytes
  ETH_Speed_dev :: u32
  ETH_Mode_dev :: u32
  dev_handlers :: "eth_handler list"
  dev_errno :: int

definition rt_ch32_eth_open :: "rt_ch32_eth \<Rightarrow> rt_ch32_eth \<times> int" where
  "rt_ch32_eth_open dev = (dev, 0)"

definition rt_ch32_eth_close :: "rt_ch32_eth \<Rightarrow> rt_ch32_eth \<times> int" where
  "rt_ch32_eth_close dev = (dev, 0)"

definition rt_ch32_eth_read :: "rt_ch32_eth \<Rightarrow> rt_ch32_eth \<times> nat" where
  "rt_ch32_eth_read dev = (dev\<lparr>dev_errno := - 6\<rparr>, 0)"

definition rt_ch32_eth_write :: "rt_ch32_eth \<Rightarrow> rt_ch32_eth \<times> nat" where
  "rt_ch32_eth_write dev = (dev\<lparr>dev_errno := - 6\<rparr>, 0)"

text \<open>The result and, where one was passed, the argument buffer afterwards.\<close>

definition rt_ch32_eth_control :: "rt_ch32_eth \<Rightarrow> int \<Rightarrow> bytes option \<Rightarrow> int \<times> bytes option" where
  "rt_ch32_eth_control dev cmd args =
     (if cmd = 0x01
      then (case args of Some buf \<Rightarrow> (0, Some (blit 0 (take 6 (dev_addr dev)) buf)) | None \<Rightarrow> (- 1, None))
      else (0, args))"

text \<open>Registration; \<open>state\<close> is the result of \<open>eth_device_init\<close>.\<close>

definition rt_hw_ch32_eth_init :: "int \<Rightarrow> rt_ch32_eth \<Rightarrow> rt_ch32_eth \<times> int" where
  "rt_hw_ch32_eth_init state dev =
     (dev\<lparr>dev_addr := [0x84, 0xc2, 0xe6, 0x1, 0x2, 0x3],
          dev_handlers := [H_init, H_open, H_close, H_read, H_write, H_control, H_rx, H_tx]\<rparr>,
      if state = 0 then state else - 1)"

section \<open>The invariant\<close>

definition chain_ok :: "nat \<Rightarrow> ETH_DMADESC list \<Rightarrow> bool" where
  "chain_ok n ds \<longleftrightarrow> length ds = n \<and>
     list_all (\<lambda>i. Buffer1Addr (ds ! i) = i * ETH_MAX_PACKET_SIZE \<and> Buffer2NextDescAddr (ds ! i) = chain_next n i) [0..<n]"

text \<open>What the engine writes into a receive descriptor: a frame without error is at most as long as the buffer.\<close>

definition rx_good :: "u32 \<Rightarrow> bool" where
  "rx_good st \<longleftrightarrow> st AND ETH_DMARxDesc_ES = 0 \<and> st AND ETH_DMARxDesc_LS \<noteq> 0 \<and> st AND ETH_DMARxDesc_FS \<noteq> 0"

definition rx_len :: "u32 \<Rightarrow> nat" where
  "rx_len st = unat (drop_bit 16 (st AND ETH_DMARxDesc_FL))"

definition rx_status_ok :: "u32 \<Rightarrow> bool" where
  "rx_status_ok st \<longleftrightarrow> (st AND ETH_DMARxDesc_OWN = 0 \<and> rx_good st \<longrightarrow> 4 \<le> rx_len st \<and> rx_len st \<le> ETH_MAX_PACKET_SIZE)"

definition frame_ok :: "FrameType \<Rightarrow> bool" where
  "frame_ok f \<longleftrightarrow> (fr_length f \<noteq> 0 \<longrightarrow> fr_buffer f + unat (fr_length f) \<le> ETH_RXBUFNB * ETH_MAX_PACKET_SIZE
     \<and> unat (fr_length f) \<le> ETH_MAX_PACKET_SIZE)"

definition eth_ok :: "eth_dma \<Rightarrow> bool" where
  "eth_ok s \<longleftrightarrow> chain_ok ETH_RXBUFNB (DMARxDscrTab s) \<and> chain_ok ETH_TXBUFNB (DMATxDscrTab s)
     \<and> list_all (\<lambda>d. rx_status_ok (Status d)) (DMARxDscrTab s)
     \<and> length (Rx_Buff s) = ETH_RXBUFNB * ETH_MAX_PACKET_SIZE \<and> length (Tx_Buff s) = ETH_TXBUFNB * ETH_MAX_PACKET_SIZE
     \<and> DMARxDescToGet s < ETH_RXBUFNB \<and> DMATxDescToSet s < ETH_TXBUFNB \<and> frame_ok (eth_frame s)"

lemma chain_next_less: "0 < n \<Longrightarrow> i < n \<Longrightarrow> chain_next n i < n"
  by (auto simp: chain_next_def)

lemma chain_next_mod: "i < n \<Longrightarrow> chain_next n i = (i + 1) mod n"
  by (cases "i = n - 1") (auto simp: chain_next_def)

lemma chain_ok_at:
  "chain_ok n ds \<Longrightarrow> i < n \<Longrightarrow> Buffer1Addr (ds ! i) = i * ETH_MAX_PACKET_SIZE \<and> Buffer2NextDescAddr (ds ! i) = chain_next n i"
  by (simp add: chain_ok_def list_all_iff)

lemma chain_ok_update:
  assumes "chain_ok n ds" "Buffer1Addr d = Buffer1Addr (ds ! i)" "Buffer2NextDescAddr d = Buffer2NextDescAddr (ds ! i)"
  shows "chain_ok n (ds[i := d])"
  using assms by (cases "i < length ds") (auto simp: chain_ok_def list_all_iff nth_list_update)

lemma chain_ok_map:
  "(\<And>i. i < n \<Longrightarrow> Buffer1Addr (f i) = i * ETH_MAX_PACKET_SIZE \<and> Buffer2NextDescAddr (f i) = chain_next n i) \<Longrightarrow>
   chain_ok n (map f [0..<n])"
  by (simp add: chain_ok_def list_all_iff)

lemma own_or: "(x OR 0x80000000) AND 0x80000000 \<noteq> (0 :: u32)"
proof -
  have "(x OR 0x80000000) AND 0x80000000 = (0x80000000 :: u32)"
    by (simp add: bit_eq_iff bit_simps)
  then show ?thesis by simp
qed

lemmas eth_nums = ETH_RXBUFNB_def ETH_TXBUFNB_def ETH_MAX_PACKET_SIZE_def

lemma eth_ok_say [simp]: "eth_ok (say m s) = eth_ok s"
  by (simp add: eth_ok_def say_def)

lemma eth_ok_DMASR [simp]: "eth_ok (write_DMASR x s) = eth_ok s" "eth_ok (s\<lparr>rx_polls := k\<rparr>) = eth_ok s"
    "eth_ok (s\<lparr>tx_polls := k\<rparr>) = eth_ok s"
  by (simp_all add: eth_ok_def write_DMASR_def)

lemma rx_tab_ok:
  assumes "eth_ok s" "rx_status_ok st"
  shows "eth_ok (s\<lparr>DMARxDscrTab := (DMARxDscrTab s)[i := (DMARxDscrTab s ! i)\<lparr>Status := st\<rparr>]\<rparr>)"
  using assms unfolding eth_ok_def
  by (auto intro!: chain_ok_update simp: list_all_iff dest!: set_update_subset_insert [THEN subsetD])

section \<open>The receive path\<close>

lemma rxpkt_owned:
  assumes "Status (rx_cur s) AND ETH_DMARxDesc_OWN \<noteq> 0"
  shows "\<exists>s'. ETH_RxPkt_ChainMode s = (s', \<lparr>fr_length = 0, fr_buffer = 0, fr_descriptor = None\<rparr>)
    \<and> eth_ok s' = eth_ok s \<and> DMARxDescToGet s' = DMARxDescToGet s \<and> DMARxDscrTab s' = DMARxDscrTab s"
  using assms unfolding ETH_RxPkt_ChainMode_def Let_def
  by (simp add: ETH_ERROR_def) (simp add: say_def write_DMASR_def)

lemma rx_len_minus:
  assumes "4 \<le> rx_len st"
  shows "unat (drop_bit 16 (st AND ETH_DMARxDesc_FL) - 4) = rx_len st - 4"
proof -
  have "(4 :: u32) \<le> drop_bit 16 (st AND ETH_DMARxDesc_FL)" using assms by (simp add: rx_len_def word_le_nat_alt)
  then show ?thesis by (simp add: unat_sub rx_len_def)
qed

lemma rxpkt_taken:
  assumes "eth_ok s" "Status (rx_cur s) AND ETH_DMARxDesc_OWN = 0" "i = DMARxDescToGet s"
  shows "\<exists>s' f. ETH_RxPkt_ChainMode s = (s', f) \<and> eth_ok s' \<and> frame_ok f \<and> Rx_Buff s' = Rx_Buff s
    \<and> DMARxDescToGet s' = (i + 1) mod ETH_RXBUFNB \<and> Status (DMARxDscrTab s' ! i) AND ETH_DMARxDesc_OWN \<noteq> 0
    \<and> (if rx_good (Status (rx_cur s))
       then fr_buffer f = i * ETH_MAX_PACKET_SIZE \<and> unat (fr_length f) = rx_len (Status (rx_cur s)) - 4
       else fr_length f = 0)"
proof -
  let ?d = "rx_cur s" and ?st = "Status (rx_cur s)"
  define t where "t = (if rx_good ?st then s else say (Rx_error_frame ?st) s)"
  define f where "f = \<lparr>fr_length = (if rx_good ?st then drop_bit 16 (?st AND ETH_DMARxDesc_FL) - 4 else 0),
    fr_buffer = (if rx_good ?st then Buffer1Addr ?d else 0), fr_descriptor = Some i\<rparr>"
  have i: "i < ETH_RXBUFNB" "i < length (DMARxDscrTab s)" using assms(1,3) by (simp_all add: eth_ok_def chain_ok_def)
  have d: "Buffer1Addr ?d = i * ETH_MAX_PACKET_SIZE" "Buffer2NextDescAddr ?d = (i + 1) mod ETH_RXBUFNB"
    using chain_ok_at [of ETH_RXBUFNB "DMARxDscrTab s" i] chain_next_mod [OF i(1)] assms(1,3) i(1) by (simp_all add: eth_ok_def)
  have t: "DMARxDscrTab t = DMARxDscrTab s" "DMARxDescToGet t = i" "Rx_Buff t = Rx_Buff s"
    using assms by (simp_all add: t_def say_def)
  have ok: "eth_ok t" using assms by (simp add: t_def)
  have run: "ETH_RxPkt_ChainMode s = (t\<lparr>DMARxDscrTab := (DMARxDscrTab t)[i := (DMARxDscrTab t ! i)\<lparr>Status := ?st OR ETH_DMARxDesc_OWN\<rparr>],
      DMARxDescToGet := Buffer2NextDescAddr ?d\<rparr>, f)"
    using assms(2,3) t
    unfolding ETH_RxPkt_ChainMode_def Let_def t_def f_def rx_good_def [symmetric]
    by (simp add: ETH_ERROR_def)
  have own: "(?st OR ETH_DMARxDesc_OWN) AND ETH_DMARxDesc_OWN \<noteq> 0" unfolding ETH_DMARxDesc_OWN_def by (rule own_or)
  then have "eth_ok (t\<lparr>DMARxDscrTab := (DMARxDscrTab t)[i := (DMARxDscrTab t ! i)\<lparr>Status := ?st OR ETH_DMARxDesc_OWN\<rparr>]\<rparr>)"
    using ok by (intro rx_tab_ok) (simp_all add: rx_status_ok_def)
  moreover have "(i + 1) mod ETH_RXBUFNB < ETH_RXBUFNB" by (simp add: ETH_RXBUFNB_def)
  ultimately have "eth_ok (t\<lparr>DMARxDscrTab := (DMARxDscrTab t)[i := (DMARxDscrTab t ! i)\<lparr>Status := ?st OR ETH_DMARxDesc_OWN\<rparr>],
      DMARxDescToGet := Buffer2NextDescAddr ?d\<rparr>)" unfolding d(2) by (simp add: eth_ok_def)
  moreover have "4 \<le> rx_len ?st" "rx_len ?st \<le> ETH_MAX_PACKET_SIZE" if "rx_good ?st"
  proof -
    have "rx_status_ok ?st" using assms(1,3) i(2) by (simp add: eth_ok_def list_all_iff)
    then show "4 \<le> rx_len ?st" "rx_len ?st \<le> ETH_MAX_PACKET_SIZE" using that assms(2) by (simp_all add: rx_status_ok_def)
  qed
  ultimately show ?thesis
    unfolding run using t d own i rx_len_minus [of ?st]
    by (auto simp: f_def frame_ok_def eth_nums)
qed

lemma eth_ok_frame: "eth_ok s \<Longrightarrow> frame_ok f \<Longrightarrow> eth_ok (s\<lparr>eth_frame := f\<rparr>)"
  by (simp add: eth_ok_def)

lemma irq_ok:
  assumes "eth_ok s"
  shows "eth_ok (ETH_IRQHandler ready s)"
proof -
  let ?t = "write_DMASR ETH_DMA_IT_R s"
  obtain s' f where p: "ETH_RxPkt_ChainMode ?t = (s', f)" by fastforce
  have "eth_ok s' \<and> frame_ok f"
  proof (cases "Status (rx_cur ?t) AND ETH_DMARxDesc_OWN = 0")
    case True
    then show ?thesis using rxpkt_taken [of ?t] assms p by auto
  next
    case False
    then show ?thesis using rxpkt_owned [of ?t] assms p by (auto simp: frame_ok_def)
  qed
  then have "eth_ok (s'\<lparr>eth_frame := f\<rparr>)" by (blast intro: eth_ok_frame)
  then show ?thesis using assms unfolding ETH_IRQHandler_def Let_def by (simp add: p)
qed

lemma rx_copy_all:
  "pos + sum_list ns \<le> length mem \<Longrightarrow>
   \<exists>ps. rx_copy ns pos mem = Some ps \<and> map length ps = ns \<and> concat ps = take (sum_list ns) (drop pos mem)"
proof (induction ns arbitrary: pos)
  case (Cons n ns)
  then have "pos + n + sum_list ns \<le> length mem" by simp
  then obtain ps where "rx_copy ns (pos + n) mem = Some ps" "map length ps = ns"
    "concat ps = take (sum_list ns) (drop (pos + n) mem)" using Cons.IH by blast
  then show ?case using Cons.prems by (auto simp: take_add drop_drop add.commute)
qed simp

text \<open>The documented contract of \<open>pbuf_alloc\<close>: the buffers of the chain together have the length asked for.\<close>

definition honest_alloc :: "(nat \<Rightarrow> nat list option) \<Rightarrow> bool" where
  "honest_alloc alloc \<longleftrightarrow> (\<forall>len ns. alloc len = Some ns \<longrightarrow> sum_list ns = len)"

lemma eth_rx_spec:
  assumes "eth_ok s" "honest_alloc alloc"
  shows "\<exists>s' r. rt_ch32_eth_rx alloc s = Some (s', r) \<and> eth_ok s' \<and> fr_length (eth_frame s') = 0
    \<and> DMARxDescToGet s' = DMARxDescToGet s \<and> DMARxDscrTab s' = DMARxDscrTab s
    \<and> (case r of None \<Rightarrow> fr_length (eth_frame s) = 0 \<or> alloc (unat (fr_length (eth_frame s))) = None
       | Some ps \<Rightarrow> concat ps = take (unat (fr_length (eth_frame s))) (drop (fr_buffer (eth_frame s)) (Rx_Buff s)))"
proof (cases "fr_length (eth_frame s) = 0")
  case True
  then show ?thesis using assms by (simp add: rt_ch32_eth_rx_def)
next
  case False
  let ?n = "unat (fr_length (eth_frame s))"
  have f: "frame_ok (eth_frame s)" "length (Rx_Buff s) = ETH_RXBUFNB * ETH_MAX_PACKET_SIZE" using assms(1) by (simp_all add: eth_ok_def)
  then have n: "?n mod 2 ^ 16 = ?n" "fr_buffer (eth_frame s) + ?n \<le> length (Rx_Buff s)"
    using False by (auto simp: frame_ok_def eth_nums)
  have pos: "0 < ?n" using False by (simp add: unat_gt_0)
  define t where "t = s\<lparr>eth_frame := (eth_frame s)\<lparr>fr_length := 0\<rparr>\<rparr>"
  have t: "eth_ok t" "fr_length (eth_frame t) = 0" "DMARxDescToGet t = DMARxDescToGet s" "DMARxDscrTab t = DMARxDscrTab s"
      "fr_buffer (eth_frame t) = fr_buffer (eth_frame s)" "Rx_Buff t = Rx_Buff s"
    using assms(1) unfolding t_def by (simp_all add: eth_ok_def frame_ok_def)
  have run: "rt_ch32_eth_rx alloc s = (case alloc ?n of
      Some ns \<Rightarrow> map_option (\<lambda>ps. (t, Some ps)) (rx_copy ns (fr_buffer (eth_frame s)) (Rx_Buff s))
    | None \<Rightarrow> Some (say P_null t, None))"
    using False pos unfolding rt_ch32_eth_rx_def Let_def n(1) t_def [symmetric] t(5,6) by simp
  show ?thesis
  proof (cases "alloc ?n")
    case None
    then show ?thesis unfolding run using t by (simp add: say_def [of P_null t], simp flip: say_def)
  next
    case (Some ns)
    then have "sum_list ns = ?n" using assms(2) by (simp add: honest_alloc_def)
    then obtain ps where "rx_copy ns (fr_buffer (eth_frame s)) (Rx_Buff s) = Some ps"
      "concat ps = take ?n (drop (fr_buffer (eth_frame s)) (Rx_Buff s))"
      using rx_copy_all [of "fr_buffer (eth_frame s)" ns "Rx_Buff s"] n(2) by auto
    then show ?thesis unfolding run using Some t by simp
  qed
qed

section \<open>The transmit path\<close>

lemma blit_blit:
  "b \<le> length mem \<Longrightarrow> blit (b + length q) r (blit b q mem) = blit b (q @ r) mem"
  by (simp add: blit_def ac_simps)

lemma tx_copy_free:
  "status AND ETH_DMATxDesc_OWN = 0 \<Longrightarrow> b + length (concat ps) \<le> length mem \<Longrightarrow>
   tx_copy status ps b mem n = Some (True, blit b (concat ps) mem, n + of_nat (length (concat ps)))"
proof (induction ps arbitrary: b mem n)
  case Nil
  then show ?case by (simp add: blit_def)
next
  case (Cons q qs)
  have "length (blit b q mem) = length mem" using Cons.prems(2) by (intro length_blit) simp
  then show ?case
    using Cons.prems Cons.IH [of "b + length q" "blit b q mem" "n + of_nat (length q)"]
    by (simp add: blit_blit add.assoc)
qed

lemma tx_free_spec:
  assumes "eth_ok s" "length (concat p) \<le> ETH_MAX_PACKET_SIZE" "i = DMATxDescToSet s"
    and "Status (tx_cur s) AND ETH_DMATxDesc_OWN = 0"
  shows "\<exists>s'. rt_ch32_eth_tx s p = Some (s', ERR_OK) \<and> eth_ok s' \<and> DMATxDescToSet s' = (i + 1) mod ETH_TXBUFNB
    \<and> Tx_Buff s' = blit (i * ETH_MAX_PACKET_SIZE) (concat p) (Tx_Buff s)
    \<and> Status (DMATxDscrTab s' ! i) AND ETH_DMATxDesc_OWN \<noteq> 0
    \<and> unat (ControlBufferSize (DMATxDscrTab s' ! i)) = length (concat p)
    \<and> (\<forall>j. j \<noteq> i \<longrightarrow> DMATxDscrTab s' ! j = DMATxDscrTab s ! j)"
proof -
  let ?d = "tx_cur s" and ?n = "length (concat p)"
  have i: "i < ETH_TXBUFNB" "i < length (DMATxDscrTab s)" using assms(1,3) by (simp_all add: eth_ok_def chain_ok_def)
  have d: "Buffer1Addr ?d = i * ETH_MAX_PACKET_SIZE" "Buffer2NextDescAddr ?d = (i + 1) mod ETH_TXBUFNB"
    using chain_ok_at [of ETH_TXBUFNB "DMATxDscrTab s" i] chain_next_mod [OF i(1)] assms(1,3) i(1) by (simp_all add: eth_ok_def)
  have room: "Buffer1Addr ?d + ?n \<le> length (Tx_Buff s)" unfolding d(1) using assms(1,2) i(1) by (simp add: eth_ok_def eth_nums)
  define e where "e = ?d\<lparr>ControlBufferSize := of_nat ?n AND ETH_DMATxDesc_TBS1,
    Status := Status ?d OR (ETH_DMATxDesc_LS OR ETH_DMATxDesc_FS) OR ETH_DMATxDesc_OWN\<rparr>"
  define t where "t = s\<lparr>Tx_Buff := blit (Buffer1Addr ?d) (concat p) (Tx_Buff s), DMATxDscrTab := (DMATxDscrTab s)[i := e]\<rparr>"
  define u where "u = (if DMASR t AND ETH_DMASR_TBUS \<noteq> 0 then (write_DMASR ETH_DMASR_TUS t)\<lparr>tx_polls := tx_polls t + 1\<rparr> else t)"
  have run: "rt_ch32_eth_tx s p = Some (u\<lparr>DMATxDescToSet := Buffer2NextDescAddr ?d\<rparr>, ERR_OK)"
    unfolding rt_ch32_eth_tx_def Let_def tx_copy_free [OF assms(4) room] u_def t_def e_def
    using assms(3) by (simp add: write_DMASR_def)
  have ub: "Tx_Buff u = Tx_Buff t" "DMATxDscrTab u = DMATxDscrTab t" by (simp_all add: u_def write_DMASR_def)
  have "of_nat ?n AND ETH_DMATxDesc_TBS1 = (take_bit 13 (of_nat ?n) :: u32)"
    by (simp add: ETH_DMATxDesc_TBS1_def take_bit_eq_mask mask_eq_exp_minus_1)
  then have size: "unat (of_nat ?n AND ETH_DMATxDesc_TBS1 :: u32) = ?n"
    using assms(2) by (simp add: unat_take_bit_mod unat_of_nat ETH_MAX_PACKET_SIZE_def)
  have "chain_ok ETH_TXBUFNB ((DMATxDscrTab s)[i := e])"
    using assms(1,3) by (intro chain_ok_update) (simp_all add: eth_ok_def e_def)
  moreover have "length (blit (Buffer1Addr ?d) (concat p) (Tx_Buff s)) = length (Tx_Buff s)" using room by (rule length_blit)
  ultimately have "eth_ok t" using assms(1) by (simp add: eth_ok_def t_def)
  then have "eth_ok u" by (simp add: u_def)
  moreover have "(i + 1) mod ETH_TXBUFNB < ETH_TXBUFNB" by (simp add: ETH_TXBUFNB_def)
  ultimately have "eth_ok (u\<lparr>DMATxDescToSet := Buffer2NextDescAddr ?d\<rparr>)" unfolding d(2) by (simp add: eth_ok_def)
  moreover have "Status e AND ETH_DMATxDesc_OWN \<noteq> 0" unfolding e_def ETH_DMATxDesc_OWN_def
    using own_or [of "Status ?d OR (ETH_DMATxDesc_LS OR ETH_DMATxDesc_FS)"] by (simp add: or.assoc)
  ultimately show ?thesis
    unfolding run using ub i d size by (simp add: t_def, simp add: e_def)
qed

lemma tx_busy_spec:
  assumes "eth_ok s" "p \<noteq> []" "Status (tx_cur s) AND ETH_DMATxDesc_OWN \<noteq> 0"
  shows "\<exists>s'. rt_ch32_eth_tx s p = Some (s', ERR_USE) \<and> eth_ok s' \<and> Tx_Buff s' = Tx_Buff s
    \<and> DMATxDscrTab s' = DMATxDscrTab s \<and> DMATxDescToSet s' = (DMATxDescToSet s + 1) mod ETH_TXBUFNB"
proof -
  let ?d = "tx_cur s"
  have i: "DMATxDescToSet s < ETH_TXBUFNB" using assms(1) by (simp add: eth_ok_def)
  have d: "Buffer2NextDescAddr ?d = (DMATxDescToSet s + 1) mod ETH_TXBUFNB"
    using chain_ok_at [of ETH_TXBUFNB "DMATxDscrTab s"] chain_next_mod [OF i] assms(1) i by (simp add: eth_ok_def)
  define t where "t = say Tx_buffer_not_valid s"
  define u where "u = (if DMASR t AND ETH_DMASR_TBUS \<noteq> 0 then (write_DMASR ETH_DMASR_TUS t)\<lparr>tx_polls := tx_polls t + 1\<rparr> else t)"
  obtain q qs where p: "p = q # qs" using assms(2) by (cases p) auto
  have c: "tx_copy (Status ?d) p (Buffer1Addr ?d) (Tx_Buff s) 0 = Some (False, Tx_Buff s, 0)" using assms(3) p by simp
  have run: "rt_ch32_eth_tx s p = Some (u\<lparr>DMATxDescToSet := Buffer2NextDescAddr ?d\<rparr>, ERR_USE)"
    unfolding rt_ch32_eth_tx_def Let_def c u_def t_def by (simp add: write_DMASR_def)
  have "eth_ok u" using assms(1) by (simp add: u_def t_def)
  then have "eth_ok (u\<lparr>DMATxDescToSet := Buffer2NextDescAddr ?d\<rparr>)" unfolding d by (simp add: eth_ok_def ETH_TXBUFNB_def)
  then show ?thesis unfolding run using d by (simp add: u_def t_def write_DMASR_def say_def)
qed

section \<open>Reachable states\<close>

definition eth_zero :: eth_dma where
  "eth_zero = \<lparr>DMARxDscrTab = replicate ETH_RXBUFNB \<lparr>Status = 0, ControlBufferSize = 0, Buffer1Addr = 0, Buffer2NextDescAddr = 0\<rparr>,
     DMATxDscrTab = replicate ETH_TXBUFNB \<lparr>Status = 0, ControlBufferSize = 0, Buffer1Addr = 0, Buffer2NextDescAddr = 0\<rparr>,
     Rx_Buff = replicate (ETH_RXBUFNB * ETH_MAX_PACKET_SIZE) 0, Tx_Buff = replicate (ETH_TXBUFNB * ETH_MAX_PACKET_SIZE) 0,
     DMARxDescToGet = 0, DMATxDescToSet = 0, DMASR = 0, rx_polls = 0, tx_polls = 0,
     eth_frame = \<lparr>fr_length = 0, fr_buffer = 0, fr_descriptor = None\<rparr>, eth_log = []\<rparr>"

definition eth_started :: eth_dma where
  "eth_started = ETH_DMARxDescChainInit ETH_RXBUFNB (ETH_DMATxDescChainInit ETH_TXBUFNB eth_zero)"

text \<open>
  The driver in its environment.  The engine stores a frame in the buffer of a receive descriptor it owns, writes the status
  and raises status bits; it releases a transmit descriptor; the interrupt routine and the two hooks of the stack run.
\<close>

inductive eth_step :: "eth_dma \<Rightarrow> eth_dma \<Rightarrow> bool" where
  dma_rx: "i < ETH_RXBUFNB \<Longrightarrow> Status (DMARxDscrTab s ! i) AND ETH_DMARxDesc_OWN \<noteq> 0 \<Longrightarrow> rx_status_ok st \<Longrightarrow>
     length data \<le> ETH_MAX_PACKET_SIZE \<Longrightarrow>
     eth_step s (s\<lparr>DMARxDscrTab := (DMARxDscrTab s)[i := (DMARxDscrTab s ! i)\<lparr>Status := st\<rparr>],
                   Rx_Buff := blit (i * ETH_MAX_PACKET_SIZE) data (Rx_Buff s), DMASR := DMASR s OR bits\<rparr>)"
| dma_tx: "i < ETH_TXBUFNB \<Longrightarrow>
     eth_step s (s\<lparr>DMATxDscrTab := (DMATxDscrTab s)[i := (DMATxDscrTab s ! i)\<lparr>Status :=
                     Status (DMATxDscrTab s ! i) AND NOT ETH_DMATxDesc_OWN\<rparr>], DMASR := DMASR s OR bits\<rparr>)"
| irq: "eth_step s (ETH_IRQHandler ready s)"
| stack_rx: "honest_alloc alloc \<Longrightarrow> rt_ch32_eth_rx alloc s = Some (s', r) \<Longrightarrow> eth_step s s'"
| stack_tx: "length (concat p) \<le> ETH_MAX_PACKET_SIZE \<Longrightarrow> p \<noteq> [] \<Longrightarrow> rt_ch32_eth_tx s p = Some (s', ret) \<Longrightarrow> eth_step s s'"

inductive eth_reach :: "eth_dma \<Rightarrow> bool" where
  start: "eth_reach eth_started"
| step: "eth_reach s \<Longrightarrow> eth_step s s' \<Longrightarrow> eth_reach s'"

lemma chain_init_ok:
  assumes "length (Rx_Buff s) = ETH_RXBUFNB * ETH_MAX_PACKET_SIZE" "length (Tx_Buff s) = ETH_TXBUFNB * ETH_MAX_PACKET_SIZE"
    and "fr_length (eth_frame s) = 0"
  shows "eth_ok (ETH_DMARxDescChainInit ETH_RXBUFNB (ETH_DMATxDescChainInit ETH_TXBUFNB s))" (is "eth_ok ?t")
proof -
  have "chain_ok ETH_RXBUFNB (DMARxDscrTab ?t)" "chain_ok ETH_TXBUFNB (DMATxDscrTab ?t)"
    unfolding ETH_DMARxDescChainInit_def ETH_DMATxDescChainInit_def
    by (simp_all add: chain_ok_map del: upt_Suc upt_rec_numeral)
  moreover have "rx_status_ok ETH_DMARxDesc_OWN" by (simp add: rx_status_ok_def ETH_DMARxDesc_OWN_def)
  ultimately show ?thesis
    using assms unfolding eth_ok_def
    by (simp add: ETH_DMARxDescChainInit_def ETH_DMATxDescChainInit_def list_all_iff frame_ok_def
        ETH_RXBUFNB_def ETH_TXBUFNB_def del: upt_Suc upt_rec_numeral)
qed

lemma eth_started_ok: "eth_ok eth_started"
  unfolding eth_started_def by (rule chain_init_ok) (simp_all add: eth_zero_def)

lemma eth_step_ok:
  assumes "eth_step s s'" "eth_ok s"
  shows "eth_ok s'"
  using assms
proof (induction rule: eth_step.induct)
  case (dma_rx i s st data bits)
  have "length (blit (i * ETH_MAX_PACKET_SIZE) data (Rx_Buff s)) = length (Rx_Buff s)"
    using dma_rx by (intro length_blit) (simp add: eth_ok_def eth_nums)
  then show ?case using rx_tab_ok [OF dma_rx.prems dma_rx.hyps(3), of i] by (simp add: eth_ok_def)
next
  case (dma_tx i s bits)
  then show ?case by (auto simp: eth_ok_def intro!: chain_ok_update)
next
  case (irq s ready)
  then show ?case by (blast intro: irq_ok)
next
  case (stack_rx alloc s s' r)
  then show ?case using eth_rx_spec [of s alloc] by auto
next
  case (stack_tx p s s' ret)
  then show ?case
    using tx_free_spec [of s p] tx_busy_spec [of s p] by (cases "Status (tx_cur s) AND ETH_DMATxDesc_OWN = 0") auto
qed

lemma eth_reach_ok: "eth_reach s \<Longrightarrow> eth_ok s"
  by (induction rule: eth_reach.induct) (auto intro: eth_started_ok eth_step_ok)

section \<open>Properties\<close>



text \<open>
  C10.  Sending a frame that fits a buffer.  When the current descriptor is free, the buffer of that descriptor holds the
  concatenated payloads afterwards and nothing else changes in the transmit memory, the descriptor carries the frame's
  length and belongs to the engine, no other descriptor changes, and the next descriptor becomes current.  When the engine
  still owns it, the frame is refused and nothing is copied; the next descriptor becomes current all the same.
\<close>

theorem eth_tx_spec:
  assumes "eth_ok s" "p \<noteq> []" "length (concat p) \<le> ETH_MAX_PACKET_SIZE" "i = DMATxDescToSet s"
  shows "if Status (tx_cur s) AND ETH_DMATxDesc_OWN = 0
    then \<exists>s'. rt_ch32_eth_tx s p = Some (s', ERR_OK) \<and> eth_ok s' \<and> DMATxDescToSet s' = (i + 1) mod ETH_TXBUFNB
      \<and> Tx_Buff s' = blit (i * ETH_MAX_PACKET_SIZE) (concat p) (Tx_Buff s)
      \<and> Status (DMATxDscrTab s' ! i) AND ETH_DMATxDesc_OWN \<noteq> 0
      \<and> unat (ControlBufferSize (DMATxDscrTab s' ! i)) = length (concat p)
      \<and> (\<forall>j. j \<noteq> i \<longrightarrow> DMATxDscrTab s' ! j = DMATxDscrTab s ! j)
    else \<exists>s'. rt_ch32_eth_tx s p = Some (s', ERR_USE) \<and> eth_ok s' \<and> Tx_Buff s' = Tx_Buff s
      \<and> DMATxDscrTab s' = DMATxDscrTab s \<and> DMATxDescToSet s' = (i + 1) mod ETH_TXBUFNB"
  using tx_free_spec [OF assms(1,3,4)] tx_busy_spec [OF assms(1,2)] assms(4) by (simp split del: if_split split: if_split)

theorem eth_tx_spec_witness:
  "\<exists>s'. rt_ch32_eth_tx eth_started [[1, 2], [3]] = Some (s', ERR_OK) \<and> DMATxDescToSet s' = 1
     \<and> Tx_Buff s' = blit 0 [1, 2, 3] (Tx_Buff eth_started) \<and> unat (ControlBufferSize (DMATxDscrTab s' ! 0)) = 3"
proof -
  have z: "DMATxDescToSet eth_started = 0"
    by (simp add: eth_started_def ETH_DMATxDescChainInit_def ETH_DMARxDescChainInit_def)
  have "tx_cur eth_started = (DMATxDscrTab eth_zero ! 0)\<lparr>Status := ETH_DMATxDesc_TCH OR ETH_DMATxDesc_IC,
      Buffer1Addr := 0, Buffer2NextDescAddr := chain_next ETH_TXBUFNB 0\<rparr>"
    unfolding z by (simp add: eth_started_def ETH_DMATxDescChainInit_def ETH_DMARxDescChainInit_def ETH_TXBUFNB_def)
  then have "Status (tx_cur eth_started) AND ETH_DMATxDesc_OWN = 0"
    by (simp add: ETH_DMATxDesc_TCH_def ETH_DMATxDesc_IC_def ETH_DMATxDesc_OWN_def)
  moreover have "[[1, 2], [3 :: u8]] \<noteq> []" "length (concat [[1, 2], [3 :: u8]]) \<le> ETH_MAX_PACKET_SIZE"
    by (simp_all add: ETH_MAX_PACKET_SIZE_def)
  ultimately show ?thesis
    using eth_tx_spec [OF eth_started_ok, of "[[1, 2], [3]]" 0] z by (auto simp: ETH_TXBUFNB_def)
qed

lemma irq_receive:
  assumes "DMASR s AND ETH_DMA_IT_R \<noteq> 0" "ETH_RxPkt_ChainMode (write_DMASR ETH_DMA_IT_R s) = (t, f)"
  shows "eth_frame (ETH_IRQHandler ready s) = f" "Rx_Buff (ETH_IRQHandler ready s) = Rx_Buff t"
    "DMARxDscrTab (ETH_IRQHandler ready s) = DMARxDscrTab t" "DMARxDescToGet (ETH_IRQHandler ready s) = DMARxDescToGet t"
  using assms by (simp_all add: ETH_IRQHandler_def Let_def write_DMASR_def say_def)

text \<open>
  C9.  Receiving.  After a receive interrupt on a descriptor the engine has released, the stack's next call delivers exactly
  the frame in that descriptor's buffer, without the four bytes of the checksum, split into the buffers allocated for it; a
  frame the engine marked as faulty or incomplete is delivered not at all.  Either way the descriptor is given back to the
  engine and the next one is current.
\<close>

theorem eth_receive_frame:
  assumes "eth_ok s" "DMASR s AND ETH_DMA_IT_R \<noteq> 0" "honest_alloc alloc" "i = DMARxDescToGet s"
    and "st = Status (rx_cur s)" "st AND ETH_DMARxDesc_OWN = 0" "rx_len st \<noteq> 4" "alloc (rx_len st - 4) \<noteq> None"
  shows "\<exists>s' r. rt_ch32_eth_rx alloc (ETH_IRQHandler ready s) = Some (s', r) \<and> eth_ok s'
    \<and> DMARxDescToGet s' = (i + 1) mod ETH_RXBUFNB \<and> Status (DMARxDscrTab s' ! i) AND ETH_DMARxDesc_OWN \<noteq> 0
    \<and> (if rx_good st then \<exists>ps. r = Some ps \<and> concat ps = take (rx_len st - 4) (drop (i * ETH_MAX_PACKET_SIZE) (Rx_Buff s))
       else r = None)"
proof -
  let ?w = "write_DMASR ETH_DMA_IT_R s" and ?q = "ETH_IRQHandler ready s"
  have w: "DMARxDscrTab ?w = DMARxDscrTab s" "DMARxDescToGet ?w = i" "Rx_Buff ?w = Rx_Buff s" "eth_ok ?w"
    using assms(1,4) by (simp_all add: write_DMASR_def [of ETH_DMA_IT_R s], simp_all flip: write_DMASR_def)
  have st: "Status (DMARxDscrTab s ! i) = st" using assms(4,5) by simp
  have "Status (rx_cur ?w) AND ETH_DMARxDesc_OWN = 0" unfolding w st by (rule assms(6))
  from rxpkt_taken [OF w(4) this refl] obtain t f where p: "ETH_RxPkt_ChainMode ?w = (t, f)" "Rx_Buff t = Rx_Buff s"
    "DMARxDescToGet t = (i + 1) mod ETH_RXBUFNB" "Status (DMARxDscrTab t ! i) AND ETH_DMARxDesc_OWN \<noteq> 0"
    "if rx_good st then fr_buffer f = i * ETH_MAX_PACKET_SIZE \<and> unat (fr_length f) = rx_len st - 4 else fr_length f = 0"
    unfolding w st by blast
  note q = irq_receive [OF assms(2) p(1), of ready]
  obtain s' r where r: "rt_ch32_eth_rx alloc ?q = Some (s', r)" "eth_ok s'" "DMARxDescToGet s' = DMARxDescToGet ?q"
    "DMARxDscrTab s' = DMARxDscrTab ?q"
    "case r of None \<Rightarrow> fr_length f = 0 \<or> alloc (unat (fr_length f)) = None
     | Some ps \<Rightarrow> concat ps = take (unat (fr_length f)) (drop (fr_buffer f) (Rx_Buff s))"
    using eth_rx_spec [OF irq_ok [OF assms(1), of ready] assms(3)] unfolding q p(2) by blast
  have "r = None" if "\<not> rx_good st"
  proof -
    have "rt_ch32_eth_rx alloc ?q = Some (?q, None)" using p(5) that q(1) by (simp add: rt_ch32_eth_rx_def)
    then show ?thesis using r(1) by simp
  qed
  moreover have "4 \<le> rx_len st" if "rx_good st"
  proof -
    have "rx_status_ok st" using assms(1,4,5) by (simp add: eth_ok_def chain_ok_def list_all_iff)
    then show ?thesis using that assms(6) by (simp add: rx_status_ok_def)
  qed
  then have "unat (fr_length f) \<noteq> 0 \<and> alloc (unat (fr_length f)) \<noteq> None" if "rx_good st" using that p(5) assms(7,8) by simp
  then have "\<exists>ps. r = Some ps \<and> concat ps = take (rx_len st - 4) (drop (i * ETH_MAX_PACKET_SIZE) (Rx_Buff s))" if "rx_good st"
    using that r(5) p(5) by (cases r) auto
  ultimately show ?thesis using r q p by auto
qed

theorem eth_receive_frame_witness:
  "\<exists>s' ps. rt_ch32_eth_rx (\<lambda>n. Some [n]) (ETH_IRQHandler 0 (eth_started\<lparr>DMARxDscrTab :=
       (DMARxDscrTab eth_started)[0 := (DMARxDscrTab eth_started ! 0)\<lparr>Status := 0x00400300\<rparr>], DMASR := 0x40\<rparr>)) = Some (s', Some ps)
     \<and> concat ps = take 60 (Rx_Buff eth_started) \<and> DMARxDescToGet s' = 1"
proof -
  let ?t = "eth_started\<lparr>DMARxDscrTab := (DMARxDscrTab eth_started)[0 := (DMARxDscrTab eth_started ! 0)\<lparr>Status := 0x00400300\<rparr>]\<rparr>"
  let ?s = "?t\<lparr>DMASR := 0x40\<rparr>"
  have st: "rx_len 0x00400300 = 64" "rx_good 0x00400300" "(0x00400300 :: u32) AND ETH_DMARxDesc_OWN = 0"
    by (simp_all add: rx_len_def rx_good_def ETH_DMARxDesc_FL_def ETH_DMARxDesc_OWN_def ETH_DMARxDesc_ES_def
        ETH_DMARxDesc_LS_def ETH_DMARxDesc_FS_def)
  have "eth_ok ?t" using st by (intro rx_tab_ok eth_started_ok) (simp add: rx_status_ok_def ETH_MAX_PACKET_SIZE_def)
  then have ok: "eth_ok ?s" by (simp add: eth_ok_def)
  have z: "DMARxDescToGet eth_started = 0" "length (DMARxDscrTab eth_started) = 6"
    using eth_started_ok by (simp_all add: eth_started_def ETH_DMARxDescChainInit_def eth_ok_def chain_ok_def ETH_RXBUFNB_def)
  have it: "DMASR ?s AND ETH_DMA_IT_R \<noteq> 0" by (simp add: ETH_DMA_IT_R_def)
  have al: "honest_alloc (\<lambda>n. Some [n])" by (simp add: honest_alloc_def)
  have i: "0 = DMARxDescToGet ?s" "0x00400300 = Status (rx_cur ?s)" using z by simp_all
  show ?thesis
    using eth_receive_frame [OF ok it al i st(3), of 0] st(1,2) by (auto simp: ETH_RXBUFNB_def)
qed

text \<open>
  There is one global frame: a second receive interrupt before the stack has fetched the first frame replaces it, whatever it
  was, and the first frame is lost although its descriptor has been given back.
\<close>

lemma irq_replaces_frame:
  assumes "DMASR s AND ETH_DMA_IT_R \<noteq> 0"
  shows "eth_frame (ETH_IRQHandler ready (s\<lparr>eth_frame := f\<rparr>)) = eth_frame (ETH_IRQHandler ready (s\<lparr>eth_frame := g\<rparr>))"
proof -
  let ?w = "write_DMASR ETH_DMA_IT_R"
  obtain t h where p: "ETH_RxPkt_ChainMode (?w s) = (t, h)" by fastforce
  have "snd (ETH_RxPkt_ChainMode (?w (s\<lparr>eth_frame := k\<rparr>))) = snd (ETH_RxPkt_ChainMode (?w s))" for k
    by (simp add: ETH_RxPkt_ChainMode_def Let_def write_DMASR_def say_def)
  then have "\<exists>t. ETH_RxPkt_ChainMode (?w (s\<lparr>eth_frame := k\<rparr>)) = (t, h)" for k using p by (metis prod.collapse snd_conv)
  then obtain t1 t2 where "ETH_RxPkt_ChainMode (?w (s\<lparr>eth_frame := f\<rparr>)) = (t1, h)"
    "ETH_RxPkt_ChainMode (?w (s\<lparr>eth_frame := g\<rparr>)) = (t2, h)" by blast
  then show ?thesis using irq_receive(1) [of "s\<lparr>eth_frame := f\<rparr>"] irq_receive(1) [of "s\<lparr>eth_frame := g\<rparr>"] assms by simp
qed

end
