(* ===== verification/Eth_Setup.thy ===== *)
theory Eth_Setup
  imports Eth_Dma
begin

text \<open>
  Bringing the Ethernet device up: the management interface of the transceiver and the default configuration (HAL,
  \<open>ch32v30x_eth.c\<close>), \<open>ETH_Init\<close> and \<open>rt_ch32_eth_init\<close> (\<open>drv/drv_eth.c\<close>), for the built-in 10BASE-T transceiver.  What the
  transceiver answers is a script: one entry per register access, with the readings of the busy bit, the register's value
  and the milliseconds passed since the wait began.  A \<open>while(1)\<close> is \<open>Hang\<close>; \<open>Pending\<close> means the script is used up.
\<close>

section \<open>The configuration\<close>

record ETH_InitTypeDef =
  ETH_AutoNegotiation :: u32
  ETH_Watchdog :: u32
  ETH_Jabber :: u32
  ETH_InterFrameGap :: u32
  ETH_CarrierSense :: u32
  ETH_Speed :: u32
  ETH_ReceiveOwn :: u32
  ETH_LoopbackMode :: u32
  ETH_Mode :: u32
  ETH_ChecksumOffload :: u32
  ETH_RetryTransmission :: u32
  ETH_AutomaticPadCRCStrip :: u32
  ETH_BackOffLimit :: u32
  ETH_DeferralCheck :: u32
  ETH_ReceiveAll :: u32
  ETH_SourceAddrFilter :: u32
  ETH_PassControlFrames :: u32
  ETH_BroadcastFramesReception :: u32
  ETH_DestinationAddrFilter :: u32
  ETH_PromiscuousMode :: u32
  ETH_MulticastFramesFilter :: u32
  ETH_UnicastFramesFilter :: u32
  ETH_HashTableHigh :: u32
  ETH_HashTableLow :: u32
  ETH_PauseTime :: u32
  ETH_ZeroQuantaPause :: u32
  ETH_PauseLowThreshold :: u32
  ETH_UnicastPauseFrameDetect :: u32
  ETH_ReceiveFlowControl :: u32
  ETH_TransmitFlowControl :: u32
  ETH_VLANTagComparison :: u32
  ETH_VLANTagIdentifier :: u32
  ETH_DropTCPIPChecksumErrorFrame :: u32
  ETH_ReceiveStoreForward :: u32
  ETH_FlushReceivedFrame :: u32
  ETH_TransmitStoreForward :: u32
  ETH_TransmitThresholdControl :: u32
  ETH_ForwardErrorFrames :: u32
  ETH_ForwardUndersizedGoodFrames :: u32
  ETH_ReceiveThresholdControl :: u32
  ETH_SecondFrameOperate :: u32
  ETH_AddressAlignedBeats :: u32
  ETH_FixedBurst :: u32
  ETH_RxDMABurstLength :: u32
  ETH_TxDMABurstLength :: u32
  ETH_DescriptorSkipLength :: u32
  ETH_DMAArbitration :: u32

text \<open>The values are those of the macros the code names.\<close>

definition ETH_StructInit :: ETH_InitTypeDef where
  "ETH_StructInit = \<lparr>
     ETH_AutoNegotiation = 0, ETH_Watchdog = 0, ETH_Jabber = 0, ETH_InterFrameGap = 0, ETH_CarrierSense = 0,
     ETH_Speed = 0, ETH_ReceiveOwn = 0, ETH_LoopbackMode = 0, ETH_Mode = 0, ETH_ChecksumOffload = 0,
     ETH_RetryTransmission = 0, ETH_AutomaticPadCRCStrip = 0, ETH_BackOffLimit = 0, ETH_DeferralCheck = 0,
     ETH_ReceiveAll = 0, ETH_SourceAddrFilter = 0, ETH_PassControlFrames = 0x40, ETH_BroadcastFramesReception = 0x20,
     ETH_DestinationAddrFilter = 0, ETH_PromiscuousMode = 0, ETH_MulticastFramesFilter = 0,
     ETH_UnicastFramesFilter = 0, ETH_HashTableHigh = 0, ETH_HashTableLow = 0, ETH_PauseTime = 0,
     ETH_ZeroQuantaPause = 0x80, ETH_PauseLowThreshold = 0, ETH_UnicastPauseFrameDetect = 0,
     ETH_ReceiveFlowControl = 0, ETH_TransmitFlowControl = 0, ETH_VLANTagComparison = 0, ETH_VLANTagIdentifier = 0,
     ETH_DropTCPIPChecksumErrorFrame = 0x4000000, ETH_ReceiveStoreForward = 0x2000000, ETH_FlushReceivedFrame = 0,
     ETH_TransmitStoreForward = 0x200000, ETH_TransmitThresholdControl = 0, ETH_ForwardErrorFrames = 0,
     ETH_ForwardUndersizedGoodFrames = 0, ETH_ReceiveThresholdControl = 0, ETH_SecondFrameOperate = 0,
     ETH_AddressAlignedBeats = 0x2000000, ETH_FixedBurst = 0, ETH_RxDMABurstLength = 0x20000,
     ETH_TxDMABurstLength = 0x100, ETH_DescriptorSkipLength = 0, ETH_DMAArbitration = 0\<rparr>"

text \<open>The assignments of \<open>rt_ch32_eth_init\<close> on top of the defaults.\<close>

definition eth_config :: "ETH_InitTypeDef \<Rightarrow> ETH_InitTypeDef" where
  "eth_config cfg = cfg\<lparr>
     ETH_Mode := 0x800, ETH_Speed := 0x8000, ETH_AutoNegotiation := 0x1, ETH_LoopbackMode := 0,
     ETH_RetryTransmission := 0x200, ETH_AutomaticPadCRCStrip := 0, ETH_ReceiveAll := 0x80000000,
     ETH_BroadcastFramesReception := 0, ETH_PromiscuousMode := 0x1, ETH_MulticastFramesFilter := 0,
     ETH_UnicastFramesFilter := 0, ETH_DropTCPIPChecksumErrorFrame := 0, ETH_ReceiveStoreForward := 0x2000000,
     ETH_TransmitStoreForward := 0x200000, ETH_ForwardErrorFrames := 0x80, ETH_ForwardUndersizedGoodFrames := 0x40,
     ETH_SecondFrameOperate := 0, ETH_AddressAlignedBeats := 0x2000000, ETH_FixedBurst := 0x10000,
     ETH_RxDMABurstLength := 0x400000, ETH_TxDMABurstLength := 0x2000, ETH_DMAArbitration := 0x4000\<rparr>"

section \<open>Registers\<close>

record eth_regs =
  MACMIIAR :: u32
  MACCR :: u32
  MACFFR :: u32
  MACHTHR :: u32
  MACHTLR :: u32
  MACFCR :: u32
  MACVLANTR :: u32
  DMAOMR :: u32
  DMABMR :: u32
  DMAIER :: u32

datatype setup_msg = Eth_error | Eth_success | Rst_finish | Reset_timeout | Link_timeout | Autoneg_timeout

record eth_hw =
  regs_of_hw :: eth_regs
  dma_of_hw :: eth_dma
  dev_of_hw :: rt_ch32_eth
  link_changes :: "bool list"
  setup_log :: "setup_msg list"

definition upd_regs :: "(eth_regs \<Rightarrow> eth_regs) \<Rightarrow> eth_hw \<Rightarrow> eth_hw" where
  "upd_regs f hw = hw\<lparr>regs_of_hw := f (regs_of_hw hw)\<rparr>"

definition tell :: "setup_msg \<Rightarrow> eth_hw \<Rightarrow> eth_hw" where
  "tell m hw = hw\<lparr>setup_log := setup_log hw @ [m]\<rparr>"

section \<open>The management interface\<close>

type_synonym phy_access = "bool list \<times> u16 \<times> nat"

text \<open>The loop that waits for the busy bit: the counter at its end.\<close>

fun mii_poll :: "nat \<Rightarrow> nat \<Rightarrow> bool list \<Rightarrow> nat option" where
  "mii_poll limit timeout [] = None"
| "mii_poll limit timeout (busy # bs) =
     (let timeout = timeout + 1 in if busy \<and> timeout < limit then mii_poll limit timeout bs else Some timeout)"

definition PHY_READ_TO :: nat where "PHY_READ_TO = 0x004FFFFF"

definition PHY_WRITE_TO :: nat where "PHY_WRITE_TO = 0x0004FFFF"

definition mii_address :: "u16 \<Rightarrow> u16 \<Rightarrow> u32 \<Rightarrow> u32" where
  "mii_address PHYAddress PHYReg tmpreg =
     (tmpreg AND NOT 0xFFFFFFE3) OR (push_bit 11 (ucast PHYAddress) AND 0xF800) OR (push_bit 6 (ucast PHYReg) AND 0x7C0)"

text \<open>The engine clears the busy bit it was given.\<close>

definition ETH_ReadPHYRegister :: "u16 \<Rightarrow> u16 \<Rightarrow> phy_access \<Rightarrow> eth_hw \<Rightarrow> (eth_hw \<times> u16) option" where
  "ETH_ReadPHYRegister PHYAddress PHYReg acc hw =
     (case acc of (busy, val, _) \<Rightarrow>
        let hw = upd_regs (\<lambda>r. r\<lparr>MACMIIAR := mii_address PHYAddress PHYReg (MACMIIAR r) AND NOT 2\<rparr>) hw in
        case mii_poll PHY_READ_TO 0 busy of
          None \<Rightarrow> None
        | Some timeout \<Rightarrow> Some (if timeout = PHY_READ_TO then (tell Eth_error hw, 0) else (hw, val)))"

definition ETH_WritePHYRegister :: "u16 \<Rightarrow> u16 \<Rightarrow> u16 \<Rightarrow> bool list \<Rightarrow> eth_hw \<Rightarrow> (eth_hw \<times> u32) option" where
  "ETH_WritePHYRegister PHYAddress PHYReg PHYValue busy hw =
     (let hw = upd_regs (\<lambda>r. r\<lparr>MACMIIAR := mii_address PHYAddress PHYReg (MACMIIAR r) OR 2\<rparr>) hw in
      case mii_poll PHY_WRITE_TO 0 busy of
        None \<Rightarrow> None
      | Some timeout \<Rightarrow> Some (if timeout \<ge> PHY_WRITE_TO then (tell Eth_error hw, 0) else (tell Eth_success hw, 1)))"

section \<open>\<open>ETH_Init\<close>\<close>

datatype 'a setup_result = Done 'a | Hang setup_msg eth_hw | Pending

primrec setup_bind :: "'a setup_result \<Rightarrow> ('a \<Rightarrow> 'b setup_result) \<Rightarrow> 'b setup_result" where
  "setup_bind (Done x) f = f x"
| "setup_bind (Hang m hw) f = Hang m hw"
| "setup_bind Pending f = Pending"

text \<open>One of the three loops that read a register until it is ready, and hang after the limit.\<close>

fun phy_wait ::
  "(u16 \<Rightarrow> bool) \<Rightarrow> u16 \<Rightarrow> nat \<Rightarrow> setup_msg \<Rightarrow> u16 \<Rightarrow> phy_access list \<Rightarrow> eth_hw \<Rightarrow> (eth_hw \<times> phy_access list) setup_result" where
  "phy_wait ready reg limit msg RegValue accs hw =
     (if ready RegValue then Done (hw, accs)
      else case accs of
        [] \<Rightarrow> Pending
      | acc # accs \<Rightarrow> (case ETH_ReadPHYRegister 1 reg acc hw of
          None \<Rightarrow> Pending
        | Some (hw, RegValue) \<Rightarrow>
            if snd (snd acc) > limit then Hang msg (tell msg hw) else phy_wait ready reg limit msg RegValue accs hw))"

declare phy_wait.simps [simp del]

text \<open>
  The part of \<open>ETH_Init\<close> before the negotiated mode is read.  The wait of one second after the reset command only lets time
  pass and has no place in the model.
\<close>

definition phy_up :: "bool list \<Rightarrow> phy_access list \<Rightarrow> eth_hw \<Rightarrow> (eth_hw \<times> phy_access list) setup_result" where
  "phy_up busy accs hw =
     (let hw = upd_regs (\<lambda>r. r\<lparr>MACMIIAR := MACMIIAR r AND 0xFFFFFFE3\<rparr>) hw in
      case ETH_WritePHYRegister 1 0 0x8000 busy hw of
        None \<Rightarrow> Pending
      | Some (hw, _) \<Rightarrow>
          setup_bind (phy_wait (\<lambda>v. v AND 0x8000 = 0) 0 10000 Reset_timeout 0x8000 accs hw) (\<lambda>(hw, accs).
          setup_bind (phy_wait (\<lambda>v. v AND 0x0004 \<noteq> 0) 1 100000 Link_timeout 0 accs hw) (\<lambda>(hw, accs).
          phy_wait (\<lambda>v. v AND 0x0020 \<noteq> 0) 1 10000 Autoneg_timeout 0 accs hw)))"

definition eth_negotiated :: "u16 \<Rightarrow> ETH_InitTypeDef \<Rightarrow> eth_hw \<Rightarrow> ETH_InitTypeDef \<times> eth_hw" where
  "eth_negotiated RegValue cfg hw =
     (let mode = (if RegValue AND push_bit 8 1 \<noteq> 0 then 0x800 else 0);
          speed = (if RegValue AND push_bit 13 1 \<noteq> 0 then 0x4000 else 0)
      in (cfg\<lparr>ETH_Mode := mode, ETH_Speed := speed\<rparr>,
          hw\<lparr>dev_of_hw := (dev_of_hw hw)\<lparr>ETH_Mode_dev := mode, ETH_Speed_dev := speed\<rparr>,
             link_changes := link_changes hw @ [True]\<rparr>))"

definition eth_mac_config :: "ETH_InitTypeDef \<Rightarrow> eth_regs \<Rightarrow> eth_regs" where
  "eth_mac_config c r =
     (let r = r\<lparr>MACCR := (MACCR r AND 0xFF20810F) OR (ETH_Watchdog c OR ETH_Jabber c OR ETH_InterFrameGap c OR
            ETH_CarrierSense c OR ETH_Speed c OR ETH_ReceiveOwn c OR ETH_LoopbackMode c OR ETH_Mode c OR
            ETH_ChecksumOffload c OR ETH_RetryTransmission c OR ETH_AutomaticPadCRCStrip c OR ETH_BackOffLimit c OR
            ETH_DeferralCheck c)\<rparr>;
          r = r\<lparr>MACCR := MACCR r OR 0x00100000\<rparr>;
          r = r\<lparr>MACFFR := ETH_ReceiveAll c OR ETH_SourceAddrFilter c OR ETH_PassControlFrames c OR
            ETH_BroadcastFramesReception c OR ETH_DestinationAddrFilter c OR ETH_PromiscuousMode c OR
            ETH_MulticastFramesFilter c OR ETH_UnicastFramesFilter c,
            MACHTHR := ETH_HashTableHigh c, MACHTLR := ETH_HashTableLow c\<rparr>;
          r = r\<lparr>MACFCR := (MACFCR r AND 0x0000FF41) OR (push_bit 16 (ETH_PauseTime c) OR ETH_ZeroQuantaPause c OR
            ETH_PauseLowThreshold c OR ETH_UnicastPauseFrameDetect c OR ETH_ReceiveFlowControl c OR ETH_TransmitFlowControl c)\<rparr>
      in r\<lparr>MACVLANTR := ETH_VLANTagComparison c OR ETH_VLANTagIdentifier c\<rparr>)"

definition eth_dma_config :: "ETH_InitTypeDef \<Rightarrow> eth_regs \<Rightarrow> eth_regs" where
  "eth_dma_config c r = r\<lparr>
     DMAOMR := (DMAOMR r AND 0xF8DE3F23) OR (ETH_DropTCPIPChecksumErrorFrame c OR ETH_ReceiveStoreForward c OR
       ETH_FlushReceivedFrame c OR ETH_TransmitStoreForward c OR ETH_TransmitThresholdControl c OR ETH_ForwardErrorFrames c OR
       ETH_ForwardUndersizedGoodFrames c OR ETH_ReceiveThresholdControl c OR ETH_SecondFrameOperate c),
     DMABMR := ETH_AddressAlignedBeats c OR ETH_FixedBurst c OR ETH_RxDMABurstLength c OR ETH_TxDMABurstLength c OR
       push_bit 2 (ETH_DescriptorSkipLength c) OR ETH_DMAArbitration c OR 0x00800000\<rparr>"

definition ETH_Init ::
  "ETH_InitTypeDef \<Rightarrow> bool list \<Rightarrow> phy_access list \<Rightarrow> eth_hw \<Rightarrow> (ETH_InitTypeDef \<times> eth_hw \<times> u32) setup_result" where
  "ETH_Init cfg busy accs hw =
     setup_bind (phy_up busy accs hw) (\<lambda>(hw, accs).
       case accs of
         [] \<Rightarrow> Pending
       | acc # _ \<Rightarrow> (case ETH_ReadPHYRegister 1 0 acc hw of
           None \<Rightarrow> Pending
         | Some (hw, RegValue) \<Rightarrow>
             let (cfg, hw) = eth_negotiated RegValue cfg hw
             in Done (cfg, upd_regs (\<lambda>r. eth_dma_config cfg (eth_mac_config cfg r)) hw, 1)))"

section \<open>\<open>rt_ch32_eth_init\<close>\<close>

definition ETH_Start :: "eth_regs \<Rightarrow> eth_regs" where
  "ETH_Start r =
     (let r = r\<lparr>MACCR := MACCR r OR 0x8\<rparr>; r = r\<lparr>DMAOMR := DMAOMR r OR 0x00100000\<rparr>; r = r\<lparr>MACCR := MACCR r OR 0x4\<rparr>;
          r = r\<lparr>DMAOMR := DMAOMR r OR 0x2000\<rparr>
      in r\<lparr>DMAOMR := DMAOMR r OR 0x2\<rparr>)"

definition ETH_DMAITConfig :: "u32 \<Rightarrow> bool \<Rightarrow> eth_regs \<Rightarrow> eth_regs" where
  "ETH_DMAITConfig it on r = r\<lparr>DMAIER := if on then DMAIER r OR it else DMAIER r AND NOT it\<rparr>"

text \<open>
  \<open>rst\<close> holds the registers as the peripheral reset leaves them, when its busy bit has cleared.  The clock set-up before the
  reset and the entry in the interrupt controller are outside the registers of the model.
\<close>

definition rt_ch32_eth_init :: "eth_regs \<Rightarrow> bool list \<Rightarrow> phy_access list \<Rightarrow> eth_hw \<Rightarrow> (eth_hw \<times> int) setup_result" where
  "rt_ch32_eth_init rst busy accs hw =
     (let hw = tell Rst_finish (upd_regs (\<lambda>_. rst) hw); cfg = eth_config ETH_StructInit in
      setup_bind (ETH_Init cfg busy accs hw) (\<lambda>(cfg, hw, _).
        let hw = upd_regs (ETH_DMAITConfig (ETH_DMA_IT_NIS OR ETH_DMA_IT_R OR ETH_DMA_IT_T) True) hw;
            hw = hw\<lparr>dma_of_hw := ETH_DMARxDescChainInit ETH_RXBUFNB (ETH_DMATxDescChainInit ETH_TXBUFNB (dma_of_hw hw))\<rparr>
        in Done (upd_regs ETH_Start hw, 0)))"

section \<open>Waiting for the transceiver\<close>

definition read_ok :: "bool list \<Rightarrow> bool" where
  "read_ok busy \<longleftrightarrow> (case mii_poll PHY_READ_TO 0 busy of None \<Rightarrow> False | Some t \<Rightarrow> t \<noteq> PHY_READ_TO)"

text \<open>The accesses of one wait: in time, and the register is ready at the last of them and not before.\<close>

fun phy_answers :: "(u16 \<Rightarrow> bool) \<Rightarrow> nat \<Rightarrow> phy_access list \<Rightarrow> bool" where
  "phy_answers ready limit [] \<longleftrightarrow> False"
| "phy_answers ready limit ((busy, v, t) # accs) \<longleftrightarrow>
     read_ok busy \<and> t \<le> limit \<and> (if ready v then accs = [] else phy_answers ready limit accs)"

text \<open>The accesses of a wait that comes to nothing: the register is not ready, and at some point the limit has passed.\<close>

fun phy_silent :: "(u16 \<Rightarrow> bool) \<Rightarrow> nat \<Rightarrow> phy_access list \<Rightarrow> bool" where
  "phy_silent ready limit [] \<longleftrightarrow> False"
| "phy_silent ready limit ((busy, v, t) # accs) \<longleftrightarrow>
     read_ok busy \<and> (t > limit \<or> \<not> ready v \<and> phy_silent ready limit accs)"

definition only_mii :: "eth_hw \<Rightarrow> eth_hw \<Rightarrow> bool" where
  "only_mii hw hw' \<longleftrightarrow> (\<exists>x. hw' = upd_regs (\<lambda>r. r\<lparr>MACMIIAR := x\<rparr>) hw)"

lemma only_mii_trans: "only_mii a b \<Longrightarrow> only_mii b c \<Longrightarrow> only_mii a c"
  by (auto simp: only_mii_def upd_regs_def)

lemma only_mii_refl: "only_mii a a"
proof -
  have "a = upd_regs (\<lambda>r. r\<lparr>MACMIIAR := MACMIIAR (regs_of_hw a)\<rparr>) a" by (simp add: upd_regs_def)
  then show ?thesis unfolding only_mii_def by blast
qed

lemma only_mii_upd: "only_mii hw (upd_regs (\<lambda>r. r\<lparr>MACMIIAR := f r\<rparr>) hw)"
  by (auto simp: only_mii_def upd_regs_def)

lemma read_phy:
  assumes "read_ok busy"
  shows "\<exists>hw'. ETH_ReadPHYRegister a reg (busy, v, t) hw = Some (hw', v) \<and> only_mii hw hw'"
  using assms only_mii_upd by (auto simp: read_ok_def ETH_ReadPHYRegister_def Let_def split: option.splits)

lemma phy_wait_answers:
  "phy_answers ready limit as \<Longrightarrow> \<not> ready v0 \<Longrightarrow>
   \<exists>hw'. phy_wait ready reg limit msg v0 (as @ rest) hw = Done (hw', rest) \<and> only_mii hw hw'"
proof (induction as arbitrary: v0 hw)
  case (Cons acc accs)
  obtain busy v t where acc: "acc = (busy, v, t)" by (metis prod_cases3)
  have p: "read_ok busy" "t \<le> limit" "if ready v then accs = [] else phy_answers ready limit accs"
    using Cons.prems(1) by (simp_all add: acc)
  obtain hw1 where r: "ETH_ReadPHYRegister 1 reg acc hw = Some (hw1, v)" "only_mii hw hw1"
    using read_phy [OF p(1)] unfolding acc by blast
  have step: "phy_wait ready reg limit msg v0 (acc # accs @ rest) hw = phy_wait ready reg limit msg v (accs @ rest) hw1"
    using Cons.prems(2) r(1) p(2) by (subst phy_wait.simps) (simp add: acc)
  show ?case
  proof (cases "ready v")
    case True
    then show ?thesis using p(3) step r(2) by (subst (asm) (2) phy_wait.simps) simp
  next
    case False
    then obtain hw2 where "phy_wait ready reg limit msg v (accs @ rest) hw1 = Done (hw2, rest)" "only_mii hw1 hw2"
      using Cons.IH p(3) by meson
    then show ?thesis using step only_mii_trans [OF r(2)] by auto
  qed
qed simp

lemma phy_wait_silent:
  "phy_silent ready limit as \<Longrightarrow> \<not> ready v0 \<Longrightarrow>
   \<exists>hw'. phy_wait ready reg limit msg v0 (as @ rest) hw = Hang msg (tell msg hw') \<and> only_mii hw hw'"
proof (induction as arbitrary: v0 hw)
  case (Cons acc accs)
  obtain busy v t where acc: "acc = (busy, v, t)" by (metis prod_cases3)
  have p: "read_ok busy" "t > limit \<or> \<not> ready v \<and> phy_silent ready limit accs" using Cons.prems(1) by (simp_all add: acc)
  obtain hw1 where r: "ETH_ReadPHYRegister 1 reg acc hw = Some (hw1, v)" "only_mii hw hw1"
    using read_phy [OF p(1)] unfolding acc by blast
  have step: "phy_wait ready reg limit msg v0 (acc # accs @ rest) hw =
      (if t > limit then Hang msg (tell msg hw1) else phy_wait ready reg limit msg v (accs @ rest) hw1)"
    using Cons.prems(2) r(1) by (subst phy_wait.simps) (simp add: acc)
  show ?case
  proof (cases "t > limit")
    case True
    then show ?thesis using step r(2) by auto
  next
    case False
    then obtain hw2 where "phy_wait ready reg limit msg v (accs @ rest) hw1 = Hang msg (tell msg hw2)" "only_mii hw1 hw2"
      using Cons.IH p(2) by meson
    then show ?thesis using step False only_mii_trans [OF r(2)] by auto
  qed
qed simp

text \<open>The state the waits start from: the reset registers, and the answer of the reset command in the log.\<close>

lemma phy_write:
  assumes "mii_poll PHY_WRITE_TO 0 busy \<noteq> None"
  shows "\<exists>hw' r m. ETH_WritePHYRegister a reg v busy hw = Some (tell m hw', r) \<and> only_mii hw hw'"
proof -
  let ?h = "upd_regs (\<lambda>r. r\<lparr>MACMIIAR := mii_address a reg (MACMIIAR r) OR 2\<rparr>) hw"
  have "\<exists>r m. ETH_WritePHYRegister a reg v busy hw = Some (tell m ?h, r)"
    using assms by (auto simp: ETH_WritePHYRegister_def Let_def)
  then show ?thesis using only_mii_upd [of hw "\<lambda>r. mii_address a reg (MACMIIAR r) OR 2"] by blast
qed

definition set_up :: "eth_regs \<Rightarrow> eth_hw \<Rightarrow> eth_hw \<Rightarrow> bool" where
  "set_up rst hw hw' \<longleftrightarrow> (\<exists>x. regs_of_hw hw' = rst\<lparr>MACMIIAR := x\<rparr>) \<and> dma_of_hw hw' = dma_of_hw hw
     \<and> dev_of_hw hw' = dev_of_hw hw \<and> link_changes hw' = link_changes hw"

lemma set_up_only: "set_up rst hw a \<Longrightarrow> only_mii a b \<Longrightarrow> set_up rst hw b"
  by (auto simp: set_up_def only_mii_def upd_regs_def)

lemma set_up_tell [simp]: "set_up rst hw (tell m a) = set_up rst hw a"
  by (simp add: set_up_def tell_def)

lemma phy_begin:
  assumes "mii_poll PHY_WRITE_TO 0 busy \<noteq> None" "set_up rst hw hw0"
  shows "\<exists>hw1. set_up rst hw hw1 \<and> phy_up busy accs hw0 =
    setup_bind (phy_wait (\<lambda>v. v AND 0x8000 = 0) 0 10000 Reset_timeout 0x8000 accs hw1) (\<lambda>(hw, accs).
    setup_bind (phy_wait (\<lambda>v. v AND 0x0004 \<noteq> 0) 1 100000 Link_timeout 0 accs hw) (\<lambda>(hw, accs).
    phy_wait (\<lambda>v. v AND 0x0020 \<noteq> 0) 1 10000 Autoneg_timeout 0 accs hw))"
proof -
  let ?h = "upd_regs (\<lambda>r. r\<lparr>MACMIIAR := MACMIIAR r AND 0xFFFFFFE3\<rparr>) hw0"
  obtain h r m where w: "ETH_WritePHYRegister 1 0 0x8000 busy ?h = Some (tell m h, r)" "only_mii ?h h"
    using phy_write [OF assms(1)] by blast
  have "set_up rst hw ?h" using assms(2) only_mii_upd by (rule set_up_only)
  then have "set_up rst hw h" using w(2) by (rule set_up_only)
  then have "set_up rst hw (tell m h)" by simp
  then show ?thesis
    unfolding phy_up_def Let_def w(1) option.case prod.case by (intro exI [of _ "tell m h"] conjI refl)
qed

text \<open>The three conditions of the code.\<close>

definition reset_over :: "u16 \<Rightarrow> bool" where "reset_over v \<longleftrightarrow> v AND 0x8000 = 0"

definition link_up :: "u16 \<Rightarrow> bool" where "link_up v \<longleftrightarrow> v AND 0x0004 \<noteq> 0"

definition autoneg_over :: "u16 \<Rightarrow> bool" where "autoneg_over v \<longleftrightarrow> v AND 0x0020 \<noteq> 0"

lemma phy_up_answers:
  assumes "mii_poll PHY_WRITE_TO 0 busy \<noteq> None" "set_up rst hw hw0"
    and "phy_answers reset_over 10000 a1" "phy_answers link_up 100000 a2" "phy_answers autoneg_over 10000 a3"
  shows "\<exists>hw'. phy_up busy (a1 @ a2 @ a3 @ rest) hw0 = Done (hw', rest) \<and> set_up rst hw hw'"
proof -
  obtain h where h: "set_up rst hw h" "phy_up busy (a1 @ a2 @ a3 @ rest) hw0 =
      setup_bind (phy_wait reset_over 0 10000 Reset_timeout 0x8000 (a1 @ a2 @ a3 @ rest) h) (\<lambda>(hw, accs).
      setup_bind (phy_wait link_up 1 100000 Link_timeout 0 accs hw) (\<lambda>(hw, accs).
      phy_wait autoneg_over 1 10000 Autoneg_timeout 0 accs hw))"
    using phy_begin [OF assms(1,2)] unfolding reset_over_def [abs_def] link_up_def [abs_def] autoneg_over_def [abs_def] by blast
  have z: "\<not> reset_over 0x8000" "\<not> link_up 0" "\<not> autoneg_over 0"
    by (simp_all add: reset_over_def link_up_def autoneg_over_def)
  obtain h1 where h1: "phy_wait reset_over 0 10000 Reset_timeout 0x8000 (a1 @ a2 @ a3 @ rest) h = Done (h1, a2 @ a3 @ rest)"
    "only_mii h h1" using phy_wait_answers [OF assms(3) z(1)] by blast
  obtain h2 where h2: "phy_wait link_up 1 100000 Link_timeout 0 (a2 @ a3 @ rest) h1 = Done (h2, a3 @ rest)" "only_mii h1 h2"
    using phy_wait_answers [OF assms(4) z(2)] by blast
  obtain h3 where h3: "phy_wait autoneg_over 1 10000 Autoneg_timeout 0 (a3 @ rest) h2 = Done (h3, rest)" "only_mii h2 h3"
    using phy_wait_answers [OF assms(5) z(3)] by blast
  have "set_up rst hw h3" using h(1) h1(2) h2(2) h3(2) by (blast intro: set_up_only)
  then show ?thesis unfolding h(2) by (simp add: h1(1) h2(1) h3(1))
qed

lemma phy_up_no_link:
  assumes "mii_poll PHY_WRITE_TO 0 busy \<noteq> None" "set_up rst hw hw0"
    and "phy_answers reset_over 10000 a1" "phy_silent link_up 100000 a2"
  shows "\<exists>hw'. phy_up busy (a1 @ a2 @ rest) hw0 = Hang Link_timeout hw' \<and> set_up rst hw hw'"
proof -
  obtain h where h: "set_up rst hw h" "phy_up busy (a1 @ a2 @ rest) hw0 =
      setup_bind (phy_wait reset_over 0 10000 Reset_timeout 0x8000 (a1 @ a2 @ rest) h) (\<lambda>(hw, accs).
      setup_bind (phy_wait link_up 1 100000 Link_timeout 0 accs hw) (\<lambda>(hw, accs).
      phy_wait autoneg_over 1 10000 Autoneg_timeout 0 accs hw))"
    using phy_begin [OF assms(1,2)] unfolding reset_over_def [abs_def] link_up_def [abs_def] autoneg_over_def [abs_def] by blast
  have z: "\<not> reset_over 0x8000" "\<not> link_up 0" by (simp_all add: reset_over_def link_up_def)
  obtain h1 where h1: "phy_wait reset_over 0 10000 Reset_timeout 0x8000 (a1 @ a2 @ rest) h = Done (h1, a2 @ rest)" "only_mii h h1"
    using phy_wait_answers [OF assms(3) z(1)] by blast
  obtain h2 where h2: "phy_wait link_up 1 100000 Link_timeout 0 (a2 @ rest) h1 = Hang Link_timeout (tell Link_timeout h2)"
    "only_mii h1 h2" using phy_wait_silent [OF assms(4) z(2)] by blast
  have "set_up rst hw (tell Link_timeout h2)" using h(1) h1(2) h2(2) by (auto intro: set_up_only)
  then show ?thesis unfolding h(2) by (simp add: h1(1) h2(1))
qed

section \<open>Properties\<close>

lemmas setup_nums = ETH_DMA_IT_NIS_def ETH_DMA_IT_R_def ETH_DMA_IT_T_def

lemma config_fields:
  assumes "c = (eth_config ETH_StructInit)\<lparr>ETH_Mode := mode, ETH_Speed := speed\<rparr>"
  shows "ETH_Mode c = mode" "ETH_Speed c = speed"
    "ETH_Watchdog c = 0" "ETH_Jabber c = 0" "ETH_InterFrameGap c = 0" "ETH_CarrierSense c = 0" "ETH_ReceiveOwn c = 0"
    "ETH_LoopbackMode c = 0" "ETH_ChecksumOffload c = 0" "ETH_RetryTransmission c = 0x200"
    "ETH_AutomaticPadCRCStrip c = 0" "ETH_BackOffLimit c = 0" "ETH_DeferralCheck c = 0" "ETH_ReceiveAll c = 0x80000000"
    "ETH_SourceAddrFilter c = 0" "ETH_PassControlFrames c = 0x40" "ETH_BroadcastFramesReception c = 0"
    "ETH_DestinationAddrFilter c = 0" "ETH_PromiscuousMode c = 0x1" "ETH_MulticastFramesFilter c = 0"
    "ETH_UnicastFramesFilter c = 0" "ETH_HashTableHigh c = 0" "ETH_HashTableLow c = 0" "ETH_PauseTime c = 0"
    "ETH_ZeroQuantaPause c = 0x80" "ETH_PauseLowThreshold c = 0" "ETH_UnicastPauseFrameDetect c = 0"
    "ETH_ReceiveFlowControl c = 0" "ETH_TransmitFlowControl c = 0" "ETH_VLANTagComparison c = 0"
    "ETH_VLANTagIdentifier c = 0" "ETH_DropTCPIPChecksumErrorFrame c = 0" "ETH_ReceiveStoreForward c = 0x2000000"
    "ETH_FlushReceivedFrame c = 0" "ETH_TransmitStoreForward c = 0x200000" "ETH_TransmitThresholdControl c = 0"
    "ETH_ForwardErrorFrames c = 0x80" "ETH_ForwardUndersizedGoodFrames c = 0x40" "ETH_ReceiveThresholdControl c = 0"
    "ETH_SecondFrameOperate c = 0" "ETH_AddressAlignedBeats c = 0x2000000" "ETH_FixedBurst c = 0x10000"
    "ETH_RxDMABurstLength c = 0x400000" "ETH_TxDMABurstLength c = 0x2000" "ETH_DescriptorSkipLength c = 0"
    "ETH_DMAArbitration c = 0x4000"
  unfolding assms eth_config_def ETH_StructInit_def by simp_all

lemma mac_config_regs:
  "MACCR (eth_mac_config c r) = ((MACCR r AND 0xFF20810F) OR (ETH_Watchdog c OR ETH_Jabber c OR ETH_InterFrameGap c OR
     ETH_CarrierSense c OR ETH_Speed c OR ETH_ReceiveOwn c OR ETH_LoopbackMode c OR ETH_Mode c OR
     ETH_ChecksumOffload c OR ETH_RetryTransmission c OR ETH_AutomaticPadCRCStrip c OR ETH_BackOffLimit c OR
     ETH_DeferralCheck c)) OR 0x00100000"
  "MACFFR (eth_mac_config c r) = ETH_ReceiveAll c OR ETH_SourceAddrFilter c OR ETH_PassControlFrames c OR
     ETH_BroadcastFramesReception c OR ETH_DestinationAddrFilter c OR ETH_PromiscuousMode c OR
     ETH_MulticastFramesFilter c OR ETH_UnicastFramesFilter c"
  "DMAOMR (eth_mac_config c r) = DMAOMR r" "DMAIER (eth_mac_config c r) = DMAIER r" "MACMIIAR (eth_mac_config c r) = MACMIIAR r"
  by (simp_all add: eth_mac_config_def Let_def)

lemma start_regs:
  "MACCR (ETH_Start r) = MACCR r OR 0x8 OR 0x4" "MACFFR (ETH_Start r) = MACFFR r" "DMABMR (ETH_Start r) = DMABMR r"
  "DMAIER (ETH_Start r) = DMAIER r" "DMAOMR (ETH_Start r) = DMAOMR r OR 0x00100000 OR 0x2000 OR 0x2"
  by (simp_all add: ETH_Start_def Let_def or.assoc)

lemma config_regs:
  assumes "c = (eth_config ETH_StructInit)\<lparr>ETH_Mode := mode, ETH_Speed := speed\<rparr>"
    and "r = ETH_Start (ETH_DMAITConfig (ETH_DMA_IT_NIS OR ETH_DMA_IT_R OR ETH_DMA_IT_T) True (eth_dma_config c (eth_mac_config c r0)))"
  shows "MACCR r = (MACCR r0 AND 0xFF20810F) OR speed OR mode OR 0x0010020C" "MACFFR r = 0x80000041"
    "DMABMR r = 0x02C16000" "DMAIER r = DMAIER r0 OR 0x10041" "DMAOMR r = (DMAOMR r0 AND 0xF8DE3F23) OR 0x023020C2"
proof -
  note f = config_fields [OF assms(1)]
  show "MACCR r = (MACCR r0 AND 0xFF20810F) OR speed OR mode OR 0x0010020C"
    unfolding assms(2) by (simp add: start_regs ETH_DMAITConfig_def eth_dma_config_def mac_config_regs f or.assoc)
  show "MACFFR r = 0x80000041" unfolding assms(2)
    by (simp add: start_regs ETH_DMAITConfig_def eth_dma_config_def mac_config_regs f)
  show "DMABMR r = 0x02C16000" unfolding assms(2) by (simp add: start_regs ETH_DMAITConfig_def eth_dma_config_def f)
  show "DMAIER r = DMAIER r0 OR 0x10041"
    unfolding assms(2) by (simp add: start_regs ETH_DMAITConfig_def eth_dma_config_def mac_config_regs setup_nums)
  show "DMAOMR r = (DMAOMR r0 AND 0xF8DE3F23) OR 0x023020C2"
    unfolding assms(2) by (simp add: start_regs ETH_DMAITConfig_def eth_dma_config_def mac_config_regs f or.assoc)
qed

definition mode_bits :: "u16 \<Rightarrow> u32" where
  "mode_bits v = (if v AND push_bit 8 1 \<noteq> 0 then 0x800 else 0)"

definition speed_bits :: "u16 \<Rightarrow> u32" where
  "speed_bits v = (if v AND push_bit 13 1 \<noteq> 0 then 0x4000 else 0)"

lemma eth_negotiated_bits:
  "eth_negotiated v c hw = (c\<lparr>ETH_Mode := mode_bits v, ETH_Speed := speed_bits v\<rparr>,
     hw\<lparr>dev_of_hw := (dev_of_hw hw)\<lparr>ETH_Mode_dev := mode_bits v, ETH_Speed_dev := speed_bits v\<rparr>,
        link_changes := link_changes hw @ [True]\<rparr>)"
  by (simp add: eth_negotiated_def mode_bits_def speed_bits_def Let_def)

lemma set_up_start: "set_up rst hw (tell Rst_finish (upd_regs (\<lambda>_. rst) hw))"
proof -
  have "\<exists>x. rst = rst\<lparr>MACMIIAR := x\<rparr>" by (rule exI [of _ "MACMIIAR rst"]) simp
  then show ?thesis unfolding set_up_def tell_def upd_regs_def by simp
qed

text \<open>
  C11.  Bringing the device up, when the transceiver answers: it reports the end of its reset, the link and the end of the
  negotiation, each within its limit, and then its control register \<open>v\<close>.  Then \<open>rt_ch32_eth_init\<close> returns \<open>RT_EOK\<close> with one
  link-up notice; duplex mode and speed are those \<open>v\<close> reports, in the device and in \<open>MACCR\<close>, whose transmitter and receiver
  are on, and not the gigabit setting of the configuration; all frames are received; the receive, transmit and summary
  interrupts are enabled; both descriptor chains are intact, with every receive descriptor owned by the engine.
\<close>

theorem eth_bring_up:
  assumes "mii_poll PHY_WRITE_TO 0 busy \<noteq> None" "phy_answers reset_over 10000 a1" "phy_answers link_up 100000 a2"
    and "phy_answers autoneg_over 10000 a3" "read_ok b" "fr_length (eth_frame (dma_of_hw hw)) = 0"
    and "length (Rx_Buff (dma_of_hw hw)) = ETH_RXBUFNB * ETH_MAX_PACKET_SIZE"
    and "length (Tx_Buff (dma_of_hw hw)) = ETH_TXBUFNB * ETH_MAX_PACKET_SIZE"
  shows "\<exists>hw'. rt_ch32_eth_init rst busy (a1 @ a2 @ a3 @ [(b, v, t)]) hw = Done (hw', 0)
    \<and> link_changes hw' = link_changes hw @ [True]
    \<and> ETH_Mode_dev (dev_of_hw hw') = mode_bits v \<and> ETH_Speed_dev (dev_of_hw hw') = speed_bits v
    \<and> MACCR (regs_of_hw hw') = (MACCR rst AND 0xFF20810F) OR speed_bits v OR mode_bits v OR 0x0010020C
    \<and> MACFFR (regs_of_hw hw') = 0x80000041 \<and> DMAIER (regs_of_hw hw') = DMAIER rst OR 0x10041
    \<and> eth_ok (dma_of_hw hw') \<and> DMARxDescToGet (dma_of_hw hw') = 0 \<and> DMATxDescToSet (dma_of_hw hw') = 0
    \<and> list_all (\<lambda>d. Status d = ETH_DMARxDesc_OWN) (DMARxDscrTab (dma_of_hw hw'))"
proof -
  define h0 where "h0 = tell Rst_finish (upd_regs (\<lambda>_. rst) hw)"
  have s0: "set_up rst hw h0" unfolding h0_def by (rule set_up_start)
  obtain h1 where h1: "phy_up busy (a1 @ a2 @ a3 @ [(b, v, t)]) h0 = Done (h1, [(b, v, t)])" "set_up rst hw h1"
    using phy_up_answers [OF assms(1) s0 assms(2-4)] by blast
  obtain h2 where h2: "ETH_ReadPHYRegister 1 0 (b, v, t) h1 = Some (h2, v)" "only_mii h1 h2" using read_phy [OF assms(5)] by blast
  have s2: "set_up rst hw h2" using h1(2) h2(2) by (rule set_up_only)
  then obtain x where x: "regs_of_hw h2 = rst\<lparr>MACMIIAR := x\<rparr>" "dma_of_hw h2 = dma_of_hw hw" "link_changes h2 = link_changes hw"
    by (auto simp: set_up_def)
  define c where "c = (eth_config ETH_StructInit)\<lparr>ETH_Mode := mode_bits v, ETH_Speed := speed_bits v\<rparr>"
  define r where "r = ETH_Start (ETH_DMAITConfig (ETH_DMA_IT_NIS OR ETH_DMA_IT_R OR ETH_DMA_IT_T) True
    (eth_dma_config c (eth_mac_config c (rst\<lparr>MACMIIAR := x\<rparr>))))"
  define d where "d = ETH_DMARxDescChainInit ETH_RXBUFNB (ETH_DMATxDescChainInit ETH_TXBUFNB (dma_of_hw hw))"
  have run: "rt_ch32_eth_init rst busy (a1 @ a2 @ a3 @ [(b, v, t)]) hw = Done (h2\<lparr>
      dev_of_hw := (dev_of_hw h2)\<lparr>ETH_Mode_dev := mode_bits v, ETH_Speed_dev := speed_bits v\<rparr>,
      link_changes := link_changes hw @ [True], regs_of_hw := r, dma_of_hw := d\<rparr>, 0)"
    unfolding rt_ch32_eth_init_def Let_def h0_def [symmetric] ETH_Init_def h1(1)
    by (simp add: h2(1) eth_negotiated_bits c_def [symmetric] upd_regs_def x r_def d_def)
  have "list_all (\<lambda>e. Status e = ETH_DMARxDesc_OWN) (DMARxDscrTab d)" "DMARxDescToGet d = 0" "DMATxDescToSet d = 0"
    by (simp_all add: d_def ETH_DMARxDescChainInit_def ETH_DMATxDescChainInit_def list_all_iff del: upt_Suc upt_rec_numeral)
  moreover have "eth_ok d" unfolding d_def using assms(7,8,6) by (rule chain_init_ok)
  ultimately show ?thesis unfolding run using config_regs [OF c_def r_def] by simp
qed

definition hw_zero :: eth_hw where
  "hw_zero = \<lparr>regs_of_hw = \<lparr>MACMIIAR = 0, MACCR = 0x8000, MACFFR = 0, MACHTHR = 0, MACHTLR = 0, MACFCR = 0, MACVLANTR = 0,
       DMAOMR = 0, DMABMR = 0, DMAIER = 0\<rparr>, dma_of_hw = eth_zero,
     dev_of_hw = \<lparr>dev_addr = [], ETH_Speed_dev = 0, ETH_Mode_dev = 0, dev_handlers = [], dev_errno = 0\<rparr>,
     link_changes = [], setup_log = []\<rparr>"

lemma poll_once: "mii_poll PHY_WRITE_TO 0 [False] = Some 1" "read_ok [False]" "read_ok [True, False]"
  by (simp_all add: read_ok_def PHY_READ_TO_def)

theorem eth_bring_up_witness:
  "\<exists>hw'. rt_ch32_eth_init (regs_of_hw hw_zero) [False] ([([True, False], 0x8000, 2), ([False], 0x1100, 3)] @ [([False], 0x0004, 9)]
       @ [([False], 0x0024, 1)] @ [([False], 0x1100, 0)]) hw_zero = Done (hw', 0)
     \<and> link_changes hw' = [True] \<and> ETH_Mode_dev (dev_of_hw hw') = 0x800 \<and> ETH_Speed_dev (dev_of_hw hw') = 0"
proof -
  have p: "mii_poll PHY_WRITE_TO 0 [False] \<noteq> None" by (simp add: poll_once)
  have a: "phy_answers reset_over 10000 [([True, False], 0x8000, 2), ([False], 0x1100, 3)]"
    "phy_answers link_up 100000 [([False], 0x0004, 9)]" "phy_answers autoneg_over 10000 [([False], 0x0024, 1)]"
    by (simp_all add: poll_once reset_over_def link_up_def autoneg_over_def)
  have z: "fr_length (eth_frame (dma_of_hw hw_zero)) = 0"
    "length (Rx_Buff (dma_of_hw hw_zero)) = ETH_RXBUFNB * ETH_MAX_PACKET_SIZE"
    "length (Tx_Buff (dma_of_hw hw_zero)) = ETH_TXBUFNB * ETH_MAX_PACKET_SIZE"
    by (simp_all add: hw_zero_def eth_zero_def)
  have "mode_bits 0x1100 = 0x800" "speed_bits 0x1100 = 0" "link_changes hw_zero = []"
    by (simp_all add: mode_bits_def speed_bits_def hw_zero_def)
  then show ?thesis
    using eth_bring_up [OF p a poll_once(2) z, where rst = "regs_of_hw hw_zero" and v = "0x1100" and t = 0] by auto
qed

text \<open>
  C40.  Bringing the device up, when the transceiver reports no link within its limit (no cable, say): \<open>rt_ch32_eth_init\<close> does
  not return an error, it hangs in its \<open>while(1)\<close>, before any descriptor is set up and without any link notice.
\<close>

theorem eth_no_link_hangs:
  assumes "mii_poll PHY_WRITE_TO 0 busy \<noteq> None" "phy_answers reset_over 10000 a1" "phy_silent link_up 100000 a2"
  shows "\<exists>hw'. rt_ch32_eth_init rst busy (a1 @ a2 @ rest) hw = Hang Link_timeout hw' \<and> dma_of_hw hw' = dma_of_hw hw
    \<and> link_changes hw' = link_changes hw"
proof -
  obtain h where "phy_up busy (a1 @ a2 @ rest) (tell Rst_finish (upd_regs (\<lambda>_. rst) hw)) = Hang Link_timeout h" "set_up rst hw h"
    using phy_up_no_link [OF assms(1) set_up_start assms(2,3)] by blast
  then show ?thesis by (simp add: rt_ch32_eth_init_def Let_def ETH_Init_def set_up_def)
qed

theorem eth_no_link_hangs_witness:
  "\<exists>hw'. rt_ch32_eth_init (regs_of_hw hw_zero) [False] ([([False], 0x1100, 3)] @ [([False], 0, 9), ([False], 0, 100001)] @ []) hw_zero
     = Hang Link_timeout hw'"
proof -
  have "mii_poll PHY_WRITE_TO 0 [False] \<noteq> None" "phy_answers reset_over 10000 [([False], 0x1100, 3)]"
    "phy_silent link_up 100000 [([False], 0, 9), ([False], 0, 100001)]"
    by (simp_all add: poll_once reset_over_def link_up_def)
  from eth_no_link_hangs [OF this] show ?thesis by blast
qed

end
