(* ===== verification/Ipc.thy ===== *)
theory Ipc
  imports Ring_Buffer
begin

text \<open>
  The kernel objects behind the network threads (\<open>rt-thread/src/ipc.c\<close>): the lists of suspended threads, the counting semaphore
  and the mailbox.  A call that may block is cut at \<open>rt_schedule\<close>: one pass either returns a code or leaves the calling thread
  suspended; a thread that is resumed makes another pass.  Interrupts are off during a pass, so a pass is one step.  An entry
  of a list of suspended threads carries the priority the thread had when it was suspended: the kernel sorts the list by that
  priority on insertion and does not move a thread whose priority a mutex raises later, so what is said of the most
  urgent waiting thread is about these priorities.
\<close>

section \<open>Suspended threads\<close>

record rt_thread =
  th_id :: nat
  current_priority :: nat

datatype ipc_flag = RT_IPC_FLAG_FIFO | RT_IPC_FLAG_PRIO

fun insert_prio :: "rt_thread \<Rightarrow> rt_thread list \<Rightarrow> rt_thread list" where
  "insert_prio thread [] = [thread]"
| "insert_prio thread (sthread # rest) =
     (if current_priority thread < current_priority sthread then thread # sthread # rest
      else sthread # insert_prio thread rest)"

definition rt_ipc_list_suspend :: "rt_thread list \<Rightarrow> rt_thread \<Rightarrow> ipc_flag \<Rightarrow> rt_thread list" where
  "rt_ipc_list_suspend lst thread flag =
     (case flag of RT_IPC_FLAG_FIFO \<Rightarrow> lst @ [thread] | RT_IPC_FLAG_PRIO \<Rightarrow> insert_prio thread lst)"

definition rt_ipc_list_resume :: "rt_thread list \<Rightarrow> rt_thread \<times> rt_thread list" where
  "rt_ipc_list_resume lst = (hd lst, tl lst)"

text \<open>Every thread of the list is resumed with the error \<open>-RT_ERROR\<close>.\<close>

definition rt_ipc_list_resume_all :: "rt_thread list \<Rightarrow> (rt_thread \<times> int) list \<times> rt_thread list" where
  "rt_ipc_list_resume_all lst = (map (\<lambda>th. (th, - 1)) lst, [])"

text \<open>A pass of a call that may block: the code it returns, or the calling thread is suspended.\<close>

datatype ipc_outcome = Ret int | Suspended

section \<open>The semaphore\<close>

record rt_semaphore =
  sem_value :: nat
  sem_flag :: ipc_flag
  sem_waiting :: "rt_thread list"

definition RT_SEM_VALUE_MAX :: nat where "RT_SEM_VALUE_MAX = 65535"

definition rt_sem_init :: "nat \<Rightarrow> ipc_flag \<Rightarrow> rt_semaphore" where
  "rt_sem_init v flag = \<lparr>sem_value = v mod 2 ^ 16, sem_flag = flag, sem_waiting = []\<rparr>"

definition rt_sem_take :: "rt_thread \<Rightarrow> int \<Rightarrow> rt_semaphore \<Rightarrow> rt_semaphore \<times> ipc_outcome" where
  "rt_sem_take thread time sem =
     (if sem_value sem > 0 then (sem\<lparr>sem_value := sem_value sem - 1\<rparr>, Ret 0)
      else if time = 0 then (sem, Ret (- 2))
      else (sem\<lparr>sem_waiting := rt_ipc_list_suspend (sem_waiting sem) thread (sem_flag sem)\<rparr>, Suspended))"

text \<open>What \<open>rt_sem_take\<close> returns when the suspended thread runs again, with its error number.\<close>

definition sem_take_resumed :: "int \<Rightarrow> int" where
  "sem_take_resumed error = (if error \<noteq> 0 then error else 0)"

definition rt_sem_trytake :: "rt_thread \<Rightarrow> rt_semaphore \<Rightarrow> rt_semaphore \<times> ipc_outcome" where
  "rt_sem_trytake thread sem = rt_sem_take thread 0 sem"

text \<open>The semaphore, the thread that was resumed if there was one, and the result.\<close>

definition rt_sem_release :: "rt_semaphore \<Rightarrow> rt_semaphore \<times> rt_thread option \<times> int" where
  "rt_sem_release sem =
     (if sem_waiting sem \<noteq> []
      then (let (th, rest) = rt_ipc_list_resume (sem_waiting sem) in (sem\<lparr>sem_waiting := rest\<rparr>, Some th, 0))
      else if sem_value sem < RT_SEM_VALUE_MAX then (sem\<lparr>sem_value := sem_value sem + 1\<rparr>, None, 0)
      else (sem, None, - 3))"

definition rt_sem_control :: "int \<Rightarrow> nat \<Rightarrow> rt_semaphore \<Rightarrow> rt_semaphore \<times> (rt_thread \<times> int) list \<times> int" where
  "rt_sem_control cmd arg sem =
     (if cmd = 1
      then (let (ths, rest) = rt_ipc_list_resume_all (sem_waiting sem)
            in (sem\<lparr>sem_waiting := rest, sem_value := arg mod 2 ^ 16\<rparr>, ths, 0))
      else (sem, [], - 1))"

section \<open>The mailbox\<close>

record rt_mailbox =
  msg_pool :: "u32 list"
  mb_size :: nat
  mb_entry :: nat
  in_offset :: nat
  out_offset :: nat
  mb_flag :: ipc_flag
  suspend_receiver :: "rt_thread list"
  suspend_sender :: "rt_thread list"

definition RT_MB_ENTRY_MAX :: nat where "RT_MB_ENTRY_MAX = 65535"

definition rt_mb_init :: "u32 list \<Rightarrow> nat \<Rightarrow> ipc_flag \<Rightarrow> rt_mailbox" where
  "rt_mb_init msgpool n flag = \<lparr>msg_pool = msgpool, mb_size = n mod 2 ^ 16, mb_entry = 0, in_offset = 0, out_offset = 0,
     mb_flag = flag, suspend_receiver = [], suspend_sender = []\<rparr>"

text \<open>The common end of the sending calls: the first waiting receiver is resumed.\<close>

definition mb_wake_receiver :: "rt_mailbox \<Rightarrow> rt_mailbox \<times> rt_thread option" where
  "mb_wake_receiver mb =
     (if suspend_receiver mb \<noteq> []
      then (let (th, rest) = rt_ipc_list_resume (suspend_receiver mb) in (mb\<lparr>suspend_receiver := rest\<rparr>, Some th))
      else (mb, None))"

definition next_offset :: "nat \<Rightarrow> nat \<Rightarrow> nat" where
  "next_offset n off = (if off + 1 \<ge> n then 0 else off + 1)"

text \<open>One pass of \<open>rt_mb_send_wait\<close>: the mailbox, the receiver it resumed, and the outcome.\<close>

definition rt_mb_send_wait ::
  "rt_thread \<Rightarrow> u32 \<Rightarrow> int \<Rightarrow> rt_mailbox \<Rightarrow> rt_mailbox \<times> rt_thread option \<times> ipc_outcome" where
  "rt_mb_send_wait thread val timeout mb =
     (if mb_entry mb = mb_size mb
      then (if timeout = 0 then (mb, None, Ret (- 3))
            else (mb\<lparr>suspend_sender := rt_ipc_list_suspend (suspend_sender mb) thread (mb_flag mb)\<rparr>, None, Suspended))
      else (let mb = mb\<lparr>msg_pool := (msg_pool mb)[in_offset mb := val], in_offset := next_offset (mb_size mb) (in_offset mb)\<rparr>
            in if mb_entry mb < RT_MB_ENTRY_MAX
               then (let (mb, woken) = mb_wake_receiver (mb\<lparr>mb_entry := mb_entry mb + 1\<rparr>) in (mb, woken, Ret 0))
               else (mb, None, Ret (- 3))))"

text \<open>
  A resumed thread: it returns its error number, or makes another pass with what is left of the timeout after \<open>elapsed\<close> ticks;
  a negative timeout waits forever.
\<close>

definition mb_resumed :: "int \<Rightarrow> int \<Rightarrow> int \<Rightarrow> int + int" where
  "mb_resumed error timeout elapsed =
     (if error \<noteq> 0 then Inl error else Inr (if timeout > 0 then max 0 (timeout - elapsed) else timeout))"

definition rt_mb_send :: "rt_thread \<Rightarrow> u32 \<Rightarrow> rt_mailbox \<Rightarrow> rt_mailbox \<times> rt_thread option \<times> ipc_outcome" where
  "rt_mb_send thread val mb = rt_mb_send_wait thread val 0 mb"

definition rt_mb_urgent :: "u32 \<Rightarrow> rt_mailbox \<Rightarrow> rt_mailbox \<times> rt_thread option \<times> int" where
  "rt_mb_urgent val mb =
     (if mb_entry mb = mb_size mb then (mb, None, - 3)
      else (let mb = mb\<lparr>out_offset := if out_offset mb > 0 then out_offset mb - 1 else mb_size mb - 1\<rparr>;
                mb = mb\<lparr>msg_pool := (msg_pool mb)[out_offset mb := val], mb_entry := (mb_entry mb + 1) mod 2 ^ 16\<rparr>;
                (mb, woken) = mb_wake_receiver mb
            in (mb, woken, 0)))"

text \<open>One pass of \<open>rt_mb_recv\<close>: the mailbox, the value received, the sender it resumed, and the outcome.\<close>

definition rt_mb_recv ::
  "rt_thread \<Rightarrow> int \<Rightarrow> rt_mailbox \<Rightarrow> rt_mailbox \<times> u32 option \<times> rt_thread option \<times> ipc_outcome" where
  "rt_mb_recv thread timeout mb =
     (if mb_entry mb = 0
      then (if timeout = 0 then (mb, None, None, Ret (- 2))
            else (mb\<lparr>suspend_receiver := rt_ipc_list_suspend (suspend_receiver mb) thread (mb_flag mb)\<rparr>, None, None, Suspended))
      else (let val = msg_pool mb ! out_offset mb;
                mb = mb\<lparr>out_offset := next_offset (mb_size mb) (out_offset mb), mb_entry := mb_entry mb - 1\<rparr>
            in if suspend_sender mb \<noteq> []
               then (let (th, rest) = rt_ipc_list_resume (suspend_sender mb)
                     in (mb\<lparr>suspend_sender := rest\<rparr>, Some val, Some th, Ret 0))
               else (mb, Some val, None, Ret 0)))"

definition rt_mb_control :: "int \<Rightarrow> rt_mailbox \<Rightarrow> rt_mailbox \<times> (rt_thread \<times> int) list \<times> int" where
  "rt_mb_control cmd mb =
     (if cmd = 1
      then (let (rs, r) = rt_ipc_list_resume_all (suspend_receiver mb); (ss, s) = rt_ipc_list_resume_all (suspend_sender mb)
            in (mb\<lparr>suspend_receiver := r, suspend_sender := s, mb_entry := 0, in_offset := 0, out_offset := 0\<rparr>, rs @ ss, 0))
      else (mb, [], - 1))"

section \<open>Every release is one grant\<close>

lemma set_insert_prio [simp]: "set (insert_prio th ths) = insert th (set ths)"
  by (induction ths) auto

lemma sorted_insert_prio:
  "sorted (map current_priority ths) \<Longrightarrow> sorted (map current_priority (insert_prio th ths))"
  by (induction ths) auto

lemma set_suspend [simp]: "set (rt_ipc_list_suspend ths th flag) = insert th (set ths)"
  by (auto simp: rt_ipc_list_suspend_def split: ipc_flag.splits)

text \<open>
  A semaphore in use, with the number of calls of \<open>rt_sem_take\<close> that returned \<open>RT_EOK\<close> (at once, or when a release resumed the
  waiting thread) and of releases that did.  A waiting thread may also be taken off the list by its timer.
\<close>

inductive sem_run :: "nat \<Rightarrow> ipc_flag \<Rightarrow> rt_semaphore \<Rightarrow> nat \<Rightarrow> nat \<Rightarrow> bool" for v flag where
  start: "sem_run v flag (rt_sem_init v flag) 0 0"
| take: "sem_run v flag s g r \<Longrightarrow> th \<notin> set (sem_waiting s) \<Longrightarrow> rt_sem_take th time s = (s', out) \<Longrightarrow>
     sem_run v flag s' (if out = Ret 0 then g + 1 else g) r"
| release: "sem_run v flag s g r \<Longrightarrow> rt_sem_release s = (s', woken, e) \<Longrightarrow>
     sem_run v flag s' (if woken \<noteq> None \<and> sem_take_resumed 0 = 0 then g + 1 else g) (if e = 0 then r + 1 else r)"
| timer: "sem_run v flag s g r \<Longrightarrow> th \<in> set (sem_waiting s) \<Longrightarrow>
     sem_run v flag (s\<lparr>sem_waiting := remove1 th (sem_waiting s)\<rparr>) g r"

definition sem_ok :: "rt_semaphore \<Rightarrow> bool" where
  "sem_ok s \<longleftrightarrow> sem_value s \<le> RT_SEM_VALUE_MAX \<and> (sem_value s = 0 \<or> sem_waiting s = [])
     \<and> (sem_flag s = RT_IPC_FLAG_PRIO \<longrightarrow> sorted (map current_priority (sem_waiting s)))"

lemma sem_take_ok:
  assumes "sem_ok s" "rt_sem_take th time s = (s', out)"
  shows "sem_ok s' \<and> sem_flag s' = sem_flag s \<and> sem_value s' + (if out = Ret 0 then 1 else 0) = sem_value s"
  using assms unfolding rt_sem_take_def sem_ok_def
  by (auto simp: rt_ipc_list_suspend_def sorted_insert_prio split: if_splits ipc_flag.splits)

lemma sem_release_ok:
  assumes "sem_ok s" "rt_sem_release s = (s', woken, e)"
  shows "sem_ok s' \<and> sem_flag s' = sem_flag s
    \<and> sem_value s' + (if woken \<noteq> None then 1 else 0) = sem_value s + (if e = 0 then 1 else 0)"
  using assms unfolding rt_sem_release_def sem_ok_def rt_ipc_list_resume_def
  by (cases "sem_waiting s") (auto split: if_splits)

lemma sorted_remove1_map: "sorted (map f xs) \<Longrightarrow> sorted (map f (remove1 x xs))"
  by (induction xs) (auto dest: notin_set_remove1 set_remove1_subset [THEN subsetD])

lemma sem_run_ok:
  "sem_run v flag s g r \<Longrightarrow> v \<le> RT_SEM_VALUE_MAX \<Longrightarrow> sem_ok s \<and> sem_flag s = flag \<and> sem_value s + g = v + r"
proof (induction rule: sem_run.induct)
  case start
  then show ?case by (simp add: rt_sem_init_def sem_ok_def RT_SEM_VALUE_MAX_def)
next
  case (take s g r th time s' out)
  then show ?case using sem_take_ok [of s th time s' out] by (auto split: if_splits)
next
  case (release s g r s' woken e)
  then show ?case using sem_release_ok [of s s' woken e] by (auto simp: sem_take_resumed_def split: if_splits)
next
  case (timer s g r th)
  then show ?case by (auto simp: sem_ok_def sorted_remove1_map)
qed

section \<open>The mailbox as a queue\<close>

definition mb_ok :: "rt_mailbox \<Rightarrow> bool" where
  "mb_ok mb \<longleftrightarrow> 0 < mb_size mb \<and> mb_size mb \<le> RT_MB_ENTRY_MAX \<and> mb_size mb \<le> length (msg_pool mb)
     \<and> mb_entry mb \<le> mb_size mb \<and> out_offset mb < mb_size mb \<and> in_offset mb = (out_offset mb + mb_entry mb) mod mb_size mb"

definition mb_list :: "rt_mailbox \<Rightarrow> u32 list" where
  "mb_list mb = map (\<lambda>i. msg_pool mb ! ((out_offset mb + i) mod mb_size mb)) [0..<mb_entry mb]"

lemma length_mb_list [simp]: "length (mb_list mb) = mb_entry mb"
  by (simp add: mb_list_def)

lemma next_offset_mod: "i < n \<Longrightarrow> next_offset n i = (i + 1) mod n"
  by (auto simp: next_offset_def mod_Suc)

lemma wake_same [simp]:
  assumes "mb_wake_receiver mb = (mb', woken)"
  shows "mb_ok mb' = mb_ok mb" "mb_list mb' = mb_list mb" "mb_size mb' = mb_size mb" "mb_entry mb' = mb_entry mb"
  using assms by (auto simp: mb_wake_receiver_def rt_ipc_list_resume_def mb_ok_def mb_list_def split: if_splits)

lemma ring_index_inj:
  fixes o' :: nat
  assumes "o' < n" "i < n" "j < n" "(o' + i) mod n = (o' + j) mod n"
  shows "i = j"
  using assms mod_wrap [of "o' + i" n] mod_wrap [of "o' + j" n] by (auto split: if_splits)

definition mb_append :: "u32 \<Rightarrow> rt_mailbox \<Rightarrow> rt_mailbox" where
  "mb_append val mb = mb\<lparr>msg_pool := (msg_pool mb)[in_offset mb := val], in_offset := next_offset (mb_size mb) (in_offset mb),
     mb_entry := mb_entry mb + 1\<rparr>"

lemma mb_append_ok:
  assumes "mb_ok mb" "mb_entry mb \<noteq> mb_size mb"
  shows "mb_ok (mb_append val mb)" "mb_list (mb_append val mb) = mb_list mb @ [val]"
proof -
  let ?n = "mb_size mb" and ?o = "out_offset mb" and ?e = "mb_entry mb"
  note ok = assms(1) [unfolded mb_ok_def]
  have e: "?e < ?n" "?o < ?n" "in_offset mb = (?o + ?e) mod ?n" "?n \<le> length (msg_pool mb)" using ok assms(2) by auto
  have i: "in_offset mb < ?n" using e by simp
  have "next_offset ?n (in_offset mb) = (?o + (?e + 1)) mod ?n"
    using next_offset_mod [OF i] e(3) by (simp add: mod_Suc_eq)
  then show "mb_ok (mb_append val mb)" using ok e by (simp add: mb_append_def mb_ok_def)
  show "mb_list (mb_append val mb) = mb_list mb @ [val]"
  proof (rule nth_equalityI)
    show "length (mb_list (mb_append val mb)) = length (mb_list mb @ [val])" by (simp add: mb_append_def)
    fix k assume "k < length (mb_list (mb_append val mb))"
    then have k: "k < ?e + 1" by (simp add: mb_append_def)
    have at: "mb_list (mb_append val mb) ! k = (msg_pool mb)[in_offset mb := val] ! ((?o + k) mod ?n)"
      using k by (simp add: mb_list_def mb_append_def del: upt_Suc)
    show "mb_list (mb_append val mb) ! k = (mb_list mb @ [val]) ! k"
    proof (cases "k < ?e")
      case True
      then have "(?o + k) mod ?n \<noteq> in_offset mb" using ring_index_inj [OF e(2), of k ?e] e by auto
      then show ?thesis unfolding at using True by (simp add: nth_append mb_list_def)
    next
      case False
      then have "k = ?e" using k by simp
      moreover have "in_offset mb < length (msg_pool mb)" using i e(4) by linarith
      ultimately show ?thesis unfolding at e(3) [symmetric] by (simp add: nth_append flip: e(3))
    qed
  qed
qed

lemma mb_send_room:
  assumes "mb_ok mb" "mb_entry mb \<noteq> mb_size mb" "mb_wake_receiver (mb_append val mb) = (m, w)"
  shows "rt_mb_send_wait th val timeout mb = (m, w, Ret 0)"
proof -
  have "mb_entry mb < RT_MB_ENTRY_MAX" using assms(1,2) by (auto simp: mb_ok_def)
  then show ?thesis using assms(2,3) by (simp add: rt_mb_send_wait_def Let_def mb_append_def)
qed

lemma mb_send_spec:
  assumes "mb_ok mb" "rt_mb_send_wait th val timeout mb = (mb', woken, out)"
  shows "mb_ok mb' \<and> mb_size mb' = mb_size mb
    \<and> (if length (mb_list mb) < mb_size mb then out = Ret 0 \<and> mb_list mb' = mb_list mb @ [val]
       else mb_list mb' = mb_list mb \<and> out = (if timeout = 0 then Ret (- 3) else Suspended))"
proof (cases "mb_entry mb = mb_size mb")
  case True
  then show ?thesis
    using assms by (cases "timeout = 0") (auto simp: rt_mb_send_wait_def mb_ok_def mb_list_def)
next
  case False
  have lt: "mb_entry mb < mb_size mb" using assms(1) False by (auto simp: mb_ok_def)
  obtain m w where w: "mb_wake_receiver (mb_append val mb) = (m, w)" by fastforce
  show ?thesis
    using assms(2) mb_send_room [OF assms(1) False w] wake_same [OF w] mb_append_ok [OF assms(1) False] lt
    by (auto simp: mb_append_def)
qed

lemma mb_recv_spec:
  assumes "mb_ok mb" "rt_mb_recv th timeout mb = (mb', val, woken, out)"
  shows "mb_ok mb' \<and> mb_size mb' = mb_size mb
    \<and> (if mb_list mb = [] then mb_list mb' = [] \<and> val = None \<and> out = (if timeout = 0 then Ret (- 2) else Suspended)
       else out = Ret 0 \<and> val = Some (hd (mb_list mb)) \<and> mb_list mb' = tl (mb_list mb))"
proof (cases "mb_entry mb = 0")
  case True
  then have "mb_list mb = []" by (simp add: mb_list_def)
  then show ?thesis
    using assms True by (cases "timeout = 0") (auto simp: rt_mb_recv_def mb_ok_def mb_list_def)
next
  case False
  let ?n = "mb_size mb" and ?o = "out_offset mb" and ?e = "mb_entry mb"
  define m where "m = mb\<lparr>out_offset := next_offset ?n ?o, mb_entry := ?e - 1\<rparr>"
  note ok = assms(1) [unfolded mb_ok_def]
  have o: "?o < ?n" "next_offset ?n ?o = (?o + 1) mod ?n" using ok next_offset_mod by auto
  obtain k where k: "?e = Suc k" using False by (cases ?e) auto
  have m: "mb_ok m"
    using ok o k unfolding m_def mb_ok_def by (simp add: mod_Suc_eq mod_add_left_eq)
  have "mb_list mb = msg_pool mb ! ?o # mb_list m"
    unfolding mb_list_def m_def k o(2) using o(1)
    by (simp add: upt_conv_Cons map_Suc_upt [symmetric] mod_Suc_eq del: upt_Suc) (simp add: mod_add_left_eq flip: add_Suc)
  then have l: "mb_list mb \<noteq> []" "hd (mb_list mb) = msg_pool mb ! ?o" "tl (mb_list mb) = mb_list m" by simp_all
  have "mb' = m \<or> mb' = m\<lparr>suspend_sender := tl (suspend_sender mb)\<rparr>" "val = Some (msg_pool mb ! ?o) \<and> out = Ret 0"
    using assms(2) False unfolding rt_mb_recv_def Let_def rt_ipc_list_resume_def m_def by (auto split: if_splits)
  then show ?thesis using l m by (auto simp: mb_ok_def mb_list_def m_def)
qed

lemma mb_urgent_spec:
  assumes "mb_ok mb" "rt_mb_urgent val mb = (mb', woken, e)"
  shows "mb_ok mb' \<and> (if length (mb_list mb) < mb_size mb then e = 0 \<and> mb_list mb' = val # mb_list mb
    else e = - 3 \<and> mb_list mb' = mb_list mb)"
proof (cases "mb_entry mb = mb_size mb")
  case True
  then show ?thesis using assms by (auto simp: rt_mb_urgent_def)
next
  case False
  let ?n = "mb_size mb" and ?o = "out_offset mb" and ?e = "mb_entry mb"
  note ok = assms(1) [unfolded mb_ok_def]
  define q where "q = (if ?o > 0 then ?o - 1 else ?n - 1)"
  have q: "q < ?n" "(q + 1) mod ?n = ?o" "q < length (msg_pool mb)" using ok by (auto simp: q_def)
  have e: "?e < ?n" "(?e + 1) mod 2 ^ 16 = ?e + 1" using ok False by (auto simp: RT_MB_ENTRY_MAX_def)
  define m where "m = mb\<lparr>out_offset := q, msg_pool := (msg_pool mb)[q := val], mb_entry := ?e + 1\<rparr>"
  obtain m' w where w: "mb_wake_receiver m = (m', w)" by fastforce
  have run: "mb' = m'" "e = 0" using assms(2) False w e(2) unfolding rt_mb_urgent_def Let_def m_def q_def by auto
  have shift: "(q + Suc i) mod ?n = (?o + i) mod ?n" for i
    using mod_add_left_eq [of "q + 1" ?n i] unfolding q(2) by simp
  have "mb_ok m" using ok q e(1) shift [of ?e] by (simp add: m_def mb_ok_def)
  moreover have "mb_list m = val # mb_list mb"
  proof (rule nth_equalityI)
    show "length (mb_list m) = length (val # mb_list mb)" by (simp add: m_def)
    fix k assume "k < length (mb_list m)"
    then have k: "k < ?e + 1" by (simp add: m_def)
    have at: "mb_list m ! k = (msg_pool mb)[q := val] ! ((q + k) mod ?n)"
      using k by (simp add: mb_list_def m_def del: upt_Suc)
    show "mb_list m ! k = (val # mb_list mb) ! k"
    proof (cases k)
      case 0
      then show ?thesis unfolding at using q by simp
    next
      case (Suc j)
      have "(q + k) mod ?n \<noteq> q" using ring_index_inj [OF q(1), of k 0] Suc k e(1) q(1) by auto
      then show ?thesis unfolding at using Suc k shift [of j] by (simp add: mb_list_def)
    qed
  qed
  ultimately show ?thesis using run wake_same [OF w] e(1) by simp
qed

lemma mb_init_ok: "0 < n \<Longrightarrow> n \<le> RT_MB_ENTRY_MAX \<Longrightarrow> n \<le> length p \<Longrightarrow> mb_ok (rt_mb_init p n flag) \<and> mb_list (rt_mb_init p n flag) = []"
  by (simp add: rt_mb_init_def mb_ok_def mb_list_def RT_MB_ENTRY_MAX_def)

text \<open>What a client of a mailbox may rely on: a bounded queue, where sending never blocks with timeout 0.\<close>

locale mail_queue =
  fixes send :: "rt_thread \<Rightarrow> u32 \<Rightarrow> 'm \<Rightarrow> 'm \<times> rt_thread option \<times> ipc_outcome"
    and recv :: "rt_thread \<Rightarrow> int \<Rightarrow> 'm \<Rightarrow> 'm \<times> u32 option \<times> rt_thread option \<times> ipc_outcome"
    and ok :: "'m \<Rightarrow> bool" and mails :: "'m \<Rightarrow> u32 list" and cap :: "'m \<Rightarrow> nat"
  assumes cap: "ok m \<Longrightarrow> 0 < cap m \<and> length (mails m) \<le> cap m"
    and send: "ok m \<Longrightarrow> send th v m = (m', w, out) \<Longrightarrow> ok m' \<and> cap m' = cap m
      \<and> (if length (mails m) < cap m then out = Ret 0 \<and> mails m' = mails m @ [v] else out = Ret (- 3) \<and> mails m' = mails m)"
    and recv: "ok m \<Longrightarrow> recv th t m = (m', r, w, out) \<Longrightarrow> ok m' \<and> cap m' = cap m
      \<and> (if mails m = [] then mails m' = [] \<and> r = None \<and> out = (if t = 0 then Ret (- 2) else Suspended)
         else out = Ret 0 \<and> r = Some (hd (mails m)) \<and> mails m' = tl (mails m))"
begin

text \<open>After an attempt to send there is a mail in the box, whether or not the attempt succeeded.\<close>

lemma send_leaves_mail: "ok m \<Longrightarrow> send th v m = (m', w, out) \<Longrightarrow> mails m' \<noteq> []"
  using send [of m th v m' w out] cap [of m] by (auto split: if_splits)

end

interpretation mb: mail_queue rt_mb_send rt_mb_recv mb_ok mb_list mb_size
proof
  fix m assume "mb_ok m"
  then show "0 < mb_size m \<and> length (mb_list m) \<le> mb_size m" by (simp add: mb_ok_def)
next
  fix m th v m' w out assume "mb_ok m" "rt_mb_send th v m = (m', w, out)"
  then show "mb_ok m' \<and> mb_size m' = mb_size m \<and> (if length (mb_list m) < mb_size m then out = Ret 0 \<and> mb_list m' = mb_list m @ [v]
      else out = Ret (- 3) \<and> mb_list m' = mb_list m)"
    using mb_send_spec [of m th v 0 m' w out] by (simp add: rt_mb_send_def)
next
  fix m th t m' v w out assume "mb_ok m" "rt_mb_recv th t m = (m', v, w, out)"
  then show "mb_ok m' \<and> mb_size m' = mb_size m
      \<and> (if mb_list m = [] then mb_list m' = [] \<and> v = None \<and> out = (if t = 0 then Ret (- 2) else Suspended)
         else out = Ret 0 \<and> v = Some (hd (mb_list m)) \<and> mb_list m' = tl (mb_list m))"
    using mb_recv_spec [of m th t m' v w out] by simp
qed

section \<open>Properties\<close>

text \<open>
  C22.  A semaphore in use, whatever the order of takes, releases and timeouts: the number of takes that succeeded and the value
  left always add up to the initial value and the successful releases; a thread waits only while the value is 0; and with
  \<open>RT_IPC_FLAG_PRIO\<close> the thread a release resumes is one of the most urgent that wait.
\<close>

theorem semaphore_conservation:
  assumes "sem_run v flag s granted released" "v \<le> RT_SEM_VALUE_MAX"
  shows "sem_value s + granted = v + released \<and> (sem_value s = 0 \<or> sem_waiting s = []) \<and> sem_value s \<le> RT_SEM_VALUE_MAX
    \<and> (\<forall>s' th e. flag = RT_IPC_FLAG_PRIO \<and> rt_sem_release s = (s', Some th, e) \<longrightarrow>
        th \<in> set (sem_waiting s) \<and> (\<forall>u \<in> set (sem_waiting s). current_priority th \<le> current_priority u))"
proof -
  note r = sem_run_ok [OF assms]
  have "th \<in> set (sem_waiting s) \<and> (\<forall>u \<in> set (sem_waiting s). current_priority th \<le> current_priority u)"
    if "flag = RT_IPC_FLAG_PRIO" "rt_sem_release s = (s', Some th, e)" for s' th e
  proof -
    have "sem_waiting s \<noteq> []" "th = hd (sem_waiting s)"
      using that(2) by (auto simp: rt_sem_release_def rt_ipc_list_resume_def split: if_splits)
    then show ?thesis using r that(1) by (cases "sem_waiting s") (auto simp: sem_ok_def)
  qed
  then show ?thesis using r by (auto simp: sem_ok_def)
qed

theorem semaphore_conservation_witness:
  "\<exists>s. sem_run 1 RT_IPC_FLAG_PRIO s 2 1 \<and> sem_value s + 2 = 1 + 1 \<and> sem_waiting s = []"
proof -
  define t where "t = \<lparr>th_id = 7, current_priority = 3\<rparr>"
  note run = sem_run.start [of 1 RT_IPC_FLAG_PRIO]
  have "rt_sem_take t (- 1) (rt_sem_init 1 RT_IPC_FLAG_PRIO) = (\<lparr>sem_value = 0, sem_flag = RT_IPC_FLAG_PRIO, sem_waiting = []\<rparr>, Ret 0)"
    by (simp add: rt_sem_take_def rt_sem_init_def)
  from sem_run.take [OF run _ this]
  have 1: "sem_run 1 RT_IPC_FLAG_PRIO \<lparr>sem_value = 0, sem_flag = RT_IPC_FLAG_PRIO, sem_waiting = []\<rparr> 1 0" by (simp add: rt_sem_init_def)
  have "rt_sem_take t (- 1) \<lparr>sem_value = 0, sem_flag = RT_IPC_FLAG_PRIO, sem_waiting = []\<rparr>
      = (\<lparr>sem_value = 0, sem_flag = RT_IPC_FLAG_PRIO, sem_waiting = [t]\<rparr>, Suspended)"
    by (simp add: rt_sem_take_def rt_ipc_list_suspend_def)
  from sem_run.take [OF 1 _ this]
  have 2: "sem_run 1 RT_IPC_FLAG_PRIO \<lparr>sem_value = 0, sem_flag = RT_IPC_FLAG_PRIO, sem_waiting = [t]\<rparr> 1 0" by simp
  have "rt_sem_release \<lparr>sem_value = 0, sem_flag = RT_IPC_FLAG_PRIO, sem_waiting = [t]\<rparr>
      = (\<lparr>sem_value = 0, sem_flag = RT_IPC_FLAG_PRIO, sem_waiting = []\<rparr>, Some t, 0)"
    by (simp add: rt_sem_release_def rt_ipc_list_resume_def)
  from sem_run.release [OF 2 this]
  have 3: "sem_run 1 RT_IPC_FLAG_PRIO \<lparr>sem_value = 0, sem_flag = RT_IPC_FLAG_PRIO, sem_waiting = []\<rparr> 2 1"
    by (simp add: sem_take_resumed_def numeral_2_eq_2)
  then show ?thesis using semaphore_conservation [OF 3] by (auto simp: RT_SEM_VALUE_MAX_def)
qed

text \<open>
  C23.  A mailbox is a bounded queue: sending appends when there is room and otherwise fails or suspends the sender without
  changing the mails, an urgent mail goes to the front, receiving takes the first mail; the structure stays well-formed.
\<close>

theorem mailbox_refines:
  assumes "mb_ok mb" "rt_mb_send_wait th val timeout mb = (mb1, w1, o1)" "rt_mb_urgent val mb = (mb2, w2, e2)"
    and "rt_mb_recv th timeout mb = (mb3, val3, w3, o3)"
  shows "mb_ok mb1 \<and> mb_ok mb2 \<and> mb_ok mb3
    \<and> (if length (mb_list mb) < mb_size mb
       then o1 = Ret 0 \<and> mb_list mb1 = mb_list mb @ [val] \<and> e2 = 0 \<and> mb_list mb2 = val # mb_list mb
       else mb_list mb1 = mb_list mb \<and> o1 = (if timeout = 0 then Ret (- 3) else Suspended) \<and> e2 = - 3 \<and> mb_list mb2 = mb_list mb)
    \<and> (if mb_list mb = [] then mb_list mb3 = [] \<and> val3 = None \<and> o3 = (if timeout = 0 then Ret (- 2) else Suspended)
       else o3 = Ret 0 \<and> val3 = Some (hd (mb_list mb)) \<and> mb_list mb3 = tl (mb_list mb))"
  using mb_send_spec [OF assms(1,2)] mb_urgent_spec [OF assms(1,3)] mb_recv_spec [OF assms(1,4)] by auto

theorem mailbox_refines_witness:
  "\<exists>mb1 mb2. mb_ok mb1 \<and> mb_list mb1 = [5] \<and> mb_ok mb2 \<and> mb_list mb2 = [5]"
proof -
  let ?mb = "rt_mb_init [0, 0] 2 RT_IPC_FLAG_FIFO" and ?t = "\<lparr>th_id = 1, current_priority = 12\<rparr>"
  have ok: "mb_ok ?mb" "mb_list ?mb = []" "mb_size ?mb = 2"
    using mb_init_ok [of 2 "[0, 0]"] by (simp_all add: RT_MB_ENTRY_MAX_def rt_mb_init_def)
  obtain m1 w1 o1 m2 w2 e2 m3 v3 w3 o3 where r: "rt_mb_send_wait ?t 5 0 ?mb = (m1, w1, o1)" "rt_mb_urgent 5 ?mb = (m2, w2, e2)"
    "rt_mb_recv ?t 0 ?mb = (m3, v3, w3, o3)" by (metis prod_cases4 prod_cases3)
  show ?thesis using mailbox_refines [OF ok(1) r] ok(2,3) by auto
qed

end
