(* ===== verification/Eth_Glue.thy ===== *)
theory Eth_Glue
  imports Eth_Dma Ipc
begin

text \<open>
  The threads between the Ethernet driver and the network stack (\<open>netif/ethernetif.c\<close> of lwIP 2.0.3): the interrupt posts a
  mail unless one is under way, the receive thread takes it, clears the notice and fetches frames until there are none; a frame to send is handed to the transmit thread by mail and acknowledged by a semaphore.  A
  step of the model is what the code does between two points where another thread or an interrupt can run, except that a call
  of the driver's receive hook is one step.
\<close>

section \<open>State\<close>

record eth_device =
  ed_netif :: bool
  link_changed :: bool
  link_status :: bool
  rx_notice :: bool

text \<open>Where the receive thread is: before \<open>rt_mb_recv\<close>, suspended in it, at the link check, at clearing the notice, in the loop.\<close>

datatype rx_phase = Rx_recv | Rx_asleep | Rx_link | Rx_clear | Rx_drain

record eth_sys =
  sys_dma :: eth_dma
  sys_dev :: eth_device
  rx_mb :: rt_mailbox
  rx_at :: rx_phase
  inputs :: "bytes list list"
  link_calls :: "bool list"
  link_mails :: nat

text \<open>\<open>link_mails\<close> counts the calls of \<open>eth_device_linkchange\<close> that have set the flags and not yet sent their mail.\<close>

definition erx_thread :: rt_thread where
  "erx_thread = \<lparr>th_id = 0, current_priority = 12\<rparr>"

text \<open>A mail for the receive thread; the thread runs again if it was suspended.\<close>

definition post_rx :: "rt_thread \<Rightarrow> eth_sys \<Rightarrow> eth_sys \<times> int" where
  "post_rx cur sys =
     (case rt_mb_send cur 0 (rx_mb sys) of (mb, woken, out) \<Rightarrow>
        (sys\<lparr>rx_mb := mb, rx_at := if woken \<noteq> None then Rx_recv else rx_at sys\<rparr>, case out of Ret e \<Rightarrow> e | Suspended \<Rightarrow> 0))"

section \<open>Notices\<close>

definition eth_device_ready :: "rt_thread \<Rightarrow> eth_sys \<Rightarrow> eth_sys \<times> int" where
  "eth_device_ready cur sys =
     (if ed_netif (sys_dev sys)
      then (if \<not> rx_notice (sys_dev sys) then post_rx cur (sys\<lparr>sys_dev := (sys_dev sys)\<lparr>rx_notice := True\<rparr>\<rparr>) else (sys, 0))
      else (sys, - 1))"

text \<open>
  \<open>eth_device_linkchange\<close> sets the flags with interrupts off, and sends the mail with interrupts on again: two steps, between
  which anything else can run.  The whole call is their composition.
\<close>

definition linkchange_flags :: "bool \<Rightarrow> eth_sys \<Rightarrow> eth_sys" where
  "linkchange_flags up sys =
     sys\<lparr>sys_dev := (sys_dev sys)\<lparr>link_changed := True, link_status := up\<rparr>, link_mails := link_mails sys + 1\<rparr>"

definition linkchange_mail :: "rt_thread \<Rightarrow> eth_sys \<Rightarrow> eth_sys \<times> int" where
  "linkchange_mail cur sys = post_rx cur (sys\<lparr>link_mails := link_mails sys - 1\<rparr>)"

definition eth_device_linkchange :: "rt_thread \<Rightarrow> bool \<Rightarrow> eth_sys \<Rightarrow> eth_sys \<times> int" where
  "eth_device_linkchange cur up sys = linkchange_mail cur (linkchange_flags up sys)"

text \<open>The interrupt: the driver's routine with the answer of \<open>eth_device_ready\<close>.\<close>

definition eth_interrupt :: "rt_thread \<Rightarrow> eth_sys \<Rightarrow> eth_sys" where
  "eth_interrupt cur sys =
     (let (sys', ready) = (if DMASR (sys_dma sys) AND ETH_DMA_IT_R \<noteq> 0 then eth_device_ready cur sys else (sys, 0))
      in sys'\<lparr>sys_dma := ETH_IRQHandler ready (sys_dma sys)\<rparr>)"

section \<open>The receive thread\<close>

definition eth_rx_thread_entry :: "(nat \<Rightarrow> nat list option) \<Rightarrow> eth_sys \<Rightarrow> eth_sys option" where
  "eth_rx_thread_entry alloc sys =
     (case rx_at sys of
        Rx_recv \<Rightarrow>
          (case rt_mb_recv erx_thread (- 1) (rx_mb sys) of (mb, _, _, out) \<Rightarrow>
             Some (sys\<lparr>rx_mb := mb, rx_at := if out = Ret 0 then Rx_link else if out = Suspended then Rx_asleep else Rx_recv\<rparr>))
      | Rx_asleep \<Rightarrow> None
      | Rx_link \<Rightarrow>
          Some (if link_changed (sys_dev sys)
                then sys\<lparr>sys_dev := (sys_dev sys)\<lparr>link_changed := False\<rparr>,
                         link_calls := link_calls sys @ [link_status (sys_dev sys)], rx_at := Rx_clear\<rparr>
                else sys\<lparr>rx_at := Rx_clear\<rparr>)
      | Rx_clear \<Rightarrow> Some (sys\<lparr>sys_dev := (sys_dev sys)\<lparr>rx_notice := False\<rparr>, rx_at := Rx_drain\<rparr>)
      | Rx_drain \<Rightarrow>
          (case rt_ch32_eth_rx alloc (sys_dma sys) of
             None \<Rightarrow> None
           | Some (dma, Some p) \<Rightarrow> Some (sys\<lparr>sys_dma := dma, inputs := inputs sys @ [p]\<rparr>)
           | Some (dma, None) \<Rightarrow> Some (sys\<lparr>sys_dma := dma, rx_at := Rx_recv\<rparr>)))"

definition eth_system_device_init_private :: "eth_dma \<Rightarrow> eth_device \<Rightarrow> eth_sys" where
  "eth_system_device_init_private dma dev = \<lparr>sys_dma = dma, sys_dev = dev, rx_mb = rt_mb_init (replicate 8 0) 8 RT_IPC_FLAG_FIFO,
     rx_at = Rx_recv, inputs = [], link_calls = [], link_mails = 0\<rparr>"

section \<open>The transmit thread\<close>

text \<open>The mailbox of the transmit thread, the acknowledgement, and the messages by their address.\<close>

record eth_tx_sys =
  tx_mb :: rt_mailbox
  tx_ack :: rt_semaphore
  tx_msgs :: "u32 \<Rightarrow> bytes list"
  tx_dma :: eth_dma

text \<open>\<open>ethernetif_linkoutput\<close> up to the wait: \<open>None\<close> when it already returns.\<close>

definition ethernetif_linkoutput :: "rt_thread \<Rightarrow> u32 \<Rightarrow> bytes list \<Rightarrow> eth_tx_sys \<Rightarrow> eth_tx_sys \<times> int option" where
  "ethernetif_linkoutput cur msg p sys =
     (let sys = sys\<lparr>tx_msgs := (tx_msgs sys)(msg := p)\<rparr> in
      case rt_mb_send cur msg (tx_mb sys) of (mb, _, out) \<Rightarrow>
        if out = Ret 0
        then (case rt_sem_take cur (- 1) (tx_ack sys) of (sem, out) \<Rightarrow>
                (sys\<lparr>tx_mb := mb, tx_ack := sem\<rparr>, if out = Suspended then None else Some ERR_OK))
        else (sys\<lparr>tx_mb := mb\<rparr>, Some ERR_OK))"

text \<open>One round of the transmit thread: the state, the thread its acknowledgement resumes, and the driver's result.\<close>

definition eth_tx_thread_entry :: "rt_thread \<Rightarrow> eth_tx_sys \<Rightarrow> (eth_tx_sys \<times> rt_thread option \<times> int) option" where
  "eth_tx_thread_entry etx sys =
     (case rt_mb_recv etx (- 1) (tx_mb sys) of
        (mb, Some msg, _, Ret e) \<Rightarrow>
          (case rt_ch32_eth_tx (tx_dma sys) (tx_msgs sys msg) of
             None \<Rightarrow> None
           | Some (dma, ret) \<Rightarrow>
               (case rt_sem_release (tx_ack sys) of (sem, woken, _) \<Rightarrow>
                  Some (sys\<lparr>tx_mb := mb, tx_dma := dma, tx_ack := sem\<rparr>, woken, ret)))
      | (mb, _, _, _) \<Rightarrow> None)"

section \<open>No frame waits for a sleeping thread\<close>

definition pending :: "eth_sys \<Rightarrow> bool" where
  "pending sys \<longleftrightarrow> fr_length (eth_frame (sys_dma sys)) \<noteq> 0"

definition rx_mb_ok :: "eth_sys \<Rightarrow> bool" where
  "rx_mb_ok sys \<longleftrightarrow> mb_ok (rx_mb sys) \<and> mb_flag (rx_mb sys) = RT_IPC_FLAG_FIFO
     \<and> suspend_receiver (rx_mb sys) = (if rx_at sys = Rx_asleep then [erx_thread] else [])
     \<and> (rx_at sys = Rx_asleep \<longrightarrow> mb_list (rx_mb sys) = [])"

definition glue_ok :: "eth_sys \<Rightarrow> bool" where
  "glue_ok sys \<longleftrightarrow> eth_ok (sys_dma sys) \<and> ed_netif (sys_dev sys) \<and> rx_mb_ok sys
     \<and> (rx_notice (sys_dev sys) \<longrightarrow> mb_list (rx_mb sys) \<noteq> [] \<or> rx_at sys \<in> {Rx_link, Rx_clear})
     \<and> (link_changed (sys_dev sys) \<longrightarrow> mb_list (rx_mb sys) \<noteq> [] \<or> rx_at sys = Rx_link \<or> 0 < link_mails sys)
     \<and> (pending sys \<longrightarrow> rx_notice (sys_dev sys) \<or> rx_at sys = Rx_drain)"

lemma wake_receiver:
  "mb_wake_receiver mb = (if suspend_receiver mb = [] then (mb, None)
     else (mb\<lparr>suspend_receiver := tl (suspend_receiver mb)\<rparr>, Some (hd (suspend_receiver mb))))"
  by (simp add: mb_wake_receiver_def rt_ipc_list_resume_def)

lemma send_receivers:
  assumes "mb_ok mb" "rt_mb_send cur v mb = (mb', woken, out)" "suspend_receiver mb \<noteq> [] \<longrightarrow> mb_list mb = []"
  shows "suspend_receiver mb' = tl (suspend_receiver mb) \<and> mb_flag mb' = mb_flag mb \<and> (woken \<noteq> None \<longleftrightarrow> suspend_receiver mb \<noteq> [])"
proof (cases "mb_entry mb = mb_size mb")
  case True
  then have "mb_list mb \<noteq> []" using assms(1) by (auto simp: mb_ok_def mb_list_def)
  then show ?thesis using True assms(2,3) by (auto simp: rt_mb_send_def rt_mb_send_wait_def)
next
  case False
  obtain m w where w: "mb_wake_receiver (mb_append v mb) = (m, w)" by fastforce
  have "mb' = m" "woken = w" using assms(2) mb_send_room [OF assms(1) False w] by (simp_all add: rt_mb_send_def)
  moreover have "suspend_receiver (mb_append v mb) = suspend_receiver mb" "mb_flag (mb_append v mb) = mb_flag mb"
    by (simp_all add: mb_append_def)
  ultimately show ?thesis using w by (cases "suspend_receiver mb = []") (auto simp: wake_receiver)
qed

lemma post_rx_spec:
  assumes "rx_mb_ok sys" "post_rx cur sys = (sys', e)"
  shows "rx_mb_ok sys' \<and> mb_list (rx_mb sys') \<noteq> [] \<and> rx_at sys' = (if rx_at sys = Rx_asleep then Rx_recv else rx_at sys)
    \<and> sys_dma sys' = sys_dma sys \<and> sys_dev sys' = sys_dev sys \<and> link_mails sys' = link_mails sys"
proof -
  obtain mb woken out where m: "rt_mb_send cur 0 (rx_mb sys) = (mb, woken, out)" by (metis prod_cases3)
  note ok = assms(1) [unfolded rx_mb_ok_def]
  have r: "suspend_receiver mb = tl (suspend_receiver (rx_mb sys)) \<and> mb_flag mb = mb_flag (rx_mb sys)
      \<and> (woken \<noteq> None \<longleftrightarrow> suspend_receiver (rx_mb sys) \<noteq> [])"
    using ok m by (intro send_receivers) (auto split: if_splits)
  have s: "mb_ok mb" "mb_list mb \<noteq> []" using mb.send mb.send_leaves_mail ok m by blast+
  have "sys' = sys\<lparr>rx_mb := mb, rx_at := if woken \<noteq> None then Rx_recv else rx_at sys\<rparr>"
    using assms(2) m by (simp add: post_rx_def)
  then show ?thesis using ok r s by (auto simp: rx_mb_ok_def split: if_splits)
qed

lemma irq_frame_kept:
  "DMASR s AND ETH_DMA_IT_R = 0 \<Longrightarrow> eth_frame (ETH_IRQHandler ready s) = eth_frame s"
  by (simp add: ETH_IRQHandler_def Let_def write_DMASR_def)

lemma eth_interrupt_ok:
  assumes "glue_ok sys"
  shows "glue_ok (eth_interrupt cur sys)"
proof (cases "DMASR (sys_dma sys) AND ETH_DMA_IT_R \<noteq> 0")
  case False
  then have "eth_frame (ETH_IRQHandler 0 (sys_dma sys)) = eth_frame (sys_dma sys)" by (simp add: irq_frame_kept)
  then show ?thesis
    using assms False irq_ok [of "sys_dma sys" 0] by (simp add: eth_interrupt_def glue_ok_def rx_mb_ok_def pending_def)
next
  case True
  note g = assms [unfolded glue_ok_def]
  show ?thesis
  proof (cases "rx_notice (sys_dev sys)")
    case True
    then have "eth_device_ready cur sys = (sys, 0)" using g by (simp add: eth_device_ready_def)
    then show ?thesis
      using g True \<open>DMASR (sys_dma sys) AND ETH_DMA_IT_R \<noteq> 0\<close> irq_ok [of "sys_dma sys" 0]
      by (simp add: eth_interrupt_def glue_ok_def rx_mb_ok_def)
  next
    case False
    define t where "t = sys\<lparr>sys_dev := (sys_dev sys)\<lparr>rx_notice := True\<rparr>\<rparr>"
    obtain u e where u: "post_rx cur t = (u, e)" by fastforce
    have "rx_mb_ok t" using g by (simp add: t_def rx_mb_ok_def)
    note p = post_rx_spec [OF this u]
    have "eth_interrupt cur sys = u\<lparr>sys_dma := ETH_IRQHandler e (sys_dma sys)\<rparr>"
      using True False g u by (simp add: eth_interrupt_def eth_device_ready_def t_def)
    then show ?thesis using p g irq_ok [of "sys_dma sys" e] by (simp add: glue_ok_def t_def rx_mb_ok_def)
  qed
qed

lemma linkchange_flags_ok: "glue_ok sys \<Longrightarrow> glue_ok (linkchange_flags up sys)"
  by (auto simp: glue_ok_def linkchange_flags_def rx_mb_ok_def pending_def)

lemma linkchange_mail_ok:
  assumes "glue_ok sys"
  shows "glue_ok (fst (linkchange_mail cur sys))" "mb_list (rx_mb (fst (linkchange_mail cur sys))) \<noteq> []"
    "rx_at (fst (linkchange_mail cur sys)) \<noteq> Rx_asleep"
proof -
  define t where "t = sys\<lparr>link_mails := link_mails sys - 1\<rparr>"
  obtain u e where u: "post_rx cur t = (u, e)" by fastforce
  have "rx_mb_ok t" using assms by (simp add: glue_ok_def t_def rx_mb_ok_def)
  note p = post_rx_spec [OF this u]
  have e: "fst (linkchange_mail cur sys) = u" using u by (simp add: linkchange_mail_def t_def)
  show "glue_ok (fst (linkchange_mail cur sys))" using p assms unfolding e by (auto simp: glue_ok_def t_def pending_def)
  show "mb_list (rx_mb (fst (linkchange_mail cur sys))) \<noteq> []" "rx_at (fst (linkchange_mail cur sys)) \<noteq> Rx_asleep"
    using p unfolding e by auto
qed

text \<open>Work to do shows in the mailbox or in the place where the thread is.\<close>

lemma work_shows:
  assumes "glue_ok sys" "pending sys \<or> link_changed (sys_dev sys) \<and> link_mails sys = 0"
  shows "mb_list (rx_mb sys) \<noteq> [] \<or> rx_at sys \<in> {Rx_link, Rx_clear, Rx_drain}"
proof -
  note g = assms(1) [unfolded glue_ok_def, THEN conjunct2, THEN conjunct2, THEN conjunct2]
  note n = conjunct1 [OF g] and l = conjunct1 [OF conjunct2 [OF g]] and p = conjunct2 [OF conjunct2 [OF g]]
  show ?thesis using n l p assms(2) by (cases "mb_list (rx_mb sys)"; cases "rx_at sys") simp_all
qed

lemma recv_receivers:
  assumes "rt_mb_recv th t mb = (mb', v, w, out)"
  shows "mb_flag mb' = mb_flag mb \<and> suspend_receiver mb' =
    (if out = Suspended then rt_ipc_list_suspend (suspend_receiver mb) th (mb_flag mb) else suspend_receiver mb)"
  using assms by (auto simp: rt_mb_recv_def Let_def rt_ipc_list_resume_def split: if_splits)

lemma thread_recv_ok:
  assumes "glue_ok sys" "rx_at sys = Rx_recv" "eth_rx_thread_entry alloc sys = Some sys'"
  shows "glue_ok sys' \<and> rx_at sys' = (if mb_list (rx_mb sys) = [] then Rx_asleep else Rx_link)"
proof -
  obtain mb v w out where m: "rt_mb_recv erx_thread (- 1) (rx_mb sys) = (mb, v, w, out)" by (metis prod_cases4)
  note g = assms(1) [unfolded glue_ok_def rx_mb_ok_def]
  have ok: "mb_ok (rx_mb sys)" using g by simp
  note r = mb.recv [OF ok m] and q = recv_receivers [OF m]
  have s: "sys' = sys\<lparr>rx_mb := mb, rx_at := if out = Ret 0 then Rx_link else if out = Suspended then Rx_asleep else Rx_recv\<rparr>"
    using assms(2,3) m by (simp add: eth_rx_thread_entry_def)
  show ?thesis
  proof (cases "mb_list (rx_mb sys) = []")
    case True
    then have "sys' = sys\<lparr>rx_mb := mb, rx_at := Rx_asleep\<rparr>" using r s by simp
    moreover have "mb_ok mb \<and> mb_list mb = [] \<and> suspend_receiver mb = [erx_thread] \<and> mb_flag mb = RT_IPC_FLAG_FIFO"
      using r q g assms(2) True by (auto simp: rt_ipc_list_suspend_def)
    ultimately show ?thesis using g assms(2) True by (auto simp: glue_ok_def rx_mb_ok_def pending_def)
  next
    case False
    then have "sys' = sys\<lparr>rx_mb := mb, rx_at := Rx_link\<rparr>" using r s by simp
    moreover have "mb_ok mb \<and> suspend_receiver mb = [] \<and> mb_flag mb = RT_IPC_FLAG_FIFO" using r q g assms(2) False by auto
    ultimately show ?thesis using g assms(2) False by (auto simp: glue_ok_def rx_mb_ok_def pending_def)
  qed
qed

lemma thread_drain_ok:
  assumes "glue_ok sys" "rx_at sys = Rx_drain" "honest_alloc alloc"
  shows "\<exists>sys'. eth_rx_thread_entry alloc sys = Some sys' \<and> glue_ok sys' \<and> \<not> pending sys'
    \<and> (case rx_at sys' of Rx_drain \<Rightarrow> \<exists>p. inputs sys' = inputs sys @ [p] | ph \<Rightarrow> ph = Rx_recv \<and> inputs sys' = inputs sys)"
proof -
  note g = assms(1) [unfolded glue_ok_def]
  obtain d r where d: "rt_ch32_eth_rx alloc (sys_dma sys) = Some (d, r)" "eth_ok d" "fr_length (eth_frame d) = 0"
    using eth_rx_spec [OF _ assms(3), of "sys_dma sys"] g by blast
  show ?thesis
  proof (cases r)
    case None
    then have "eth_rx_thread_entry alloc sys = Some (sys\<lparr>sys_dma := d, rx_at := Rx_recv\<rparr>)"
      using d(1) assms(2) by (simp add: eth_rx_thread_entry_def)
    then show ?thesis using g d assms(2) by (simp add: glue_ok_def rx_mb_ok_def pending_def)
  next
    case (Some p)
    then have "eth_rx_thread_entry alloc sys = Some (sys\<lparr>sys_dma := d, inputs := inputs sys @ [p]\<rparr>)"
      using d(1) assms(2) by (simp add: eth_rx_thread_entry_def)
    then show ?thesis using g d assms(2) by (simp add: glue_ok_def rx_mb_ok_def pending_def)
  qed
qed

lemma thread_ok:
  assumes "glue_ok sys" "honest_alloc alloc" "eth_rx_thread_entry alloc sys = Some sys'"
  shows "glue_ok sys'"
proof (cases "rx_at sys")
  case Rx_recv
  then show ?thesis using thread_recv_ok [OF assms(1) _ assms(3)] by simp
next
  case Rx_asleep
  then show ?thesis using assms(3) by (simp add: eth_rx_thread_entry_def)
next
  case Rx_link
  then show ?thesis using assms(1,3) by (auto simp: eth_rx_thread_entry_def glue_ok_def rx_mb_ok_def pending_def split: if_splits)
next
  case Rx_clear
  then show ?thesis using assms(1,3) by (auto simp: eth_rx_thread_entry_def glue_ok_def rx_mb_ok_def pending_def)
next
  case Rx_drain
  then show ?thesis using thread_drain_ok [OF assms(1) Rx_drain assms(2)] assms(3) by auto
qed

text \<open>
  The system: interrupts, changes of the link, steps of the thread, and the driver's other steps (the engine, transmission),
  in any order.
\<close>

inductive glue_step :: "eth_sys \<Rightarrow> eth_sys \<Rightarrow> bool" where
  interrupt: "glue_step sys (eth_interrupt cur sys)"
| link_flags: "glue_step sys (linkchange_flags up sys)"
| link_mail: "0 < link_mails sys \<Longrightarrow> glue_step sys (fst (linkchange_mail cur sys))"
| thread: "honest_alloc alloc \<Longrightarrow> eth_rx_thread_entry alloc sys = Some sys' \<Longrightarrow> glue_step sys sys'"
| driver: "eth_step (sys_dma sys) d \<Longrightarrow> eth_frame d = eth_frame (sys_dma sys) \<Longrightarrow> glue_step sys (sys\<lparr>sys_dma := d\<rparr>)"

inductive glue_reach :: "eth_sys \<Rightarrow> bool" where
  start: "ed_netif dev \<Longrightarrow> \<not> link_changed dev \<Longrightarrow> \<not> rx_notice dev \<Longrightarrow>
     glue_reach (eth_system_device_init_private eth_started dev)"
| step: "glue_reach sys \<Longrightarrow> glue_step sys sys' \<Longrightarrow> glue_reach sys'"

lemma glue_step_ok: "glue_step sys sys' \<Longrightarrow> glue_ok sys \<Longrightarrow> glue_ok sys'"
proof (induction rule: glue_step.induct)
  case (driver sys d)
  then show ?case using eth_step_ok [of "sys_dma sys" d] by (simp add: glue_ok_def rx_mb_ok_def pending_def)
qed (auto intro: eth_interrupt_ok linkchange_flags_ok linkchange_mail_ok(1) thread_ok)

lemma glue_reach_ok: "glue_reach sys \<Longrightarrow> glue_ok sys"
proof (induction rule: glue_reach.induct)
  case (start dev)
  have "fr_length (eth_frame eth_started) = 0"
    by (simp add: eth_started_def ETH_DMARxDescChainInit_def ETH_DMATxDescChainInit_def eth_zero_def)
  then show ?case
    using start eth_started_ok mb_init_ok [of 8 "replicate 8 0" RT_IPC_FLAG_FIFO]
    by (simp add: eth_system_device_init_private_def glue_ok_def rx_mb_ok_def pending_def RT_MB_ENTRY_MAX_def, simp add: rt_mb_init_def)
qed (rule glue_step_ok)

section \<open>Sending\<close>

text \<open>
  One transmission with an idle transmit thread: the caller waits, the thread calls the driver once with the caller's frame and
  its acknowledgement resumes the caller, which returns \<open>ERR_OK\<close> whatever the driver answered.
\<close>

lemma linkoutput_once:
  assumes "mb_ok (tx_mb sys)" "mb_list (tx_mb sys) = []" "sem_value (tx_ack sys) = 0" "sem_waiting (tx_ack sys) = []"
    and "rt_ch32_eth_tx (tx_dma sys) p = Some (dma, ret)"
  shows "\<exists>s1 s2. ethernetif_linkoutput cur msg p sys = (s1, None) \<and> eth_tx_thread_entry etx s1 = Some (s2, Some cur, ret)
    \<and> tx_dma s2 = dma \<and> mb_list (tx_mb s2) = [] \<and> sem_value (tx_ack s2) = 0 \<and> sem_waiting (tx_ack s2) = []"
proof -
  obtain m w out where m: "rt_mb_send cur msg (tx_mb sys) = (m, w, out)" by (metis prod_cases3)
  have s: "mb_ok m" "out = Ret 0" "mb_list m = [msg]"
    using mb.send [OF assms(1) m] mb.cap [OF assms(1)] assms(2) by simp_all
  define a where "a = (tx_ack sys)\<lparr>sem_waiting := [cur]\<rparr>"
  define s1 where "s1 = sys\<lparr>tx_msgs := (tx_msgs sys)(msg := p), tx_mb := m, tx_ack := a\<rparr>"
  have "rt_sem_take cur (- 1) (tx_ack sys) = (a, Suspended)"
    using assms(3,4) by (simp add: rt_sem_take_def a_def rt_ipc_list_suspend_def split: ipc_flag.splits)
  then have 1: "ethernetif_linkoutput cur msg p sys = (s1, None)"
    using m s(2) by (simp add: ethernetif_linkoutput_def Let_def s1_def)
  obtain m' v w' out' where r: "rt_mb_recv etx (- 1) m = (m', v, w', out')" by (metis prod_cases4)
  have v: "v = Some msg" "out' = Ret 0" "mb_list m' = []" using mb.recv [OF s(1) r] s(3) by simp_all
  have "rt_sem_release a = (a\<lparr>sem_waiting := []\<rparr>, Some cur, 0)" by (simp add: rt_sem_release_def rt_ipc_list_resume_def a_def)
  then have "eth_tx_thread_entry etx s1 = Some (s1\<lparr>tx_mb := m', tx_dma := dma, tx_ack := a\<lparr>sem_waiting := []\<rparr>\<rparr>, Some cur, ret)"
    using r v assms(5) by (simp add: eth_tx_thread_entry_def s1_def)
  then show ?thesis using 1 v(3) assms(3) by (simp add: a_def)
qed

text \<open>With a full mailbox the frame is dropped, and the stack is told \<open>ERR_OK\<close> as well.\<close>

lemma linkoutput_drops:
  assumes "mb_ok (tx_mb sys)" "length (mb_list (tx_mb sys)) = mb_size (tx_mb sys)"
  shows "\<exists>s1. ethernetif_linkoutput cur msg p sys = (s1, Some ERR_OK) \<and> mb_list (tx_mb s1) = mb_list (tx_mb sys) \<and> tx_dma s1 = tx_dma sys"
proof -
  obtain m w out where m: "rt_mb_send cur msg (tx_mb sys) = (m, w, out)" by (metis prod_cases3)
  have "out = Ret (- 3)" "mb_list m = mb_list (tx_mb sys)" using mb.send [OF assms(1) m] assms(2) by simp_all
  then show ?thesis using m by (simp add: ethernetif_linkoutput_def Let_def)
qed

section \<open>Properties\<close>

text \<open>
  C12.  No lost wake-up.  In every reachable state of interrupts, link changes, the receive thread and the driver, while a frame
  is waiting in the driver or a change of the link has not been reported, the receive thread is not suspended and will not
  suspend itself in its next step: it can take a step, and if it is about to receive a mail it gets one.  In the fetching
  loop, its step either passes a frame to the stack or ends the loop, and no frame is waiting afterwards.  Only a change of the
  link whose mail is still to be sent by its caller may find the thread suspended, and that mail resumes it.
\<close>

theorem rx_thread_not_asleep:
  assumes "glue_reach sys" "pending sys \<or> link_changed (sys_dev sys)" "honest_alloc alloc"
  shows "(pending sys \<or> link_mails sys = 0 \<longrightarrow> (\<exists>sys'. eth_rx_thread_entry alloc sys = Some sys' \<and> rx_at sys' \<noteq> Rx_asleep
      \<and> (rx_at sys = Rx_recv \<longrightarrow> rx_at sys' = Rx_link)
      \<and> (rx_at sys = Rx_drain \<longrightarrow> \<not> pending sys')))
    \<and> (0 < link_mails sys \<longrightarrow> (\<forall>cur. mb_list (rx_mb (fst (linkchange_mail cur sys))) \<noteq> []
      \<and> rx_at (fst (linkchange_mail cur sys)) \<noteq> Rx_asleep))"
proof -
  note g = glue_reach_ok [OF assms(1)]
  have "\<exists>sys'. eth_rx_thread_entry alloc sys = Some sys' \<and> rx_at sys' \<noteq> Rx_asleep
    \<and> (rx_at sys = Rx_recv \<longrightarrow> rx_at sys' = Rx_link) \<and> (rx_at sys = Rx_drain \<longrightarrow> \<not> pending sys')"
    if m: "pending sys \<or> link_mails sys = 0"
  proof (cases "rx_at sys")
    case Rx_recv
    then have "mb_list (rx_mb sys) \<noteq> []" using work_shows [OF g] m assms(2) by auto
    moreover obtain sys' where "eth_rx_thread_entry alloc sys = Some sys'"
      using Rx_recv by (fastforce simp: eth_rx_thread_entry_def split: prod.splits)
    ultimately show ?thesis using thread_recv_ok [OF g Rx_recv] Rx_recv by auto
  next
    case Rx_asleep
    moreover from this have "mb_list (rx_mb sys) = []" using g by (simp add: glue_ok_def rx_mb_ok_def)
    ultimately show ?thesis using work_shows [OF g] m assms(2) by auto
  next
    case Rx_drain
    obtain sys' where s: "eth_rx_thread_entry alloc sys = Some sys'" "\<not> pending sys'"
      "case rx_at sys' of Rx_drain \<Rightarrow> \<exists>p. inputs sys' = inputs sys @ [p] | ph \<Rightarrow> ph = Rx_recv \<and> inputs sys' = inputs sys"
      using thread_drain_ok [OF g Rx_drain assms(3)] by blast
    then have "rx_at sys' \<noteq> Rx_asleep" by (auto split: rx_phase.splits)
    then show ?thesis using s Rx_drain by auto
  qed (auto simp: eth_rx_thread_entry_def)
  then show ?thesis using linkchange_mail_ok(2,3) [OF g] by blast
qed

definition dev_zero :: eth_device where
  "dev_zero = \<lparr>ed_netif = True, link_changed = False, link_status = False, rx_notice = False\<rparr>"

text \<open>The link comes up: first with the mail still to be sent, then with the mail sent.\<close>

theorem rx_thread_not_asleep_witness:
  "\<exists>sys sys'. glue_reach sys \<and> link_changed (sys_dev sys) \<and> link_mails sys = 0 \<and> eth_rx_thread_entry (\<lambda>n. Some [n]) sys = Some sys'
     \<and> rx_at sys' \<noteq> Rx_asleep"
proof -
  define s0 where "s0 = eth_system_device_init_private eth_started dev_zero"
  define s1 where "s1 = linkchange_flags True s0"
  define s2 where "s2 = fst (linkchange_mail erx_thread s1)"
  have r0: "glue_reach s0" unfolding s0_def by (rule glue_reach.start) (simp_all add: dev_zero_def)
  then have r1: "glue_reach s1" unfolding s1_def by (rule glue_reach.step) (rule glue_step.link_flags)
  have m: "link_mails s1 = 1" "link_changed (sys_dev s1)"
    by (simp_all add: s1_def linkchange_flags_def s0_def eth_system_device_init_private_def)
  have r: "glue_reach s2" unfolding s2_def by (rule glue_reach.step [OF r1 glue_step.link_mail]) (simp add: m)
  define t where "t = s1\<lparr>link_mails := link_mails s1 - 1\<rparr>"
  have ok: "rx_mb_ok t" using glue_reach_ok [OF r1] by (simp add: glue_ok_def rx_mb_ok_def t_def)
  obtain u e where u: "post_rx erx_thread t = (u, e)" by fastforce
  then have "s2 = u" unfolding s2_def linkchange_mail_def t_def by simp
  then have l: "link_changed (sys_dev s2)" "link_mails s2 = 0" using post_rx_spec [OF ok u] m by (simp_all add: t_def)
  have "honest_alloc (\<lambda>n. Some [n])" by (simp add: honest_alloc_def)
  then show ?thesis using rx_thread_not_asleep [OF r disjI2 [OF l(1)]] r l by blast
qed

end
