(* ===== verification/Heap_Mem.thy ===== *)
theory Heap_Mem
  imports Ipc
begin

text \<open>
  The kernel heap (\<open>rt-thread/src/mem.c\<close>, configuration \<open>RT_USING_SMALL_MEM\<close> without \<open>RT_USING_MEMTRACE\<close>): first fit over a
  chain of blocks whose headers lie in the heap itself.  The memory is a map from addresses to bytes; a header is read and written
  through its bytes (little endian), so what a call does to the data of other blocks is visible.  \<open>rt_size_t\<close> and pointers are
  natural numbers below \<open>2 ^ 32\<close> with the wrap-around of C in \<open>add32\<close> and \<open>sub32\<close>.  \<open>RT_ASSERT\<close> is empty (\<open>RT_DEBUG\<close> is not
  defined), no hook is installed and the console is left out.  The loops over the chain are partial functions: \<open>None\<close> is a loop that
  does not end.  A call that finds the heap semaphore taken is cut there (\<open>Blocked\<close>), as the calls of \<open>Ipc\<close> are.

  The theories \<open>Heap_Chain\<close> and \<open>Heap_Alloc\<close> hold the proofs.
\<close>

section \<open>Machine arithmetic and memory\<close>

definition add32 :: "nat \<Rightarrow> nat \<Rightarrow> nat" where
  "add32 a b = (a + b) mod 2 ^ 32"

definition sub32 :: "nat \<Rightarrow> nat \<Rightarrow> nat" where
  "sub32 a b = (a + 2 ^ 32 - b) mod 2 ^ 32"

text \<open>\<open>RT_ALIGN(n, 4)\<close> and \<open>RT_ALIGN_DOWN(n, 4)\<close>: clearing the two lowest bits.\<close>

definition RT_ALIGN :: "nat \<Rightarrow> nat" where
  "RT_ALIGN n = add32 n 3 div 4 * 4"

definition RT_ALIGN_DOWN :: "nat \<Rightarrow> nat" where
  "RT_ALIGN_DOWN n = n div 4 * 4"

type_synonym byte_memory = "nat \<Rightarrow> u8"

definition rd16 :: "byte_memory \<Rightarrow> nat \<Rightarrow> nat" where
  "rd16 m a = unat (m a) + 256 * unat (m (a + 1))"

definition rd32 :: "byte_memory \<Rightarrow> nat \<Rightarrow> nat" where
  "rd32 m a = rd16 m a + 65536 * rd16 m (a + 2)"

definition wr16 :: "nat \<Rightarrow> nat \<Rightarrow> byte_memory \<Rightarrow> byte_memory" where
  "wr16 a v m = m(a := of_nat v, a + 1 := of_nat (v div 256))"

definition wr32 :: "nat \<Rightarrow> nat \<Rightarrow> byte_memory \<Rightarrow> byte_memory" where
  "wr32 a v m = wr16 (a + 2) (v div 65536) (wr16 a v m)"

definition mem_copy :: "nat \<Rightarrow> nat \<Rightarrow> nat \<Rightarrow> byte_memory \<Rightarrow> byte_memory" where
  "mem_copy dst src n m = (\<lambda>x. if dst \<le> x \<and> x < dst + n then m (src + (x - dst)) else m x)"

definition mem_set :: "nat \<Rightarrow> u8 \<Rightarrow> nat \<Rightarrow> byte_memory \<Rightarrow> byte_memory" where
  "mem_set dst v n m = (\<lambda>x. if dst \<le> x \<and> x < dst + n then v else m x)"

section \<open>The block header \<open>struct heap_mem\<close>\<close>

definition HEAP_MAGIC :: nat where "HEAP_MAGIC = 0x1ea0"
definition MIN_SIZE_ALIGNED :: nat where "MIN_SIZE_ALIGNED = 12"
definition SIZEOF_STRUCT_MEM :: nat where "SIZEOF_STRUCT_MEM = 12"

definition hm_magic :: "byte_memory \<Rightarrow> nat \<Rightarrow> nat" where "hm_magic m a = rd16 m a"
definition hm_used :: "byte_memory \<Rightarrow> nat \<Rightarrow> nat" where "hm_used m a = rd16 m (a + 2)"
definition hm_next :: "byte_memory \<Rightarrow> nat \<Rightarrow> nat" where "hm_next m a = rd32 m (a + 4)"
definition hm_prev :: "byte_memory \<Rightarrow> nat \<Rightarrow> nat" where "hm_prev m a = rd32 m (a + 8)"

definition set_magic :: "nat \<Rightarrow> nat \<Rightarrow> byte_memory \<Rightarrow> byte_memory" where "set_magic a v m = wr16 a v m"
definition set_used :: "nat \<Rightarrow> nat \<Rightarrow> byte_memory \<Rightarrow> byte_memory" where "set_used a v m = wr16 (a + 2) v m"
definition set_next :: "nat \<Rightarrow> nat \<Rightarrow> byte_memory \<Rightarrow> byte_memory" where "set_next a v m = wr32 (a + 4) v m"
definition set_prev :: "nat \<Rightarrow> nat \<Rightarrow> byte_memory \<Rightarrow> byte_memory" where "set_prev a v m = wr32 (a + 8) v m"

section \<open>The heap\<close>

record heap =
  memory :: byte_memory
  heap_ptr :: nat
  heap_end :: nat
  lfree :: nat
  mem_size_aligned :: nat
  used_mem :: nat
  max_mem :: nat
  heap_sem :: rt_semaphore

datatype 'a heap_call = Blocked | Returned 'a

text \<open>\<open>&heap_ptr[off]\<close>, and an update of the memory.\<close>

definition heap_at :: "heap \<Rightarrow> nat \<Rightarrow> nat" where
  "heap_at s off = add32 (heap_ptr s) off"

definition upd :: "(byte_memory \<Rightarrow> byte_memory) \<Rightarrow> heap \<Rightarrow> heap" where
  "upd f s = s\<lparr>memory := f (memory s)\<rparr>"

definition plug_forward :: "nat \<Rightarrow> heap \<Rightarrow> heap" where
  "plug_forward mem s =
     (let nmem = heap_at s (hm_next (memory s) mem)
      in if mem \<noteq> nmem \<and> hm_used (memory s) nmem = 0 \<and> nmem \<noteq> heap_end s
         then (let s = (if lfree s = nmem then s\<lparr>lfree := mem\<rparr> else s);
                   s = upd (set_next mem (hm_next (memory s) nmem)) s
               in upd (set_prev (heap_at s (hm_next (memory s) nmem)) (sub32 mem (heap_ptr s))) s)
         else s)"

definition plug_backward :: "nat \<Rightarrow> heap \<Rightarrow> heap" where
  "plug_backward mem s =
     (let pmem = heap_at s (hm_prev (memory s) mem)
      in if pmem \<noteq> mem \<and> hm_used (memory s) pmem = 0
         then (let s = (if lfree s = mem then s\<lparr>lfree := pmem\<rparr> else s);
                   s = upd (set_next pmem (hm_next (memory s) mem)) s
               in upd (set_prev (heap_at s (hm_next (memory s) mem)) (sub32 pmem (heap_ptr s))) s)
         else s)"

definition plug_holes :: "nat \<Rightarrow> heap \<Rightarrow> heap" where
  "plug_holes mem s = plug_backward mem (plug_forward mem s)"

text \<open>The header of the first block, the header that ends the chain, the semaphore and the lowest free block.\<close>

definition rt_system_heap_init :: "nat \<Rightarrow> nat \<Rightarrow> heap \<Rightarrow> heap" where
  "rt_system_heap_init begin_addr end_addr s =
     (let begin_align = RT_ALIGN begin_addr; end_align = RT_ALIGN_DOWN end_addr
      in if end_align > 2 * SIZEOF_STRUCT_MEM \<and> end_align - 2 * SIZEOF_STRUCT_MEM \<ge> begin_align
         then (let s = s\<lparr>mem_size_aligned := end_align - begin_align - 2 * SIZEOF_STRUCT_MEM\<rparr>;
                   s = s\<lparr>heap_ptr := begin_align\<rparr>;
                   mem = heap_ptr s;
                   s = upd (set_magic mem HEAP_MAGIC) s;
                   s = upd (set_next mem (add32 (mem_size_aligned s) SIZEOF_STRUCT_MEM)) s;
                   s = upd (set_prev mem 0) s;
                   s = upd (set_used mem 0) s;
                   s = s\<lparr>heap_end := heap_at s (hm_next (memory s) mem)\<rparr>;
                   s = upd (set_magic (heap_end s) HEAP_MAGIC) s;
                   s = upd (set_used (heap_end s) 1) s;
                   s = upd (set_next (heap_end s) (add32 (mem_size_aligned s) SIZEOF_STRUCT_MEM)) s;
                   s = upd (set_prev (heap_end s) (add32 (mem_size_aligned s) SIZEOF_STRUCT_MEM)) s;
                   s = s\<lparr>heap_sem := rt_sem_init 1 RT_IPC_FLAG_PRIO\<rparr>
               in s\<lparr>lfree := heap_ptr s\<rparr>)
         else s)"

text \<open>The search of \<open>rt_malloc\<close> from offset \<open>ptr\<close>, and the search for the lowest free block from address \<open>p\<close>.\<close>

partial_function (option) malloc_scan :: "heap \<Rightarrow> nat \<Rightarrow> nat \<Rightarrow> nat option option" where
  "malloc_scan s n ptr =
     (if ptr < sub32 (mem_size_aligned s) n
      then (if hm_used (memory s) (heap_at s ptr) = 0
               \<and> sub32 (hm_next (memory s) (heap_at s ptr)) (add32 ptr SIZEOF_STRUCT_MEM) \<ge> n
            then Some (Some ptr)
            else malloc_scan s n (hm_next (memory s) (heap_at s ptr)))
      else Some None)"

partial_function (option) lfree_scan :: "heap \<Rightarrow> nat \<Rightarrow> nat option" where
  "lfree_scan s p =
     (if hm_used (memory s) p \<noteq> 0 \<and> p \<noteq> heap_end s then lfree_scan s (heap_at s (hm_next (memory s) p)) else Some p)"

definition stat_add :: "nat \<Rightarrow> heap \<Rightarrow> heap" where
  "stat_add n s =
     (let s = s\<lparr>used_mem := add32 (used_mem s) n\<rparr> in if max_mem s < used_mem s then s\<lparr>max_mem := used_mem s\<rparr> else s)"

text \<open>The remainder of the block \<open>mem\<close> behind \<open>ptr2\<close> becomes a free block, in \<open>rt_malloc\<close> and \<open>rt_realloc\<close>.\<close>

definition split_block :: "nat \<Rightarrow> nat \<Rightarrow> heap \<Rightarrow> heap" where
  "split_block ptr ptr2 s =
     (let mem = heap_at s ptr; mem2 = heap_at s ptr2;
          s = upd (set_magic mem2 HEAP_MAGIC) s;
          s = upd (set_used mem2 0) s;
          s = upd (set_next mem2 (hm_next (memory s) mem)) s;
          s = upd (set_prev mem2 ptr) s
      in upd (set_next mem ptr2) s)"

definition link_back :: "nat \<Rightarrow> heap \<Rightarrow> heap" where
  "link_back ptr2 s =
     (let mem2 = heap_at s ptr2
      in if hm_next (memory s) mem2 \<noteq> add32 (mem_size_aligned s) SIZEOF_STRUCT_MEM
         then upd (set_prev (heap_at s (hm_next (memory s) mem2)) ptr2) s else s)"

definition malloc_block :: "nat \<Rightarrow> nat \<Rightarrow> heap \<Rightarrow> heap" where
  "malloc_block ptr n s =
     (let mem = heap_at s ptr;
          s = (if sub32 (hm_next (memory s) mem) (add32 ptr SIZEOF_STRUCT_MEM)
                  \<ge> add32 (add32 n SIZEOF_STRUCT_MEM) MIN_SIZE_ALIGNED
               then (let ptr2 = add32 (add32 ptr SIZEOF_STRUCT_MEM) n;
                         s = split_block ptr ptr2 s;
                         s = upd (set_used mem 1) s;
                         s = link_back ptr2 s
                     in stat_add (add32 n SIZEOF_STRUCT_MEM) s)
               else (let s = upd (set_used mem 1) s
                     in stat_add (sub32 (hm_next (memory s) mem) (sub32 mem (heap_ptr s))) s))
      in upd (set_magic mem HEAP_MAGIC) s)"

definition heap_release :: "heap \<Rightarrow> heap" where
  "heap_release s = s\<lparr>heap_sem := fst (rt_sem_release (heap_sem s))\<rparr>"

definition rt_malloc :: "rt_thread \<Rightarrow> nat \<Rightarrow> heap \<Rightarrow> (heap \<times> nat heap_call) option" where
  "rt_malloc self n s =
     (if n = 0 then Some (s, Returned 0)
      else let n = RT_ALIGN n
      in if n > mem_size_aligned s then Some (s, Returned 0)
      else let n = (if n < MIN_SIZE_ALIGNED then MIN_SIZE_ALIGNED else n);
               (sem, r) = rt_sem_take self (- 1) (heap_sem s);
               s = s\<lparr>heap_sem := sem\<rparr>
      in if r = Suspended then Some (s, Blocked)
      else case malloc_scan s n (sub32 (lfree s) (heap_ptr s)) of
          None \<Rightarrow> None
        | Some None \<Rightarrow> Some (heap_release s, Returned 0)
        | Some (Some ptr) \<Rightarrow>
            (let mem = heap_at s ptr; s = malloc_block ptr n s
             in case (if mem = lfree s then lfree_scan s (lfree s) else Some (lfree s)) of
                 None \<Rightarrow> None
               | Some p \<Rightarrow> Some (heap_release (s\<lparr>lfree := p\<rparr>), Returned (add32 mem SIZEOF_STRUCT_MEM))))"

definition rt_free :: "rt_thread \<Rightarrow> nat \<Rightarrow> heap \<Rightarrow> heap \<times> unit heap_call" where
  "rt_free self rmem s =
     (if rmem = 0 then (s, Returned ())
      else if rmem < heap_ptr s \<or> rmem \<ge> heap_end s then (s, Returned ())
      else let mem = sub32 rmem SIZEOF_STRUCT_MEM;
               (sem, r) = rt_sem_take self (- 1) (heap_sem s);
               s = s\<lparr>heap_sem := sem\<rparr>
      in if r = Suspended then (s, Blocked)
      else let s = upd (set_used mem 0) s;
               s = upd (set_magic mem HEAP_MAGIC) s;
               s = (if mem < lfree s then s\<lparr>lfree := mem\<rparr> else s);
               s = s\<lparr>used_mem := sub32 (used_mem s) (sub32 (hm_next (memory s) mem) (sub32 mem (heap_ptr s)))\<rparr>;
               s = plug_holes mem s
      in (heap_release s, Returned ()))"

text \<open>The end of \<open>rt_realloc\<close>: a new block, the data copied, the old block released.\<close>

definition realloc_move :: "rt_thread \<Rightarrow> nat \<Rightarrow> nat \<Rightarrow> nat \<Rightarrow> heap \<Rightarrow> (heap \<times> nat heap_call) option" where
  "realloc_move self rmem old newsize s =
     (case rt_malloc self newsize s of
        None \<Rightarrow> None
      | Some (s, Blocked) \<Rightarrow> Some (s, Blocked)
      | Some (s, Returned nmem) \<Rightarrow>
          (if nmem = 0 then Some (s, Returned nmem)
           else (let s = upd (mem_copy nmem rmem (if old < newsize then old else newsize)) s;
                     (s, r) = rt_free self rmem s
                 in Some (s, case r of Blocked \<Rightarrow> Blocked | Returned _ \<Rightarrow> Returned nmem))))"

definition realloc_shrink :: "nat \<Rightarrow> nat \<Rightarrow> nat \<Rightarrow> heap \<Rightarrow> heap" where
  "realloc_shrink ptr old newsize s =
     (let s = s\<lparr>used_mem := sub32 (used_mem s) (sub32 old newsize)\<rparr>;
          ptr2 = add32 (add32 ptr SIZEOF_STRUCT_MEM) newsize;
          s = split_block ptr ptr2 s;
          s = link_back ptr2 s;
          mem2 = heap_at s ptr2;
          s = (if mem2 < lfree s then s\<lparr>lfree := mem2\<rparr> else s)
      in plug_holes mem2 s)"

definition rt_realloc :: "rt_thread \<Rightarrow> nat \<Rightarrow> nat \<Rightarrow> heap \<Rightarrow> (heap \<times> nat heap_call) option" where
  "rt_realloc self rmem newsize s =
     (let newsize = RT_ALIGN newsize
      in if newsize > mem_size_aligned s then Some (s, Returned 0)
      else if newsize = 0
      then (let (s, r) = rt_free self rmem s in Some (s, case r of Blocked \<Rightarrow> Blocked | Returned _ \<Rightarrow> Returned 0))
      else if rmem = 0 then rt_malloc self newsize s
      else let (sem, r) = rt_sem_take self (- 1) (heap_sem s);
               s = s\<lparr>heap_sem := sem\<rparr>
      in if r = Suspended then Some (s, Blocked)
      else if rmem < heap_ptr s \<or> rmem \<ge> heap_end s then Some (heap_release s, Returned rmem)
      else let mem = sub32 rmem SIZEOF_STRUCT_MEM;
               ptr = sub32 mem (heap_ptr s);
               old = sub32 (sub32 (hm_next (memory s) mem) ptr) SIZEOF_STRUCT_MEM
      in if old = newsize then Some (heap_release s, Returned rmem)
      else if add32 (add32 newsize SIZEOF_STRUCT_MEM) 12 < old
      then Some (heap_release (realloc_shrink ptr old newsize s), Returned rmem)
      else realloc_move self rmem old newsize (heap_release s))"

definition rt_calloc :: "rt_thread \<Rightarrow> nat \<Rightarrow> nat \<Rightarrow> heap \<Rightarrow> (heap \<times> nat heap_call) option" where
  "rt_calloc self count n s =
     (case rt_malloc self (count * n mod 2 ^ 32) s of
        None \<Rightarrow> None
      | Some (s, Blocked) \<Rightarrow> Some (s, Blocked)
      | Some (s, Returned p) \<Rightarrow>
          Some (if p \<noteq> 0 then upd (mem_set p 0 (count * n mod 2 ^ 32)) s else s, Returned p))"

definition rt_memory_info :: "heap \<Rightarrow> nat \<times> nat \<times> nat" where
  "rt_memory_info s = (mem_size_aligned s, used_mem s, max_mem s)"

end
