(* ===== verification/Heap_Chain.thy ===== *)
theory Heap_Chain
  imports Heap_Mem
begin

text \<open>
  The chain of block headers in the heap memory.  \<open>hchain\<close> relates the headers to a list of blocks \<open>(start, end, used)\<close>,
  \<open>heap_shape\<close> adds the header that ends the chain and the bounds; splitting a block, joining two blocks and marking a block
  are shown to act on the list as they should, and to leave the data between other headers alone.
\<close>

section \<open>Reading what was written\<close>

lemma add32_small: "a + b < 2 ^ 32 \<Longrightarrow> add32 a b = a + b"
  by (simp add: add32_def)

lemma sub32_small: "b \<le> a \<Longrightarrow> a < 2 ^ 32 \<Longrightarrow> sub32 a b = a - b"
  by (simp add: sub32_def mod_if)

lemma RT_ALIGN_dvd: "4 dvd RT_ALIGN n"
  by (simp add: RT_ALIGN_def)

lemma RT_ALIGN_bounds: "n + 3 < 2 ^ 32 \<Longrightarrow> n \<le> RT_ALIGN n \<and> RT_ALIGN n < n + 4"
  by (simp add: RT_ALIGN_def add32_small) linarith

lemma unat_of_nat_u8: "unat (of_nat v :: u8) = v mod 256"
  by (simp add: unat_of_nat take_bit_eq_mod)

lemma rd16_wr16 [simp]: "rd16 (wr16 a v m) a = v mod 2 ^ 16"
proof -
  have "v mod 256 + 256 * (v div 256 mod 256) = v mod (256 * 256)" by (simp only: mod_mult2_eq add.commute)
  then show ?thesis by (simp add: rd16_def wr16_def unat_of_nat_u8)
qed

lemma wr16_far [simp]: "x < a \<or> a + 2 \<le> x \<Longrightarrow> wr16 a v m x = m x"
  by (auto simp: wr16_def)

lemma rd16_wr16_far [simp]: "b + 2 \<le> a \<or> a + 2 \<le> b \<Longrightarrow> rd16 (wr16 a v m) b = rd16 m b"
  by (auto simp: rd16_def)

lemma rd32_wr32 [simp]: "rd32 (wr32 a v m) a = v mod 2 ^ 32"
proof -
  have "v mod 65536 + 65536 * (v div 65536 mod 65536) = v mod (65536 * 65536)" by (simp only: mod_mult2_eq add.commute)
  then show ?thesis by (simp add: rd32_def wr32_def)
qed

lemma wr32_far [simp]: "x < a \<or> a + 4 \<le> x \<Longrightarrow> wr32 a v m x = m x"
  by (auto simp: wr32_def)

lemma rd16_wr32_far [simp]: "b + 2 \<le> a \<or> a + 4 \<le> b \<Longrightarrow> rd16 (wr32 a v m) b = rd16 m b"
  by (auto simp: wr32_def)

lemma rd32_wr16_far [simp]: "b + 4 \<le> a \<or> a + 2 \<le> b \<Longrightarrow> rd32 (wr16 a v m) b = rd32 m b"
  by (auto simp: rd32_def)

lemma rd32_wr32_far [simp]: "b + 4 \<le> a \<or> a + 4 \<le> b \<Longrightarrow> rd32 (wr32 a v m) b = rd32 m b"
  by (auto simp: wr32_def)

text \<open>Two headers that do not overlap.\<close>

definition far :: "nat \<Rightarrow> nat \<Rightarrow> bool" where
  "far a b \<longleftrightarrow> a + 12 \<le> b \<or> b + 12 \<le> a"

lemmas hm_defs = hm_magic_def hm_used_def hm_next_def hm_prev_def
  set_magic_def set_used_def set_next_def set_prev_def

lemma hm_same [simp]:
  "hm_magic (set_magic a v m) a = v mod 2 ^ 16" "hm_used (set_magic a v m) a = hm_used m a"
  "hm_next (set_magic a v m) a = hm_next m a" "hm_prev (set_magic a v m) a = hm_prev m a"
  "hm_magic (set_used a v m) a = hm_magic m a" "hm_used (set_used a v m) a = v mod 2 ^ 16"
  "hm_next (set_used a v m) a = hm_next m a" "hm_prev (set_used a v m) a = hm_prev m a"
  "hm_magic (set_next a v m) a = hm_magic m a" "hm_used (set_next a v m) a = hm_used m a"
  "hm_next (set_next a v m) a = v mod 2 ^ 32" "hm_prev (set_next a v m) a = hm_prev m a"
  "hm_magic (set_prev a v m) a = hm_magic m a" "hm_used (set_prev a v m) a = hm_used m a"
  "hm_next (set_prev a v m) a = hm_next m a" "hm_prev (set_prev a v m) a = v mod 2 ^ 32"
  by (simp_all add: hm_defs)

lemma hm_far [simp]:
  assumes "far a b"
  shows "hm_magic (set_magic a v m) b = hm_magic m b" "hm_used (set_magic a v m) b = hm_used m b"
    "hm_next (set_magic a v m) b = hm_next m b" "hm_prev (set_magic a v m) b = hm_prev m b"
    "hm_magic (set_used a v m) b = hm_magic m b" "hm_used (set_used a v m) b = hm_used m b"
    "hm_next (set_used a v m) b = hm_next m b" "hm_prev (set_used a v m) b = hm_prev m b"
    "hm_magic (set_next a v m) b = hm_magic m b" "hm_used (set_next a v m) b = hm_used m b"
    "hm_next (set_next a v m) b = hm_next m b" "hm_prev (set_next a v m) b = hm_prev m b"
    "hm_magic (set_prev a v m) b = hm_magic m b" "hm_used (set_prev a v m) b = hm_used m b"
    "hm_next (set_prev a v m) b = hm_next m b" "hm_prev (set_prev a v m) b = hm_prev m b"
  using assms by (auto simp: hm_defs far_def)

text \<open>A write to a header changes only the bytes of that header.\<close>

lemma set_outside [simp]:
  assumes "x < a \<or> a + 12 \<le> x"
  shows "set_magic a v m x = m x" "set_used a v m x = m x" "set_next a v m x = m x" "set_prev a v m x = m x"
  using assms by (auto simp: hm_defs)

section \<open>The chain of blocks\<close>

type_synonym blk = "nat \<times> nat \<times> bool"

text \<open>From address \<open>p\<close>, whose predecessor starts at \<open>pv\<close>, the chain runs through the blocks of the list and ends at \<open>e\<close>.\<close>

fun hchain :: "byte_memory \<Rightarrow> nat \<Rightarrow> nat \<Rightarrow> nat \<Rightarrow> blk list \<Rightarrow> nat \<Rightarrow> bool" where
  "hchain m h pv p [] e \<longleftrightarrow> p = e"
| "hchain m h pv p ((a, z, u) # bs) e \<longleftrightarrow> a = p \<and> a + 12 < z \<and> 4 dvd z \<and> hm_magic m a = HEAP_MAGIC
     \<and> hm_used m a = (if u then 1 else 0) \<and> hm_next m a = z - h \<and> hm_prev m a = pv - h \<and> hchain m h a z bs e"

fun chain_end :: "nat \<Rightarrow> blk list \<Rightarrow> nat" where
  "chain_end p [] = p"
| "chain_end p ((a, z, u) # bs) = chain_end z bs"

fun chain_last :: "nat \<Rightarrow> blk list \<Rightarrow> nat" where
  "chain_last pv [] = pv"
| "chain_last pv ((a, z, u) # bs) = chain_last a bs"

lemma chain_end_append [simp]: "chain_end p (xs @ ys) = chain_end (chain_end p xs) ys"
  by (induction xs arbitrary: p) auto

lemma chain_last_append [simp]: "chain_last p (xs @ ys) = chain_last (chain_last p xs) ys"
  by (induction xs arbitrary: p) auto

lemma hchain_append:
  "hchain m h pv p (xs @ ys) e \<longleftrightarrow>
     hchain m h pv p xs (chain_end p xs) \<and> hchain m h (chain_last pv xs) (chain_end p xs) ys e"
  by (induction xs arbitrary: pv p) auto

lemma hchain_end: "hchain m h pv p bs e \<Longrightarrow> chain_end p bs = e"
  by (induction bs arbitrary: pv p) auto

lemma hchain_le: "hchain m h pv p bs e \<Longrightarrow> p \<le> e"
  by (induction bs arbitrary: pv p) fastforce+

lemma hchain_gap: "hchain m h pv p bs e \<Longrightarrow> p \<noteq> e \<Longrightarrow> p + 12 \<le> e"
  by (cases bs) (use hchain_le in fastforce)+

lemma hchain_bounds:
  "hchain m h pv p bs e \<Longrightarrow> (a, z, u) \<in> set bs \<Longrightarrow> p \<le> a \<and> a + 12 < z \<and> z \<le> e \<and> 4 dvd z"
proof (induction bs arbitrary: pv p)
  case (Cons b bs)
  obtain a' z' u' where b: "b = (a', z', u')" by (cases b)
  then have c: "hchain m h a' z' bs e" "a' = p" "a' + 12 < z'" "4 dvd z'" using Cons.prems by auto
  show ?case
  proof (cases "(a, z, u) = b")
    case True
    then show ?thesis using b c hchain_le [OF c(1)] by simp
  next
    case False
    then show ?thesis using Cons.IH [OF c(1)] Cons.prems c by simp
  qed
qed simp

lemma hchain_cong:
  assumes "\<And>a z u. (a, z, u) \<in> set bs \<Longrightarrow> hm_magic m' a = hm_magic m a \<and> hm_used m' a = hm_used m a
     \<and> hm_next m' a = hm_next m a \<and> hm_prev m' a = hm_prev m a"
  shows "hchain m' h pv p bs e \<longleftrightarrow> hchain m h pv p bs e"
  using assms
proof (induction bs arbitrary: pv p)
  case (Cons b bs)
  obtain a z u where b: "b = (a, z, u)" by (cases b)
  have "hchain m' h a z bs e \<longleftrightarrow> hchain m h a z bs e" by (rule Cons.IH) (use Cons.prems in auto)
  then show ?case using Cons.prems [of a z u] b by simp
qed simp

lemma hchain_write:
  assumes "\<And>a z u. (a, z, u) \<in> set bs \<Longrightarrow> far c a"
  shows "hchain (set_magic c v m) h pv p bs e \<longleftrightarrow> hchain m h pv p bs e"
    "hchain (set_used c v m) h pv p bs e \<longleftrightarrow> hchain m h pv p bs e"
    "hchain (set_next c v m) h pv p bs e \<longleftrightarrow> hchain m h pv p bs e"
    "hchain (set_prev c v m) h pv p bs e \<longleftrightarrow> hchain m h pv p bs e"
  by (rule hchain_cong; use assms in simp)+

text \<open>Chains that end at or before \<open>c\<close>, or start behind its header, do not see a write to the header at \<open>c\<close>.\<close>

lemma hchain_write_after:
  assumes "hchain m h pv p bs e" "e \<le> c"
  shows "hchain (set_magic c v m) h pv p bs e" "hchain (set_used c v m) h pv p bs e"
    "hchain (set_next c v m) h pv p bs e" "hchain (set_prev c v m) h pv p bs e"
proof -
  have "far c a" if "(a, z, u) \<in> set bs" for a z u
    using hchain_bounds [OF assms(1) that] assms(2) by (simp add: far_def)
  then show "hchain (set_magic c v m) h pv p bs e" "hchain (set_used c v m) h pv p bs e"
    "hchain (set_next c v m) h pv p bs e" "hchain (set_prev c v m) h pv p bs e"
    using assms(1) by (simp_all add: hchain_write)
qed

lemma hchain_write_before:
  assumes "hchain m h pv p bs e" "c + 12 \<le> p"
  shows "hchain (set_magic c v m) h pv p bs e" "hchain (set_used c v m) h pv p bs e"
    "hchain (set_next c v m) h pv p bs e" "hchain (set_prev c v m) h pv p bs e"
proof -
  have "far c a" if "(a, z, u) \<in> set bs" for a z u
    using hchain_bounds [OF assms(1) that] assms(2) by (simp add: far_def)
  then show "hchain (set_magic c v m) h pv p bs e" "hchain (set_used c v m) h pv p bs e"
    "hchain (set_next c v m) h pv p bs e" "hchain (set_prev c v m) h pv p bs e"
    using assms(1) by (simp_all add: hchain_write)
qed

lemma hchain_reprev:
  assumes "hchain m h pv p bs e" "q - h < 2 ^ 32"
  shows "hchain (set_prev p (q - h) m) h q p bs e"
proof (cases bs)
  case (Cons b bs')
  obtain a z u where b: "b = (a, z, u)" by (cases b)
  then have c: "hchain m h a z bs' e" "p = a" "a + 12 \<le> z" using assms(1) Cons by auto
  then show ?thesis using assms Cons b hchain_write_before(4) [OF c(1), of a "q - h"] by simp
qed (use assms in simp)

lemma farI: "a + 12 \<le> b \<Longrightarrow> far a b" "a + 12 \<le> b \<Longrightarrow> far b a"
  by (simp_all add: far_def)

section \<open>The shape of the heap\<close>

definition heap_shape :: "heap \<Rightarrow> blk list \<Rightarrow> bool" where
  "heap_shape s bs \<longleftrightarrow> hchain (memory s) (heap_ptr s) (heap_ptr s) (heap_ptr s) bs (heap_end s)
     \<and> heap_end s = heap_ptr s + mem_size_aligned s + 12 \<and> heap_end s + 12 \<le> 2 ^ 32
     \<and> 4 dvd heap_ptr s \<and> 0 < heap_ptr s \<and> 12 \<le> mem_size_aligned s
     \<and> hm_used (memory s) (heap_end s) = 1 \<and> hm_next (memory s) (heap_end s) = mem_size_aligned s + 12"

lemma upd_simps [simp]:
  "memory (upd f s) = f (memory s)" "heap_ptr (upd f s) = heap_ptr s" "heap_end (upd f s) = heap_end s"
  "lfree (upd f s) = lfree s" "mem_size_aligned (upd f s) = mem_size_aligned s" "used_mem (upd f s) = used_mem s"
  "max_mem (upd f s) = max_mem s" "heap_sem (upd f s) = heap_sem s"
  by (simp_all add: upd_def)

lemma heap_at_frame [simp]:
  "heap_at (upd f s) off = heap_at s off" "heap_at (s\<lparr>lfree := p\<rparr>) off = heap_at s off"
  "heap_at (s\<lparr>used_mem := w\<rparr>) off = heap_at s off" "heap_at (s\<lparr>heap_sem := sem\<rparr>) off = heap_at s off"
  by (simp_all add: heap_at_def)

lemma stat_add_simps [simp]:
  "memory (stat_add n s) = memory s" "heap_ptr (stat_add n s) = heap_ptr s" "heap_end (stat_add n s) = heap_end s"
  "lfree (stat_add n s) = lfree s" "mem_size_aligned (stat_add n s) = mem_size_aligned s"
  "used_mem (stat_add n s) = add32 (used_mem s) n" "heap_sem (stat_add n s) = heap_sem s"
  "used_mem s = w \<Longrightarrow> add32 w n \<le> max_mem (stat_add n s)" "max_mem s \<le> max_mem (stat_add n s)"
  by (auto simp: stat_add_def Let_def)

lemma heap_shape_cong:
  assumes "memory s' = memory s" "heap_ptr s' = heap_ptr s" "heap_end s' = heap_end s"
    "mem_size_aligned s' = mem_size_aligned s"
  shows "heap_shape s' bs = heap_shape s bs"
  by (simp add: heap_shape_def assms)

lemma heap_shape_updI:
  assumes "heap_shape s bs" "hchain (f (memory s)) (heap_ptr s) (heap_ptr s) (heap_ptr s) bs' (heap_end s)"
    "hm_used (f (memory s)) (heap_end s) = hm_used (memory s) (heap_end s)"
    "hm_next (f (memory s)) (heap_end s) = hm_next (memory s) (heap_end s)"
  shows "heap_shape (upd f s) bs'"
  using assms unfolding heap_shape_def upd_simps by metis

text \<open>What the shape says around one block.\<close>

lemma heap_shape_blockD:
  assumes "heap_shape s (xs @ (a, z, u) # ys)"
  shows "hchain (memory s) (heap_ptr s) (heap_ptr s) (heap_ptr s) xs a"
    "hchain (memory s) (heap_ptr s) a z ys (heap_end s)"
    "heap_ptr s \<le> a" "a + 12 < z" "z \<le> heap_end s" "4 dvd z" "4 dvd a"
    "hm_magic (memory s) a = HEAP_MAGIC" "hm_used (memory s) a = (if u then 1 else 0)"
    "hm_next (memory s) a = z - heap_ptr s" "hm_prev (memory s) a = chain_last (heap_ptr s) xs - heap_ptr s"
    "heap_end s + 12 \<le> 2 ^ 32" "chain_end (heap_ptr s) xs = a"
proof -
  let ?h = "heap_ptr s" and ?m = "memory s"
  have c: "hchain ?m ?h ?h ?h xs (chain_end ?h xs)"
    "hchain ?m ?h (chain_last ?h xs) (chain_end ?h xs) ((a, z, u) # ys) (heap_end s)"
    using assms unfolding heap_shape_def hchain_append by blast+
  then have a: "chain_end ?h xs = a" by simp
  show "hchain ?m ?h ?h ?h xs a" "hchain ?m ?h a z ys (heap_end s)" "chain_end ?h xs = a" using c a by auto
  show "?h \<le> a" using hchain_le [OF c(1)] a by simp
  show "z \<le> heap_end s" using c(2) hchain_le [of ?m ?h a z ys] by auto
  show "a + 12 < z" "4 dvd z" "hm_magic ?m a = HEAP_MAGIC" "hm_used ?m a = (if u then 1 else 0)"
    "hm_next ?m a = z - ?h" "hm_prev ?m a = chain_last ?h xs - ?h" using c(2) a by auto
  show "heap_end s + 12 \<le> 2 ^ 32" using assms by (simp add: heap_shape_def)
  show "4 dvd a"
  proof (cases xs rule: rev_cases)
    case Nil
    then show ?thesis using a assms by (simp add: heap_shape_def)
  next
    case (snoc xs' b)
    obtain a' z' u' where b: "b = (a', z', u')" by (cases b)
    then have "(a', z', u') \<in> set xs" using snoc by simp
    from hchain_bounds [OF c(1) this] have "4 dvd z'" by simp
    moreover have "z' = a" using a snoc b by simp
    ultimately show ?thesis by simp
  qed
qed

text \<open>The next block of the chain starts where the block ends, unless it is the last one.\<close>

lemma heap_shape_next:
  assumes "heap_shape s (xs @ (a, z, u) # ys)"
  shows "ys = [] \<longleftrightarrow> z = heap_end s" "heap_at s (z - heap_ptr s) = z" "heap_at s (a - heap_ptr s) = a"
    "sub32 a (heap_ptr s) = a - heap_ptr s"
proof -
  note b = heap_shape_blockD [OF assms]
  show "ys = [] \<longleftrightarrow> z = heap_end s"
  proof (cases ys)
    case (Cons c ys')
    obtain a' z' u' where c: "c = (a', z', u')" by (cases c)
    then have "a' = z" "a' + 12 \<le> z'" "z' \<le> heap_end s"
      using b(2) Cons hchain_le [of "memory s" "heap_ptr s" a' z' ys'] by auto
    then show ?thesis using Cons by simp
  qed (use b(2) in simp)
  show "heap_at s (z - heap_ptr s) = z" "heap_at s (a - heap_ptr s) = a"
    using b(3,4,5,12) by (simp_all add: heap_at_def add32_def)
  show "sub32 a (heap_ptr s) = a - heap_ptr s" using b(3,4,5,12) by (simp add: sub32_small)
qed

subsection \<open>Joining a block with the next one\<close>

definition join_mem :: "nat \<Rightarrow> nat \<Rightarrow> nat \<Rightarrow> byte_memory \<Rightarrow> byte_memory" where
  "join_mem h a y m = set_prev y (a - h) (set_next a (y - h) m)"

lemma join_shape:
  assumes "heap_shape s (xs @ (a, z, False) # (z, y, v) # ys)"
  shows "heap_shape (upd (join_mem (heap_ptr s) a y) s) (xs @ (a, y, False) # ys)"
proof -
  let ?h = "heap_ptr s" and ?m = "memory s"
  note b = heap_shape_blockD [OF assms]
  have s2: "heap_shape s ((xs @ [(a, z, False)]) @ (z, y, v) # ys)" using assms by simp
  note c = heap_shape_blockD [OF s2]
  note x = heap_shape_next(1) [OF s2]
  have le: "y - ?h < 2 ^ 32" "a - ?h < 2 ^ 32" "a + 12 \<le> y" using b(3,4,5) c(4,5,12) by simp_all
  have far: "far a y" "far y a" using farI [OF le(3)] by simp_all
  have "hchain (join_mem ?h a y ?m) ?h ?h ?h xs a" unfolding join_mem_def
    using b(1,4) c(4) by (intro hchain_write_after) simp_all
  moreover have "hchain (join_mem ?h a y ?m) ?h a y ys (heap_end s)" unfolding join_mem_def
    using hchain_reprev [OF hchain_write_before(3) [OF c(2) le(3)] le(2)] by simp
  ultimately have "hchain (join_mem ?h a y ?m) ?h ?h ?h (xs @ (a, y, False) # ys) (heap_end s)"
    using b le far c(4,6) by (simp add: hchain_append join_mem_def)
  moreover have "far a (heap_end s)" using le(3) c(5) by (simp add: far_def)
  moreover have "far y (heap_end s)" if "y \<noteq> heap_end s"
    using hchain_gap [OF c(2) that] by (simp add: far_def)
  ultimately show ?thesis
    by (intro heap_shape_updI [OF assms]; cases "y = heap_end s") (simp_all add: join_mem_def)
qed

text \<open>The data of a block, and what a write to headers leaves of it.\<close>

definition same_data :: "nat \<Rightarrow> nat \<Rightarrow> byte_memory \<Rightarrow> byte_memory \<Rightarrow> bool" where
  "same_data a z m m' \<longleftrightarrow> (\<forall>x. a + 12 \<le> x \<and> x < z \<longrightarrow> m' x = m x)"

lemma same_data_trans: "same_data a z m m' \<Longrightarrow> same_data a z m' m'' \<Longrightarrow> same_data a z m m''"
  by (simp add: same_data_def)

lemma same_data_refl [simp]: "same_data a z m m"
  by (simp add: same_data_def)

lemma same_data_writes:
  assumes "c + 12 \<le> a + 12 \<or> z \<le> c"
  shows "same_data a z m (set_magic c v m)" "same_data a z m (set_used c v m)"
    "same_data a z m (set_next c v m)" "same_data a z m (set_prev c v m)"
  using assms by (auto simp: same_data_def)

text \<open>Blocks do not overlap: two blocks of a chain are the same, or one ends before the other starts.\<close>

lemma hchain_disjoint:
  assumes "hchain m h pv p bs e" "(a, z, u) \<in> set bs" "(b, y, v) \<in> set bs"
  shows "(a, z, u) = (b, y, v) \<or> z \<le> b \<or> y \<le> a"
  using assms
proof (induction bs arbitrary: pv p)
  case (Cons c bs)
  obtain a' z' u' where c: "c = (a', z', u')" by (cases c)
  then have t: "hchain m h a' z' bs e" using Cons.prems by auto
  show ?case using Cons.IH [OF t] Cons.prems c hchain_bounds [OF t, of a z u] hchain_bounds [OF t, of b y v] by auto
qed simp

subsection \<open>Splitting a block\<close>

definition split_mem :: "nat \<Rightarrow> nat \<Rightarrow> nat \<Rightarrow> nat \<Rightarrow> byte_memory \<Rightarrow> byte_memory" where
  "split_mem h a a2 z m = set_next a (a2 - h) (set_prev a2 (a - h) (set_next a2 (z - h)
     (set_used a2 0 (set_magic a2 HEAP_MAGIC m))))"

definition relink :: "nat \<Rightarrow> nat \<Rightarrow> nat \<Rightarrow> nat \<Rightarrow> byte_memory \<Rightarrow> byte_memory" where
  "relink h a2 z e m = (if z \<noteq> e then set_prev z (a2 - h) m else m)"

lemma set_used_relink:
  assumes "a + 12 \<le> z"
  shows "relink h a2 z e (set_used a v m) = set_used a v (relink h a2 z e m)"
proof -
  have "set_prev z w (set_used a v m) = set_used a v (set_prev z w m)" for w
    using assms by (auto simp: hm_defs wr32_def wr16_def fun_eq_iff)
  then show ?thesis by (simp add: relink_def)
qed

lemma split_shape:
  assumes "heap_shape s (xs @ (a, z, u) # ys)" "a + 12 < a2" "a2 + 12 < z" "4 dvd a2"
  shows "heap_shape (upd (\<lambda>m. relink (heap_ptr s) a2 z (heap_end s) (split_mem (heap_ptr s) a a2 z m)) s)
    (xs @ (a, a2, u) # (a2, z, False) # ys)"
proof -
  let ?h = "heap_ptr s" and ?m = "memory s" and ?e = "heap_end s"
  let ?s = "split_mem ?h a a2 z ?m"
  let ?r = "relink ?h a2 z ?e ?s"
  note b = heap_shape_blockD [OF assms(1)]
  have le: "z - ?h < 2 ^ 32" "a2 - ?h < 2 ^ 32" "a - ?h < 2 ^ 32" using b(3,4,5,12) assms(2,3) by simp_all
  have far: "far a a2" "far a2 a" "far a z" "far z a" "far a2 z" "far z a2" "far a ?e" "far a2 ?e"
    using assms(2,3) b(4,5) by (simp_all add: far_def)
  have "hchain ?s ?h ?h ?h xs a" unfolding split_mem_def
    using b(1) assms(2) by (intro hchain_write_after) simp_all
  then have xs: "hchain ?r ?h ?h ?h xs a" unfolding relink_def
    using hchain_write_after(4) [of ?s ?h ?h ?h xs a z] b(4) by auto
  have "hchain ?s ?h a z ys ?e" unfolding split_mem_def
    using b(2) assms(2,3) by (intro hchain_write_before) simp_all
  then have ys: "hchain ?r ?h a2 z ys ?e" unfolding relink_def
    using hchain_reprev [of ?s ?h a z ys ?e a2] le heap_shape_next(1) [OF assms(1)] by (cases "z = ?e") auto
  have "hm_magic ?r a = HEAP_MAGIC" "hm_used ?r a = (if u then 1 else 0)" "hm_next ?r a = a2 - ?h"
    "hm_prev ?r a = chain_last ?h xs - ?h"
    using b far le by (simp_all add: relink_def split_mem_def)
  moreover have "hm_magic ?r a2 = HEAP_MAGIC" "hm_used ?r a2 = 0" "hm_next ?r a2 = z - ?h" "hm_prev ?r a2 = a - ?h"
    using far le by (simp_all add: relink_def split_mem_def HEAP_MAGIC_def)
  ultimately have c: "hchain ?r ?h ?h ?h (xs @ (a, a2, u) # (a2, z, False) # ys) ?e"
    using xs ys assms b(6,13) by (simp add: hchain_append)
  have "far z ?e" if "z \<noteq> ?e" using hchain_gap [OF b(2) that] by (simp add: far_def)
  then show ?thesis using c far by (intro heap_shape_updI [OF assms(1)]) (simp_all add: relink_def split_mem_def)
qed

text \<open>Marking a block used or free.\<close>

lemma retag_shape:
  assumes "heap_shape s (xs @ (a, z, u) # ys)"
  shows "heap_shape (upd (\<lambda>m. set_magic a HEAP_MAGIC (set_used a (if w then 1 else 0) m)) s) (xs @ (a, z, w) # ys)"
proof -
  let ?h = "heap_ptr s" and ?m = "memory s" and ?e = "heap_end s"
  let ?r = "set_magic a HEAP_MAGIC (set_used a (if w then 1 else 0) ?m)"
  note b = heap_shape_blockD [OF assms]
  have "hchain ?r ?h ?h ?h xs a" using b(1) by (intro hchain_write_after) simp_all
  moreover have "hchain ?r ?h a z ys ?e" using b(2,4) by (intro hchain_write_before) simp_all
  ultimately have "hchain ?r ?h ?h ?h (xs @ (a, z, w) # ys) ?e"
    using b by (simp add: hchain_append HEAP_MAGIC_def)
  moreover have "far a ?e" using b(4,5) by (simp add: far_def)
  ultimately show ?thesis by (intro heap_shape_updI [OF assms]) simp_all
qed

fun used_bytes :: "blk list \<Rightarrow> nat" where
  "used_bytes [] = 0"
| "used_bytes ((a, z, u) # bs) = (if u then z - a else 0) + used_bytes bs"

lemma used_bytes_append [simp]: "used_bytes (xs @ ys) = used_bytes xs + used_bytes ys"
  by (induction xs) auto

lemma used_bytes_le: "hchain m h pv p bs e \<Longrightarrow> used_bytes bs \<le> e - p"
proof (induction bs arbitrary: pv p)
  case (Cons b bs)
  obtain a z u where b: "b = (a, z, u)" by (cases b)
  then have t: "hchain m h a z bs e" "a = p" "a + 12 \<le> z" using Cons.prems by auto
  show ?case using Cons.IH [OF t(1)] hchain_le [OF t(1)] t(2,3) b by (cases u) simp_all
qed simp

text \<open>What \<open>rt_malloc\<close> makes of the free block it has found.\<close>

definition alloc_blocks :: "nat \<Rightarrow> nat \<Rightarrow> nat \<Rightarrow> blk list" where
  "alloc_blocks a z n =
     (if a + 12 + n + 24 \<le> z then [(a, a + 12 + n, True), (a + 12 + n, z, False)] else [(a, z, True)])"

lemma upd_frame: "\<exists>m. upd f s = s\<lparr>memory := m\<rparr>"
  by (auto simp: upd_def)

lemma split_block_frame: "\<exists>m. split_block p q s = s\<lparr>memory := m\<rparr>"
  by (auto simp: split_block_def upd_def Let_def)

lemma link_back_frame: "\<exists>m. link_back q s = s\<lparr>memory := m\<rparr>"
  by (cases s) (auto simp: link_back_def upd_def Let_def)

lemma malloc_block_frame [simp]:
  "lfree (malloc_block p n s) = lfree s" "heap_sem (malloc_block p n s) = heap_sem s"
  "heap_ptr (malloc_block p n s) = heap_ptr s" "heap_end (malloc_block p n s) = heap_end s"
  "mem_size_aligned (malloc_block p n s) = mem_size_aligned s"
  "used_mem (malloc_block p n s) \<le> max_mem (malloc_block p n s)"
  and malloc_block_used: "used_mem (malloc_block p n s) = add32 (used_mem s)
    (if sub32 (hm_next (memory s) (heap_at s p)) (add32 p SIZEOF_STRUCT_MEM) \<ge> add32 (add32 n SIZEOF_STRUCT_MEM) MIN_SIZE_ALIGNED
     then add32 n SIZEOF_STRUCT_MEM
     else sub32 (hm_next (memory s) (heap_at s p)) (sub32 (heap_at s p) (heap_ptr s)))"
proof -
  obtain m where m: "link_back (add32 (add32 p SIZEOF_STRUCT_MEM) n) (upd (set_used (heap_at s p) 1)
      (split_block p (add32 (add32 p SIZEOF_STRUCT_MEM) n) s)) = s\<lparr>memory := m\<rparr>"
  proof -
    obtain m1 where m1: "split_block p (add32 (add32 p SIZEOF_STRUCT_MEM) n) s = s\<lparr>memory := m1\<rparr>"
      using split_block_frame by blast
    obtain m2 where m2: "upd (set_used (heap_at s p) 1) (s\<lparr>memory := m1\<rparr>) = s\<lparr>memory := m2\<rparr>"
      by (auto simp: upd_def)
    obtain m3 where m3: "link_back (add32 (add32 p SIZEOF_STRUCT_MEM) n) (s\<lparr>memory := m2\<rparr>) = s\<lparr>memory := m2, memory := m3\<rparr>"
      using link_back_frame by blast
    show ?thesis by (rule that [of m3]) (unfold m1 m2 m3, simp)
  qed
  show "lfree (malloc_block p n s) = lfree s" "heap_sem (malloc_block p n s) = heap_sem s"
    "heap_ptr (malloc_block p n s) = heap_ptr s" "heap_end (malloc_block p n s) = heap_end s"
    "mem_size_aligned (malloc_block p n s) = mem_size_aligned s"
    "used_mem (malloc_block p n s) \<le> max_mem (malloc_block p n s)"
    "used_mem (malloc_block p n s) = add32 (used_mem s)
    (if sub32 (hm_next (memory s) (heap_at s p)) (add32 p SIZEOF_STRUCT_MEM) \<ge> add32 (add32 n SIZEOF_STRUCT_MEM) MIN_SIZE_ALIGNED
     then add32 n SIZEOF_STRUCT_MEM
     else sub32 (hm_next (memory s) (heap_at s p)) (sub32 (heap_at s p) (heap_ptr s)))"
    unfolding malloc_block_def Let_def m by simp_all
qed

lemma malloc_block_shape:
  fixes s a n
  defines "s' \<equiv> malloc_block (a - heap_ptr s) n s"
  assumes sh: "heap_shape s (xs @ (a, z, False) # ys)" and n: "4 dvd n" "a + 12 + n \<le> z" "0 < n"
  shows "heap_shape s' (xs @ alloc_blocks a z n @ ys)"
    "used_mem s' = add32 (used_mem s) (used_bytes (alloc_blocks a z n))" "used_mem s' \<le> max_mem s'"
    "lfree s' = lfree s" "heap_sem s' = heap_sem s" "heap_ptr s' = heap_ptr s" "heap_end s' = heap_end s"
    "mem_size_aligned s' = mem_size_aligned s"
    "(b, y, v) \<in> set xs \<union> set ys \<Longrightarrow> same_data b y (memory s) (memory s')"
proof -
  let ?h = "heap_ptr s" and ?a2 = "a + 12 + n"
  note b = heap_shape_blockD [OF sh] and x = heap_shape_next [OF sh]
  have e: "heap_end s = ?h + mem_size_aligned s + 12" "0 < ?h" using sh by (simp_all add: heap_shape_def)
  have ar: "add32 (a - ?h) 12 = a - ?h + 12" "sub32 (z - ?h) (a - ?h + 12) = z - a - 12"
    "add32 (add32 n 12) 12 = n + 24" "add32 (a - ?h + 12) n = ?a2 - ?h" "add32 (mem_size_aligned s) 12 = heap_end s - ?h"
    "sub32 (z - ?h) (a - ?h) = z - a" "add32 n 12 = n + 12" "heap_at s (?a2 - ?h) = ?a2"
    using b(3,4,5,12) n(2) e by (simp_all add: add32_def sub32_small heap_at_def)
  have th: "n + 24 \<le> z - a - 12 \<longleftrightarrow> a + 12 + n + 24 \<le> z" using n(2) by linarith
  define f where "f = (if n + 24 \<le> z - a - 12
    then (\<lambda>m. set_magic a HEAP_MAGIC (set_used a 1 (relink ?h ?a2 z (heap_end s) (split_mem ?h a ?a2 z m))))
    else (\<lambda>m. set_magic a HEAP_MAGIC (set_used a 1 m)))"
  have far: "far a ?a2" "far ?a2 a" using farI [of a ?a2] by simp_all
  have mem: "memory s' = f (memory s)"
  proof (cases "n + 24 \<le> z - a - 12")
    case True
    define m1 where "m1 = split_mem ?h a ?a2 z (memory s)"
    have sb: "split_block (a - ?h) (?a2 - ?h) s = upd (\<lambda>m. m1) s"
      using ar(8) x far b(10) by (simp add: split_block_def upd_def Let_def m1_def split_mem_def)
    have nx: "hm_next m1 ?a2 = z - ?h" using far b(3,4,5,12) by (simp add: m1_def split_mem_def)
    have ze: "z - ?h = heap_end s - ?h \<longleftrightarrow> z = heap_end s" using b(3,4,5) by linarith
    have lb: "memory (link_back (?a2 - ?h) (upd (set_used a 1) (upd (\<lambda>m. m1) s)))
      = relink ?h ?a2 z (heap_end s) (set_used a 1 m1)"
      using ar(5,8) x(2) nx far b(3,4,5) ze by (simp add: link_back_def Let_def SIZEOF_STRUCT_MEM_def relink_def)
    show ?thesis using True ar x b(4,10) lb
      by (simp add: s'_def malloc_block_def Let_def SIZEOF_STRUCT_MEM_def MIN_SIZE_ALIGNED_def sb f_def m1_def
        set_used_relink)
  next
    case False
    then show ?thesis using ar x b(10)
      by (simp add: s'_def malloc_block_def Let_def SIZEOF_STRUCT_MEM_def MIN_SIZE_ALIGNED_def f_def)
  qed
  show fr: "lfree s' = lfree s" "heap_sem s' = heap_sem s" "heap_ptr s' = heap_ptr s" "heap_end s' = heap_end s"
    "mem_size_aligned s' = mem_size_aligned s" "used_mem s' \<le> max_mem s'"
    by (simp_all add: s'_def)
  show "used_mem s' = add32 (used_mem s) (used_bytes (alloc_blocks a z n))"
    unfolding s'_def malloc_block_used x(3) b(10) SIZEOF_STRUCT_MEM_def MIN_SIZE_ALIGNED_def x(4) ar(1) ar(2) ar(6) ar(7)
    using th ar(3,7) by (simp add: alloc_blocks_def add.commute del: diff_diff_left)
  have "heap_shape (upd f s) (xs @ alloc_blocks a z n @ ys)"
  proof (cases "n + 24 \<le> z - a - 12")
    case True
    then have "heap_shape (upd (\<lambda>m. relink ?h ?a2 z (heap_end s) (split_mem ?h a ?a2 z m)) s)
      (xs @ (a, ?a2, False) # (?a2, z, False) # ys)"
      using n b(7) by (intro split_shape [OF sh]) simp_all
    from retag_shape [OF this, of True] show ?thesis
      using True th by (simp add: f_def alloc_blocks_def upd_def del: diff_diff_left)
  next
    case False
    then show ?thesis using retag_shape [OF sh, of True] th by (simp add: f_def alloc_blocks_def del: diff_diff_left)
  qed
  then show "heap_shape s' (xs @ alloc_blocks a z n @ ys)"
    using mem fr heap_shape_cong [of s' "upd f s"] by simp
  show "same_data b y (memory s) (memory s')" if "(b, y, v) \<in> set xs \<union> set ys"
  proof -
    have out: "f m x = m x" if "x < a \<or> z + 12 \<le> x" for m x
    proof -
      have o: "x < c \<or> c + 12 \<le> x" if "c = a \<or> c = z \<or> c = ?a2" for c
        using that \<open>x < a \<or> z + 12 \<le> x\<close> b(4) n(2) by linarith
      show ?thesis using o [of a] o [of z] o [of ?a2] by (simp add: f_def relink_def split_mem_def)
    qed
    have "y \<le> a \<or> z \<le> b" using that hchain_bounds [OF b(1)] hchain_bounds [OF b(2)] by blast
    then have "x < a \<or> z + 12 \<le> x" if "b + 12 \<le> x" "x < y" for x using that by linarith
    then show ?thesis unfolding mem same_data_def by (blast intro: out)
  qed
qed

end
