(* ===== verification/Heap_Alloc.thy ===== *)
theory Heap_Alloc
  imports Heap_Chain
begin

text \<open>
  What the calls of the kernel heap do to the list of blocks: the searches follow the chain, \<open>rt_malloc\<close> takes the first block that
  fits, \<open>rt_free\<close> joins free neighbours, \<open>rt_realloc\<close> keeps the data.  \<open>heap_inv\<close> is the invariant of an idle heap:
  the shape of the chain, no two free neighbours, the lowest free block, the statistics and the semaphore.
\<close>

section \<open>The invariant and the searches\<close>

fun first_free :: "blk list \<Rightarrow> nat \<Rightarrow> nat" where
  "first_free [] e = e"
| "first_free ((a, z, u) # bs) e = (if u then first_free bs e else a)"

text \<open>Of two neighbours one is in use.\<close>

definition no_adj :: "blk list \<Rightarrow> bool" where
  "no_adj bs = successively (\<lambda>b c. snd (snd b) \<or> snd (snd c)) bs"

definition sem_idle :: "rt_semaphore \<Rightarrow> bool" where
  "sem_idle sem \<longleftrightarrow> sem_value sem = 1 \<and> sem_waiting sem = []"

definition heap_inv :: "heap \<Rightarrow> blk list \<Rightarrow> bool" where
  "heap_inv s bs \<longleftrightarrow> heap_shape s bs \<and> no_adj bs \<and> lfree s = first_free bs (heap_end s)
     \<and> used_mem s = used_bytes bs \<and> used_mem s \<le> max_mem s \<and> sem_idle (heap_sem s)"

lemmas no_adj_simps = no_adj_def successively_append_iff successively_Cons

lemma sem_idle_take: "sem_idle sem \<Longrightarrow> rt_sem_take self t sem = (sem\<lparr>sem_value := 0\<rparr>, Ret 0)"
  by (simp add: sem_idle_def rt_sem_take_def)

lemma sem_idle_release: "sem_idle sem \<Longrightarrow> fst (rt_sem_release (sem\<lparr>sem_value := 0\<rparr>)) = sem"
  by (simp add: sem_idle_def rt_sem_release_def RT_SEM_VALUE_MAX_def)

text \<open>First fit over the list of blocks that start below \<open>lim\<close>.\<close>

fun first_fit :: "nat \<Rightarrow> nat \<Rightarrow> blk list \<Rightarrow> nat option" where
  "first_fit lim n [] = None"
| "first_fit lim n ((a, z, u) # bs) =
     (if a < lim then (if \<not> u \<and> a + 12 + n \<le> z then Some a else first_fit lim n bs) else None)"

lemma malloc_scan_chain:
  assumes "hchain (memory s) (heap_ptr s) pv p bs (heap_end s)" "heap_ptr s \<le> p"
    "heap_end s = heap_ptr s + mem_size_aligned s + 12" "heap_end s + 12 \<le> 2 ^ 32" "n \<le> mem_size_aligned s"
  shows "malloc_scan s n (p - heap_ptr s) =
    Some (map_option (\<lambda>a. a - heap_ptr s) (first_fit (heap_end s - 12 - n) n bs))"
  using assms(1,2)
proof (induction bs arbitrary: pv p)
  case Nil
  then have "\<not> p - heap_ptr s < sub32 (mem_size_aligned s) n" using assms(3-5) by (simp add: sub32_small)
  then show ?case by (subst malloc_scan.simps) simp
next
  case (Cons b bs)
  obtain a z u where b: "b = (a, z, u)" by (cases b)
  have c: "a = p" "p + 12 \<le> z" "hm_used (memory s) p = (if u then 1 else 0)" "hm_next (memory s) p = z - heap_ptr s"
    "hchain (memory s) (heap_ptr s) p z bs (heap_end s)" using Cons.prems(1) b by auto
  have ze: "z \<le> heap_end s" using hchain_le [OF c(5)] .
  have ih: "malloc_scan s n (z - heap_ptr s) =
    Some (map_option (\<lambda>a. a - heap_ptr s) (first_fit (heap_end s - 12 - n) n bs))"
    using Cons.IH [OF c(5)] c(2) Cons.prems(2) by simp
  have at: "heap_at s (p - heap_ptr s) = p" using Cons.prems(2) c(2) ze assms(4) by (simp add: heap_at_def add32_def)
  have sz: "sub32 (z - heap_ptr s) (add32 (p - heap_ptr s) 12) = z - p - 12"
    using Cons.prems(2) c(2) ze assms(4) by (simp add: add32_small sub32_small)
  have lim: "p - heap_ptr s < sub32 (mem_size_aligned s) n \<longleftrightarrow> p < heap_end s - 12 - n"
    using Cons.prems(2) assms(3-5) by (simp add: sub32_small) linarith
  have fit: "n \<le> z - p - 12 \<longleftrightarrow> p + 12 + n \<le> z" using c(2) by linarith
  show ?case
    by (subst malloc_scan.simps) (auto simp: b c(1,3,4) at sz lim fit ih SIZEOF_STRUCT_MEM_def simp del: diff_diff_left)
qed

lemma lfree_scan_chain:
  assumes "hchain (memory s) (heap_ptr s) pv p bs (heap_end s)" "heap_ptr s \<le> p" "heap_end s + 12 \<le> 2 ^ 32"
  shows "lfree_scan s p = Some (first_free bs (heap_end s))"
  using assms(1,2)
proof (induction bs arbitrary: pv p)
  case Nil
  then show ?case by (subst lfree_scan.simps) simp
next
  case (Cons b bs)
  obtain a z u where b: "b = (a, z, u)" by (cases b)
  have c: "a = p" "p + 12 \<le> z" "hm_used (memory s) p = (if u then 1 else 0)" "hm_next (memory s) p = z - heap_ptr s"
    "hchain (memory s) (heap_ptr s) p z bs (heap_end s)" using Cons.prems(1) b by auto
  have ze: "z \<le> heap_end s" using hchain_le [OF c(5)] .
  have at: "heap_at s (z - heap_ptr s) = z" using Cons.prems(2) c(2) ze assms(3) by (simp add: heap_at_def add32_def)
  have "lfree_scan s z = Some (first_free bs (heap_end s))" using Cons.IH [OF c(5)] c(2) Cons.prems(2) by simp
  moreover have "p \<noteq> heap_end s" using ze c(2) by linarith
  ultimately show ?case by (subst lfree_scan.simps) (simp add: b c at)
qed

lemma first_fit_above: "hchain m h pv p bs e \<Longrightarrow> lim \<le> p \<Longrightarrow> first_fit lim n bs = None"
  by (cases bs) auto

text \<open>The search may start at the lowest free block.\<close>

lemma first_fit_from_lfree:
  assumes "hchain m h pv p bs e"
  shows "\<exists>pv' ys. hchain m h pv' (first_free bs e) ys e \<and> first_fit lim n ys = first_fit lim n bs"
  using assms
proof (induction bs arbitrary: pv p)
  case Nil
  then show ?case by (auto intro!: exI [of _ "[]"])
next
  case (Cons b bs)
  obtain a z u where b: "b = (a, z, u)" by (cases b)
  have c: "hchain m h a z bs e" "a = p" "p + 12 \<le> z" using Cons.prems b by auto
  show ?case
  proof (cases u)
    case True
    have "first_fit lim n (b # bs) = first_fit lim n bs"
      using True b c first_fit_above [OF c(1), of lim n] by auto
    then show ?thesis using Cons.IH [OF c(1)] True b by simp
  next
    case False
    then show ?thesis using Cons.prems b c(2) by (intro exI [of _ pv] exI [of _ "b # bs"]) simp
  qed
qed

lemma first_fit_Some:
  "first_fit lim n bs = Some a \<Longrightarrow> \<exists>xs z ys. bs = xs @ (a, z, False) # ys \<and> a + 12 + n \<le> z \<and> a < lim
     \<and> (\<forall>(b, y, v) \<in> set xs. v \<or> y < b + 12 + n)"
proof (induction lim n bs rule: first_fit.induct)
  case (2 lim n a' z u bs)
  show ?case
  proof (cases "\<not> u \<and> a' + 12 + n \<le> z")
    case True
    then show ?thesis using "2.prems" by (intro exI [of _ "[]"]) (auto split: if_splits)
  next
    case False
    then have l: "a' < lim" "first_fit lim n bs = Some a" using "2.prems" by (auto split: if_splits)
    from "2.IH" [OF l(1) False l(2)] obtain xs z' ys where "bs = xs @ (a, z', False) # ys"
      "a + 12 + n \<le> z'" "a < lim" "\<forall>(b, y, v) \<in> set xs. v \<or> y < b + 12 + n" by blast
    then show ?thesis using False by (intro exI [of _ "(a', z, u) # xs"]) auto
  qed
qed simp

lemma first_fit_None:
  "hchain m h pv p bs e \<Longrightarrow> first_fit lim n bs = None \<Longrightarrow> (a, z, False) \<in> set bs \<Longrightarrow> a + 12 + n \<le> z \<Longrightarrow> lim \<le> a"
proof (induction bs arbitrary: pv p)
  case (Cons b bs)
  obtain a' z' u' where b: "b = (a', z', u')" by (cases b)
  have c: "hchain m h a' z' bs e" "a' + 12 \<le> z'" using Cons.prems(1) b by auto
  show ?case using Cons b c hchain_bounds [OF c(1), of a z False] by (auto split: if_splits)
qed simp

lemma first_free_append:
  "first_free (xs @ ys) e = (if \<forall>b \<in> set xs. snd (snd b) then first_free ys e else first_free xs e)"
proof (induction xs)
  case (Cons b xs)
  then show ?case by (cases b) simp
qed simp

lemma first_free_less:
  "hchain m h pv p xs q \<Longrightarrow> \<not> (\<forall>b \<in> set xs. snd (snd b)) \<Longrightarrow> first_free xs e < q"
proof (induction xs arbitrary: pv p)
  case (Cons b xs)
  obtain a z u where b: "b = (a, z, u)" by (cases b)
  have c: "hchain m h a z xs q" "a + 12 \<le> z" using Cons.prems(1) b by auto
  show ?case using Cons.IH [OF c(1)] Cons.prems(2) b c(2) hchain_le [OF c(1)] by auto
qed simp

text \<open>The lowest free block of a chain with a free block at \<open>a\<close>.\<close>

lemma first_free_at:
  assumes "hchain m h pv p xs a"
  shows "first_free (xs @ (a, z, False) # ys) e = a \<longleftrightarrow> (\<forall>b \<in> set xs. snd (snd b))"
    "first_free (xs @ (a, z, False) # ys) e \<le> a"
proof -
  show "first_free (xs @ (a, z, False) # ys) e = a \<longleftrightarrow> (\<forall>b \<in> set xs. snd (snd b))"
    using first_free_less [OF assms, of e] by (auto simp: first_free_append)
  show "first_free (xs @ (a, z, False) # ys) e \<le> a"
    using first_free_less [OF assms, of e] by (simp add: first_free_append) linarith
qed

section \<open>Allocation\<close>

lemma heap_invD:
  assumes "heap_inv s bs"
  shows "heap_shape s bs" "no_adj bs" "lfree s = first_free bs (heap_end s)" "used_mem s = used_bytes bs"
    "used_mem s \<le> max_mem s" "sem_idle (heap_sem s)"
  using assms by (simp_all add: heap_inv_def)

lemma heap_shapeD:
  assumes "heap_shape s bs"
  shows "hchain (memory s) (heap_ptr s) (heap_ptr s) (heap_ptr s) bs (heap_end s)"
    "heap_end s = heap_ptr s + mem_size_aligned s + 12" "heap_end s + 12 \<le> 2 ^ 32" "4 dvd heap_ptr s" "0 < heap_ptr s"
    "12 \<le> mem_size_aligned s"
  using assms unfolding heap_shape_def by blast+

text \<open>The size \<open>rt_malloc\<close> searches for.\<close>

definition malloc_size :: "nat \<Rightarrow> nat" where
  "malloc_size n = max MIN_SIZE_ALIGNED (RT_ALIGN n)"

lemma malloc_size_dvd [simp]: "4 dvd malloc_size n"
  by (simp add: malloc_size_def max_def RT_ALIGN_dvd MIN_SIZE_ALIGNED_def)

lemma malloc_size_pos [simp]: "0 < malloc_size n"
  by (simp add: malloc_size_def max_def MIN_SIZE_ALIGNED_def)

lemma rt_malloc_search:
  assumes inv: "heap_inv s bs" and n: "0 < n" "RT_ALIGN n \<le> mem_size_aligned s"
  defines "a \<equiv> first_fit (heap_end s - 12 - malloc_size n) (malloc_size n) bs"
  defines "t \<equiv> s\<lparr>heap_sem := (heap_sem s)\<lparr>sem_value := 0\<rparr>\<rparr>"
  shows "rt_malloc self n s = (case a of None \<Rightarrow> Some (s, Returned 0)
    | Some a \<Rightarrow> (let t' = malloc_block (a - heap_ptr s) (malloc_size n) t
        in case (if heap_at s (a - heap_ptr s) = lfree s then lfree_scan t' (lfree t') else Some (lfree t')) of
             None \<Rightarrow> None
           | Some p \<Rightarrow> Some (heap_release (t'\<lparr>lfree := p\<rparr>), Returned (add32 (heap_at s (a - heap_ptr s)) 12))))"
proof -
  note iv = heap_invD [OF inv] and sh = heap_shapeD [OF heap_invD(1) [OF inv]]
  let ?n = "malloc_size n" and ?h = "heap_ptr s" and ?e = "heap_end s"
  have le: "?n \<le> mem_size_aligned s" using n(2) sh(6) by (simp add: malloc_size_def MIN_SIZE_ALIGNED_def)
  obtain pv ys where ys: "hchain (memory s) ?h pv (lfree s) ys ?e"
    "first_fit (?e - 12 - ?n) ?n ys = first_fit (?e - 12 - ?n) ?n bs"
    using first_fit_from_lfree [OF sh(1)] iv(3) by metis
  have lo: "?h \<le> lfree s"
  proof (cases bs)
    case Nil
    then show ?thesis using iv(3) sh(2) by simp
  next
    case (Cons b bs')
    have "first_free zs e \<ge> q" if "hchain m h pv q zs e" for m h pv q zs e
      using that
    proof (induction zs arbitrary: pv q)
      case (Cons c zs)
      obtain a z u where c: "c = (a, z, u)" by (cases c)
      have "hchain m h a z zs e" "q + 12 \<le> z" "a = q" using Cons.prems c by auto
      then show ?case using Cons.IH [of a z] c by simp
    qed simp
    from this [OF sh(1)] show ?thesis using iv(3) by simp
  qed
  have hi: "lfree s \<le> ?e" using hchain_le [OF ys(1)] .
  have off: "sub32 (lfree s) ?h = lfree s - ?h" using lo hi sh(3) by (simp add: sub32_small)
  have scan: "malloc_scan t ?n (sub32 (lfree s) ?h) = Some (map_option (\<lambda>a. a - ?h) a)"
    unfolding off using malloc_scan_chain [of t pv "lfree s" ys ?n] ys lo sh(2,3) le by (simp add: a_def t_def)
  have rel: "heap_release t = s"
    using iv(6) by (simp add: heap_release_def t_def sem_idle_release)
  have sz: "(if RT_ALIGN n < MIN_SIZE_ALIGNED then MIN_SIZE_ALIGNED else RT_ALIGN n) = ?n"
    by (simp add: malloc_size_def)
  have t_frame: "lfree t = lfree s" "heap_ptr t = ?h" "heap_at t = heap_at s"
    by (simp_all add: t_def fun_eq_iff)
  show ?thesis
    unfolding rt_malloc_def Let_def sz sem_idle_take [OF iv(6)] prod.case t_def [symmetric]
    using n scan rel by (cases a) (simp_all add: t_frame Let_def SIZEOF_STRUCT_MEM_def cong: option.case_cong)
qed

text \<open>
  A request the heap can serve: the first block that fits is used, what remains of it becomes a free block, the data of the other
  blocks stays.
\<close>

lemma rt_malloc_found:
  assumes inv: "heap_inv s (xs @ (a, z, False) # ys)" and n: "0 < n" "RT_ALIGN n \<le> mem_size_aligned s"
    and ff: "first_fit (heap_end s - 12 - malloc_size n) (malloc_size n) (xs @ (a, z, False) # ys) = Some a"
    and z: "a + 12 + malloc_size n \<le> z"
  shows "\<exists>s'. rt_malloc self n s = Some (s', Returned (a + 12)) \<and> heap_inv s' (xs @ alloc_blocks a z (malloc_size n) @ ys)
    \<and> heap_ptr s' = heap_ptr s \<and> heap_end s' = heap_end s \<and> mem_size_aligned s' = mem_size_aligned s
    \<and> (\<forall>(b, y, v) \<in> set xs \<union> set ys. same_data b y (memory s) (memory s'))"
proof -
  let ?n = "malloc_size n" and ?h = "heap_ptr s" and ?e = "heap_end s"
  let ?al = "alloc_blocks a z ?n"
  note iv = heap_invD [OF inv] and sh = heap_shapeD [OF heap_invD(1) [OF inv]]
  define t where "t = s\<lparr>heap_sem := (heap_sem s)\<lparr>sem_value := 0\<rparr>\<rparr>"
  have tsh: "heap_shape t (xs @ (a, z, False) # ys)" using iv(1) heap_shape_cong [of t s] by (simp add: t_def)
  have tf: "heap_ptr t = ?h" "heap_end t = ?e" "lfree t = lfree s" "memory t = memory s" "used_mem t = used_mem s"
    "mem_size_aligned t = mem_size_aligned s"
    by (simp_all add: t_def)
  define t' where "t' = malloc_block (a - ?h) ?n t"
  note mb = malloc_block_shape [OF tsh malloc_size_dvd z malloc_size_pos, unfolded tf, folded t'_def]
  note b = heap_shape_blockD [OF iv(1)] and b' = heap_shapeD [OF mb(1)]
  have c': "hchain (memory t') ?h (chain_last ?h xs) a (?al @ ys) ?e" "hchain (memory t') ?h ?h ?h xs a"
    using b'(1) b(13) mb(6,7) by (simp_all add: hchain_append)
  have used: "used_mem t' = used_bytes (xs @ ?al @ ys)"
  proof -
    have "used_bytes (xs @ ?al @ ys) \<le> ?e - ?h" using used_bytes_le [OF b'(1)] mb(6,7) by simp
    then show ?thesis using mb(2) iv(4) b(12) by (simp add: add32_def add.commute add.left_commute)
  qed
  have adj: "no_adj (xs @ ?al @ ys)" using iv(2) by (auto simp: no_adj_simps alloc_blocks_def)
  have lf: "(if a = lfree s then lfree_scan t' (lfree t') else Some (lfree t')) = Some (first_free (xs @ ?al @ ys) ?e)"
  proof (cases "a = lfree s")
    case True
    then have "\<forall>b \<in> set xs. snd (snd b)" using iv(3) first_free_at(1) [OF b(1)] by metis
    then show ?thesis using True lfree_scan_chain [of t' "chain_last ?h xs" a "?al @ ys"] c'(1) b(3,12) mb(4,6,7)
      by (simp add: first_free_append)
  next
    case False
    then have "\<not> (\<forall>b \<in> set xs. snd (snd b))" using iv(3) first_free_at(1) [OF b(1)] by metis
    then have "first_free (xs @ zs) ?e = first_free xs ?e" for zs by (simp only: first_free_append if_False)
    then show ?thesis using False mb(4) iv(3) by simp
  qed
  define s' where "s' = heap_release (t'\<lparr>lfree := first_free (xs @ ?al @ ys) ?e\<rparr>)"
  have s'_frame: "memory s' = memory t'" "heap_ptr s' = ?h" "heap_end s' = ?e" "mem_size_aligned s' = mem_size_aligned s"
    "used_mem s' = used_mem t'" "max_mem s' = max_mem t'" "heap_sem s' = heap_sem s" "lfree s' = first_free (xs @ ?al @ ys) ?e"
    using mb sem_idle_release [OF iv(6)] by (simp_all add: s'_def heap_release_def t_def)
  have "heap_shape s' (xs @ ?al @ ys)"
    using mb(1) heap_shape_cong [of s' t'] s'_frame mb(6,7,8) by simp
  then have "heap_inv s' (xs @ ?al @ ys)"
    using adj used mb(3) iv(6) by (simp add: heap_inv_def s'_frame)
  moreover have "rt_malloc self n s = Some (s', Returned (a + 12))"
  proof -
    have "add32 a 12 = a + 12" using b(4,5,12) by (simp add: add32_small)
    then show ?thesis
      using rt_malloc_search [OF inv n, of self, folded t_def] ff lf heap_shape_next(3) [OF iv(1)]
      by (simp add: Let_def t'_def [symmetric] s'_def)
  qed
  moreover have "\<forall>(b, y, v) \<in> set xs \<union> set ys. same_data b y (memory s) (memory s')"
    using mb(9) by (auto simp: s'_frame)
  ultimately show ?thesis using s'_frame by blast
qed

section \<open>Release\<close>

text \<open>A free block joined with free neighbours.\<close>

definition join_right :: "nat \<Rightarrow> blk list \<Rightarrow> nat \<times> blk list" where
  "join_right z ys = (case ys of (b, y, v) # zs \<Rightarrow> if v then (z, ys) else (y, zs) | [] \<Rightarrow> (z, []))"

definition free_blocks :: "blk list \<Rightarrow> nat \<Rightarrow> nat \<Rightarrow> blk list \<Rightarrow> blk list" where
  "free_blocks xs a z ys =
     (let (y, zs) = join_right z ys
      in if xs \<noteq> [] \<and> \<not> snd (snd (last xs)) then butlast xs @ (fst (last xs), y, False) # zs
         else xs @ (a, y, False) # zs)"

lemma sub32_lt: "a < 2 ^ 32 \<Longrightarrow> h \<le> a \<Longrightarrow> sub32 a h = a - h"
  by (simp add: sub32_small)

lemma plug_forward_shape:
  assumes sh: "heap_shape s (xs @ (a, z, False) # ys)" and lf: "lfree s \<le> a"
    and yz: "join_right z ys = (y, zs)"
  shows "heap_shape (plug_forward a s) (xs @ (a, y, False) # zs)"
    "\<exists>m. plug_forward a s = s\<lparr>memory := m\<rparr>"
    "x < a \<or> y + 12 \<le> x \<Longrightarrow> memory (plug_forward a s) x = memory s x"
proof -
  let ?h = "heap_ptr s" and ?m = "memory s"
  note b = heap_shape_blockD [OF sh] and n = heap_shape_next [OF sh]
  have nm: "heap_at s (hm_next ?m a) = z" using b(10) n(2) by simp
  have az: "a \<noteq> z" using b(4) by simp
  have "(plug_forward a s = s \<and> y = z \<and> zs = ys) \<or>
    (ys = (z, y, False) # zs \<and> plug_forward a s = upd (join_mem ?h a y) s)"
  proof (cases "ys = [] \<or> (\<exists>b' y' zs'. ys = (b', y', True) # zs')")
    case True
    then have "hm_used ?m z = 1 \<or> z = heap_end s" using n(1) b(2) by auto
    then show ?thesis using True yz nm by (auto simp: plug_forward_def join_right_def Let_def)
  next
    case False
    then obtain b' y' zs' where ys: "ys = (b', y', False) # zs'"
      by (cases ys) auto
    have e: "b' = z" "y' = y" "zs' = zs" using ys yz b(2) by (auto simp: join_right_def)
    have s2: "heap_shape s ((xs @ [(a, z, False)]) @ (z, y, False) # zs)" using sh ys e by simp
    note c = heap_shape_blockD [OF s2] and d = heap_shape_next [OF s2]
    have "lfree s \<noteq> z" using lf b(4) by simp
    moreover have "far a z" using b(4) by (simp add: far_def)
    moreover have "z \<noteq> heap_end s" using n(1) ys by simp
    ultimately have "plug_forward a s = upd (join_mem ?h a y) s"
      using c d(2) n(4) nm az by (simp add: plug_forward_def Let_def upd_def join_mem_def heap_at_def)
    then show ?thesis using ys e by simp
  qed
  then have "heap_shape (plug_forward a s) (xs @ (a, y, False) # zs) \<and> (\<exists>m. plug_forward a s = s\<lparr>memory := m\<rparr>)
    \<and> (x < a \<or> y + 12 \<le> x \<longrightarrow> memory (plug_forward a s) x = memory s x)"
  proof
    assume "plug_forward a s = s \<and> y = z \<and> zs = ys"
    then show ?thesis using sh by (cases s) auto
  next
    assume *: "ys = (z, y, False) # zs \<and> plug_forward a s = upd (join_mem ?h a y) s"
    then have "z + 12 \<le> y" using b(2) by simp
    then show ?thesis using * join_shape [of s xs a z y False zs] sh b(4) by (auto simp: upd_def join_mem_def)
  qed
  then show "heap_shape (plug_forward a s) (xs @ (a, y, False) # zs)" "\<exists>m. plug_forward a s = s\<lparr>memory := m\<rparr>"
    "x < a \<or> y + 12 \<le> x \<Longrightarrow> memory (plug_forward a s) x = memory s x" by blast+
qed

lemma plug_backward_shape:
  assumes sh: "heap_shape s (xs @ (a, z, False) # ys)" and lf: "lfree s < a \<or> (\<forall>b \<in> set xs. snd (snd b))"
  defines "s' \<equiv> plug_backward a s"
  shows "heap_shape s' (if xs \<noteq> [] \<and> \<not> snd (snd (last xs)) then butlast xs @ (fst (last xs), z, False) # ys
      else xs @ (a, z, False) # ys)"
    "\<exists>m. s' = s\<lparr>memory := m\<rparr>"
    "(b, q, True) \<in> set xs \<union> set ys \<Longrightarrow> same_data b q (memory s) (memory s')"
proof -
  let ?h = "heap_ptr s" and ?m = "memory s"
  note b = heap_shape_blockD [OF sh] and n = heap_shape_next [OF sh]
  have "heap_shape s' (if xs \<noteq> [] \<and> \<not> snd (snd (last xs)) then butlast xs @ (fst (last xs), z, False) # ys
      else xs @ (a, z, False) # ys) \<and> (\<exists>m. s' = s\<lparr>memory := m\<rparr>)
     \<and> ((b, q, True) \<in> set xs \<union> set ys \<longrightarrow> same_data b q (memory s) (memory s'))"
  proof (cases xs rule: rev_cases)
    case Nil
    then have "hm_prev ?m a = 0" "a = ?h" using b(11,13) by simp_all
    then have "heap_at s (hm_prev ?m a) = a" using b(4,5,12) by (simp add: heap_at_def add32_def)
    then have "s' = s" by (simp add: s'_def plug_backward_def)
    then show ?thesis using Nil sh by (cases s) auto
  next
    case (snoc xs' c)
    obtain p a' u where c: "c = (p, a', u)" by (cases c)
    then have a': "a' = a" using b(13) snoc by simp
    have s2: "heap_shape s (xs' @ (p, a, u) # (a, z, False) # ys)" using sh snoc c a' by simp
    note d = heap_shape_blockD [OF s2] and e = heap_shape_next [OF s2]
    have pm: "heap_at s (hm_prev ?m a) = p" using b(11) snoc c e(3) by simp
    have pa: "p \<noteq> a" using d(4) by simp
    show ?thesis
    proof (cases u)
      case True
      then have "s' = s" using pm d(9) by (simp add: s'_def plug_backward_def)
      then show ?thesis using sh snoc c True by (cases s) auto
    next
      case False
      then have "lfree s \<noteq> a" using lf snoc c by auto
      moreover have "far p a" using d(4) by (simp add: far_def)
      ultimately have s': "s' = upd (join_mem ?h p z) s"
        using False pm pa d(9) e(4) b(10) n(2)
        by (simp add: s'_def plug_backward_def Let_def upd_def join_mem_def heap_at_def)
      have "same_data b q ?m (memory s')" if "(b, q, True) \<in> set xs \<union> set ys"
      proof -
        have "(b, q, True) \<in> set xs' \<union> set ys" using that snoc c False by auto
        then have "q \<le> p \<or> z \<le> b" using hchain_bounds [OF d(1)] hchain_bounds [OF b(2)] by blast
        moreover have "p \<le> z" using d(4) b(4) by simp
        ultimately show ?thesis unfolding s' upd_simps join_mem_def
          by (intro same_data_trans [OF same_data_writes(3) same_data_writes(4)]) auto
      qed
      then show ?thesis using join_shape [of s xs' p a z False ys] s2 s' snoc c False by (auto simp: upd_def)
    qed
  qed
  then show "heap_shape s' (if xs \<noteq> [] \<and> \<not> snd (snd (last xs)) then butlast xs @ (fst (last xs), z, False) # ys
      else xs @ (a, z, False) # ys)" "\<exists>m. s' = s\<lparr>memory := m\<rparr>"
    "(b, q, True) \<in> set xs \<union> set ys \<Longrightarrow> same_data b q (memory s) (memory s')" by blast+
qed

lemma plug_holes_shape:
  assumes sh: "heap_shape s (xs @ (a, z, False) # ys)" and lf: "lfree s = first_free (xs @ (a, z, False) # ys) (heap_end s)"
  defines "s' \<equiv> plug_holes a s"
  shows "heap_shape s' (free_blocks xs a z ys)" "\<exists>m. s' = s\<lparr>memory := m\<rparr>"
    "(b, q, True) \<in> set xs \<union> set ys \<Longrightarrow> same_data b q (memory s) (memory s')"
proof -
  obtain y zs where yz: "join_right z ys = (y, zs)" by (cases "join_right z ys")
  note b = heap_shape_blockD [OF sh]
  have la: "lfree s \<le> a" using lf first_free_at(2) [OF b(1)] by simp
  note f = plug_forward_shape [OF sh la yz]
  obtain m where m: "plug_forward a s = s\<lparr>memory := m\<rparr>" using f(2) by blast
  have "lfree (plug_forward a s) < a \<or> (\<forall>b \<in> set xs. snd (snd b))"
    using m lf first_free_at [OF b(1)] by (simp add: le_less)
  note g = plug_backward_shape [OF f(1) this]
  show "heap_shape s' (free_blocks xs a z ys)" using g(1) by (simp add: s'_def plug_holes_def free_blocks_def yz)
  show "\<exists>m. s' = s\<lparr>memory := m\<rparr>" using g(2) m by (auto simp: s'_def plug_holes_def)
  show "same_data b q (memory s) (memory s')" if "(b, q, True) \<in> set xs \<union> set ys"
  proof -
    have zs: "(b, q, True) \<in> set xs \<union> set zs" using that yz by (auto simp: join_right_def split: list.splits if_splits)
    have "z \<le> y" using yz b(2) by (auto simp: join_right_def split: list.splits if_splits)
    then have "q \<le> a \<or> y \<le> b" using zs hchain_bounds [OF b(1)]
      hchain_bounds [OF heap_shape_blockD(2) [OF f(1)]] m by fastforce
    then have "same_data b q (memory s) (memory (plug_forward a s))"
      using f(3) unfolding same_data_def by (meson dual_order.strict_trans1 add_le_mono1 le_trans)
    then show ?thesis using g(3) [OF zs] same_data_trans unfolding s'_def plug_holes_def by blast
  qed
qed

lemma join_right_cases:
  obtains "join_right z ys = (z, ys)" "ys = [] \<or> snd (snd (hd ys))"
  | b y zs where "ys = (b, y, False) # zs" "join_right z ys = (y, zs)"
proof (cases ys)
  case (Cons c zs)
  obtain b y v where "c = (b, y, v)" by (cases c)
  then show ?thesis using Cons that by (cases v) (auto simp: join_right_def)
qed (use that in \<open>auto simp: join_right_def\<close>)

lemma free_blocks_no_adj:
  assumes "no_adj (xs @ (a, z, True) # ys)"
  shows "no_adj (free_blocks xs a z ys)"
proof -
  obtain y zs where yz: "join_right z ys = (y, zs)" by (cases "join_right z ys")
  have ys: "no_adj ys" and xs: "no_adj xs" using assms by (auto simp: no_adj_simps)
  have zs: "no_adj zs" "zs \<noteq> [] \<Longrightarrow> snd (snd (hd zs))"
    using ys yz by (cases rule: join_right_cases [of z ys]; auto simp: no_adj_simps)+
  show ?thesis
  proof (cases "xs \<noteq> [] \<and> \<not> snd (snd (last xs))")
    case True
    then obtain xs' c where x: "xs = xs' @ [c]" "\<not> snd (snd c)" by (metis append_butlast_last_id last_snoc)
    then show ?thesis using xs zs True by (auto simp: free_blocks_def yz no_adj_simps)
  next
    case False
    then have "xs = [] \<or> snd (snd (last xs))" by simp
    then show ?thesis using xs zs by (auto simp: free_blocks_def yz no_adj_simps)
  qed
qed

lemma free_blocks_first_free: "first_free (free_blocks xs a z ys) e = first_free (xs @ (a, z, False) # ys) e"
proof -
  obtain y zs where yz: "join_right z ys = (y, zs)" by (cases "join_right z ys")
  show ?thesis
  proof (cases "xs \<noteq> [] \<and> \<not> snd (snd (last xs))")
    case True
    then obtain xs' c where x: "xs = xs' @ [c]" "\<not> snd (snd c)" by (metis append_butlast_last_id last_snoc)
    then show ?thesis by (cases c) (auto simp: free_blocks_def yz first_free_append)
  next
    case False
    then show ?thesis by (auto simp: free_blocks_def yz first_free_append)
  qed
qed

lemma free_blocks_used_bytes: "used_bytes (free_blocks xs a z ys) = used_bytes xs + used_bytes ys"
proof -
  obtain y zs where yz: "join_right z ys = (y, zs)" by (cases "join_right z ys")
  have zs: "used_bytes zs = used_bytes ys" using yz by (cases rule: join_right_cases [of z ys]) auto
  show ?thesis
  proof (cases "xs \<noteq> [] \<and> \<not> snd (snd (last xs))")
    case True
    then obtain xs' c where x: "xs = xs' @ [c]" "\<not> snd (snd c)" by (metis append_butlast_last_id last_snoc)
    then show ?thesis using zs by (cases c) (auto simp: free_blocks_def yz)
  next
    case False
    then show ?thesis using zs by (auto simp: free_blocks_def yz)
  qed
qed

lemma first_free_swap:
  assumes "hchain m h pv p (xs @ (a, z, u) # ys) e"
  shows "(if a < first_free (xs @ (a, z, True) # ys) e then a else first_free (xs @ (a, z, True) # ys) e)
    = first_free (xs @ (a, z, False) # ys) e"
proof -
  have c: "hchain m h pv p xs a" "hchain m h a z ys e" "a < z" using assms by (auto simp: hchain_append)
  have "a < first_free ys e"
    using c(2,3)
  proof (induction ys arbitrary: z a)
    case (Cons b ys)
    obtain b' y u where b: "b = (b', y, u)" by (cases b)
    have t: "hchain m h b' y ys e" "b' = z" "b' < y" using Cons.prems b by auto
    show ?case using Cons.IH [OF t(1,3)] b t(2) Cons.prems(2) by auto
  qed simp
  then show ?thesis
    using first_free_less [OF c(1), of e] by (cases "\<forall>b \<in> set xs. snd (snd b)") (simp_all add: first_free_append not_less_iff_gr_or_eq)
qed

text \<open>Giving back a block in use: it joins its free neighbours, the data of the other blocks in use stays.\<close>

lemma rt_free_found:
  assumes inv: "heap_inv s (xs @ (a, z, True) # ys)"
  shows "\<exists>s'. rt_free self (a + 12) s = (s', Returned ()) \<and> heap_inv s' (free_blocks xs a z ys)
    \<and> heap_ptr s' = heap_ptr s \<and> heap_end s' = heap_end s \<and> mem_size_aligned s' = mem_size_aligned s
    \<and> (\<forall>b q. (b, q, True) \<in> set xs \<union> set ys \<longrightarrow> same_data b q (memory s) (memory s'))"
proof -
  let ?h = "heap_ptr s" and ?e = "heap_end s"
  note iv = heap_invD [OF inv] and sh = heap_shapeD [OF heap_invD(1) [OF inv]]
  note b = heap_shape_blockD [OF iv(1)] and n = heap_shape_next [OF iv(1)]
  define t where "t = upd (\<lambda>m. set_magic a HEAP_MAGIC (set_used a 0 m)) (s\<lparr>heap_sem := (heap_sem s)\<lparr>sem_value := 0\<rparr>\<rparr>)"
  have t_frame: "heap_ptr t = ?h" and t_used: "used_mem t = used_mem s" by (simp_all add: t_def)
  define u where "u = t\<lparr>lfree := first_free (xs @ (a, z, False) # ys) ?e, used_mem := used_bytes xs + used_bytes ys\<rparr>"
  have tsh: "heap_shape t (xs @ (a, z, False) # ys)"
    using retag_shape [of "s\<lparr>heap_sem := (heap_sem s)\<lparr>sem_value := 0\<rparr>\<rparr>" xs a z True ys False] iv(1)
      heap_shape_cong [of "s\<lparr>heap_sem := (heap_sem s)\<lparr>sem_value := 0\<rparr>\<rparr>" s] by (simp add: t_def)
  have ush: "heap_shape u (xs @ (a, z, False) # ys)" using tsh heap_shape_cong [of u t] by (simp add: u_def)
  have ue: "heap_end u = ?e" "heap_ptr u = ?h" "mem_size_aligned u = mem_size_aligned s" "max_mem u = max_mem s"
    "lfree u = first_free (xs @ (a, z, False) # ys) ?e" "used_mem u = used_bytes xs + used_bytes ys"
    "heap_sem u = (heap_sem s)\<lparr>sem_value := 0\<rparr>"
    by (simp_all add: u_def t_def)
  note p = plug_holes_shape [OF ush, unfolded ue, OF refl]
  obtain m where m: "plug_holes a u = u\<lparr>memory := m\<rparr>" using p(2) by blast
  define s' where "s' = heap_release (u\<lparr>memory := m\<rparr>)"
  have fr: "heap_ptr s' = ?h" "heap_end s' = ?e" "mem_size_aligned s' = mem_size_aligned s" "memory s' = m"
    "lfree s' = first_free (xs @ (a, z, False) # ys) ?e" "used_mem s' = used_bytes xs + used_bytes ys"
    "max_mem s' = max_mem s" "heap_sem s' = heap_sem s"
    using sem_idle_release [OF iv(6)] by (simp_all add: s'_def heap_release_def ue)
  have ub: "used_mem s = used_bytes xs + (z - a) + used_bytes ys" using iv(4) by simp
  have "used_mem s \<le> ?e - ?h" using used_bytes_le [OF sh(1)] iv(4) by simp
  then have sub: "sub32 (used_mem s) (sub32 (hm_next (memory t) a) (sub32 a ?h)) = used_bytes xs + used_bytes ys"
    using b(3,4,5,10,12) n(4) ub by (simp add: t_def sub32_small)
  have lf: "(if a < lfree t then t\<lparr>lfree := a\<rparr> else t) = t\<lparr>lfree := first_free (xs @ (a, z, False) # ys) ?e\<rparr>"
    using first_free_swap [OF sh(1)] iv(3) by (cases "a < lfree t") (auto simp: t_def upd_def)
  have ad: "sub32 (a + 12) 12 = a" "\<not> a + 12 < ?h" "\<not> ?e \<le> a + 12" using b(3,4,5,12) by (simp_all add: sub32_small)
  have t: "upd (set_magic a HEAP_MAGIC) (upd (set_used a 0) (s\<lparr>heap_sem := (heap_sem s)\<lparr>sem_value := 0\<rparr>\<rparr>)) = t"
    by (simp add: t_def upd_def)
  have "rt_free self (a + 12) s = (heap_release (plug_holes a ((\<lambda>t. t\<lparr>used_mem := sub32 (used_mem t)
      (sub32 (hm_next (memory t) a) (sub32 a (heap_ptr t)))\<rparr>) (if a < lfree t then t\<lparr>lfree := a\<rparr> else t))), Returned ())"
    unfolding rt_free_def Let_def SIZEOF_STRUCT_MEM_def sem_idle_take [OF iv(6)] prod.case ad(1) t using ad by simp
  moreover have "(\<lambda>t. t\<lparr>used_mem := sub32 (used_mem t) (sub32 (hm_next (memory t) a) (sub32 a (heap_ptr t)))\<rparr>)
     (if a < lfree t then t\<lparr>lfree := a\<rparr> else t) = u"
    unfolding lf using sub by (simp add: u_def t_frame t_used)
  ultimately have "rt_free self (a + 12) s = (s', Returned ())" by (simp only: m s'_def)
  moreover have "heap_inv s' (free_blocks xs a z ys)"
    using p(1) m heap_shape_cong [of s' "plug_holes a u"] iv ub
    by (simp add: heap_inv_def fr ue free_blocks_no_adj free_blocks_first_free free_blocks_used_bytes)
  moreover have "same_data b q (memory s) (memory s')" if "(b, q, True) \<in> set xs \<union> set ys" for b q
  proof -
    have "q \<le> a \<or> z \<le> b" using that hchain_bounds [OF b(1)] hchain_bounds [OF b(2)] by blast
    then have "same_data b q (memory s) (memory u)" using b(4) unfolding u_def t_def
      by (simp, intro same_data_trans [OF same_data_writes(2) same_data_writes(1)]) auto
    then show ?thesis using p(3) [OF that] m same_data_trans by (simp add: fr)
  qed
  ultimately show ?thesis using fr by blast
qed

end
