(* ===== verification/Heap_Spec.thy ===== *)
theory Heap_Spec
  imports Heap_Alloc
begin

text \<open>
  What a client of the kernel heap may rely on, stated over the blocks in use (\<open>live\<close>): the specifications of \<open>rt_malloc\<close>,
  \<open>rt_free\<close>, \<open>rt_realloc\<close> and \<open>rt_calloc\<close>, and the invariant of every history of calls that starts at \<open>rt_system_heap_init\<close>.
\<close>

section \<open>Blocks in use\<close>

definition live :: "blk list \<Rightarrow> (nat \<times> nat) set" where
  "live bs = {(a, z). (a, z, True) \<in> set bs}"

definition heap_ok :: "heap \<Rightarrow> (nat \<times> nat) set \<Rightarrow> bool" where
  "heap_ok s L \<longleftrightarrow> (\<exists>bs. heap_inv s bs \<and> live bs = L)"

text \<open>The data of all blocks of a set is the same.\<close>

definition same_live :: "(nat \<times> nat) set \<Rightarrow> heap \<Rightarrow> heap \<Rightarrow> bool" where
  "same_live L s s' \<longleftrightarrow> (\<forall>(a, z) \<in> L. same_data a z (memory s) (memory s'))"

definition same_area :: "heap \<Rightarrow> heap \<Rightarrow> bool" where
  "same_area s s' \<longleftrightarrow> heap_ptr s' = heap_ptr s \<and> heap_end s' = heap_end s \<and> mem_size_aligned s' = mem_size_aligned s"

lemma same_live_trans: "same_live L s t \<Longrightarrow> same_live L t u \<Longrightarrow> same_live L s u"
  unfolding same_live_def by (fast intro: same_data_trans)

lemma same_live_mono: "same_live L s t \<Longrightarrow> K \<subseteq> L \<Longrightarrow> same_live K s t"
  unfolding same_live_def by fast

lemma same_live_refl [simp]: "same_live L s s"
  by (auto simp: same_live_def)

lemma same_area_refl [simp]: "same_area s s"
  by (simp add: same_area_def)

lemma same_area_trans: "same_area s t \<Longrightarrow> same_area t u \<Longrightarrow> same_area s u"
  by (simp add: same_area_def)

lemma live_simps [simp]:
  "live [] = {}" "live ((a, z, u) # bs) = (if u then insert (a, z) (live bs) else live bs)"
  "live (xs @ ys) = live xs \<union> live ys"
  by (auto simp: live_def)

lemma live_bounds:
  assumes "heap_inv s bs" "(a, z) \<in> live bs"
  shows "heap_ptr s \<le> a" "a + 12 < z" "z \<le> heap_end s" "4 dvd z"
  using hchain_bounds [OF heap_shapeD(1) [OF heap_invD(1) [OF assms(1)]], of a z True] assms(2)
  by (simp_all add: live_def)

lemma live_disjoint:
  assumes "heap_ok s L" "(a, z) \<in> L" "(b, y) \<in> L"
  shows "(a, z) = (b, y) \<or> z \<le> b \<or> y \<le> a"
proof -
  obtain bs where bs: "heap_inv s bs" "live bs = L" using assms(1) by (auto simp: heap_ok_def)
  show ?thesis
    using hchain_disjoint [OF heap_shapeD(1) [OF heap_invD(1) [OF bs(1)]], of a z True b y True] assms(2,3) bs(2)
    by (auto simp: live_def)
qed

lemma live_split:
  assumes "heap_inv s bs" "(a, z) \<in> live bs"
  obtains xs ys where "bs = xs @ (a, z, True) # ys" "live bs = insert (a, z) (live xs \<union> live ys)"
    "(a, z) \<notin> live xs \<union> live ys"
proof -
  from assms(2) obtain xs ys where b: "bs = xs @ (a, z, True) # ys"
    using split_list [of "(a, z, True)" bs] by (auto simp: live_def)
  note d = heap_shape_blockD [OF heap_invD(1) [OF assms(1), unfolded b]]
  have "(a, z) \<notin> live xs \<union> live ys"
    using hchain_bounds [OF d(1), of a z True] hchain_bounds [OF d(2), of a z True] d(4) by (auto simp: live_def)
  then show thesis using that [of xs ys] b by auto
qed

lemma live_free_blocks: "live (free_blocks xs a z ys) = live xs \<union> live ys"
proof -
  obtain y zs where yz: "join_right z ys = (y, zs)" by (cases "join_right z ys")
  have zs: "live zs = live ys" using yz by (cases rule: join_right_cases [of z ys]) auto
  show ?thesis
  proof (cases "xs \<noteq> [] \<and> \<not> snd (snd (last xs))")
    case True
    then obtain xs' c where x: "xs = xs' @ [c]" "\<not> snd (snd c)" by (metis append_butlast_last_id last_snoc)
    then show ?thesis using zs by (cases c) (auto simp: free_blocks_def yz)
  next
    case False
    then show ?thesis using zs by (auto simp: free_blocks_def yz)
  qed
qed

definition alloc_end :: "nat \<Rightarrow> nat \<Rightarrow> nat \<Rightarrow> nat" where
  "alloc_end a z n = (if a + 12 + n + 24 \<le> z then a + 12 + n else z)"

lemma live_alloc_blocks [simp]: "live (alloc_blocks a z n) = {(a, alloc_end a z n)}"
  by (simp add: alloc_blocks_def alloc_end_def)

section \<open>\<open>rt_malloc\<close> and \<open>rt_free\<close>\<close>

lemma rt_malloc_refused:
  assumes "n = 0 \<or> mem_size_aligned s < RT_ALIGN n"
  shows "rt_malloc self n s = Some (s, Returned 0)"
  using assms by (auto simp: rt_malloc_def)

lemma rt_malloc_exact:
  assumes inv: "heap_inv s bs" and n: "0 < n" "RT_ALIGN n \<le> mem_size_aligned s"
  obtains
    "rt_malloc self n s = Some (s, Returned 0)"
    "first_fit (heap_end s - 12 - malloc_size n) (malloc_size n) bs = None"
  | xs a z ys s' where "bs = xs @ (a, z, False) # ys" "a + 12 + malloc_size n \<le> z"
    "rt_malloc self n s = Some (s', Returned (a + 12))" "heap_inv s' (xs @ alloc_blocks a z (malloc_size n) @ ys)"
    "same_area s s'" "same_live (live bs) s s'"
proof (cases "first_fit (heap_end s - 12 - malloc_size n) (malloc_size n) bs")
  case None
  then show thesis using rt_malloc_search [OF inv n, of self] that(1) by simp
next
  case (Some a)
  from first_fit_Some [OF Some] obtain xs z ys where bs: "bs = xs @ (a, z, False) # ys"
    "a + 12 + malloc_size n \<le> z" by blast
  from rt_malloc_found [OF inv [unfolded bs(1)] n Some [unfolded bs(1)] bs(2), of self] obtain s' where s':
    "rt_malloc self n s = Some (s', Returned (a + 12))" "heap_inv s' (xs @ alloc_blocks a z (malloc_size n) @ ys)"
    "same_area s s'" "\<forall>(b, y, v) \<in> set xs \<union> set ys. same_data b y (memory s) (memory s')"
    by (auto simp: same_area_def)
  have "same_live (live bs) s s'" using s'(4) bs(1) by (fastforce simp: same_live_def live_def)
  then show thesis using that(2) bs s' by blast
qed

lemma alloc_end_bounds: "a + 12 + n \<le> z \<Longrightarrow> a + 12 + n \<le> alloc_end a z n \<and> alloc_end a z n \<le> z"
  by (simp add: alloc_end_def)

lemma rt_malloc_ok:
  assumes "heap_ok s L"
  obtains "rt_malloc self n s = Some (s, Returned 0)"
  | a z s' where "rt_malloc self n s = Some (s', Returned (a + 12))" "heap_ok s' (insert (a, z) L)"
      "a + 12 + malloc_size n \<le> z" "(a, z) \<notin> L" "same_area s s'" "same_live L s s'"
proof -
  obtain bs where bs: "heap_inv s bs" "live bs = L" using assms by (auto simp: heap_ok_def)
  consider "n = 0 \<or> mem_size_aligned s < RT_ALIGN n" | "0 < n" "RT_ALIGN n \<le> mem_size_aligned s" by linarith
  then show thesis
  proof cases
    case 1
    then show thesis using rt_malloc_refused that(1) by blast
  next
    case 2
    show thesis
    proof (rule rt_malloc_exact [OF bs(1) 2, of self])
      assume "rt_malloc self n s = Some (s, Returned 0)"
      then show thesis by (rule that(1))
    next
      fix xs a z ys s'
      assume *: "bs = xs @ (a, z, False) # ys" "a + 12 + malloc_size n \<le> z"
        "rt_malloc self n s = Some (s', Returned (a + 12))" "heap_inv s' (xs @ alloc_blocks a z (malloc_size n) @ ys)"
        "same_area s s'" "same_live (live bs) s s'"
      let ?y = "alloc_end a z (malloc_size n)"
      note b = heap_shape_blockD [OF heap_invD(1) [OF bs(1), unfolded *(1)]]
      have "heap_ok s' (insert (a, ?y) L)" unfolding heap_ok_def
        using *(4) bs(2) *(1) by (intro exI [of _ "xs @ alloc_blocks a z (malloc_size n) @ ys"]) auto
      moreover have "(a, ?y) \<notin> L"
        using hchain_bounds [OF b(1), of a ?y True] hchain_bounds [OF b(2), of a ?y True] b(4) bs(2) *(1)
        by (auto simp: live_def)
      ultimately show thesis using that(2) *(2,3,5,6) bs(2) alloc_end_bounds by blast
    qed
  qed
qed

lemma rt_free_ok:
  assumes "heap_ok s L" "(a, z) \<in> L"
  obtains s' where "rt_free self (a + 12) s = (s', Returned ())" "heap_ok s' (L - {(a, z)})" "same_area s s'"
    "same_live (L - {(a, z)}) s s'"
proof -
  obtain bs where bs: "heap_inv s bs" "live bs = L" using assms by (auto simp: heap_ok_def)
  obtain xs ys where x: "bs = xs @ (a, z, True) # ys" "L = insert (a, z) (live xs \<union> live ys)" "(a, z) \<notin> live xs \<union> live ys"
    using live_split [OF bs(1)] assms(2) bs(2) by metis
  have L: "L - {(a, z)} = live xs \<union> live ys" using x(2,3) by auto
  from rt_free_found [OF bs(1) [unfolded x(1)], of self] obtain s' where
    s': "rt_free self (a + 12) s = (s', Returned ())" "heap_inv s' (free_blocks xs a z ys)" "same_area s s'"
      "\<forall>b q. (b, q, True) \<in> set xs \<union> set ys \<longrightarrow> same_data b q (memory s) (memory s')"
    by (auto simp: same_area_def)
  show thesis
  proof (rule that [OF s'(1) _ s'(3)])
    show "heap_ok s' (L - {(a, z)})" using s'(2) L live_free_blocks by (auto simp: heap_ok_def)
    show "same_live (L - {(a, z)}) s s'" using s'(4) L by (auto simp: same_live_def live_def)
  qed
qed

lemma rt_free_null [simp]: "rt_free self 0 s = (s, Returned ())"
  by (simp add: rt_free_def)

section \<open>\<open>rt_realloc\<close>\<close>

lemma split_link_mem:
  assumes sh: "heap_shape s (xs @ (a, z, u) # ys)" and a2: "a + 12 < a2" "a2 + 12 < z"
  shows "link_back (a2 - heap_ptr s) (split_block (a - heap_ptr s) (a2 - heap_ptr s) s)
    = upd (\<lambda>m. relink (heap_ptr s) a2 z (heap_end s) (split_mem (heap_ptr s) a a2 z m)) s"
proof -
  let ?h = "heap_ptr s"
  note b = heap_shape_blockD [OF sh] and x = heap_shape_next [OF sh]
  have far: "far a a2" "far a2 a" using a2 by (simp_all add: far_def)
  have at: "heap_at s (a2 - ?h) = a2" using b(3,4,5,12) a2 by (simp add: heap_at_def add32_def)
  have sb: "split_block (a - ?h) (a2 - ?h) s = upd (split_mem ?h a a2 z) s"
    using at x far b(10) by (simp add: split_block_def upd_def Let_def split_mem_def)
  have nx: "hm_next (split_mem ?h a a2 z (memory s)) a2 = z - ?h"
    using far b(3,4,5,12) by (simp add: split_mem_def)
  have ze: "z - ?h = heap_end s - ?h \<longleftrightarrow> z = heap_end s" using b(3,4,5) by linarith
  have e: "add32 (mem_size_aligned s) 12 = heap_end s - ?h" using heap_shapeD(2,3) [OF sh] by (simp add: add32_def)
  show ?thesis
    using at nx ze e x(2) by (simp add: sb link_back_def Let_def SIZEOF_STRUCT_MEM_def relink_def)
qed

text \<open>A block in use is cut at \<open>a2\<close>; the rest is free and joined with what follows.\<close>

lemma realloc_shrink_ok:
  assumes inv: "heap_inv s (xs @ (a, z, True) # ys)" and n: "4 dvd n" "0 < n" "n + 24 < z - a - 12"
  defines "t \<equiv> s\<lparr>heap_sem := (heap_sem s)\<lparr>sem_value := 0\<rparr>\<rparr>"
  defines "s' \<equiv> heap_release (realloc_shrink (a - heap_ptr s) (z - a - 12) n t)"
  shows "heap_inv s' (free_blocks (xs @ [(a, a + 12 + n, True)]) (a + 12 + n) z ys)" "same_area s s'"
    "(b, q, True) \<in> set (xs @ [(a, a + 12 + n, True)]) \<union> set ys \<Longrightarrow> same_data b q (memory s) (memory s')"
proof -
  let ?h = "heap_ptr s" and ?e = "heap_end s" and ?a2 = "a + 12 + n"
  let ?bs = "xs @ (a, ?a2, True) # (?a2, z, False) # ys"
  let ?ff = "first_free ?bs ?e"
  note iv = heap_invD [OF inv] and sh = heap_shapeD [OF heap_invD(1) [OF inv]]
  note b = heap_shape_blockD [OF iv(1)]
  have a2: "a + 12 < ?a2" "?a2 + 12 < z" "4 dvd ?a2" using n b(7) by simp_all
  define v where "v = s\<lparr>heap_sem := (heap_sem s)\<lparr>sem_value := 0\<rparr>, used_mem := used_mem s - (z - ?a2)\<rparr>"
  have vf: "heap_ptr v = ?h" "heap_end v = ?e" "memory v = memory s" "lfree v = lfree s" by (simp_all add: v_def)
  have vsh: "heap_shape v (xs @ (a, z, True) # ys)" using iv(1) heap_shape_cong [of v s] by (simp add: v_def)
  define w where "w = upd (\<lambda>m. relink ?h ?a2 z ?e (split_mem ?h a ?a2 z m)) v"
  have wsh: "heap_shape w ?bs" using split_shape [OF vsh a2] by (simp add: w_def vf)
  define u where "u = w\<lparr>lfree := ?ff\<rparr>"
  have ush: "heap_shape u ((xs @ [(a, ?a2, True)]) @ (?a2, z, False) # ys)"
    using wsh heap_shape_cong [of u w] by (simp add: u_def)
  have ue: "heap_end u = ?e" "heap_ptr u = ?h" "mem_size_aligned u = mem_size_aligned s" "max_mem u = max_mem s"
    "lfree u = ?ff" "used_mem u = used_mem s - (z - ?a2)" "heap_sem u = (heap_sem s)\<lparr>sem_value := 0\<rparr>"
    by (simp_all add: u_def w_def v_def)
  have "lfree u = first_free ((xs @ [(a, ?a2, True)]) @ (?a2, z, False) # ys) (heap_end u)" by (simp add: ue)
  note p = plug_holes_shape [OF ush this]
  obtain m where m: "plug_holes ?a2 u = u\<lparr>memory := m\<rparr>" using p(2) by blast
  have ub: "used_mem s = used_bytes xs + (z - a) + used_bytes ys" "used_mem s \<le> ?e - ?h"
    using iv(4) used_bytes_le [OF sh(1)] by simp_all
  have lf: "(if ?a2 < lfree w then w\<lparr>lfree := ?a2\<rparr> else w) = u"
  proof -
    have "hchain (memory w) ?h ?h ?h ((xs @ [(a, ?a2, True)]) @ (?a2, z, False) # ys) ?e"
      using heap_shapeD(1) [OF wsh] by (simp add: w_def vf)
    note sw = first_free_swap [OF this]
    have "lfree s = first_free ((xs @ [(a, ?a2, True)]) @ (?a2, z, True) # ys) ?e"
      unfolding iv(3) by (simp add: first_free_append)
    then have "(if ?a2 < lfree s then ?a2 else lfree s) = ?ff" using sw by (simp cong: if_cong)
    then show ?thesis by (cases "?a2 < lfree w") (auto simp: u_def w_def v_def upd_def)
  qed
  have "realloc_shrink (a - ?h) (z - a - 12) n t = plug_holes ?a2 u"
  proof -
    have s1: "sub32 (used_mem s) (sub32 (z - a - 12) n) = used_mem s - (z - ?a2)"
    proof -
      have d: "sub32 (z - a - 12) n = z - ?a2" using n(3) b(5,12) by (simp add: sub32_small)
      have "z - ?a2 \<le> used_mem s" "used_mem s < 2 ^ 32" using ub b(3,12) by linarith+
      then show ?thesis unfolding d by (simp add: sub32_small)
    qed
    have t: "t\<lparr>used_mem := used_mem s - (z - ?a2)\<rparr> = v" "used_mem t = used_mem s" by (simp_all add: t_def v_def)
    have ad: "add32 (add32 (a - ?h) 12) n = ?a2 - ?h" "heap_at u (?a2 - ?h) = ?a2" "heap_at w (?a2 - ?h) = ?a2"
      using b(3,4,5,12) a2 by (simp_all add: add32_small heap_at_def ue w_def vf)
    have "link_back (?a2 - ?h) (split_block (a - ?h) (?a2 - ?h) v) = w"
      using split_link_mem [OF vsh a2(1,2)] by (simp add: vf w_def)
    then show ?thesis unfolding realloc_shrink_def Let_def SIZEOF_STRUCT_MEM_def ad(1) t(2) s1 t(1)
      by (simp only: ad(3) lf)
  qed
  then have s': "s' = heap_release (u\<lparr>memory := m\<rparr>)" by (simp add: s'_def m)
  have fr: "heap_ptr s' = ?h" "heap_end s' = ?e" "mem_size_aligned s' = mem_size_aligned s" "memory s' = m"
    "lfree s' = ?ff" "used_mem s' = used_mem s - (z - ?a2)" "max_mem s' = max_mem s" "heap_sem s' = heap_sem s"
    using sem_idle_release [OF iv(6)] by (simp_all add: s' heap_release_def ue)
  show "same_area s s'" by (simp add: same_area_def fr)
  have "no_adj ((xs @ [(a, ?a2, True)]) @ (?a2, z, True) # ys)" using iv(2) by (auto simp: no_adj_simps)
  then show "heap_inv s' (free_blocks (xs @ [(a, ?a2, True)]) ?a2 z ys)"
    using p(1) m heap_shape_cong [of s' "plug_holes ?a2 u"] iv ub a2
    by (simp add: heap_inv_def fr ue free_blocks_no_adj free_blocks_first_free free_blocks_used_bytes)
  show "same_data b q (memory s) (memory s')" if bq: "(b, q, True) \<in> set (xs @ [(a, ?a2, True)]) \<union> set ys"
  proof -
    have bd: "q \<le> a \<or> z \<le> b \<or> b = a \<and> q = ?a2"
      using bq hchain_bounds [OF b(1), of b q True] hchain_bounds [OF b(2), of b q True] by auto
    have "memory w x = memory s x" if "b + 12 \<le> x" "x < q" for x
    proof -
      have o: "x < c \<or> c + 12 \<le> x" if "c = a \<or> c = z \<or> c = ?a2" for c
        using that bd a2 \<open>b + 12 \<le> x\<close> \<open>x < q\<close> by linarith
      show ?thesis using o [of a] o [of z] o [of ?a2] by (simp add: w_def vf relink_def split_mem_def)
    qed
    then have "same_data b q (memory s) (memory u)" by (simp add: same_data_def u_def)
    then show ?thesis using p(3) [OF bq] m same_data_trans by (simp add: fr)
  qed
qed

text \<open>A client may write what it likes into its own block.\<close>

definition inside :: "nat \<Rightarrow> nat \<Rightarrow> (byte_memory \<Rightarrow> byte_memory) \<Rightarrow> byte_memory \<Rightarrow> bool" where
  "inside a z f m \<longleftrightarrow> (\<forall>x. x < a + 12 \<or> z \<le> x \<longrightarrow> f m x = m x)"

lemma hm_inside:
  assumes "inside a z f m" "c + 12 \<le> a + 12 \<or> z \<le> c"
  shows "hm_magic (f m) c = hm_magic m c" "hm_used (f m) c = hm_used m c" "hm_next (f m) c = hm_next m c"
    "hm_prev (f m) c = hm_prev m c"
proof -
  have "f m x = m x" if "c \<le> x" "x < c + 12" for x using assms that by (auto simp: inside_def)
  then show "hm_magic (f m) c = hm_magic m c" "hm_used (f m) c = hm_used m c" "hm_next (f m) c = hm_next m c"
    "hm_prev (f m) c = hm_prev m c"
    by (simp_all add: hm_defs rd32_def rd16_def)
qed

lemma heap_ok_write:
  assumes "heap_ok s L" "(a, z) \<in> L" "inside a z f (memory s)"
  shows "heap_ok (upd f s) L" "same_live (L - {(a, z)}) s (upd f s)" "same_area s (upd f s)"
proof -
  obtain bs where bs: "heap_inv s bs" "live bs = L" using assms(1) by (auto simp: heap_ok_def)
  have az: "(a, z, True) \<in> set bs" using bs(2) assms(2) by (auto simp: live_def)
  note iv = heap_invD [OF bs(1)] and sh = heap_shapeD [OF heap_invD(1) [OF bs(1)]]
  have hdr: "c + 12 \<le> a + 12 \<or> z \<le> c" if "(c, y, v) \<in> set bs" for c y v
    using hchain_disjoint [OF sh(1) az that] hchain_bounds [OF sh(1) that] by auto
  have "heap_shape (upd f s) bs"
  proof (rule heap_shape_updI [OF iv(1)])
    show "hchain (f (memory s)) (heap_ptr s) (heap_ptr s) (heap_ptr s) bs (heap_end s)"
      using sh(1) hchain_cong [of bs "f (memory s)" "memory s"] hm_inside [OF assms(3) hdr] by blast
    show "hm_used (f (memory s)) (heap_end s) = hm_used (memory s) (heap_end s)"
      "hm_next (f (memory s)) (heap_end s) = hm_next (memory s) (heap_end s)"
      using hm_inside [OF assms(3)] hchain_bounds [OF sh(1) az] by blast+
  qed
  then have "heap_inv (upd f s) bs" using iv by (simp add: heap_inv_def)
  then show "heap_ok (upd f s) L" using bs(2) by (auto simp: heap_ok_def)
  show "same_live (L - {(a, z)}) s (upd f s)"
    unfolding same_live_def
  proof (rule ballI, rule case_prodI2)
    fix by' b y assume "by' \<in> L - {(a, z)}" "by' = (b, y)"
    then have "(b, y) \<in> L" "(b, y) \<noteq> (a, z)" by auto
    then have "y \<le> a \<or> z \<le> b" using live_disjoint [OF assms(1), of b y a z] assms(2) by blast
    then show "same_data b y (memory s) (memory (upd f s))" using assms(3) by (auto simp: inside_def same_data_def)
  qed
  show "same_area s (upd f s)" by (simp add: same_area_def)
qed

lemma heap_ok_bounds:
  assumes "heap_ok s L" "(a, z) \<in> L"
  shows "heap_ptr s \<le> a" "a + 12 < z" "z \<le> heap_end s" "4 dvd z" "heap_end s + 12 \<le> 2 ^ 32" "0 < heap_ptr s"
    "heap_end s = heap_ptr s + mem_size_aligned s + 12" "4 dvd a"
    "hm_next (memory s) a = z - heap_ptr s" "sem_idle (heap_sem s)"
proof -
  obtain bs where bs: "heap_inv s bs" "live bs = L" using assms(1) by (auto simp: heap_ok_def)
  obtain xs ys where x: "bs = xs @ (a, z, True) # ys" using live_split [OF bs(1)] assms(2) bs(2) by metis
  note b = heap_shape_blockD [OF heap_invD(1) [OF bs(1), unfolded x]]
  show "heap_ptr s \<le> a" "a + 12 < z" "z \<le> heap_end s" "4 dvd z" "4 dvd a" "heap_end s + 12 \<le> 2 ^ 32"
    "hm_next (memory s) a = z - heap_ptr s" by (fact b)+
  show "0 < heap_ptr s" "heap_end s = heap_ptr s + mem_size_aligned s + 12"
    by (fact heap_shapeD [OF heap_invD(1) [OF bs(1)]])+
  show "sem_idle (heap_sem s)" using heap_invD(6) [OF bs(1)] .
qed

text \<open>The new block, the copy and the release of the old block.\<close>

lemma realloc_move_ok:
  assumes ok: "heap_ok s L" "(a, z) \<in> L" and n: "0 < n" "n + 3 < 2 ^ 32"
  obtains "realloc_move self (a + 12) (z - a - 12) n s = Some (s, Returned 0)"
  | b y s' where "realloc_move self (a + 12) (z - a - 12) n s = Some (s', Returned (b + 12))"
      "heap_ok s' (insert (b, y) (L - {(a, z)}))" "b + 12 + n \<le> y" "(b, y) \<notin> L - {(a, z)}"
      "same_area s s'" "same_live (L - {(a, z)}) s s'"
      "\<forall>i < min n (z - a - 12). memory s' (b + 12 + i) = memory s (a + 12 + i)"
proof (rule rt_malloc_ok [OF ok(1), of self n])
  assume "rt_malloc self n s = Some (s, Returned 0)"
  then show thesis using that(1) by (simp add: realloc_move_def)
next
  fix b y s1
  assume m: "rt_malloc self n s = Some (s1, Returned (b + 12))" "heap_ok s1 (insert (b, y) L)"
    "b + 12 + malloc_size n \<le> y" "(b, y) \<notin> L" "same_area s s1" "same_live L s s1"
  let ?old = "z - a - 12"
  have sz: "n \<le> malloc_size n" using RT_ALIGN_bounds [OF n(2)] by (simp add: malloc_size_def le_max_iff_disj)
  define f where "f = mem_copy (b + 12) (a + 12) (if ?old < n then ?old else n)"
  have ins: "inside b y f (memory s1)" using m(3) sz by (auto simp: inside_def f_def mem_copy_def)
  note w = heap_ok_write [OF m(2) insertI1 ins]
  have a2: "(a, z) \<in> insert (b, y) L" using ok(2) by simp
  have ne: "(a, z) \<noteq> (b, y)" using ok(2) m(4) by blast
  obtain s' where fr: "rt_free self (a + 12) (upd f s1) = (s', Returned ())" "heap_ok s' (insert (b, y) L - {(a, z)})"
    "same_area (upd f s1) s'" "same_live (insert (b, y) L - {(a, z)}) (upd f s1) s'"
    using rt_free_ok [OF w(1) a2] by metis
  have dj: "z \<le> b \<or> y \<le> a" using live_disjoint [OF m(2) a2 insertI1] ne by auto
  show thesis
  proof (rule that(2))
    show "realloc_move self (a + 12) ?old n s = Some (s', Returned (b + 12))"
    proof -
      have nz: "(b + 12 = 0) = False" by simp
      show ?thesis
        by (simp only: realloc_move_def m(1) option.case prod.case heap_call.case nz if_False Let_def fr(1) [unfolded f_def])
    qed
    show "heap_ok s' (insert (b, y) (L - {(a, z)}))" 
    proof -
      have "insert (b, y) L - {(a, z)} = insert (b, y) (L - {(a, z)})" using ne by auto
      then show ?thesis using fr(2) by simp
    qed
    show "b + 12 + n \<le> y" using m(3) sz by simp
    show "(b, y) \<notin> L - {(a, z)}" using m(4) by simp
    show "same_area s s'" using m(5) w(3) fr(3) same_area_trans by blast
    have "same_live (L - {(a, z)}) s s1" by (rule same_live_mono [OF m(6)]) auto
    moreover have "same_live (L - {(a, z)}) s1 (upd f s1)" by (rule same_live_mono [OF w(2)]) (use m(4) in auto)
    moreover have "same_live (L - {(a, z)}) (upd f s1) s'" by (rule same_live_mono [OF fr(4)]) auto
    ultimately show "same_live (L - {(a, z)}) s s'" using same_live_trans by blast
    show "\<forall>i < min n ?old. memory s' (b + 12 + i) = memory s (a + 12 + i)"
    proof (intro allI impI)
      fix i assume i: "i < min n ?old"
      have "same_data b y (memory (upd f s1)) (memory s')" using fr(4) ne by (auto simp: same_live_def)
      then have "memory s' (b + 12 + i) = f (memory s1) (b + 12 + i)"
        using i m(3) sz by (simp add: same_data_def)
      also have "\<dots> = memory s1 (a + 12 + i)" using i by (auto simp: f_def mem_copy_def)
      also have "\<dots> = memory s (a + 12 + i)"
      proof -
        have "same_data a z (memory s) (memory s1)" using m(6) ok(2) by (auto simp: same_live_def)
        moreover have "a + 12 \<le> a + 12 + i" "a + 12 + i < z" using i by linarith+
        ultimately show ?thesis unfolding same_data_def by blast
      qed
      finally show "memory s' (b + 12 + i) = memory s (a + 12 + i)" .
    qed
  qed
qed

lemma rt_realloc_ok:
  assumes ok: "heap_ok s L" "(a, z) \<in> L"
  obtains "rt_realloc self (a + 12) n s = Some (s, Returned 0)" "RT_ALIGN n \<noteq> 0"
  | s' where "RT_ALIGN n = 0" "rt_realloc self (a + 12) n s = Some (s', Returned 0)" "heap_ok s' (L - {(a, z)})"
      "same_area s s'" "same_live (L - {(a, z)}) s s'"
  | b y s' where "RT_ALIGN n \<noteq> 0" "rt_realloc self (a + 12) n s = Some (s', Returned (b + 12))"
      "heap_ok s' (insert (b, y) (L - {(a, z)}))" "b + 12 + RT_ALIGN n \<le> y" "(b, y) \<notin> L - {(a, z)}"
      "same_area s s'" "same_live (L - {(a, z)}) s s'"
      "\<forall>i < min (RT_ALIGN n) (z - a - 12). memory s' (b + 12 + i) = memory s (a + 12 + i)"
proof -
  note bd = heap_ok_bounds [OF ok]
  let ?n = "RT_ALIGN n" and ?h = "heap_ptr s"
  define t where "t = s\<lparr>heap_sem := (heap_sem s)\<lparr>sem_value := 0\<rparr>\<rparr>"
  have rel: "heap_release t = s" using bd(10) by (simp add: heap_release_def t_def sem_idle_release)
  have ad: "sub32 (a + 12) 12 = a" "sub32 a ?h = a - ?h" "a + 12 \<noteq> 0" "\<not> (a + 12 < ?h \<or> heap_end s \<le> a + 12)"
    "sub32 (sub32 (z - ?h) (a - ?h)) 12 = z - a - 12"
    using bd by (simp_all add: sub32_small)
  have run: "rt_realloc self (a + 12) n s =
     (if ?n > mem_size_aligned s then Some (s, Returned 0)
      else if ?n = 0
      then (let (s, r) = rt_free self (a + 12) s in Some (s, case r of Blocked \<Rightarrow> Blocked | Returned _ \<Rightarrow> Returned 0))
      else if z - a - 12 = ?n then Some (s, Returned (a + 12))
      else if add32 (add32 ?n 12) 12 < z - a - 12
      then Some (heap_release (realloc_shrink (a - ?h) (z - a - 12) ?n t), Returned (a + 12))
      else realloc_move self (a + 12) (z - a - 12) ?n s)"
    unfolding rt_realloc_def Let_def sem_idle_take [OF bd(10)] prod.case t_def [symmetric] SIZEOF_STRUCT_MEM_def
    using ad bd(9) rel by (simp add: t_def)
  consider "?n > mem_size_aligned s" | "?n = 0" | "0 < ?n" "?n \<le> mem_size_aligned s" "z - a - 12 = ?n"
    | "0 < ?n" "?n \<le> mem_size_aligned s" "?n + 24 < z - a - 12"
    | "0 < ?n" "?n \<le> mem_size_aligned s" "z - a - 12 \<noteq> ?n" "\<not> ?n + 24 < z - a - 12" by linarith
  then show thesis
  proof cases
    case 1
    then show thesis using run that(1) by simp
  next
    case 2
    obtain s' where "rt_free self (a + 12) s = (s', Returned ())" "heap_ok s' (L - {(a, z)})" "same_area s s'"
      "same_live (L - {(a, z)}) s s'" using rt_free_ok [OF ok] by metis
    then show thesis using run that(2) [of s'] 2 by simp
  next
    case 3
    then show thesis using run that(3) [of s a z] ok bd by (simp add: insert_absorb)
  next
    case 4
    obtain bs where bs: "heap_inv s bs" "live bs = L" using ok(1) by (auto simp: heap_ok_def)
    obtain xs ys where x: "bs = xs @ (a, z, True) # ys" "L = insert (a, z) (live xs \<union> live ys)"
      "(a, z) \<notin> live xs \<union> live ys" using live_split [OF bs(1)] ok(2) bs(2) by metis
    have L: "L - {(a, z)} = live xs \<union> live ys" using x(2,3) by auto
    define s' where "s' = heap_release (realloc_shrink (a - ?h) (z - a - 12) ?n t)"
    let ?y = "a + 12 + ?n"
    note rs = realloc_shrink_ok [OF bs(1) [unfolded x(1)] RT_ALIGN_dvd 4(1,3), folded t_def, folded s'_def]
    have "add32 (add32 ?n 12) 12 = ?n + 24" using 4(2) bd(5,7) bd(6) by (simp add: add32_def)
    then have r: "rt_realloc self (a + 12) n s = Some (s', Returned (a + 12))" using run 4 by (simp add: s'_def)
    have "same_data a ?y (memory s) (memory s')" using rs(3) by simp
    then have d: "\<forall>i < min ?n (z - a - 12). memory s' (a + 12 + i) = memory s (a + 12 + i)" by (simp add: same_data_def)
    have "same_live (L - {(a, z)}) s s'" unfolding L same_live_def using rs(3) by (auto simp: live_def)
    moreover have "heap_ok s' (insert (a, ?y) (L - {(a, z)}))" unfolding heap_ok_def L
      using rs(1) live_free_blocks by (intro exI [of _ "free_blocks (xs @ [(a, ?y, True)]) ?y z ys"]) auto
    moreover have "(a, ?y) \<notin> L - {(a, z)}" using live_disjoint [OF ok(1) ok(2), of a ?y] bd(2) 4(1) by auto
    ultimately show thesis using that(3) [OF _ r _ _ _ rs(2)] d 4(1) by simp
  next
    case 5
    have "?n + 3 < 2 ^ 32" using 5(2) bd(5,7) by simp
    have m: "add32 (add32 ?n 12) 12 = ?n + 24" using 5(2) bd(5,6,7) by (simp add: add32_def)
    then have run5: "rt_realloc self (a + 12) n s = realloc_move self (a + 12) (z - a - 12) ?n s" using run 5 by simp
    show thesis
      by (rule realloc_move_ok [OF ok 5(1) \<open>?n + 3 < 2 ^ 32\<close>, of self]; use that(1,3) run5 5(1) in simp)
  qed
qed

section \<open>\<open>rt_system_heap_init\<close> and \<open>rt_calloc\<close>\<close>

lemma rt_system_heap_init_inv:
  assumes b: "0 < b" "b + 3 < 2 ^ 32" and e: "e < 2 ^ 32" "RT_ALIGN b + 36 \<le> RT_ALIGN_DOWN e" and s: "used_mem s = 0"
  defines "s' \<equiv> rt_system_heap_init b e s"
  shows "heap_inv s' [(RT_ALIGN b, RT_ALIGN_DOWN e - 12, False)]" "heap_ptr s' = RT_ALIGN b"
    "heap_end s' = RT_ALIGN_DOWN e - 12" "mem_size_aligned s' = RT_ALIGN_DOWN e - RT_ALIGN b - 24"
proof -
  let ?B = "RT_ALIGN b" and ?E = "RT_ALIGN_DOWN e"
  let ?M = "?E - ?B - 24"
  have B: "0 < ?B" "4 dvd ?B" using RT_ALIGN_bounds [OF b(2)] b(1) RT_ALIGN_dvd by simp_all
  have E: "?E < 2 ^ 32" "4 dvd ?E" using e(1) by (simp_all add: RT_ALIGN_DOWN_def)
  have mm: "?M + 12 < 2 ^ 32" "?B + (?M + 12) = ?E - 12" "?B + (?M + 12) < 2 ^ 32" using e(2) E(1) by linarith+
  have ad: "add32 ?M 12 = ?M + 12" "add32 ?B (?M + 12) = ?E - 12" using mm by (simp_all add: add32_def)
  have far: "far ?B (?E - 12)" "far (?E - 12) ?B" using e(2) by (simp_all add: far_def)
  have cnd: "24 < ?E" "?B \<le> ?E - 24" using e(2) B by linarith+
  define m where "m = (set_prev (?E - 12) (?M + 12) \<circ> set_next (?E - 12) (?M + 12) \<circ> set_used (?E - 12) 1 \<circ>
     set_magic (?E - 12) HEAP_MAGIC \<circ> set_used ?B 0 \<circ> set_prev ?B 0 \<circ> set_next ?B (?M + 12) \<circ> set_magic ?B HEAP_MAGIC) (memory s)"
  have s': "s' = s\<lparr>mem_size_aligned := ?M, heap_ptr := ?B, memory := m, heap_end := ?E - 12,
      heap_sem := rt_sem_init 1 RT_IPC_FLAG_PRIO, lfree := ?B\<rparr>"
    using cnd ad mm by (simp add: s'_def rt_system_heap_init_def Let_def SIZEOF_STRUCT_MEM_def upd_def heap_at_def m_def)
  show "heap_ptr s' = ?B" "heap_end s' = ?E - 12" "mem_size_aligned s' = ?M" by (simp_all add: s')
  have h: "hm_magic m ?B = HEAP_MAGIC" "hm_used m ?B = 0" "hm_next m ?B = ?M + 12" "hm_prev m ?B = 0"
    "hm_used m (?E - 12) = 1" "hm_next m (?E - 12) = ?M + 12"
    using far mm(1) by (simp_all add: m_def HEAP_MAGIC_def)
  have ch: "hchain m ?B ?B ?B [(?B, ?E - 12, False)] (?E - 12)"
  proof -
    have "?E - 12 - ?B = ?M + 12" "?B + 12 < ?E - 12" using e(2) by linarith+
    moreover have "4 dvd ?E - 12" using E(2) by simp
    ultimately show ?thesis using h by simp
  qed
  have "heap_shape s' [(?B, ?E - 12, False)]"
    unfolding heap_shape_def s' using ch h B mm e(2) E(1) by simp
  then show "heap_inv s' [(?B, ?E - 12, False)]"
    using s by (simp add: heap_inv_def s' no_adj_def sem_idle_def rt_sem_init_def)
qed

lemma rt_calloc_ok:
  assumes ok: "heap_ok s L" and n: "count * n mod 2 ^ 32 + 3 < 2 ^ 32"
  obtains "rt_calloc self count n s = Some (s, Returned 0)"
  | a z s' where "rt_calloc self count n s = Some (s', Returned (a + 12))" "heap_ok s' (insert (a, z) L)"
      "a + 12 + count * n mod 2 ^ 32 \<le> z" "(a, z) \<notin> L" "same_area s s'" "same_live L s s'"
      "\<forall>i < count * n mod 2 ^ 32. memory s' (a + 12 + i) = 0"
proof (rule rt_malloc_ok [OF ok, of self "count * n mod 2 ^ 32"])
  assume "rt_malloc self (count * n mod 2 ^ 32) s = Some (s, Returned 0)"
  then show thesis using that(1) by (simp add: rt_calloc_def)
next
  fix a z s1
  let ?k = "count * n mod 2 ^ 32"
  assume m: "rt_malloc self ?k s = Some (s1, Returned (a + 12))" "heap_ok s1 (insert (a, z) L)"
    "a + 12 + malloc_size ?k \<le> z" "(a, z) \<notin> L" "same_area s s1" "same_live L s s1"
  have sz: "?k \<le> malloc_size ?k" using RT_ALIGN_bounds [OF n] by (simp add: malloc_size_def le_max_iff_disj)
  define f where "f = mem_set (a + 12) 0 ?k"
  have ins: "inside a z f (memory s1)" using m(3) sz by (auto simp: inside_def f_def mem_set_def)
  note w = heap_ok_write [OF m(2) insertI1 ins]
  show thesis
  proof (rule that(2))
    show "rt_calloc self count n s = Some (upd f s1, Returned (a + 12))"
      unfolding rt_calloc_def m(1) by (simp add: f_def)
    show "heap_ok (upd f s1) (insert (a, z) L)" by (fact w(1))
    show "a + 12 + ?k \<le> z" using m(3) sz by linarith
    show "(a, z) \<notin> L" by (fact m(4))
    show "same_area s (upd f s1)" using m(5) w(3) same_area_trans by blast
    have "same_live L s1 (upd f s1)" by (rule same_live_mono [OF w(2)]) (use m(4) in auto)
    then show "same_live L s (upd f s1)" by (rule same_live_trans [OF m(6)])
    show "\<forall>i < ?k. memory (upd f s1) (a + 12 + i) = 0" by (simp add: f_def mem_set_def)
  qed
qed

section \<open>Every history of calls\<close>

text \<open>
  From the heap set up over the bytes \<open>b .. e\<close>: clients allocate, give back what they were given, and write into their own
  blocks; \<open>P\<close> is the set of pointers handed out.  A \<open>rt_calloc\<close> whose size is one of the last three numbers of 32 bits is
  left out: it clears more than it was given.
\<close>

definition payload_end :: "heap \<Rightarrow> nat \<Rightarrow> nat" where
  "payload_end s p = heap_ptr s + hm_next (memory s) (p - 12)"

inductive heap_reach :: "nat \<Rightarrow> nat \<Rightarrow> heap \<Rightarrow> nat set \<Rightarrow> bool" for b e where
  init: "used_mem s = 0 \<Longrightarrow> heap_reach b e (rt_system_heap_init b e s) {}"
| malloc: "heap_reach b e s P \<Longrightarrow> rt_malloc self n s = Some (s', Returned p) \<Longrightarrow>
    heap_reach b e s' (if p = 0 then P else insert p P)"
| calloc: "heap_reach b e s P \<Longrightarrow> count * n mod 2 ^ 32 + 3 < 2 ^ 32 \<Longrightarrow> rt_calloc self count n s = Some (s', Returned p) \<Longrightarrow>
    heap_reach b e s' (if p = 0 then P else insert p P)"
| realloc: "heap_reach b e s P \<Longrightarrow> p \<in> P \<Longrightarrow> rt_realloc self p n s = Some (s', Returned q) \<Longrightarrow>
    heap_reach b e s' (if RT_ALIGN n = 0 then P - {p} else if q = 0 then P else insert q (P - {p}))"
| free: "heap_reach b e s P \<Longrightarrow> p \<in> P \<Longrightarrow> rt_free self p s = (s', Returned ()) \<Longrightarrow> heap_reach b e s' (P - {p})"
| store: "heap_reach b e s P \<Longrightarrow> p \<in> P \<Longrightarrow> p \<le> x \<Longrightarrow> x < payload_end s p \<Longrightarrow> heap_reach b e (upd (\<lambda>m. m(x := v)) s) P"

definition ptrs :: "(nat \<times> nat) set \<Rightarrow> nat set" where
  "ptrs L = (\<lambda>(a, z). a + 12) ` L"

lemma ptrs_insert [simp]: "ptrs (insert (a, z) L) = insert (a + 12) (ptrs L)"
  by (simp add: ptrs_def)

lemma ptrs_remove:
  assumes "heap_ok s L" "(a, z) \<in> L"
  shows "ptrs (L - {(a, z)}) = ptrs L - {a + 12}"
proof -
  have "c = z" if "(a, c) \<in> L" for c
    using live_disjoint [OF assms(1) that assms(2)] heap_ok_bounds(2) [OF assms(1) that] heap_ok_bounds(2) [OF assms] by auto
  then show ?thesis by (force simp: ptrs_def)
qed

lemma ptrs_cases:
  assumes "p \<in> ptrs L" obtains a z where "p = a + 12" "(a, z) \<in> L"
  using assms by (auto simp: ptrs_def)

lemma heap_reach_ok:
  assumes "heap_reach b e s P"
    and b: "0 < b" "b + 3 < 2 ^ 32" and e: "e < 2 ^ 32" "RT_ALIGN b + 36 \<le> RT_ALIGN_DOWN e"
  shows "\<exists>L. heap_ok s L \<and> P = ptrs L \<and> heap_ptr s = RT_ALIGN b \<and> heap_end s = RT_ALIGN_DOWN e - 12"
  using assms(1)
proof induction
  case (init s)
  note i = rt_system_heap_init_inv [OF b e init]
  then have "heap_ok (rt_system_heap_init b e s) {}" unfolding heap_ok_def by (intro exI conjI) auto
  then show ?case using i(2,3) by (auto simp: ptrs_def)
next
  case (malloc s P self n s' p)
  then obtain L where L: "heap_ok s L" "P = ptrs L" "heap_ptr s = RT_ALIGN b" "heap_end s = RT_ALIGN_DOWN e - 12" by blast
  show ?case
    by (rule rt_malloc_ok [OF L(1), of self n]) (use malloc(2) L in \<open>auto simp: same_area_def\<close>)
next
  case (calloc s P count n self s' p)
  then obtain L where L: "heap_ok s L" "P = ptrs L" "heap_ptr s = RT_ALIGN b" "heap_end s = RT_ALIGN_DOWN e - 12" by blast
  show ?case
    by (rule rt_calloc_ok [OF L(1) calloc(2), of self]) (use calloc(3) L in \<open>auto simp: same_area_def\<close>)
next
  case (realloc s P p self n s' q)
  then obtain L where L: "heap_ok s L" "P = ptrs L" "heap_ptr s = RT_ALIGN b" "heap_end s = RT_ALIGN_DOWN e - 12" by blast
  obtain a z where p: "p = a + 12" "(a, z) \<in> L" using realloc(2) L(2) ptrs_cases by metis
  note pr = ptrs_remove [OF L(1) p(2)]
  show ?case
    by (rule rt_realloc_ok [OF L(1) p(2), of self n]) (use realloc(3) L p pr in \<open>auto simp: same_area_def\<close>)
next
  case (free s P p self s')
  then obtain L where L: "heap_ok s L" "P = ptrs L" "heap_ptr s = RT_ALIGN b" "heap_end s = RT_ALIGN_DOWN e - 12" by blast
  obtain a z where p: "p = a + 12" "(a, z) \<in> L" using free(2) L(2) ptrs_cases by metis
  show ?case
    by (rule rt_free_ok [OF L(1) p(2), of self]) (use free(3) L p ptrs_remove [OF L(1) p(2)] in \<open>auto simp: same_area_def\<close>)
next
  case (store s P p x v)
  then obtain L where L: "heap_ok s L" "P = ptrs L" "heap_ptr s = RT_ALIGN b" "heap_end s = RT_ALIGN_DOWN e - 12" by blast
  obtain a z where p: "p = a + 12" "(a, z) \<in> L" using store(2) L(2) ptrs_cases by metis
  note bd = heap_ok_bounds [OF L(1) p(2)]
  have "inside a z (\<lambda>m. m(x := v)) (memory s)"
    using store(3,4) bd p by (auto simp: inside_def payload_end_def)
  from heap_ok_write [OF L(1) p(2) this] show ?case using L by (auto simp: same_area_def)
qed

section \<open>The contract of an allocator\<close>

text \<open>
  What a client relies on, for any allocator: areas \<open>(start, end)\<close> that are in use, requests that may be refused, and bytes that
  only the owner of an area changes.
\<close>

fun store_all :: "(nat \<Rightarrow> 'v \<Rightarrow> 's \<Rightarrow> 's) \<Rightarrow> nat \<Rightarrow> 'v list \<Rightarrow> 's \<Rightarrow> 's" where
  "store_all st x [] s = s"
| "store_all st x (v # vs) s = store_all st (x + 1) vs (st x v s)"

definition kept :: "('s \<Rightarrow> nat \<Rightarrow> 'v) \<Rightarrow> (nat \<times> nat) set \<Rightarrow> 's \<Rightarrow> 's \<Rightarrow> bool" where
  "kept byte L s s' \<longleftrightarrow> (\<forall>(p, z) \<in> L. \<forall>x. p \<le> x \<and> x < z \<longrightarrow> byte s' x = byte s x)"

lemma kept_trans: "kept byte L s t \<Longrightarrow> kept byte L t u \<Longrightarrow> kept byte L s u"
  by (fastforce simp: kept_def)

lemma kept_refl [simp]: "kept byte L s s"
  by (auto simp: kept_def)

locale allocator =
  fixes ok :: "'s \<Rightarrow> (nat \<times> nat) set \<Rightarrow> bool"
    and alloc :: "nat \<Rightarrow> 's \<Rightarrow> ('s \<times> nat) option"
    and release :: "nat \<Rightarrow> 's \<Rightarrow> 's"
    and store :: "nat \<Rightarrow> 'v \<Rightarrow> 's \<Rightarrow> 's"
    and byte :: "'s \<Rightarrow> nat \<Rightarrow> 'v"
    and fits :: "nat \<Rightarrow> bool"
  assumes alloc_cases: "ok s L \<Longrightarrow> fits n \<Longrightarrow> alloc n s = Some (s, 0) \<or>
      (\<exists>p z s'. alloc n s = Some (s', p) \<and> 0 < p \<and> p + n \<le> z \<and> (p, z) \<notin> L \<and> ok s' (insert (p, z) L) \<and> kept byte L s s')"
    and release_ok: "ok s L \<Longrightarrow> (p, z) \<in> L \<Longrightarrow> ok (release p s) (L - {(p, z)}) \<and> kept byte (L - {(p, z)}) s (release p s)"
    and store_ok: "ok s L \<Longrightarrow> (p, z) \<in> L \<Longrightarrow> p \<le> x \<Longrightarrow> x < z \<Longrightarrow> ok (store x v s) L"
    and store_byte: "byte (store x v s) y = (if y = x then v else byte s y)"
    and disjoint: "ok s L \<Longrightarrow> (p, z) \<in> L \<Longrightarrow> (q, y) \<in> L \<Longrightarrow> (p, z) = (q, y) \<or> z \<le> q \<or> y \<le> p"
begin

lemma store_all_byte:
  "byte (store_all store x vs s) y = (if x \<le> y \<and> y < x + length vs then vs ! (y - x) else byte s y)"
  by (induction vs arbitrary: x s) (auto simp: store_byte nth_Cons')

lemma store_all_ok:
  assumes "ok s L" "(p, z) \<in> L" "p \<le> x" "x + length vs \<le> z"
  shows "ok (store_all store x vs s) L" "kept byte (L - {(p, z)}) s (store_all store x vs s)"
proof -
  show "ok (store_all store x vs s) L"
    using assms
  proof (induction vs arbitrary: x s)
    case (Cons v vs)
    then show ?case using store_ok [of s L p z x v] by simp
  qed simp
  show "kept byte (L - {(p, z)}) s (store_all store x vs s)"
    using disjoint [OF assms(1) _ assms(2)] assms(3,4) by (fastforce simp: kept_def store_all_byte)
qed

end

text \<open>The kernel heap as such an allocator, for the calls of one thread.\<close>

definition heap_areas :: "heap \<Rightarrow> (nat \<times> nat) set \<Rightarrow> bool" where
  "heap_areas s A \<longleftrightarrow> heap_ok s ((\<lambda>(p, z). (p - 12, z)) ` A) \<and> (\<forall>(p, z) \<in> A. 12 \<le> p)"

definition heap_alloc :: "rt_thread \<Rightarrow> nat \<Rightarrow> heap \<Rightarrow> (heap \<times> nat) option" where
  "heap_alloc self n s = (case rt_malloc self n s of Some (s', Returned p) \<Rightarrow> Some (s', p) | _ \<Rightarrow> None)"

definition heap_store :: "nat \<Rightarrow> u8 \<Rightarrow> heap \<Rightarrow> heap" where
  "heap_store x v s = upd (\<lambda>m. m(x := v)) s"

lemma kept_same_live:
  assumes "\<forall>(p, z) \<in> A. 12 \<le> p"
  shows "kept memory A s s' \<longleftrightarrow> same_live ((\<lambda>(p, z). (p - 12, z)) ` A) s s'"
  using assms by (fastforce simp: kept_def same_live_def same_data_def)

lemma areas_mem:
  fixes p :: nat
  shows "(p, z) \<in> A \<Longrightarrow> (p - 12, z) \<in> (\<lambda>(p, z). (p - 12, z)) ` A"
  by force

lemma areas_remove:
  fixes p z :: nat
  assumes "\<forall>(p, z) \<in> A. 12 \<le> p" "(p, z) \<in> A"
  shows "(\<lambda>(p, z). (p - 12, z)) ` (A - {(p, z)}) = (\<lambda>(p, z). (p - 12, z)) ` A - {(p - 12, z)}"
proof -
  have "inj_on (\<lambda>(p, z :: nat). (p - 12, z)) A"
  proof (rule inj_onI)
    fix c d assume c: "c \<in> A" "d \<in> A" "(\<lambda>(p, z :: nat). (p - 12, z)) c = (\<lambda>(p, z). (p - 12, z)) d"
    obtain c1 c2 d1 d2 where "c = (c1, c2)" "d = (d1, d2)" by (metis surj_pair)
    moreover from this have "12 \<le> c1" "12 \<le> d1" using assms(1) c by auto
    ultimately show "c = d" using c(3) by auto
  qed
  from inj_on_image_set_diff [OF this, of A "{(p, z)}"] assms(2) show ?thesis by simp
qed

interpretation kernel_heap: allocator heap_areas "heap_alloc self" "\<lambda>p s. fst (rt_free self p s)" heap_store memory
  "\<lambda>n. n + 3 < 2 ^ 32" for self
proof unfold_locales
  fix s A n
  assume ok: "heap_areas s A" and n: "n + 3 < (2 :: nat) ^ 32"
  let ?L = "(\<lambda>(p, z). (p - 12, z)) ` A"
  have h: "heap_ok s ?L" "\<forall>(p, z) \<in> A. 12 \<le> p" using ok by (auto simp: heap_areas_def)
  show "heap_alloc self n s = Some (s, 0) \<or> (\<exists>p z s'. heap_alloc self n s = Some (s', p) \<and> 0 < p \<and> p + n \<le> z
      \<and> (p, z) \<notin> A \<and> heap_areas s' (insert (p, z) A) \<and> kept memory A s s')"
  proof (rule rt_malloc_ok [OF h(1), of self n])
    fix a z s'
    assume m: "rt_malloc self n s = Some (s', Returned (a + 12))" "heap_ok s' (insert (a, z) ?L)"
      "a + 12 + malloc_size n \<le> z" "(a, z) \<notin> ?L" "same_area s s'" "same_live ?L s s'"
    have "n \<le> malloc_size n" using RT_ALIGN_bounds [OF n] by (simp add: malloc_size_def le_max_iff_disj)
    then have "a + 12 + n \<le> z" using m(3) by linarith
    moreover have "(a + 12, z) \<notin> A" using m(4) areas_mem [of "a + 12" z A] by auto
    moreover have "heap_areas s' (insert (a + 12, z) A)" using m(2) h(2) by (simp add: heap_areas_def)
    moreover have "kept memory A s s'" using m(6) kept_same_live [OF h(2)] by simp
    moreover have "heap_alloc self n s = Some (s', a + 12)" by (simp add: heap_alloc_def m(1))
    ultimately show ?thesis by (intro disjI2 exI [of _ "a + 12"] exI [of _ z] exI [of _ s']) simp
  qed (simp add: heap_alloc_def)
next
  fix s A p z
  assume ok: "heap_areas s A" and p: "(p, z) \<in> A"
  let ?L = "(\<lambda>(p, z). (p - 12, z)) ` A"
  have h: "heap_ok s ?L" "\<forall>(p, z) \<in> A. 12 \<le> p" "12 \<le> p" using ok p by (auto simp: heap_areas_def)
  have r: "(\<lambda>(p, z). (p - 12, z)) ` (A - {(p, z)}) = ?L - {(p - 12, z)}" by (rule areas_remove [OF h(2) p])
  obtain s' where s': "rt_free self p s = (s', Returned ())" "heap_ok s' (?L - {(p - 12, z)})"
    "same_live (?L - {(p - 12, z)}) s s'"
    by (rule rt_free_ok [OF h(1) areas_mem [OF p], of self]) (use h(3) in simp)
  have "\<forall>(p, z) \<in> A - {(p, z)}. 12 \<le> p" using h(2) by auto
  then show "heap_areas (fst (rt_free self p s)) (A - {(p, z)}) \<and> kept memory (A - {(p, z)}) s (fst (rt_free self p s))"
    using s' kept_same_live [of "A - {(p, z)}" s s'] by (simp add: heap_areas_def r)
next
  fix s A p z x v
  assume ok: "heap_areas s A" and p: "(p, z) \<in> A" "p \<le> x" "x < z"
  let ?L = "(\<lambda>(p, z). (p - 12, z)) ` A"
  have h: "heap_ok s ?L" "\<forall>(p, z) \<in> A. 12 \<le> p" "12 \<le> p" using ok p by (auto simp: heap_areas_def)
  have "inside (p - 12) z (\<lambda>m. m(x := v)) (memory s)" using p(2,3) h(3) by (auto simp: inside_def)
  from heap_ok_write(1) [OF h(1) areas_mem [OF p(1)] this] show "heap_areas (heap_store x v s) A"
    using h(2) by (simp add: heap_areas_def heap_store_def)
next
  fix x v s y
  show "memory (heap_store x v s) y = (if y = x then v else memory s y)" by (simp add: heap_store_def)
next
  fix s A p z q y
  assume ok: "heap_areas s A" and p: "(p, z) \<in> A" "(q, y) \<in> A"
  then have h: "heap_ok s ((\<lambda>(p, z). (p - 12, z)) ` A)" "12 \<le> p" "12 \<le> q" by (auto simp: heap_areas_def)
  show "(p, z) = (q, y) \<or> z \<le> q \<or> y \<le> p"
    using live_disjoint [OF h(1) areas_mem [OF p(1)] areas_mem [OF p(2)]] h(2,3) by auto
qed

section \<open>Properties\<close>

text \<open>A small heap over the addresses 1000 to 1100, for concrete runs.\<close>

definition fresh_heap :: heap where
  "fresh_heap = rt_system_heap_init 1000 1100 \<lparr>memory = \<lambda>_. 0, heap_ptr = 0, heap_end = 0, lfree = 0, mem_size_aligned = 0,
     used_mem = 0, max_mem = 0, heap_sem = rt_sem_init 0 RT_IPC_FLAG_PRIO\<rparr>"

lemma fresh_heap_inv:
  "heap_inv fresh_heap [(1000, 1088, False)]" "heap_ptr fresh_heap = 1000" "heap_end fresh_heap = 1088"
  "mem_size_aligned fresh_heap = 76"
  using rt_system_heap_init_inv [of 1000 1100]
  by (simp_all add: fresh_heap_def RT_ALIGN_def RT_ALIGN_DOWN_def add32_def)

lemma malloc_size_10: "malloc_size 10 = 12" "RT_ALIGN 10 = 12"
  by (simp_all add: malloc_size_def RT_ALIGN_def add32_def MIN_SIZE_ALIGNED_def)

lemma fresh_malloc:
  "\<exists>s. rt_malloc self 10 fresh_heap = Some (s, Returned 1012) \<and> heap_inv s [(1000, 1024, True), (1024, 1088, False)]"
  using rt_malloc_found [of fresh_heap "[]" 1000 1088 "[]" 10 self] fresh_heap_inv
  by (auto simp: malloc_size_10 alloc_blocks_def)

text \<open>
  C13. The kernel heap over the bytes from \<open>b\<close> to \<open>e\<close>, after any history of allocations, releases, resizings and writes of the
  clients into their own blocks: the memory holds an intact chain of blocks, the pointers handed out and not given back are
  exactly the blocks in use, each is aligned and lies in the area, no two overlap nor touch a header, the bytes counted as used
  are those of the blocks in use, and the semaphore is free again.
\<close>

theorem heap_history_safe:
  assumes "heap_reach b e s P" "0 < b" "b + 3 < 2 ^ 32" "e < 2 ^ 32" "RT_ALIGN b + 36 \<le> RT_ALIGN_DOWN e"
  shows "(\<exists>bs. heap_inv s bs \<and> P = {a + 12 | a z. (a, z, True) \<in> set bs} \<and> used_mem s = used_bytes bs)
    \<and> sem_idle (heap_sem s)
    \<and> (\<forall>p \<in> P. 4 dvd p \<and> b + 12 \<le> p \<and> p < payload_end s p \<and> payload_end s p + 12 \<le> e)
    \<and> (\<forall>p \<in> P. \<forall>q \<in> P. p = q \<or> payload_end s p + 12 \<le> q \<or> payload_end s q + 12 \<le> p)"
proof -
  obtain L where L: "heap_ok s L" "P = ptrs L" "heap_ptr s = RT_ALIGN b" "heap_end s = RT_ALIGN_DOWN e - 12"
    using heap_reach_ok [OF assms] by blast
  obtain bs where bs: "heap_inv s bs" "live bs = L" using L(1) by (auto simp: heap_ok_def)
  have al: "b \<le> RT_ALIGN b" "RT_ALIGN_DOWN e \<le> e" using RT_ALIGN_bounds [OF assms(3)] by (simp_all add: RT_ALIGN_DOWN_def)
  have pe: "payload_end s (a + 12) = z" if "(a, z) \<in> L" for a z
    using heap_ok_bounds [OF L(1) that] by (simp add: payload_end_def)
  have "P = {a + 12 | a z. (a, z, True) \<in> set bs}" using L(2) bs(2) by (auto simp: ptrs_def live_def)
  then have 1: "\<exists>bs. heap_inv s bs \<and> P = {a + 12 | a z. (a, z, True) \<in> set bs} \<and> used_mem s = used_bytes bs"
    using bs(1) heap_invD(4) by blast
  have 2: "4 dvd p \<and> b + 12 \<le> p \<and> p < payload_end s p \<and> payload_end s p + 12 \<le> e" if "p \<in> P" for p
  proof -
    obtain a z where p: "p = a + 12" "(a, z) \<in> L" using \<open>p \<in> P\<close> L(2) ptrs_cases by metis
    have "4 dvd a + 12" using heap_ok_bounds(8) [OF L(1) p(2)] by simp
    then show ?thesis using heap_ok_bounds [OF L(1) p(2)] pe [OF p(2)] p(1) L(3,4) al assms(5) by simp
  qed
  have 3: "p = q \<or> payload_end s p + 12 \<le> q \<or> payload_end s q + 12 \<le> p" if pq: "p \<in> P" "q \<in> P" for p q
  proof -
    obtain a z where p: "p = a + 12" "(a, z) \<in> L" using pq(1) L(2) ptrs_cases by metis
    obtain c y where q: "q = c + 12" "(c, y) \<in> L" using pq(2) L(2) ptrs_cases by metis
    show ?thesis using live_disjoint [OF L(1) p(2) q(2)] p q pe by auto
  qed
  show ?thesis using 1 2 3 heap_invD(6) [OF bs(1)] by blast
qed

definition sample_thread :: rt_thread where
  "sample_thread = \<lparr>th_id = 1, current_priority = 5\<rparr>"

theorem heap_history_safe_witness:
  "\<exists>s. heap_reach 1000 1100 s {1012} \<and> (\<exists>bs. heap_inv s bs) \<and> payload_end s 1012 + 12 \<le> 1100"
proof -
  define self :: rt_thread where "self = \<lparr>th_id = 1, current_priority = 5\<rparr>"
  obtain s where s: "rt_malloc self 10 fresh_heap = Some (s, Returned 1012)" using fresh_malloc by blast
  have "heap_reach 1000 1100 fresh_heap {}" unfolding fresh_heap_def by (rule heap_reach.init) simp
  from heap_reach.malloc [OF this s] have r: "heap_reach 1000 1100 s {1012}" by simp
  from heap_history_safe [OF this] show ?thesis using r by (auto simp: RT_ALIGN_def RT_ALIGN_DOWN_def add32_def)
qed

text \<open>
  C26. An allocation from an idle heap returns whatever the chain looks like, and is first fit among the blocks that the code
  looks at, those that start below \<open>heap_end - 12 - size\<close> (offset below \<open>mem_size_aligned - size\<close>): it is refused, and nothing
  changes, when no free block among them is large enough, even if one that starts at or behind that limit is; otherwise the first such block is taken, cut to size when
  the rest can be a block of its own, every other block stays, and so does the data of all blocks in use.
\<close>

theorem heap_malloc_first_fit:
  assumes "heap_inv s bs" "0 < n" "RT_ALIGN n \<le> mem_size_aligned s"
  shows "case first_fit (heap_end s - 12 - malloc_size n) (malloc_size n) bs of
      None \<Rightarrow> rt_malloc self n s = Some (s, Returned 0)
    | Some a \<Rightarrow> (\<exists>xs z ys s'. bs = xs @ (a, z, False) # ys \<and> rt_malloc self n s = Some (s', Returned (a + 12))
        \<and> heap_inv s' (xs @ alloc_blocks a z (malloc_size n) @ ys) \<and> same_live (live bs) s s')"
proof (cases "first_fit (heap_end s - 12 - malloc_size n) (malloc_size n) bs")
  case None
  then show ?thesis using rt_malloc_search [OF assms, of self] by simp
next
  case (Some a)
  from first_fit_Some [OF Some] obtain xs z ys where bs: "bs = xs @ (a, z, False) # ys" "a + 12 + malloc_size n \<le> z"
    by blast
  from rt_malloc_found [OF assms(1) [unfolded bs(1)] assms(2,3) Some [unfolded bs(1)] bs(2), of self] obtain s' where
    s': "rt_malloc self n s = Some (s', Returned (a + 12))" "heap_inv s' (xs @ alloc_blocks a z (malloc_size n) @ ys)"
      "\<forall>(b, y, v) \<in> set xs \<union> set ys. same_data b y (memory s) (memory s')" by blast
  have "same_live (live bs) s s'" using s'(3) bs(1) by (fastforce simp: same_live_def live_def)
  then show ?thesis using Some bs(1) s' by auto
qed

theorem heap_malloc_first_fit_witness:
  "\<exists>s'. rt_malloc sample_thread 10 fresh_heap = Some (s', Returned 1012) \<and> heap_inv s' [(1000, 1024, True), (1024, 1088, False)]"
  using heap_malloc_first_fit [of fresh_heap "[(1000, 1088, False)]" 10 sample_thread] fresh_heap_inv
  by (auto simp: malloc_size_10 alloc_blocks_def Cons_eq_append_conv)

lemma alloc_free_blocks:
  assumes "no_adj (xs @ (a, z, False) # ys)"
  obtains y zs where "alloc_blocks a z n @ ys = (a, y, True) # zs" "free_blocks xs a y zs = xs @ (a, z, False) # ys"
proof -
  have xs: "xs = [] \<or> snd (snd (last xs))" and ys: "ys = [] \<or> snd (snd (hd ys))"
    using assms by (auto simp: no_adj_simps)
  have jr: "join_right z ys = (z, ys)" using ys by (cases ys) (auto simp: join_right_def)
  show thesis
  proof (cases "a + 12 + n + 24 \<le> z")
    case True
    then show thesis using that [of "a + 12 + n" "(a + 12 + n, z, False) # ys"] xs
      by (auto simp: alloc_blocks_def free_blocks_def join_right_def)
  next
    case False
    then show thesis using that [of z ys] xs jr by (auto simp: alloc_blocks_def free_blocks_def)
  qed
qed

text \<open>
  C27. Allocation and release are inverse: giving back what \<open>rt_malloc\<close> has just returned restores the list of blocks exactly,
  with the lowest free block and the count of used bytes, and leaves the data of all other blocks alone.
\<close>

theorem heap_free_restores:
  assumes "heap_inv s bs" "rt_malloc self n s = Some (s', Returned p)" "p \<noteq> 0"
  shows "\<exists>s''. rt_free self p s' = (s'', Returned ()) \<and> heap_inv s'' bs \<and> lfree s'' = lfree s
    \<and> used_mem s'' = used_mem s \<and> same_live (live bs) s s''"
proof -
  have n: "0 < n" "RT_ALIGN n \<le> mem_size_aligned s"
  proof -
    have "\<not> (n = 0 \<or> mem_size_aligned s < RT_ALIGN n)"
    proof
      assume "n = 0 \<or> mem_size_aligned s < RT_ALIGN n"
      from rt_malloc_refused [OF this, of self] assms(2,3) show False by simp
    qed
    then show "0 < n" "RT_ALIGN n \<le> mem_size_aligned s" by simp_all
  qed
  show ?thesis
  proof (rule rt_malloc_exact [OF assms(1) n, of self])
    fix xs a z ys s1
    assume m: "bs = xs @ (a, z, False) # ys" "a + 12 + malloc_size n \<le> z"
      "rt_malloc self n s = Some (s1, Returned (a + 12))" "heap_inv s1 (xs @ alloc_blocks a z (malloc_size n) @ ys)"
      "same_area s s1" "same_live (live bs) s s1"
    then have e: "s' = s1" "p = a + 12" using assms(2) by auto
    have "no_adj (xs @ (a, z, False) # ys)" using heap_invD(2) [OF assms(1)] m(1) by simp
    then obtain y zs where al: "alloc_blocks a z (malloc_size n) @ ys = (a, y, True) # zs"
      "free_blocks xs a y zs = xs @ (a, z, False) # ys" by (rule alloc_free_blocks)
    from rt_free_found [OF m(4) [unfolded al(1)], of self] obtain s'' where
      f: "rt_free self (a + 12) s1 = (s'', Returned ())" "heap_inv s'' bs" "heap_end s'' = heap_end s1"
        "\<forall>b q. (b, q, True) \<in> set xs \<union> set zs \<longrightarrow> same_data b q (memory s1) (memory s'')"
      using al(2) m(1) by auto
    have "(b, q, True) \<in> set xs \<union> set zs" if "(b, q, True) \<in> set bs" for b q
    proof -
      have "(b, q, True) \<in> set xs \<union> set ys" using that m(1) by auto
      moreover have "set ys \<subseteq> set zs" using al(1) by (auto simp: alloc_blocks_def split: if_splits)
      ultimately show ?thesis by blast
    qed
    then have "same_live (live bs) s1 s''" using f(4) by (auto simp: same_live_def live_def)
    then have "same_live (live bs) s s''" by (rule same_live_trans [OF m(6)])
    moreover have "lfree s'' = lfree s" "used_mem s'' = used_mem s"
      using heap_invD(3,4) [OF f(2)] heap_invD(3,4) [OF assms(1)] f(3) m(5) by (simp_all add: same_area_def)
    ultimately show ?thesis using f e by blast
  qed (use assms in simp)
qed

theorem heap_free_restores_witness:
  "\<exists>s' s''. rt_malloc sample_thread 10 fresh_heap = Some (s', Returned 1012) \<and> rt_free sample_thread 1012 s' = (s'', Returned ())
     \<and> heap_inv s'' [(1000, 1088, False)]"
proof -
  obtain s' where s': "rt_malloc sample_thread 10 fresh_heap = Some (s', Returned 1012)" using fresh_malloc by blast
  from heap_free_restores [OF fresh_heap_inv(1) this] show ?thesis using s' by auto
qed

text \<open>
  C28. Resizing a block in use: it is refused and nothing changes, or (size 0) the block is released, or the new block holds at
  least the bytes asked for, starts with the data of the old one, overlaps no other block in use, and the data of those stays.
\<close>

theorem heap_realloc_keeps_data:
  assumes "heap_ok s L" "(a, z) \<in> L"
  shows "\<exists>s' q. rt_realloc self (a + 12) n s = Some (s', Returned q) \<and>
    (if q = 0 then (if RT_ALIGN n = 0 then heap_ok s' (L - {(a, z)}) \<and> same_live (L - {(a, z)}) s s' else s' = s)
     else (\<exists>b y. q = b + 12 \<and> q + RT_ALIGN n \<le> y \<and> heap_ok s' (insert (b, y) (L - {(a, z)}))
        \<and> (\<forall>(c, x) \<in> L - {(a, z)}. x \<le> b \<or> y \<le> c) \<and> same_live (L - {(a, z)}) s s'
        \<and> (\<forall>i < min (RT_ALIGN n) (z - a - 12). memory s' (q + i) = memory s (a + 12 + i))))"
proof (rule rt_realloc_ok [OF assms, of self n])
  assume "rt_realloc self (a + 12) n s = Some (s, Returned 0)" "RT_ALIGN n \<noteq> 0"
  then show ?thesis by simp
next
  fix s' assume "RT_ALIGN n = 0" "rt_realloc self (a + 12) n s = Some (s', Returned 0)" "heap_ok s' (L - {(a, z)})"
    "same_live (L - {(a, z)}) s s'"
  then show ?thesis by simp
next
  fix b y s'
  assume r: "RT_ALIGN n \<noteq> 0" "rt_realloc self (a + 12) n s = Some (s', Returned (b + 12))"
    "heap_ok s' (insert (b, y) (L - {(a, z)}))" "b + 12 + RT_ALIGN n \<le> y" "(b, y) \<notin> L - {(a, z)}"
    "same_live (L - {(a, z)}) s s'" "\<forall>i < min (RT_ALIGN n) (z - a - 12). memory s' (b + 12 + i) = memory s (a + 12 + i)"
  have "\<forall>(c, x) \<in> L - {(a, z)}. x \<le> b \<or> y \<le> c"
    using live_disjoint [OF r(3) _ insertI1] r(5) by fast
  then show ?thesis using r by (intro exI [of _ s'] exI [of _ "b + 12"]) auto
qed

theorem heap_realloc_keeps_data_witness:
  "\<exists>s s' q. heap_ok s {(1000, 1024)} \<and> rt_realloc sample_thread 1012 10 s = Some (s', Returned q)"
proof -
  obtain s where "heap_inv s [(1000, 1024, True), (1024, 1088, False)]" using fresh_malloc by blast
  then have s: "heap_ok s {(1000, 1024)}" unfolding heap_ok_def by (intro exI conjI) auto
  from heap_realloc_keeps_data [OF s, of 1000 1024 sample_thread 10] show ?thesis using s by auto
qed

section \<open>Sizes at the limits\<close>

text \<open>The three largest sizes wrap to 0 when they are aligned: the request is served with the smallest block.\<close>

lemma rt_malloc_wraps:
  assumes "2 ^ 32 - 3 \<le> n" "n < 2 ^ 32" "12 \<le> mem_size_aligned s"
  shows "rt_malloc self n s = rt_malloc self 12 s"
proof -
  have "RT_ALIGN n = 0" using assms(1,2) by (simp add: RT_ALIGN_def add32_def mod_if)
  moreover have "RT_ALIGN 12 = 12" by (simp add: RT_ALIGN_def add32_def)
  ultimately show ?thesis using assms by (simp add: rt_malloc_def MIN_SIZE_ALIGNED_def)
qed

text \<open>A free block at the very end of the heap is never used as a whole; a heap without a block in use refuses its own size.\<close>

lemma heap_whole_refused:
  assumes "heap_inv s [(heap_ptr s, heap_end s, False)]"
  shows "rt_malloc self (mem_size_aligned s) s = Some (s, Returned 0)"
proof -
  note sh = heap_shapeD [OF heap_invD(1) [OF assms]]
  have "4 dvd heap_end s" using heap_shape_blockD(6) [of s "[]"] heap_invD(1) [OF assms] by simp
  then obtain j k where "heap_end s = 4 * j" "heap_ptr s = 4 * k" using sh(4) by (auto elim!: dvdE)
  then have M: "mem_size_aligned s = 4 * (j - k - 3)" using sh(2) by simp
  have "RT_ALIGN (mem_size_aligned s) = mem_size_aligned s" using sh(2,3) unfolding M by (simp add: RT_ALIGN_def add32_def)
  moreover from this have "malloc_size (mem_size_aligned s) = mem_size_aligned s"
    using sh(6) by (simp add: malloc_size_def MIN_SIZE_ALIGNED_def)
  moreover have "heap_end s - 12 - mem_size_aligned s = heap_ptr s" using sh(2) by simp
  ultimately show ?thesis using rt_malloc_search [OF assms, of "mem_size_aligned s" self] sh(6) by simp
qed

end
