(* ===== verification/Tcp_Heap.thy ===== *)
theory Tcp_Heap
  imports Heap_Spec Tcp_Part
begin

text \<open>
  The client of the authentication center on the kernel heap: the receive buffer of \<open>tcpclient\<close> (\<open>applications/tcp_part.c\<close>) is a
  block of the heap, \<open>recv\<close> writes into it, the client adds the terminating zero, and every way out of the function gives the
  block back.  The state is the connection of \<open>Tcp_Part\<close>, the pointer \<open>recv_data\<close> and the heap; other threads are at rest.  The heap
changes by the calls the client makes and by nothing else: the steps of the client add calls to its trace, and each \<open>rt_free\<close>
among them is carried out on the heap.
\<close>

definition BUFSZ :: nat where "BUFSZ = 2048"

text \<open>\<open>recv\<close> into the buffer, and \<open>recv_data[bytes_received] = 0\<close>.\<close>

definition recv_store :: "nat \<Rightarrow> bytes \<Rightarrow> heap \<Rightarrow> heap" where
  "recv_store recv_data dat s = heap_store (recv_data + length dat) 0 (store_all heap_store recv_data dat s)"

text \<open>One call of the client: \<open>rt_free(recv_data)\<close> is the only one that acts on the heap after the allocation.\<close>

definition call_heap :: "rt_thread \<Rightarrow> nat \<Rightarrow> tcp_out \<Rightarrow> heap \<Rightarrow> heap" where
  "call_heap self recv_data e s = (case e of Free_buffer \<Rightarrow> fst (rt_free self recv_data s) | _ \<Rightarrow> s)"

text \<open>The calls a step has added to the trace, carried out in their order.\<close>

definition new_calls :: "conn \<Rightarrow> conn \<Rightarrow> tcp_out list" where
  "new_calls c c' = drop (length (trace (tcp_of c))) (trace (tcp_of c'))"

definition calls_heap :: "rt_thread \<Rightarrow> nat \<Rightarrow> tcp_out list \<Rightarrow> heap \<Rightarrow> heap" where
  "calls_heap self recv_data es s = fold (call_heap self recv_data) es s"

inductive tcp_heap_run ::
  "gm_sm3_context \<Rightarrow> (nat \<Rightarrow> u32) \<Rightarrow> rt_thread \<Rightarrow> tcp \<Rightarrow> heap \<Rightarrow> conn \<Rightarrow> nat \<Rightarrow> heap \<Rightarrow> bool"
  for stk rand self t0 s0 where
  start: "heap_alloc self BUFSZ s0 = Some (s, p) \<Longrightarrow> c = tcpclient_start host (p \<noteq> 0) sock connected t0 \<Longrightarrow>
    tcp_heap_run stk rand self t0 s0 c p (calls_heap self p (trace (tcp_of c)) s)"
| pass: "tcp_heap_run stk rand self t0 s0 c p s \<Longrightarrow> phase_of c = Open \<Longrightarrow> n \<le> int BUFSZ - 1 \<Longrightarrow> length dat = nat n \<Longrightarrow>
    s' = (if n > 0 then recv_store p dat s else s) \<Longrightarrow> c' = tcpclient_pass stk rand n dat ret c \<Longrightarrow>
    tcp_heap_run stk rand self t0 s0 c' p (calls_heap self p (new_calls c c') s')"

text \<open>The buffer is written inside its block only.\<close>

lemma recv_store_ok:
  assumes "heap_areas s A" "(p, z) \<in> A" "p + length dat < z"
  shows "heap_areas (recv_store p dat s) A" "kept memory (A - {(p, z)}) s (recv_store p dat s)"
    "memory (recv_store p dat s) (p + length dat) = 0"
    "i < length dat \<Longrightarrow> memory (recv_store p dat s) (p + i) = dat ! i"
proof -
  note a = kernel_heap.store_all_ok [OF assms(1,2), of p dat]
  have le: "p \<le> p" "p + length dat \<le> z" using assms(3) by simp_all
  show "heap_areas (recv_store p dat s) A" unfolding recv_store_def
    using kernel_heap.store_ok [OF a(1) [OF le] assms(2)] assms(3) by simp
  have "kept memory (A - {(p, z)}) (store_all heap_store p dat s) (recv_store p dat s)"
    unfolding recv_store_def kept_def
    using kernel_heap.disjoint [OF assms(1) _ assms(2)] assms(3) by (fastforce simp: kernel_heap.store_byte)
  then show "kept memory (A - {(p, z)}) s (recv_store p dat s)" using kept_trans [OF a(2) [OF le]] by blast
  show "memory (recv_store p dat s) (p + length dat) = 0" by (simp add: recv_store_def kernel_heap.store_byte)
  show "i < length dat \<Longrightarrow> memory (recv_store p dat s) (p + i) = dat ! i"
    by (simp add: recv_store_def kernel_heap.store_byte kernel_heap.store_all_byte)
qed

text \<open>The state of the heap while the client holds its buffer, or not.\<close>

definition tcp_heap_inv :: "(nat \<times> nat) set \<Rightarrow> heap \<Rightarrow> holding \<Rightarrow> nat \<Rightarrow> heap \<Rightarrow> bool" where
  "tcp_heap_inv A s0 b p s \<longleftrightarrow> kept memory A s0 s \<and>
     (if b = Held then \<exists>z. p + BUFSZ \<le> z \<and> (p, z) \<notin> A \<and> heap_areas s (insert (p, z) A) else heap_areas s A)"

text \<open>The heap follows the calls as long as they are proper: the buffer is in use exactly while it is held.\<close>

lemma call_heap_inv:
  assumes "use e (x, b) = Some (x', b')" "e \<noteq> Malloc_buffer" "tcp_heap_inv A s0 b p s"
  shows "tcp_heap_inv A s0 b' p (call_heap self p e s)"
proof (cases "e = Free_buffer")
  case True
  then have b: "b = Held" "b' = Released" using assms(1) by (auto split: if_splits)
  then obtain z where z: "(p, z) \<notin> A" "heap_areas s (insert (p, z) A)" "kept memory A s0 s"
    using assms(3) by (auto simp: tcp_heap_inv_def)
  have "insert (p, z) A - {(p, z)} = A" using z(1) by simp
  then have "heap_areas (fst (rt_free self p s)) A \<and> kept memory A s (fst (rt_free self p s))"
    using kernel_heap.release_ok [OF z(2) insertI1, of self] by simp
  then show ?thesis using True b(2) kept_trans [OF z(3)] by (simp add: tcp_heap_inv_def call_heap_def)
next
  case False
  then have "b' = b" using assms(1,2) by (cases "(e, x, b)" rule: use.cases) (auto split: if_splits)
  moreover have "call_heap self p e s = s" using False by (simp add: call_heap_def split: tcp_out.splits)
  ultimately show ?thesis using assms(3) by simp
qed

lemma calls_heap_inv:
  assumes "uses es (x, b) = Some (x', b')" "Malloc_buffer \<notin> set es" "tcp_heap_inv A s0 b p s"
  shows "tcp_heap_inv A s0 b' p (calls_heap self p es s)"
  using assms
proof (induction es arbitrary: x b s)
  case (Cons e es)
  obtain x1 b1 where u: "use e (x, b) = Some (x1, b1)" "uses es (x1, b1) = Some (x', b')"
    using Cons.prems(1) by (auto simp: bind_eq_Some_conv)
  have "tcp_heap_inv A s0 b1 p (call_heap self p e s)" using Cons.prems(2,3) by (intro call_heap_inv [OF u(1)]) auto
  from Cons.IH [OF u(2) _ this] show ?case using Cons.prems(2) by (simp add: calls_heap_def)
qed (simp add: calls_heap_def)

lemma uses_no_malloc: "uses es (x, b) = Some r \<Longrightarrow> b \<noteq> Unused \<Longrightarrow> Malloc_buffer \<notin> set es"
proof (induction es arbitrary: x b)
  case (Cons e es)
  obtain x1 b1 where u: "use e (x, b) = Some (x1, b1)" "uses es (x1, b1) = Some r"
    using Cons.prems(1) by (auto simp: bind_eq_Some_conv)
  have "e \<noteq> Malloc_buffer \<and> b1 \<noteq> Unused" using u(1) Cons.prems(2) by (cases "(e, x, b)" rule: use.cases) (auto split: if_splits)
  then show ?case using Cons.IH [OF u(2)] by auto
qed simp

text \<open>A step of the client only adds calls.\<close>

lemma pass_new_calls:
  assumes "conn_ok c" "phase_of c = Open" and c': "c' = tcpclient_pass stk rand n dat ret c"
  shows "trace (tcp_of c') = trace (tcp_of c) @ new_calls c c'"
proof -
  have cl: "\<exists>es. trace t' = trace (tcp_of c) @ es" if "classify stk rand msg (tcp_of c) = Some (t', go)" for msg t' go
    using classify_ok [OF that] assms(1,2) by (auto simp: conn_ok_def)
  have "\<exists>es. trace (tcp_of c') = trace (tcp_of c) @ es"
    unfolding c' tcpclient_pass_def reply_def close_conn_def Let_def
    by (auto dest: cl split: option.splits)
  then show ?thesis by (auto simp: new_calls_def)
qed

lemma tcp_heap_run_inv:
  assumes "tcp_heap_run stk rand self t0 s0 c p s" and t0: "tcp_ok t0" "trace t0 = []" and A: "heap_areas s0 A"
  shows "conn_ok c \<and> (\<exists>x b. held (trace (tcp_of c)) = Some (x, b) \<and> tcp_heap_inv A s0 b p s)"
  using assms(1)
proof induction
  case (start s p c host sock connected)
  have c: "conn_ok c" using start(2) tcpclient_start_ok [OF t0] by simp
  then obtain x b where h: "held (trace (tcp_of c)) = Some (x, b)" by (auto simp: conn_ok_def split: if_splits)
  have alloc_case: "heap_alloc self BUFSZ s0 = Some (s0, 0) \<or> (\<exists>p z s'. heap_alloc self BUFSZ s0 = Some (s', p) \<and> 0 < p
     \<and> p + BUFSZ \<le> z \<and> (p, z) \<notin> A \<and> heap_areas s' (insert (p, z) A) \<and> kept memory A s0 s')"
    by (rule kernel_heap.alloc_cases [OF A]) (simp add: BUFSZ_def)
  show ?case
  proof (cases "p = 0")
    case True
    then have "s = s0" "trace (tcp_of c) = [Say No_memory]" using alloc_case start(1,2) t0(2) by (auto simp: tcpclient_start_def)
    then show ?thesis using c A by (simp add: tcp_heap_inv_def held_def calls_heap_def call_heap_def)
  next
    case False
    then obtain z where z: "p + BUFSZ \<le> z" "(p, z) \<notin> A" "heap_areas s (insert (p, z) A)" "kept memory A s0 s"
      using alloc_case start(1) by auto
    have "\<exists>es. trace (tcp_of c) = Malloc_buffer # es"
      using start(2) t0(2) False by (simp add: tcpclient_start_def Let_def split: prod.splits)
    then obtain es where es: "trace (tcp_of c) = Malloc_buffer # es" by blast
    then have u: "uses es (Unused, Held) = Some (x, b)" using h by (simp add: held_def)
    have "tcp_heap_inv A s0 Held p s" using z by (auto simp: tcp_heap_inv_def)
    from calls_heap_inv [OF u uses_no_malloc [OF u] this, of self] show ?thesis
      using c h es by (simp add: calls_heap_def call_heap_def)
  qed
next
  case (pass c p s n dat s' c' ret)
  have c': "conn_ok c'" using pass tcpclient_pass_ok by blast
  have hc: "held (trace (tcp_of c)) = Some (Held, Held)" using pass(2,7) by (auto simp: conn_ok_def)
  obtain x b where h: "held (trace (tcp_of c')) = Some (x, b)" using c' by (auto simp: conn_ok_def split: if_splits)
  have "trace (tcp_of c') = trace (tcp_of c) @ new_calls c c'" using pass_new_calls pass(2,6,7) by blast
  then have u: "uses (new_calls c c') (Held, Held) = Some (x, b)" using h hc by (metis held_snoc bind.bind_lunit)
  obtain z where z: "p + BUFSZ \<le> z" "(p, z) \<notin> A" "heap_areas s (insert (p, z) A)" "kept memory A s0 s"
    using pass(7) hc by (auto simp: tcp_heap_inv_def)
  have "heap_areas s' (insert (p, z) A) \<and> kept memory A s s'"
  proof (cases "n > 0")
    case True
    then have "p + length dat < z" using pass(3,4) z(1) by (simp add: BUFSZ_def)
    moreover have "insert (p, z) A - {(p, z)} = A" using z(2) by simp
    ultimately show ?thesis using recv_store_ok(1,2) [OF z(3) insertI1] True pass(5) by simp
  next
    case False
    then show ?thesis using pass(5) z(3) by simp
  qed
  then have "tcp_heap_inv A s0 Held p s'" using z kept_trans [OF z(4)] by (auto simp: tcp_heap_inv_def)
  from calls_heap_inv [OF u uses_no_malloc [OF u] this] show ?case using c' h by auto
qed

text \<open>
  C29. The client of the center and the heap: whatever the network delivers and however the client ends, its receive buffer is
  one block of the heap that overlaps no other block in use, the data of the other blocks is never touched, and when the client
  has returned the blocks in use are exactly those from before.
\<close>

theorem tcp_buffer_returned:
  assumes "tcp_heap_run stk rand self t0 s0 c p s" "tcp_ok t0" "trace t0 = []" "heap_areas s0 A"
  shows "kept memory A s0 s \<and> (phase_of c = Closed \<longrightarrow> heap_areas s A)
    \<and> (phase_of c \<noteq> Closed \<longrightarrow> (\<exists>z. p + BUFSZ \<le> z \<and> (p, z) \<notin> A \<and> heap_areas s (insert (p, z) A)
          \<and> (\<forall>(q, y) \<in> A. y \<le> p \<or> z \<le> q)))"
proof -
  obtain x b where i: "conn_ok c" "held (trace (tcp_of c)) = Some (x, b)" "tcp_heap_inv A s0 b p s"
    using tcp_heap_run_inv [OF assms] by blast
  show ?thesis
  proof (cases "phase_of c = Closed")
    case True
    then have "b \<noteq> Held" using i(1,2) by (auto simp: conn_ok_def)
    then show ?thesis using i(3) True by (simp add: tcp_heap_inv_def)
  next
    case False
    then have "b = Held" using i(1,2) by (auto simp: conn_ok_def)
    then obtain z where z: "p + BUFSZ \<le> z" "(p, z) \<notin> A" "heap_areas s (insert (p, z) A)" "kept memory A s0 s"
      using i(3) by (auto simp: tcp_heap_inv_def)
    have "\<forall>(q, y) \<in> A. y \<le> p \<or> z \<le> q" using kernel_heap.disjoint [OF z(3) _ insertI1] z(2) by fast
    then show ?thesis using False z by blast
  qed
qed

text \<open>The heap of the board: 16384 bytes.\<close>

definition board_heap :: heap where
  "board_heap = rt_system_heap_init 0x20000400 0x20004400 \<lparr>memory = \<lambda>_. 0, heap_ptr = 0, heap_end = 0, lfree = 0,
     mem_size_aligned = 0, used_mem = 0, max_mem = 0, heap_sem = rt_sem_init 0 RT_IPC_FLAG_PRIO\<rparr>"

lemma board_heap_areas: "heap_areas board_heap {}" "heap_inv board_heap [(0x20000400, 0x200043F4, False)]"
proof -
  show "heap_inv board_heap [(0x20000400, 0x200043F4, False)]"
    using rt_system_heap_init_inv(1) [of "0x20000400" "0x20004400"]
    by (simp add: board_heap_def RT_ALIGN_def RT_ALIGN_DOWN_def add32_def)
  then have "heap_ok board_heap {}" unfolding heap_ok_def by (intro exI conjI) auto
  then show "heap_areas board_heap {}" by (simp add: heap_areas_def)
qed

lemma board_heap_alloc: "\<exists>s p. heap_alloc self BUFSZ board_heap = Some (s, p) \<and> p \<noteq> 0"
proof -
  have "heap_end board_heap = 0x200043F4" "mem_size_aligned board_heap = 0x3FE8"
    by (simp_all add: board_heap_def rt_system_heap_init_def Let_def RT_ALIGN_def RT_ALIGN_DOWN_def add32_def SIZEOF_STRUCT_MEM_def heap_at_def)
  then show ?thesis
    using rt_malloc_found [of board_heap "[]" "0x20000400" "0x200043F4" "[]" BUFSZ self] board_heap_areas(2)
    by (auto simp: heap_alloc_def malloc_size_def MIN_SIZE_ALIGNED_def BUFSZ_def RT_ALIGN_def add32_def)
qed

text \<open>A run on it that gets its buffer and a socket, and fails in the first \<open>recv\<close>: the blocks in use are none, as before.\<close>

theorem tcp_buffer_returned_witness:
  "\<exists>c p s. tcp_heap_run stack_ctx (\<lambda>i. 0) \<lparr>th_id = 1, current_priority = 5\<rparr> tcp_boot board_heap c p s
     \<and> p \<noteq> 0 \<and> Free_buffer \<in> set (trace (tcp_of c)) \<and> phase_of c = Closed \<and> heap_areas s {}"
proof -
  define self where "self = \<lparr>th_id = 1, current_priority = 5\<rparr>"
  obtain s p where a: "heap_alloc self BUFSZ board_heap = Some (s, p)" "p \<noteq> 0" using board_heap_alloc by blast
  define c0 where "c0 = tcpclient_start True (p \<noteq> 0) 3 0 tcp_boot"
  define c where "c = tcpclient_pass stack_ctx (\<lambda>i. 0) 0 [] 1 c0"
  have c0: "phase_of c0 = Open" using a(2) by (simp add: c0_def tcpclient_start_def Let_def split: prod.splits)
  have c: "phase_of c = Closed" "Free_buffer \<in> set (trace (tcp_of c))"
    by (simp_all add: c_def tcpclient_pass_def close_conn_def)
  have "tcp_heap_run stack_ctx (\<lambda>i. 0) self tcp_boot board_heap c0 p (calls_heap self p (trace (tcp_of c0)) s)"
    by (rule tcp_heap_run.start [OF a(1)]) (simp add: c0_def)
  then have r: "tcp_heap_run stack_ctx (\<lambda>i. 0) self tcp_boot board_heap c p
      (calls_heap self p (new_calls c0 c) (calls_heap self p (trace (tcp_of c0)) s))"
    by (rule tcp_heap_run.pass [where n = 0 and dat = "[]" and ret = 1]) (simp_all add: c0 c_def BUFSZ_def)
  show ?thesis
    using tcp_buffer_returned [OF r tcp_boot_ok board_heap_areas(1)] r a(2) c unfolding self_def by blast
qed

end
