(* ===== verification/Timer.thy ===== *)
theory Timer
  imports Prelude
begin

text \<open>
  The system timers (\<open>rt-thread/src/timer.c\<close>, hard timers with \<open>RT_TIMER_SKIP_LIST_LEVEL\<close> 1, so the skip list is one list) and
  the tick of \<open>rt-thread/src/clock.c\<close>.  Timers are numbered; the list holds the running timers, the one that fires first at the
  head.  Ticks are 32-bit words and wrap around.  The timeout function is a parameter that acts on the whole state, which may be
  any extension of \<open>timer_sys\<close>; \<open>fired_list\<close> is the temporary list of \<open>rt_timer_check\<close>, from which a timeout function removes
  its own timer when it stops or starts it.  \<open>None\<close> is a check that does not end.
\<close>

record rt_timer =
  tm_activated :: bool
  tm_periodic :: bool
  tm_init_tick :: u32
  tm_timeout_tick :: u32

record timer_sys =
  tmr :: "nat \<Rightarrow> rt_timer"
  timer_list :: "nat list"
  fired_list :: "nat list"
  tick_now :: u32

definition RT_TICK_MAX :: u32 where "RT_TICK_MAX = 0xFFFFFFFF"

definition upd_timer :: "nat \<Rightarrow> (rt_timer \<Rightarrow> rt_timer) \<Rightarrow> 'a timer_sys_scheme \<Rightarrow> 'a timer_sys_scheme" where
  "upd_timer t f s = s\<lparr>tmr := (tmr s)(t := f (tmr s t))\<rparr>"

definition timer_init :: "u32 \<Rightarrow> bool \<Rightarrow> rt_timer" where
  "timer_init time periodic = \<lparr>tm_activated = False, tm_periodic = periodic, tm_init_tick = time, tm_timeout_tick = 0\<rparr>"

definition timer_list_next_timeout :: "'a timer_sys_scheme \<Rightarrow> u32" where
  "timer_list_next_timeout s =
     (case timer_list s of [] \<Rightarrow> RT_TICK_MAX | t # _ \<Rightarrow> tm_timeout_tick (tmr s t))"

text \<open>\<open>rt_list_remove\<close> takes the timer out of the list it is in.\<close>

definition timer_remove :: "nat \<Rightarrow> 'a timer_sys_scheme \<Rightarrow> 'a timer_sys_scheme" where
  "timer_remove t s = s\<lparr>timer_list := removeAll t (timer_list s), fired_list := removeAll t (fired_list s)\<rparr>"

definition timer_deactivate :: "nat \<Rightarrow> 'a timer_sys_scheme \<Rightarrow> 'a timer_sys_scheme" where
  "timer_deactivate t s = upd_timer t (\<lambda>x. x\<lparr>tm_activated := False\<rparr>) s"

definition rt_timer_detach :: "nat \<Rightarrow> 'a timer_sys_scheme \<Rightarrow> 'a timer_sys_scheme" where
  "rt_timer_detach t s = timer_deactivate t (timer_remove t s)"

text \<open>The walk of \<open>rt_timer_start\<close> to the place of a timer that fires at \<open>tmo\<close>.\<close>

fun timer_insert :: "(nat \<Rightarrow> u32) \<Rightarrow> nat \<Rightarrow> u32 \<Rightarrow> nat list \<Rightarrow> nat list" where
  "timer_insert timeout timer tmo [] = [timer]"
| "timer_insert timeout timer tmo (t # ts) =
     (if timeout t - tmo = 0 then t # timer_insert timeout timer tmo ts
      else if timeout t - tmo < RT_TICK_MAX div 2 then timer # t # ts
      else t # timer_insert timeout timer tmo ts)"

definition rt_timer_start :: "nat \<Rightarrow> 'a timer_sys_scheme \<Rightarrow> 'a timer_sys_scheme" where
  "rt_timer_start timer s =
     (let s = timer_deactivate timer (timer_remove timer s);
          s = upd_timer timer (\<lambda>x. x\<lparr>tm_timeout_tick := tick_now s + tm_init_tick x\<rparr>) s;
          s = s\<lparr>timer_list := timer_insert (\<lambda>t. tm_timeout_tick (tmr s t)) timer (tm_timeout_tick (tmr s timer)) (timer_list s)\<rparr>
      in upd_timer timer (\<lambda>x. x\<lparr>tm_activated := True\<rparr>) s)"

text \<open>\<open>-RT_ERROR\<close> (-1) when the timer does not run.\<close>

definition rt_timer_stop :: "nat \<Rightarrow> 'a timer_sys_scheme \<Rightarrow> 'a timer_sys_scheme \<times> int" where
  "rt_timer_stop t s =
     (if \<not> tm_activated (tmr s t) then (s, - 1) else (timer_deactivate t (timer_remove t s), 0))"

datatype timer_ctrl = CTRL_SET_TIME u32 | CTRL_GET_TIME | CTRL_SET_ONESHOT | CTRL_SET_PERIODIC | CTRL_GET_STATE | CTRL_OTHER

text \<open>The state, and what is written to \<open>*arg\<close>.\<close>

definition rt_timer_control :: "nat \<Rightarrow> timer_ctrl \<Rightarrow> 'a timer_sys_scheme \<Rightarrow> 'a timer_sys_scheme \<times> u32 option" where
  "rt_timer_control t cmd s =
     (case cmd of
        CTRL_GET_TIME \<Rightarrow> (s, Some (tm_init_tick (tmr s t)))
      | CTRL_SET_TIME v \<Rightarrow> (upd_timer t (\<lambda>x. x\<lparr>tm_init_tick := v\<rparr>) s, None)
      | CTRL_SET_ONESHOT \<Rightarrow> (upd_timer t (\<lambda>x. x\<lparr>tm_periodic := False\<rparr>) s, None)
      | CTRL_SET_PERIODIC \<Rightarrow> (upd_timer t (\<lambda>x. x\<lparr>tm_periodic := True\<rparr>) s, None)
      | CTRL_GET_STATE \<Rightarrow> (s, Some (if tm_activated (tmr s t) then 1 else 0))
      | CTRL_OTHER \<Rightarrow> (s, None))"

text \<open>One timer that is due: up to its timeout function, and from there on.\<close>

definition timer_fire :: "nat \<Rightarrow> 'a timer_sys_scheme \<Rightarrow> 'a timer_sys_scheme" where
  "timer_fire t s =
     (let s = timer_remove t s;
          s = (if \<not> tm_periodic (tmr s t) then timer_deactivate t s else s)
      in s\<lparr>fired_list := t # fired_list s\<rparr>)"

definition timer_after :: "nat \<Rightarrow> 'a timer_sys_scheme \<Rightarrow> 'a timer_sys_scheme" where
  "timer_after t s =
     (if fired_list s = [] then s
      else let s = timer_remove t s
      in if tm_periodic (tmr s t) \<and> tm_activated (tmr s t) then rt_timer_start t (timer_deactivate t s) else s)"

partial_function (option) timer_check_loop ::
  "(nat \<Rightarrow> 'a timer_sys_scheme \<Rightarrow> 'a timer_sys_scheme) \<Rightarrow> u32 \<Rightarrow> 'a timer_sys_scheme \<Rightarrow> 'a timer_sys_scheme option" where
  "timer_check_loop timeout_func current_tick s =
     (case timer_list s of
        [] \<Rightarrow> Some s
      | t # _ \<Rightarrow>
          if current_tick - tm_timeout_tick (tmr s t) < RT_TICK_MAX div 2
          then timer_check_loop timeout_func (tick_now (timeout_func t (timer_fire t s)))
                 (timer_after t (timeout_func t (timer_fire t s)))
          else Some s)"

definition rt_timer_check ::
  "(nat \<Rightarrow> 'a timer_sys_scheme \<Rightarrow> 'a timer_sys_scheme) \<Rightarrow> 'a timer_sys_scheme \<Rightarrow> 'a timer_sys_scheme option" where
  "rt_timer_check timeout_func s = timer_check_loop timeout_func (tick_now s) (s\<lparr>fired_list := []\<rparr>)"

text \<open>\<open>rt_tick_from_millisecond\<close> with 1000 ticks per second; the products of \<open>int\<close> are 32 bits wide.\<close>

definition rt_tick_from_millisecond :: "int \<Rightarrow> u32" where
  "rt_tick_from_millisecond ms =
     (if ms < 0 then - 1
      else of_int (1000 * (ms div 1000)) + of_int ((1000 * (ms mod 1000) + 999) div 1000))"

section \<open>Time to go\<close>

text \<open>The ticks until a timer fires, read at tick \<open>now\<close>.\<close>

definition to_go :: "u32 \<Rightarrow> u32 \<Rightarrow> nat" where
  "to_go now tmo = unat (tmo - now)"

lemma half_tick: "unat (RT_TICK_MAX div 2) = 0x7FFFFFFF"
  by (simp add: RT_TICK_MAX_def)

lemma to_go_diff:
  assumes "to_go now y \<le> to_go now x"
  shows "unat (x - y) = to_go now x - to_go now y"
proof -
  have "x - y = (x - now) - (y - now)" by simp
  moreover have "y - now \<le> x - now" using assms by (simp add: to_go_def word_le_nat_alt)
  ultimately show ?thesis by (metis to_go_def unat_sub)
qed

lemma to_go_diff_wrap:
  assumes "to_go now x < to_go now y"
  shows "unat (x - y) = 2 ^ 32 - (to_go now y - to_go now x)"
proof -
  have s: "size x = 32" "size y = 32" by (simp_all add: word_size)
  show ?thesis using assms unat_u32_less [of x] unat_u32_less [of y] unat_u32_less [of now]
    unfolding to_go_def unat_sub_if_size s by (simp add: add.commute split: if_splits)
qed

lemma to_go_tick: "0 < to_go now tmo \<Longrightarrow> to_go (now + 1) tmo = to_go now tmo - 1"
  using to_go_diff [of now "now + 1" tmo] unat_gt_0 [of "tmo - now"] by (simp add: to_go_def)

text \<open>Two timers less than half the range ahead compare as their times to go do.\<close>

lemma tick_compare:
  assumes "to_go now x < 0x7FFFFFFF" "to_go now y < 0x7FFFFFFF"
  shows "x - y = 0 \<longleftrightarrow> to_go now x = to_go now y"
    "x - y < RT_TICK_MAX div 2 \<longleftrightarrow> to_go now y \<le> to_go now x"
proof -
  show "x - y = 0 \<longleftrightarrow> to_go now x = to_go now y" by (simp add: to_go_def flip: word_unat_eq_iff)
  show "x - y < RT_TICK_MAX div 2 \<longleftrightarrow> to_go now y \<le> to_go now x"
  proof (cases "to_go now y \<le> to_go now x")
    case True
    then show ?thesis using to_go_diff [OF True] assms by (simp add: word_less_nat_alt half_tick)
  next
    case False
    then show ?thesis using to_go_diff_wrap [of now x y] assms by (simp add: word_less_nat_alt half_tick)
  qed
qed

text \<open>A timer is due from the tick it fires at on.\<close>

lemma tick_due:
  assumes "to_go now tmo < 0x7FFFFFFF"
  shows "now - tmo < RT_TICK_MAX div 2 \<longleftrightarrow> to_go now tmo = 0"
    "now + 1 - tmo < RT_TICK_MAX div 2 \<longleftrightarrow> to_go now tmo \<le> 1"
proof -
  have n: "to_go now now = 0" by (simp add: to_go_def)
  show "now - tmo < RT_TICK_MAX div 2 \<longleftrightarrow> to_go now tmo = 0" using tick_compare(2) [of now now tmo] assms n by simp
  have "to_go now (now + 1) = 1" by (simp add: to_go_def)
  then show "now + 1 - tmo < RT_TICK_MAX div 2 \<longleftrightarrow> to_go now tmo \<le> 1"
    using tick_compare(2) [of now "now + 1" tmo] assms by simp
qed

section \<open>The order of the list\<close>

abbreviation timer_key :: "u32 \<Rightarrow> 'a timer_sys_scheme \<Rightarrow> nat \<Rightarrow> nat" where
  "timer_key now s t \<equiv> to_go now (tm_timeout_tick (tmr s t))"

definition timers_ordered :: "u32 \<Rightarrow> 'a timer_sys_scheme \<Rightarrow> bool" where
  "timers_ordered now s \<longleftrightarrow> distinct (timer_list s) \<and> sorted (map (timer_key now s) (timer_list s))
     \<and> (\<forall>t \<in> set (timer_list s). timer_key now s t < 0x7FFFFFFF)"

text \<open>At rest: the timers of the list are those that run.\<close>

definition timers_ok :: "'a timer_sys_scheme \<Rightarrow> bool" where
  "timers_ok s \<longleftrightarrow> timers_ordered (tick_now s) s \<and> set (timer_list s) = {t. tm_activated (tmr s t)} \<and> fired_list s = []"

lemma timer_insert_split:
  assumes "\<forall>t \<in> set ts. to_go now (timeout t) < 0x7FFFFFFF" "to_go now tmo < 0x7FFFFFFF"
  shows "timer_insert timeout x tmo ts = takeWhile (\<lambda>t. to_go now (timeout t) \<le> to_go now tmo) ts
    @ x # dropWhile (\<lambda>t. to_go now (timeout t) \<le> to_go now tmo) ts"
  using assms(1)
proof (induction ts)
  case (Cons t ts)
  then show ?case using tick_compare [of now "timeout t" tmo] assms(2) by auto
qed simp

lemma upd_timer_simps [simp]:
  "timer_list (upd_timer t f s) = timer_list s" "fired_list (upd_timer t f s) = fired_list s"
  "tick_now (upd_timer t f s) = tick_now s" "timer_sys.more (upd_timer t f s) = timer_sys.more s"
  "tmr (upd_timer t f s) = (tmr s)(t := f (tmr s t))"
  by (simp_all add: upd_timer_def)

lemma timer_remove_simps [simp]:
  "tmr (timer_remove t s) = tmr s" "timer_list (timer_remove t s) = removeAll t (timer_list s)"
  "fired_list (timer_remove t s) = removeAll t (fired_list s)" "tick_now (timer_remove t s) = tick_now s"
  "timer_sys.more (timer_remove t s) = timer_sys.more s"
  by (simp_all add: timer_remove_def)

lemma timer_deactivate_simps [simp]:
  "timer_list (timer_deactivate t s) = timer_list s" "fired_list (timer_deactivate t s) = fired_list s"
  "tick_now (timer_deactivate t s) = tick_now s" "timer_sys.more (timer_deactivate t s) = timer_sys.more s"
  "tmr (timer_deactivate t s) = (tmr s)(t := (tmr s t)\<lparr>tm_activated := False\<rparr>)"
  by (simp_all add: timer_deactivate_def)

lemma rt_timer_start_simps:
  fixes s t
  defines "tmo \<equiv> tick_now s + tm_init_tick (tmr s t)"
  defines "s' \<equiv> rt_timer_start t s"
  shows "tmr s' = (tmr s)(t := (tmr s t)\<lparr>tm_timeout_tick := tmo, tm_activated := True\<rparr>)"
    "timer_list s' = timer_insert (\<lambda>u. tm_timeout_tick (tmr s' u)) t tmo (removeAll t (timer_list s))"
    "fired_list s' = removeAll t (fired_list s)" "tick_now s' = tick_now s" "timer_sys.more s' = timer_sys.more s"
proof -
  have cong: "timer_insert f t w (removeAll t ts) = timer_insert g t w (removeAll t ts)"
    if "\<And>u. u \<noteq> t \<Longrightarrow> f u = g u" for f g ts w
    using that by (induction ts) auto
  show "tmr s' = (tmr s)(t := (tmr s t)\<lparr>tm_timeout_tick := tmo, tm_activated := True\<rparr>)"
    by (simp add: s'_def rt_timer_start_def Let_def tmo_def)
  then show "timer_list s' = timer_insert (\<lambda>u. tm_timeout_tick (tmr s' u)) t tmo (removeAll t (timer_list s))"
    unfolding s'_def by (simp add: rt_timer_start_def Let_def tmo_def) (rule cong, simp)
  show "fired_list s' = removeAll t (fired_list s)" "tick_now s' = tick_now s" "timer_sys.more s' = timer_sys.more s"
    by (simp_all add: s'_def rt_timer_start_def Let_def)
qed

lemma sorted_removeAll: "sorted (map f xs) \<Longrightarrow> sorted (map f (removeAll x xs))"
  by (induction xs) auto

lemma timers_ordered_remove: "timers_ordered now s \<Longrightarrow> timers_ordered now (timer_remove t s)"
  by (simp add: timers_ordered_def distinct_removeAll sorted_removeAll)

lemma dropWhile_greater:
  fixes f :: "'a \<Rightarrow> nat"
  assumes "sorted (map f xs)"
  shows "\<forall>t \<in> set (dropWhile (\<lambda>t. f t \<le> k) xs). k < f t"
  using assms
proof (induction xs)
  case (Cons a xs)
  then show ?case by (cases "f a \<le> k") auto
qed simp

lemma timers_ordered_cong:
  assumes "timer_list s' = timer_list s" "\<And>u. tm_timeout_tick (tmr s' u) = tm_timeout_tick (tmr s u)"
  shows "timers_ordered now s' \<longleftrightarrow> timers_ordered now s"
  by (simp add: timers_ordered_def assms)

lemma sorted_insert_at:
  fixes f :: "'a \<Rightarrow> nat"
  assumes "sorted (map f xs)"
  shows "sorted (map f (takeWhile (\<lambda>t. f t \<le> f x) xs @ x # dropWhile (\<lambda>t. f t \<le> f x) xs))"
proof -
  let ?a = "takeWhile (\<lambda>t. f t \<le> f x) xs" and ?b = "dropWhile (\<lambda>t. f t \<le> f x) xs"
  have "\<forall>t \<in> set ?b. f x < f t" by (rule dropWhile_greater [OF assms])
  moreover have "sorted (map f (?a @ ?b))" using assms by simp
  then have "sorted (map f ?a)" "sorted (map f ?b)" unfolding map_append sorted_append by auto
  moreover have "\<forall>t \<in> set ?a. f t \<le> f x" by (auto dest: set_takeWhileD)
  ultimately show ?thesis by (fastforce simp: sorted_append)
qed

lemma distinct_insert_at:
  assumes "distinct xs" "x \<notin> set xs"
  shows "distinct (takeWhile P xs @ x # dropWhile P xs)"
proof -
  have "set (takeWhile P xs) \<inter> set (dropWhile P xs) = {}"
    using assms(1) distinct_append [of "takeWhile P xs" "dropWhile P xs"] unfolding takeWhile_dropWhile_id by blast
  then show ?thesis using assms by (auto dest: set_takeWhileD set_dropWhileD)
qed

text \<open>A timer started at a tick no later than half the range ahead of \<open>now\<close> goes behind all that fire no later.\<close>

lemma rt_timer_start_ordered:
  assumes ord: "timers_ordered now s" and k: "to_go now (tick_now s + tm_init_tick (tmr s t)) < 0x7FFFFFFF"
  defines "s' \<equiv> rt_timer_start t s"
  shows "timers_ordered now s'"
    "timer_list s' = takeWhile (\<lambda>u. timer_key now s' u \<le> timer_key now s' t) (removeAll t (timer_list s))
      @ t # dropWhile (\<lambda>u. timer_key now s' u \<le> timer_key now s' t) (removeAll t (timer_list s))"
proof -
  note r = rt_timer_start_simps [of t s, folded s'_def]
  let ?xs = "removeAll t (timer_list s)" and ?f = "timer_key now s'"
  have kt: "?f t = to_go now (tick_now s + tm_init_tick (tmr s t))" by (simp add: r(1))
  have same: "?f u = timer_key now s u" if "u \<noteq> t" for u using that by (simp add: r(1))
  have lt: "\<forall>u \<in> set ?xs. ?f u < 0x7FFFFFFF" using ord same by (auto simp: timers_ordered_def)
  show li: "timer_list s' = takeWhile (\<lambda>u. ?f u \<le> ?f t) ?xs @ t # dropWhile (\<lambda>u. ?f u \<le> ?f t) ?xs"
    unfolding r(2) kt by (rule timer_insert_split) (use lt k in auto)
  have m: "map ?f ?xs = map (timer_key now s) ?xs" using same by auto
  have so: "sorted (map ?f ?xs)"
    unfolding m by (rule sorted_removeAll) (use ord in \<open>simp add: timers_ordered_def\<close>)
  have "sorted (map ?f (timer_list s'))" unfolding li by (rule sorted_insert_at [OF so])
  moreover have "distinct (timer_list s')" unfolding li
    by (rule distinct_insert_at) (use ord in \<open>simp_all add: timers_ordered_def distinct_removeAll\<close>)
  moreover have "\<forall>u \<in> set (timer_list s'). ?f u < 0x7FFFFFFF" unfolding li
    using lt k kt by (auto dest: set_takeWhileD set_dropWhileD)
  ultimately show "timers_ordered now s'" by (simp add: timers_ordered_def)
qed

section \<open>The check\<close>

text \<open>A timeout function that leaves the timers alone, as \<open>rt_thread_timeout\<close> does.\<close>

definition timer_quiet :: "(nat \<Rightarrow> 'a timer_sys_scheme \<Rightarrow> 'a timer_sys_scheme) \<Rightarrow> bool" where
  "timer_quiet cb \<longleftrightarrow> (\<forall>t s. tmr (cb t s) = tmr s \<and> timer_list (cb t s) = timer_list s
     \<and> fired_list (cb t s) = fired_list s \<and> tick_now (cb t s) = tick_now s)"

definition timer_step ::
  "(nat \<Rightarrow> 'a timer_sys_scheme \<Rightarrow> 'a timer_sys_scheme) \<Rightarrow> nat \<Rightarrow> 'a timer_sys_scheme \<Rightarrow> 'a timer_sys_scheme" where
  "timer_step cb t s = timer_after t (cb t (timer_fire t s))"

text \<open>The state in the middle of a check at tick \<open>now + 1\<close>.\<close>

definition check_inv :: "u32 \<Rightarrow> 'a timer_sys_scheme \<Rightarrow> bool" where
  "check_inv now s \<longleftrightarrow> timers_ordered now s \<and> set (timer_list s) = {t. tm_activated (tmr s t)} \<and> fired_list s = []
     \<and> tick_now s = now + 1
     \<and> (\<forall>t. tm_periodic (tmr s t) \<longrightarrow> tm_init_tick (tmr s t) \<noteq> 0 \<and> tm_init_tick (tmr s t) < 0x7FFFFFFE)"

lemma takeWhile_insert_at:
  assumes "\<not> P x" "\<And>u. P u \<Longrightarrow> Q u"
  shows "takeWhile P (takeWhile Q ts @ x # dropWhile Q ts) = takeWhile P ts"
  using assms by (induction ts) auto

lemma timer_step_one_shot:
  assumes "timer_quiet cb" "\<not> tm_periodic (tmr s t)" "fired_list s = []"
  defines "s' \<equiv> timer_step cb t s"
  shows "tmr s' = (tmr s)(t := (tmr s t)\<lparr>tm_activated := False\<rparr>)" "timer_list s' = removeAll t (timer_list s)"
    "fired_list s' = []" "tick_now s' = tick_now s"
  using assms by (simp_all add: timer_step_def timer_after_def timer_fire_def Let_def timer_quiet_def)

lemma timer_step_periodic:
  assumes "timer_quiet cb" "tm_periodic (tmr s t)" "tm_activated (tmr s t)" "fired_list s = []"
  shows "timer_step cb t s = rt_timer_start t (timer_deactivate t (timer_remove t (cb t (timer_fire t s))))"
    "tmr (cb t (timer_fire t s)) = tmr s" "timer_list (cb t (timer_fire t s)) = removeAll t (timer_list s)"
    "fired_list (cb t (timer_fire t s)) = [t]" "tick_now (cb t (timer_fire t s)) = tick_now s"
  using assms by (simp_all add: timer_step_def timer_after_def timer_fire_def Let_def timer_quiet_def)

lemma timer_step_inv:
  assumes q: "timer_quiet cb" and inv: "check_inv now s" and l: "timer_list s = t # ts" and due: "timer_key now s t \<le> 1"
  defines "s' \<equiv> timer_step cb t s" and "due \<equiv> \<lambda>s u. timer_key now s u \<le> 1"
  shows "check_inv now s'" "takeWhile (due s') (timer_list s') = takeWhile (due s) ts"
proof -
  have o: "distinct (t # ts)" "timers_ordered now s" "tm_activated (tmr s t)" "fired_list s = []" "tick_now s = now + 1"
    using inv l by (auto simp: check_inv_def timers_ordered_def)
  have rm: "removeAll t (timer_list s) = ts" using o(1) l by simp
  have "check_inv now s' \<and> takeWhile (due s') (timer_list s') = takeWhile (due s) ts"
  proof (cases "tm_periodic (tmr s t)")
    case False
    note r = timer_step_one_shot [OF q False o(4), folded s'_def, unfolded rm]
    have key: "timer_key now s' u = timer_key now s u" for u by (simp add: r(1))
    have "timers_ordered now s'" using o(2) l by (simp add: timers_ordered_def key r(2))
    moreover have "set ts = {u. tm_activated (tmr s' u)}" using inv l o(1) by (auto simp: check_inv_def r(1))
    moreover have "tm_periodic (tmr s' u) = tm_periodic (tmr s u)" "tm_init_tick (tmr s' u) = tm_init_tick (tmr s u)" for u
      by (simp_all add: r(1))
    ultimately have "check_inv now s'" using inv r(2-4) by (simp add: check_inv_def)
    then show ?thesis by (simp add: due_def key r(2))
  next
    case True
    note st = timer_step_periodic [OF q True o(3,4), unfolded rm]
    define v where "v = timer_deactivate t (timer_remove t (cb t (timer_fire t s)))"
    have s': "s' = rt_timer_start t v" by (simp add: s'_def st(1) v_def)
    have vf: "tmr v = (tmr s)(t := (tmr s t)\<lparr>tm_activated := False\<rparr>)" "timer_list v = ts" "fired_list v = []"
      "tick_now v = now + 1" using st(2-5) o(1,5) by (simp_all add: v_def)
    have per: "tm_init_tick (tmr s t) \<noteq> 0" "tm_init_tick (tmr s t) < 0x7FFFFFFE"
      using inv True by (simp_all add: check_inv_def)
    have kn: "to_go now (now + 1 + tm_init_tick (tmr s t)) = 1 + unat (tm_init_tick (tmr s t))"
    proof -
      have "unat (tm_init_tick (tmr s t)) < 0x7FFFFFFE" using per(2) by (simp add: word_less_nat_alt)
      then show ?thesis by (simp add: to_go_def unat_word_ariths)
    qed
    have lt: "unat (tm_init_tick (tmr s t)) < 0x7FFFFFFE" using per(2) by (simp add: word_less_nat_alt)
    have pos: "0 < unat (tm_init_tick (tmr s t))" using per(1) by (simp add: unat_gt_0)
    have "tm_timeout_tick (tmr v u) = tm_timeout_tick (tmr s u)" for u by (simp add: vf)
    then have vo: "timers_ordered now v" using o(1,2) l by (simp add: timers_ordered_def vf(2))
    have kv: "to_go now (tick_now v + tm_init_tick (tmr v t)) < 0x7FFFFFFF" using kn lt by (simp add: vf)
    note r = rt_timer_start_ordered [OF vo kv, folded s'] rt_timer_start_simps [of t v, folded s']
    have e: "(tmr s t)\<lparr>tm_timeout_tick := w, tm_activated := True\<rparr> = (tmr s t)\<lparr>tm_timeout_tick := w\<rparr>" for w
      using o(3) by (cases "tmr s t") simp
    have tm: "tmr s' = (tmr s)(t := (tmr s t)\<lparr>tm_timeout_tick := now + 1 + tm_init_tick (tmr s t)\<rparr>)"
      by (simp add: r(3) vf e)
    have key: "timer_key now s' u = timer_key now s u" if "u \<noteq> t" for u using that by (simp add: tm)
    have kt: "timer_key now s' t = 1 + unat (tm_init_tick (tmr s t))" using kn by (simp add: tm)
    have ts: "removeAll t (timer_list v) = ts" using o(1) by (simp add: vf)
    have set: "set (timer_list s') = insert t (set ts)"
      unfolding r(2) ts by (metis set_append list.simps(15) takeWhile_dropWhile_id Un_insert_right)
    have "set (timer_list s') = {u. tm_activated (tmr s' u)}" using inv l o(3) unfolding set by (auto simp: check_inv_def tm)
    moreover have "tm_periodic (tmr s' u) = tm_periodic (tmr s u)" "tm_init_tick (tmr s' u) = tm_init_tick (tmr s u)" for u
      by (simp_all add: tm)
    moreover have "fired_list s' = []" "tick_now s' = now + 1" using r(5,6) vf(3,4) by simp_all
    ultimately have ci: "check_inv now s'" using inv r(1) by (simp add: check_inv_def)
    have "takeWhile (due s') (timer_list s') = takeWhile (due s') ts" unfolding r(2) ts due_def
      by (rule takeWhile_insert_at) (use kt pos in auto)
    also have "\<dots> = takeWhile (due s) ts"
    proof (rule takeWhile_cong [OF refl])
      fix u assume "u \<in> set ts"
      then have "timer_key now s' u = timer_key now s u" by (intro key) (use o(1) in auto)
      then show "due s' u = due s u" by (simp add: due_def)
    qed
    finally show ?thesis using ci by blast
  qed
  then show "check_inv now s'" "takeWhile (due s') (timer_list s') = takeWhile (due s) ts" by blast+
qed

lemma timer_check_loop_fold:
  assumes "timer_quiet cb" "check_inv now s"
  shows "timer_check_loop cb (now + 1) s =
      Some (fold (timer_step cb) (takeWhile (\<lambda>u. timer_key now s u \<le> 1) (timer_list s)) s)
    \<and> check_inv now (fold (timer_step cb) (takeWhile (\<lambda>u. timer_key now s u \<le> 1) (timer_list s)) s)
    \<and> (\<forall>u \<in> set (timer_list (fold (timer_step cb) (takeWhile (\<lambda>u. timer_key now s u \<le> 1) (timer_list s)) s)).
         1 < timer_key now (fold (timer_step cb) (takeWhile (\<lambda>u. timer_key now s u \<le> 1) (timer_list s)) s) u)"
  using assms(2)
proof (induction "takeWhile (\<lambda>u. timer_key now s u \<le> 1) (timer_list s)" arbitrary: s)
  case Nil
  note inv = Nil(2) and e = Nil(1) [symmetric]
  show ?case
  proof (cases "timer_list s")
    case Nil
    then show ?thesis using inv by (subst timer_check_loop.simps) simp
  next
    case (Cons t ts)
    then have k: "\<not> timer_key now s t \<le> 1" using e by (auto split: if_splits)
    have o: "\<forall>u \<in> set (timer_list s). timer_key now s u < 0x7FFFFFFF" "sorted (map (timer_key now s) (timer_list s))"
      using inv by (simp_all add: check_inv_def timers_ordered_def)
    have "\<not> now + 1 - tm_timeout_tick (tmr s t) < RT_TICK_MAX div 2"
      using tick_due(2) [of now "tm_timeout_tick (tmr s t)"] o(1) k Cons by simp
    then have "timer_check_loop cb (now + 1) s = Some s" using Cons by (subst timer_check_loop.simps) simp
    moreover have "\<forall>u \<in> set (timer_list s). 1 < timer_key now s u" using o(2) k Cons by fastforce
    ultimately show ?thesis using e inv by simp
  qed
next
  case (Cons t due)
  note inv = Cons(3) and e = Cons(2) [symmetric]
  obtain ts where l: "timer_list s = t # ts" and k: "timer_key now s t \<le> 1" and d: "takeWhile (\<lambda>u. timer_key now s u \<le> 1) ts = due"
    using e by (cases "timer_list s") (auto split: if_splits)
  define s1 where "s1 = timer_step cb t s"
  note st = timer_step_inv [OF assms(1) inv l k, folded s1_def]
  have o: "timer_key now s t < 0x7FFFFFFF" using inv l by (simp add: check_inv_def timers_ordered_def)
  have tick: "tick_now (cb t (timer_fire t s)) = now + 1"
    using assms(1) inv by (simp add: timer_quiet_def timer_fire_def Let_def check_inv_def)
  have run: "timer_check_loop cb (now + 1) s = timer_check_loop cb (now + 1) s1"
    using tick_due(2) [OF o] k by (subst timer_check_loop.simps) (simp add: l tick s1_def timer_step_def)
  have due: "due = takeWhile (\<lambda>u. timer_key now s1 u \<le> 1) (timer_list s1)" using st(2) d by simp
  have f: "fold (timer_step cb) (t # due) s = fold (timer_step cb) due s1" by (simp add: s1_def)
  show ?case unfolding run e f by (rule Cons(1) [OF due st(1), folded due])
qed

text \<open>A check that finds everything in order leaves everything in order.\<close>

lemma check_inv_ok:
  assumes "check_inv now s" "\<forall>u \<in> set (timer_list s). 1 < timer_key now s u"
  shows "timers_ok s"
proof -
  have k: "timer_key (now + 1) s u = timer_key now s u - 1" if "u \<in> set (timer_list s)" for u
    using assms(2) that to_go_tick [of now "tm_timeout_tick (tmr s u)"] by fastforce
  have m: "map (timer_key (now + 1) s) (timer_list s) = map (\<lambda>n. n - 1) (map (timer_key now s) (timer_list s))"
    using k by simp
  have srt: "sorted (map (\<lambda>n. n - 1) ns)" if "sorted ns" for ns :: "nat list"
    using that
    by (induction ns) (auto intro: diff_le_mono)
  have "sorted (map (timer_key (now + 1) s) (timer_list s))"
    unfolding m by (intro srt) (use assms(1) in \<open>simp add: check_inv_def timers_ordered_def\<close>)
  moreover have "timer_key (now + 1) s u < 0x7FFFFFFF" if "u \<in> set (timer_list s)" for u
    using k [OF that] assms(1) that by (auto simp: check_inv_def timers_ordered_def intro: less_imp_diff_less)
  ultimately show ?thesis using assms(1) by (simp add: timers_ok_def timers_ordered_def check_inv_def)
qed

text \<open>The timers a check fires are those that are due.\<close>

lemma due_set:
  assumes "timers_ordered now s"
  shows "set (takeWhile (\<lambda>t. timer_key now s t \<le> 1) (timer_list s)) = {t \<in> set (timer_list s). timer_key now s t \<le> 1}"
proof -
  have "\<forall>u \<in> set (dropWhile (\<lambda>t. timer_key now s t \<le> 1) (timer_list s)). 1 < timer_key now s u"
    by (rule dropWhile_greater) (use assms in \<open>simp add: timers_ordered_def\<close>)
  moreover have "set (timer_list s) = set (takeWhile (\<lambda>t. timer_key now s t \<le> 1) (timer_list s))
      \<union> set (dropWhile (\<lambda>t. timer_key now s t \<le> 1) (timer_list s))"
    by (metis set_append takeWhile_dropWhile_id)
  ultimately show ?thesis by (auto dest: set_takeWhileD)
qed

section \<open>Properties\<close>

lemma to_go_add: "unat n < 0x7FFFFFFF \<Longrightarrow> to_go now (now + n) = unat n"
  by (simp add: to_go_def)

lemma rt_timer_start_ok:
  assumes "timers_ok s" "tm_init_tick (tmr s t) < RT_TICK_MAX div 2"
  shows "timers_ok (rt_timer_start t s)"
proof -
  have lt: "unat (tm_init_tick (tmr s t)) < 0x7FFFFFFF" using assms(2) by (simp add: word_less_nat_alt half_tick)
  have k: "to_go (tick_now s) (tick_now s + tm_init_tick (tmr s t)) < 0x7FFFFFFF" using lt by (simp add: to_go_add)
  have o: "timers_ordered (tick_now s) s" "set (timer_list s) = {t. tm_activated (tmr s t)}" "fired_list s = []"
    using assms(1) by (simp_all add: timers_ok_def)
  note r = rt_timer_start_ordered [OF o(1) k] rt_timer_start_simps [of t s]
  have "set (timer_list (rt_timer_start t s)) = insert t (set (timer_list s))"
    unfolding r(2) by (metis set_append list.simps(15) takeWhile_dropWhile_id Un_insert_right set_removeAll insert_Diff_single)
  then show ?thesis using r(1,3,5,6) o(2,3) by (auto simp: timers_ok_def)
qed

lemma rt_timer_detach_ok:
  assumes "timers_ok s"
  shows "timers_ok (rt_timer_detach t s)"
proof -
  have "timers_ordered (tick_now s) (rt_timer_detach t s)"
    using timers_ordered_remove [of "tick_now s" s t] assms
      timers_ordered_cong [of "rt_timer_detach t s" "timer_remove t s" "tick_now s"]
    by (simp add: timers_ok_def rt_timer_detach_def)
  then show ?thesis using assms by (auto simp: timers_ok_def rt_timer_detach_def)
qed

lemma rt_timer_stop_ok: "timers_ok s \<Longrightarrow> timers_ok (fst (rt_timer_stop t s))"
  using rt_timer_detach_ok [of s t] by (simp add: rt_timer_stop_def rt_timer_detach_def)

text \<open>
  C30. Starting a timer less than half the tick range ahead, also across the wrap-around of the tick counter: the list stays in
  the order the timers fire in, the timer fires after exactly its number of ticks, behind every timer that fires no later (equal
  times keep the order of starting) and before all others, and no other timer moves.
\<close>

theorem rt_timer_start_order:
  assumes "timers_ok s" "tm_init_tick (tmr s t) < RT_TICK_MAX div 2"
  shows "timers_ok (rt_timer_start t s) \<and>
    (\<exists>bef aft. timer_list (rt_timer_start t s) = bef @ t # aft \<and> bef @ aft = removeAll t (timer_list s)
      \<and> timer_key (tick_now s) (rt_timer_start t s) t = unat (tm_init_tick (tmr s t))
      \<and> (\<forall>u \<in> set bef. timer_key (tick_now s) s u \<le> unat (tm_init_tick (tmr s t)))
      \<and> (\<forall>u \<in> set aft. timer_key (tick_now s) s u > unat (tm_init_tick (tmr s t))))"
proof -
  let ?s = "rt_timer_start t s" and ?n = "unat (tm_init_tick (tmr s t))" and ?xs = "removeAll t (timer_list s)"
  have lt: "?n < 0x7FFFFFFF" using assms(2) by (simp add: word_less_nat_alt half_tick)
  have k: "to_go (tick_now s) (tick_now s + tm_init_tick (tmr s t)) < 0x7FFFFFFF" using lt by (simp add: to_go_add)
  have o: "timers_ordered (tick_now s) s" using assms(1) by (simp add: timers_ok_def)
  note r = rt_timer_start_ordered(2) [OF o k] rt_timer_start_simps(1) [of t s]
  have kt: "timer_key (tick_now s) ?s t = ?n" using lt by (simp add: r(2) to_go_add)
  have ku: "timer_key (tick_now s) ?s u = timer_key (tick_now s) s u" if "u \<noteq> t" for u using that by (simp add: r(2))
  let ?P = "\<lambda>u. timer_key (tick_now s) ?s u \<le> timer_key (tick_now s) ?s t"
  have m: "map (timer_key (tick_now s) ?s) ?xs = map (timer_key (tick_now s) s) ?xs" using ku by auto
  have "sorted (map (timer_key (tick_now s) ?s) ?xs)"
    unfolding m by (rule sorted_removeAll) (use o in \<open>simp add: timers_ordered_def\<close>)
  from dropWhile_greater [OF this, of "timer_key (tick_now s) ?s t"]
  have gr: "timer_key (tick_now s) s u > ?n" if "u \<in> set (dropWhile ?P ?xs)" for u
    using that ku [of u] kt set_dropWhileD [OF that] by auto
  have le: "timer_key (tick_now s) s u \<le> ?n" if "u \<in> set (takeWhile ?P ?xs)" for u
    using that ku [of u] kt set_takeWhileD [OF that] by auto
  show ?thesis
    using rt_timer_start_ok [OF assms] r(1) kt gr le
    by (intro conjI exI [of _ "takeWhile ?P ?xs"] exI [of _ "dropWhile ?P ?xs"]) auto
qed

text \<open>No timer runs, and the tick counter is about to wrap around.\<close>

definition idle_timers :: timer_sys where
  "idle_timers = \<lparr>tmr = \<lambda>_. timer_init 5 False, timer_list = [], fired_list = [], tick_now = 0xFFFFFFFE\<rparr>"

lemma idle_timers_ok: "timers_ok idle_timers"
  by (simp add: timers_ok_def timers_ordered_def idle_timers_def timer_init_def)

theorem rt_timer_start_order_witness:
  "timers_ok (rt_timer_start 7 idle_timers) \<and> timer_list (rt_timer_start 7 idle_timers) = [7]
   \<and> tm_timeout_tick (tmr (rt_timer_start 7 idle_timers) 7) = 3"
  using rt_timer_start_order [OF idle_timers_ok, of 7]
  by (simp add: idle_timers_def timer_init_def RT_TICK_MAX_def rt_timer_start_simps)

text \<open>
  The check made at every tick, with timeout functions that leave the timers alone: it ends; exactly the timers due by then
  are fired, one after the other in the order of their times; a one-shot timer stops, a periodic one runs again from this
  tick; and afterwards the list is in order and every running timer has time to go.
\<close>

lemma rt_timer_check_fires:
  assumes "timer_quiet cb" "timers_ok s"
    "\<forall>t. tm_periodic (tmr s t) \<longrightarrow> tm_init_tick (tmr s t) \<noteq> 0 \<and> tm_init_tick (tmr s t) < 0x7FFFFFFE"
  shows "let due = takeWhile (\<lambda>t. timer_key (tick_now s) s t \<le> 1) (timer_list s);
             s' = fold (timer_step cb) due (s\<lparr>tick_now := tick_now s + 1\<rparr>)
         in rt_timer_check cb (s\<lparr>tick_now := tick_now s + 1\<rparr>) = Some s' \<and> timers_ok s'
            \<and> set due = {t \<in> set (timer_list s). timer_key (tick_now s) s t \<le> 1}
            \<and> (\<forall>t \<in> set (timer_list s'). 0 < timer_key (tick_now s') s' t)"
proof -
  let ?n = "tick_now s"
  define t where "t = s\<lparr>tick_now := ?n + 1\<rparr>"
  define due where "due = takeWhile (\<lambda>t. timer_key ?n s t \<le> 1) (timer_list s)"
  define s' where "s' = fold (timer_step cb) due t"
  have tf: "tmr t = tmr s" "timer_list t = timer_list s" "fired_list t = []" "tick_now t = ?n + 1"
    using assms(2) by (simp_all add: t_def timers_ok_def)
  have "check_inv ?n t" using assms(2,3) by (auto simp: check_inv_def timers_ok_def timers_ordered_def tf)
  note l = timer_check_loop_fold [OF assms(1) this, unfolded tf, folded due_def, folded s'_def]
  have "rt_timer_check cb t = Some s'"
  proof -
    have "t\<lparr>fired_list := []\<rparr> = t" using assms(2) by (simp add: t_def timers_ok_def)
    from l show ?thesis unfolding rt_timer_check_def \<open>t\<lparr>fired_list := []\<rparr> = t\<close> tf(4) by blast
  qed
  moreover have ok: "timers_ok s'" using check_inv_ok l by blast
  moreover have "set due = {t \<in> set (timer_list s). timer_key ?n s t \<le> 1}"
    unfolding due_def by (rule due_set) (use assms(2) in \<open>simp add: timers_ok_def\<close>)
  moreover have "\<forall>u \<in> set (timer_list s'). 0 < timer_key (tick_now s') s' u"
  proof
    fix u assume "u \<in> set (timer_list s')"
    then have "1 < timer_key ?n s' u" using l by blast
    then show "0 < timer_key (tick_now s') s' u"
      using to_go_tick [of ?n "tm_timeout_tick (tmr s' u)"] l by (simp add: check_inv_def)
  qed
  ultimately show ?thesis unfolding Let_def t_def [symmetric] due_def [symmetric] s'_def [symmetric] by blast
qed

text \<open>A negative time, which is to wait forever, is the largest number of ticks, and a timer so far ahead is due at once.\<close>

lemma rt_tick_from_millisecond_negative:
  "ms < 0 \<Longrightarrow> now - (now + rt_tick_from_millisecond ms) < RT_TICK_MAX div 2"
  by (simp add: rt_tick_from_millisecond_def RT_TICK_MAX_def)

end
