(* ===== verification/Scheduler.thy ===== *)
theory Scheduler
  imports Timer
begin

text \<open>
  The scheduler of the kernel (\<open>rt-thread/src/scheduler.c\<close>, one CPU, 32 priorities), the thread operations that move threads
  between its states (\<open>rt-thread/src/thread.c\<close>), and the tick (\<open>rt-thread/src/clock.c\<close>).  Threads are numbered; the timers of
  \<open>Timer\<close> are the thread timers, by the number of their thread.  A ready list is a list of threads, head first; the lists of
  threads that wait for an object belong to the objects (\<open>Ipc\<close>), so \<open>rt_list_remove\<close> is seen here only on the ready lists.
  \<open>stat\<close> is the state in its low three bits and the yield bit; signals are not configured.  A context switch is the change of
  \<open>rt_current_thread\<close>.  Interrupts are off during an operation, so an operation is one step.
\<close>

section \<open>The lowest set bit\<close>

definition lowest_bit_bitmap :: "nat list" where
  "lowest_bit_bitmap =
    [0, 0, 1, 0, 2, 0, 1, 0, 3, 0, 1, 0, 2, 0, 1, 0,
     4, 0, 1, 0, 2, 0, 1, 0, 3, 0, 1, 0, 2, 0, 1, 0,
     5, 0, 1, 0, 2, 0, 1, 0, 3, 0, 1, 0, 2, 0, 1, 0,
     4, 0, 1, 0, 2, 0, 1, 0, 3, 0, 1, 0, 2, 0, 1, 0,
     6, 0, 1, 0, 2, 0, 1, 0, 3, 0, 1, 0, 2, 0, 1, 0,
     4, 0, 1, 0, 2, 0, 1, 0, 3, 0, 1, 0, 2, 0, 1, 0,
     5, 0, 1, 0, 2, 0, 1, 0, 3, 0, 1, 0, 2, 0, 1, 0,
     4, 0, 1, 0, 2, 0, 1, 0, 3, 0, 1, 0, 2, 0, 1, 0,
     7, 0, 1, 0, 2, 0, 1, 0, 3, 0, 1, 0, 2, 0, 1, 0,
     4, 0, 1, 0, 2, 0, 1, 0, 3, 0, 1, 0, 2, 0, 1, 0,
     5, 0, 1, 0, 2, 0, 1, 0, 3, 0, 1, 0, 2, 0, 1, 0,
     4, 0, 1, 0, 2, 0, 1, 0, 3, 0, 1, 0, 2, 0, 1, 0,
     6, 0, 1, 0, 2, 0, 1, 0, 3, 0, 1, 0, 2, 0, 1, 0,
     4, 0, 1, 0, 2, 0, 1, 0, 3, 0, 1, 0, 2, 0, 1, 0,
     5, 0, 1, 0, 2, 0, 1, 0, 3, 0, 1, 0, 2, 0, 1, 0,
     4, 0, 1, 0, 2, 0, 1, 0, 3, 0, 1, 0, 2, 0, 1, 0]"

text \<open>\<open>__rt_ffs\<close>: the number of the lowest set bit, counted from 1.\<close>

definition rt_ffs :: "u32 \<Rightarrow> nat" where
  "rt_ffs value =
     (if value = 0 then 0
      else if value AND 0xff \<noteq> 0 then lowest_bit_bitmap ! unat (value AND 0xff) + 1
      else if value AND 0xff00 \<noteq> 0 then lowest_bit_bitmap ! unat (drop_bit 8 (value AND 0xff00)) + 9
      else if value AND 0xff0000 \<noteq> 0 then lowest_bit_bitmap ! unat (drop_bit 16 (value AND 0xff0000)) + 17
      else lowest_bit_bitmap ! unat (drop_bit 24 (value AND 0xff000000)) + 25)"

section \<open>Threads and the ready lists\<close>

datatype thread_stat = RT_THREAD_INIT | RT_THREAD_READY | RT_THREAD_SUSPEND | RT_THREAD_RUNNING | RT_THREAD_CLOSE

record tcb =
  tcb_stat :: thread_stat
  tcb_yield :: bool
  tcb_init_priority :: nat
  tcb_priority :: nat
  tcb_number_mask :: u32
  tcb_init_tick :: u32
  tcb_remaining_tick :: u32
  tcb_error :: int

record kernel = timer_sys +
  tcbs :: "nat \<Rightarrow> tcb"
  priority_table :: "nat list list"
  ready_group :: u32
  cur_thread :: "nat option"
  cur_prio :: nat
  lock_nest :: int

definition upd_tcb :: "nat \<Rightarrow> (tcb \<Rightarrow> tcb) \<Rightarrow> kernel \<Rightarrow> kernel" where
  "upd_tcb t f k = k\<lparr>tcbs := (tcbs k)(t := f (tcbs k t))\<rparr>"

text \<open>\<open>stat = s | (stat & ~RT_THREAD_STAT_MASK)\<close>: the yield bit stays.\<close>

definition set_stat :: "nat \<Rightarrow> thread_stat \<Rightarrow> kernel \<Rightarrow> kernel" where
  "set_stat t st k = upd_tcb t (\<lambda>x. x\<lparr>tcb_stat := st\<rparr>) k"

definition list_remove :: "nat \<Rightarrow> kernel \<Rightarrow> kernel" where
  "list_remove t k = k\<lparr>priority_table := map (removeAll t) (priority_table k)\<rparr>"

definition rt_schedule_insert_thread :: "nat \<Rightarrow> kernel \<Rightarrow> kernel" where
  "rt_schedule_insert_thread t k =
     (if cur_thread k = Some t then set_stat t RT_THREAD_RUNNING k
      else let k = set_stat t RT_THREAD_READY k;
               p = tcb_priority (tcbs k t);
               k = k\<lparr>priority_table := (priority_table k)[p := priority_table k ! p @ [t]]\<rparr>
           in k\<lparr>ready_group := ready_group k OR tcb_number_mask (tcbs k t)\<rparr>)"

definition rt_schedule_remove_thread :: "nat \<Rightarrow> kernel \<Rightarrow> kernel" where
  "rt_schedule_remove_thread t k =
     (let k = list_remove t k
      in if priority_table k ! tcb_priority (tcbs k t) = []
         then k\<lparr>ready_group := ready_group k AND NOT (tcb_number_mask (tcbs k t))\<rparr> else k)"

definition highest_priority_thread :: "kernel \<Rightarrow> nat \<times> nat" where
  "highest_priority_thread k =
     (let highest_ready_priority = rt_ffs (ready_group k) - 1
      in (hd (priority_table k ! highest_ready_priority), highest_ready_priority))"

definition rt_system_scheduler_init :: "kernel \<Rightarrow> kernel" where
  "rt_system_scheduler_init k = k\<lparr>lock_nest := 0, priority_table := replicate 32 [], ready_group := 0\<rparr>"

definition rt_system_scheduler_start :: "kernel \<Rightarrow> kernel" where
  "rt_system_scheduler_start k =
     (let to_thread = fst (highest_priority_thread k);
          k = k\<lparr>cur_thread := Some to_thread\<rparr>;
          k = rt_schedule_remove_thread to_thread k
      in upd_tcb to_thread (\<lambda>x. x\<lparr>tcb_stat := RT_THREAD_RUNNING, tcb_yield := False\<rparr>) k)"

text \<open>
  The thread \<open>rt_schedule\<close> decides for, its priority, whether the current thread goes back to its ready list, and the state
  with the yield bit of a running thread cleared.
\<close>

definition schedule_choice :: "nat \<Rightarrow> kernel \<Rightarrow> nat \<times> nat \<times> bool \<times> kernel" where
  "schedule_choice c k =
     (let (to_thread, prio) = highest_priority_thread k; x = tcbs k c
      in if tcb_stat x = RT_THREAD_RUNNING
         then (let k = upd_tcb c (\<lambda>x. x\<lparr>tcb_yield := False\<rparr>) k
               in if tcb_priority x < prio then (c, prio, False, k)
                  else if tcb_priority x = prio \<and> \<not> tcb_yield x then (c, prio, False, k)
                  else (to_thread, prio, True, k))
         else (to_thread, prio, False, k))"

text \<open>Before the scheduler is started there is no current thread; the callers check that.\<close>

definition rt_schedule :: "kernel \<Rightarrow> kernel" where
  "rt_schedule k =
     (case cur_thread k of None \<Rightarrow> k
      | Some c \<Rightarrow>
         if lock_nest k = 0 \<and> ready_group k \<noteq> 0
         then (let (to_thread, prio, need_insert, k) = schedule_choice c k
               in if to_thread \<noteq> c
                  then (let k = k\<lparr>cur_prio := prio mod 256, cur_thread := Some to_thread\<rparr>;
                            k = (if need_insert then rt_schedule_insert_thread c k else k);
                            k = rt_schedule_remove_thread to_thread k
                        in set_stat to_thread RT_THREAD_RUNNING k)
                  else set_stat c RT_THREAD_RUNNING (rt_schedule_remove_thread c k))
         else k)"

text \<open>\<open>rt_int16_t\<close>\<close>

definition int16 :: "int \<Rightarrow> int" where
  "int16 i = (i + 2 ^ 15) mod 2 ^ 16 - 2 ^ 15"

definition rt_enter_critical :: "kernel \<Rightarrow> kernel" where
  "rt_enter_critical k = k\<lparr>lock_nest := int16 (lock_nest k + 1)\<rparr>"

definition rt_exit_critical :: "kernel \<Rightarrow> kernel" where
  "rt_exit_critical k =
     (let k = k\<lparr>lock_nest := int16 (lock_nest k - 1)\<rparr>
      in if lock_nest k \<le> 0
         then (let k = k\<lparr>lock_nest := 0\<rparr> in if cur_thread k \<noteq> None then rt_schedule k else k)
         else k)"

section \<open>Thread operations\<close>

text \<open>The fields of \<open>_rt_thread_init\<close> that the scheduler uses, with the one-shot thread timer.\<close>

definition rt_thread_init :: "nat \<Rightarrow> nat \<Rightarrow> u32 \<Rightarrow> kernel \<Rightarrow> kernel" where
  "rt_thread_init t priority tick k =
     (let k = upd_tcb t (\<lambda>_. \<lparr>tcb_stat = RT_THREAD_INIT, tcb_yield = False, tcb_init_priority = priority,
          tcb_priority = priority, tcb_number_mask = 0, tcb_init_tick = tick, tcb_remaining_tick = tick, tcb_error = 0\<rparr>) k
      in upd_timer t (\<lambda>_. timer_init 0 False) k)"

definition rt_thread_resume :: "nat \<Rightarrow> kernel \<Rightarrow> kernel \<times> int" where
  "rt_thread_resume t k =
     (if tcb_stat (tcbs k t) \<noteq> RT_THREAD_SUSPEND then (k, - 1)
      else let k = list_remove t k;
               k = fst (rt_timer_stop t k)
           in (rt_schedule_insert_thread t k, 0))"

definition rt_thread_suspend :: "nat \<Rightarrow> kernel \<Rightarrow> kernel \<times> int" where
  "rt_thread_suspend t k =
     (if tcb_stat (tcbs k t) \<noteq> RT_THREAD_READY \<and> tcb_stat (tcbs k t) \<noteq> RT_THREAD_RUNNING then (k, - 1)
      else let k = rt_schedule_remove_thread t k;
               k = set_stat t RT_THREAD_SUSPEND k
           in (fst (rt_timer_stop t k), 0))"

text \<open>\<open>1L << priority\<close>\<close>

definition prio_mask :: "nat \<Rightarrow> u32" where
  "prio_mask p = push_bit p 1"

definition rt_thread_startup :: "nat \<Rightarrow> kernel \<Rightarrow> kernel" where
  "rt_thread_startup t k =
     (let k = upd_tcb t (\<lambda>x. x\<lparr>tcb_priority := tcb_init_priority x\<rparr>) k;
          k = upd_tcb t (\<lambda>x. x\<lparr>tcb_number_mask := prio_mask (tcb_priority x)\<rparr>) k;
          k = upd_tcb t (\<lambda>x. x\<lparr>tcb_stat := RT_THREAD_SUSPEND, tcb_yield := False\<rparr>) k;
          k = fst (rt_thread_resume t k)
      in if cur_thread k \<noteq> None then rt_schedule k else k)"

definition rt_thread_yield :: "nat \<Rightarrow> kernel \<Rightarrow> kernel" where
  "rt_thread_yield c k =
     rt_schedule (upd_tcb c (\<lambda>x. x\<lparr>tcb_remaining_tick := tcb_init_tick x, tcb_yield := True\<rparr>) k)"

text \<open>\<open>rt_thread_sleep\<close> of the current thread \<open>c\<close> up to the switch, and when the thread runs again.\<close>

definition rt_thread_sleep :: "nat \<Rightarrow> u32 \<Rightarrow> kernel \<Rightarrow> kernel" where
  "rt_thread_sleep c tick k =
     (let k = fst (rt_thread_suspend c k);
          k = fst (rt_timer_control c (CTRL_SET_TIME tick) k);
          k = rt_timer_start c k
      in rt_schedule k)"

definition sleep_resumed :: "nat \<Rightarrow> kernel \<Rightarrow> kernel" where
  "sleep_resumed c k = upd_tcb c (\<lambda>x. if tcb_error x = - 2 then x\<lparr>tcb_error := 0\<rparr> else x) k"

text \<open>The new state, and what is written to \<open>*tick\<close>.\<close>

definition rt_thread_delay_until :: "nat \<Rightarrow> u32 \<Rightarrow> u32 \<Rightarrow> kernel \<Rightarrow> kernel \<times> u32" where
  "rt_thread_delay_until c tick inc_tick k =
     (let cur_tick = tick_now k
      in if cur_tick - tick < inc_tick
         then (let tick = tick + inc_tick in (rt_thread_sleep c (tick - cur_tick) k, tick))
         else (k, cur_tick))"

definition rt_thread_mdelay :: "nat \<Rightarrow> int \<Rightarrow> kernel \<Rightarrow> kernel" where
  "rt_thread_mdelay c ms k = rt_thread_sleep c (rt_tick_from_millisecond ms) k"

text \<open>\<open>rt_thread_control\<close> with \<open>RT_THREAD_CTRL_CHANGE_PRIORITY\<close>.\<close>

definition rt_thread_change_priority :: "nat \<Rightarrow> nat \<Rightarrow> kernel \<Rightarrow> kernel" where
  "rt_thread_change_priority t prio k =
     (if tcb_stat (tcbs k t) = RT_THREAD_READY
      then (let k = rt_schedule_remove_thread t k;
                k = upd_tcb t (\<lambda>x. x\<lparr>tcb_priority := prio, tcb_number_mask := prio_mask prio\<rparr>) k
            in rt_schedule_insert_thread t k)
      else upd_tcb t (\<lambda>x. x\<lparr>tcb_priority := prio, tcb_number_mask := prio_mask prio\<rparr>) k)"

text \<open>\<open>rt_thread_detach\<close> and \<open>rt_thread_delete\<close>, without the object and the memory of the thread.\<close>

definition rt_thread_detach :: "nat \<Rightarrow> kernel \<Rightarrow> kernel" where
  "rt_thread_detach t k =
     (if tcb_stat (tcbs k t) = RT_THREAD_CLOSE then k
      else let k = (if tcb_stat (tcbs k t) \<noteq> RT_THREAD_INIT then rt_schedule_remove_thread t k else k);
               k = rt_timer_detach t k
           in upd_tcb t (\<lambda>x. x\<lparr>tcb_stat := RT_THREAD_CLOSE, tcb_yield := False\<rparr>) k)"

definition rt_thread_exit :: "nat \<Rightarrow> kernel \<Rightarrow> kernel" where
  "rt_thread_exit c k =
     (let k = rt_schedule_remove_thread c k;
          k = upd_tcb c (\<lambda>x. x\<lparr>tcb_stat := RT_THREAD_CLOSE, tcb_yield := False\<rparr>) k
      in rt_schedule (rt_timer_detach c k))"

definition rt_thread_timeout :: "nat \<Rightarrow> kernel \<Rightarrow> kernel" where
  "rt_thread_timeout t k =
     (let k = upd_tcb t (\<lambda>x. x\<lparr>tcb_error := - 2\<rparr>) k;
          k = list_remove t k
      in rt_schedule (rt_schedule_insert_thread t k))"

section \<open>The tick\<close>

definition rt_tick_set :: "u32 \<Rightarrow> kernel \<Rightarrow> kernel" where
  "rt_tick_set tick k = k\<lparr>tick_now := tick\<rparr>"

text \<open>The time slice of the current thread \<open>c\<close>, then the timers.\<close>

definition tick_slice :: "nat \<Rightarrow> kernel \<Rightarrow> kernel" where
  "tick_slice c k =
     (let k = upd_tcb c (\<lambda>x. x\<lparr>tcb_remaining_tick := tcb_remaining_tick x - 1\<rparr>) k
      in if tcb_remaining_tick (tcbs k c) = 0
         then rt_schedule (upd_tcb c (\<lambda>x. x\<lparr>tcb_remaining_tick := tcb_init_tick x, tcb_yield := True\<rparr>) k)
         else k)"

definition rt_tick_increase :: "kernel \<Rightarrow> kernel option" where
  "rt_tick_increase k =
     (let k = k\<lparr>tick_now := tick_now k + 1\<rparr>
      in case cur_thread k of None \<Rightarrow> None
         | Some c \<Rightarrow> rt_timer_check rt_thread_timeout (tick_slice c k))"

end
