(* ===== verification/Scheduler_Spec.thy ===== *)
theory Scheduler_Spec
  imports Scheduler
begin

text \<open>
  The invariant of the scheduler, kept by every operation, and what it gives: the bitmap search finds the lowest set bit, the
  running thread is one of the highest priority, and a sleeping thread wakes at its tick.
\<close>

section \<open>The lowest set bit\<close>

fun bitmap_ok :: "nat \<Rightarrow> nat list \<Rightarrow> bool" where
  "bitmap_ok b [] = True"
| "bitmap_ok b (n # ns) = ((b = 0 \<or> b div 2 ^ n mod 2 = 1 \<and> b mod 2 ^ n = 0 \<and> n < 8) \<and> bitmap_ok (b + 1) ns)"

lemma bitmap_ok_nth:
  "bitmap_ok b ns \<Longrightarrow> i < length ns \<Longrightarrow> 0 < b + i
    \<Longrightarrow> (b + i) div 2 ^ (ns ! i) mod 2 = 1 \<and> (b + i) mod 2 ^ (ns ! i) = 0 \<and> ns ! i < 8"
proof (induction ns arbitrary: b i)
  case (Cons n ns)
  then show ?case using Cons.IH [of "b + 1" "i - 1"] by (cases i) auto
qed simp

lemma lowest_bit_bitmap_check: "bitmap_ok 0 lowest_bit_bitmap" "length lowest_bit_bitmap = 256"
  by (simp_all add: lowest_bit_bitmap_def)

lemma lowest_bit_bitmap_lowest:
  assumes "0 < b" "b < 256"
  shows "bit b (lowest_bit_bitmap ! b)" "i < lowest_bit_bitmap ! b \<Longrightarrow> \<not> bit b i" "lowest_bit_bitmap ! b < 8"
proof -
  let ?n = "lowest_bit_bitmap ! b"
  have c: "b div 2 ^ ?n mod 2 = 1" "b mod 2 ^ ?n = 0" "?n < 8"
    using bitmap_ok_nth [OF lowest_bit_bitmap_check(1), of b] assms lowest_bit_bitmap_check(2) by simp_all
  show "bit b ?n" using c(1) by (simp add: bit_iff_odd odd_iff_mod_2_eq_one)
  show "?n < 8" by (rule c(3))
  assume i: "i < ?n"
  have "take_bit ?n b = 0" using c(2) by (simp add: take_bit_eq_mod)
  then show "\<not> bit b i" using i by (metis bit_take_bit_iff bit_0_eq bot_apply bot_bool_def)
qed

definition is_lowest_bit :: "u32 \<Rightarrow> nat \<Rightarrow> bool" where
  "is_lowest_bit v n \<longleftrightarrow> n < 32 \<and> bit v n \<and> (\<forall>i < n. \<not> bit v i)"

lemma bit_mask8: "bit (0xff :: u32) i \<longleftrightarrow> i < 8"
proof -
  have "(0xff :: u32) = mask 8" by (simp add: mask_eq_exp_minus_1)
  then show ?thesis using bit_imp_le_length [of "0xff :: u32" i] by (simp only: bit_mask_iff) auto
qed

lemma rt_ffs_byte:
  fixes v :: u32
  assumes "j < 4" "v AND push_bit (8 * j) 0xff \<noteq> 0" "\<forall>i < 8 * j. \<not> bit v i"
  shows "is_lowest_bit v (lowest_bit_bitmap ! unat (drop_bit (8 * j) (v AND push_bit (8 * j) 0xff)) + 8 * j)"
proof -
  let ?b = "drop_bit (8 * j) (v AND push_bit (8 * j) 0xff)"
  have b: "bit ?b i \<longleftrightarrow> i < 8 \<and> bit v (8 * j + i)" for i
  proof -
    have "bit ?b i \<longleftrightarrow> bit v (8 * j + i) \<and> 8 * j + i < 32 \<and> bit (0xff :: u32) i"
      by (auto simp: bit_drop_bit_eq bit_and_iff bit_push_bit_iff dest: bit_imp_le_length)
    also have "\<dots> \<longleftrightarrow> i < 8 \<and> bit v (8 * j + i)" unfolding bit_mask8 using assms(1) by auto
    finally show ?thesis .
  qed
  have "bit ?b i \<longleftrightarrow> bit (take_bit 8 ?b) i" for i unfolding bit_take_bit_iff b by blast
  then have "?b = take_bit 8 ?b" by (intro bit_eqI) blast
  then have lt: "unat ?b < 256"
    using take_bit_nat_less_exp [of 8 "unat ?b"] unsigned_take_bit_eq [of 8 ?b, where ?'a = nat] by simp
  obtain i where i: "bit (v AND push_bit (8 * j) 0xff) i" using assms(2) by (metis bit_eqI bit_0_eq bot_apply bot_bool_def)
  then have "8 * j \<le> i" by (simp add: bit_and_iff bit_push_bit_iff)
  then have "bit ?b (i - 8 * j)" using i by (simp only: bit_drop_bit_eq o_apply le_add_diff_inverse)
  then have "?b \<noteq> 0" by (metis bit_0_eq bot_apply bot_bool_def)
  then have "0 < unat ?b" by (simp add: unat_gt_0)
  note l = lowest_bit_bitmap_lowest [OF this lt]
  let ?n = "lowest_bit_bitmap ! unat ?b"
  have un: "bit (unat ?b) i \<longleftrightarrow> bit ?b i" for i by (simp only: bit_unsigned_iff possible_bit_nat) simp
  have "bit v (?n + 8 * j)" using l(1) unfolding un b by (simp only: add.commute)
  moreover have "\<not> bit v i" if "i < ?n + 8 * j" for i
  proof (cases "i < 8 * j")
    case False
    then have "i - 8 * j < ?n" using that by simp
    then show ?thesis using l(2) [of "i - 8 * j"] l(3) False unfolding un b by simp
  qed (use assms(3) in blast)
  ultimately show ?thesis using l(3) assms(1) by (simp add: is_lowest_bit_def)
qed

lemma rt_ffs_lowest:
  assumes "v \<noteq> 0"
  shows "is_lowest_bit v (rt_ffs v - 1)" "0 < rt_ffs v"
proof -
  have z: "\<forall>i < 8 * Suc j. \<not> bit v i" if "v AND push_bit (8 * j) 0xff = 0" "\<forall>i < 8 * j. \<not> bit v i" for j
  proof (intro allI impI notI)
    fix i assume i: "i < 8 * Suc j" "bit v i"
    have "8 * j \<le> i" using that(2) i(2) not_le_imp_less by blast
    moreover have "i < 32" using bit_imp_le_length [OF i(2)] by simp
    ultimately have "8 * j \<le> i" "i - 8 * j < 8" "i < 32" using i(1) by simp_all
    then have "bit (v AND push_bit (8 * j) 0xff) i"
      using i(2) bit_mask8 [of "i - 8 * j"] by (simp only: bit_and_iff bit_push_bit_iff) simp
    then show False using that(1) by simp
  qed
  have e: "push_bit (8 * 0) 0xff = (0xff :: u32)" "push_bit (8 * 1) 0xff = (0xff00 :: u32)"
    "push_bit (8 * 2) 0xff = (0xff0000 :: u32)" "push_bit (8 * 3) 0xff = (0xff000000 :: u32)"
    by simp_all
  have "is_lowest_bit v (rt_ffs v - 1) \<and> 0 < rt_ffs v"
  proof (cases "v AND 0xff = 0")
    case False
    then show ?thesis using rt_ffs_byte [of 0 v] assms by (simp add: rt_ffs_def add.commute)
  next
    case a: True
    have za: "\<forall>i < 8 * 1. \<not> bit v i" using z [of 0] a by simp
    show ?thesis
    proof (cases "v AND 0xff00 = 0")
      case False
      then show ?thesis using rt_ffs_byte [of 1 v, OF _ _ za] a assms by (simp add: rt_ffs_def add.commute)
    next
      case b: True
      have zb: "\<forall>i < 8 * 2. \<not> bit v i" using z [OF _ za] b by (simp add: numeral_2_eq_2)
      show ?thesis
      proof (cases "v AND 0xff0000 = 0")
        case False
        then show ?thesis using rt_ffs_byte [of 2 v, OF _ _ zb] a b assms by (simp add: rt_ffs_def add.commute)
      next
        case c: True
        have zc: "\<forall>i < 8 * 3. \<not> bit v i" using z [OF _ zb] c by (simp add: numeral_3_eq_3)
        have "v AND 0xff000000 \<noteq> 0"
        proof
          assume "v AND 0xff000000 = 0"
          then have "\<forall>i < 8 * Suc 3. \<not> bit v i" using z [OF _ zc] by simp
          then have "v = 0" by (intro bit_eqI) (simp add: bit_imp_le_length)
          then show False using assms by simp
        qed
        then show ?thesis using rt_ffs_byte [of 3 v, OF _ _ zc] a b c assms by (simp add: rt_ffs_def add.commute)
      qed
    qed
  qed
  then show "is_lowest_bit v (rt_ffs v - 1)" "0 < rt_ffs v" by blast+
qed


text \<open>
  The search by bytes and table of \<open>__rt_ffs\<close> agrees with looking at the bits one after the other, for every word: 0 when no
  bit is set, and the number of the lowest set bit counted from 1 otherwise.
\<close>

lemma rt_ffs_first_bit:
  "rt_ffs v = (case find (bit v) [0..<32] of None \<Rightarrow> 0 | Some i \<Rightarrow> i + 1)"
proof (cases "v = 0")
  case True
  have "find (bit (0 :: u32)) [0..<32] = None" by (simp add: find_None_iff del: upt_Suc upt_rec_numeral)
  then show ?thesis by (simp add: True rt_ffs_def)
next
  case False
  note l = rt_ffs_lowest [OF False]
  have "find (bit v) [0..<32] = Some (rt_ffs v - 1)"
    unfolding find_Some_iff using l(1)
    by (intro exI [of _ "rt_ffs v - 1"]) (auto simp: is_lowest_bit_def simp del: upt_Suc upt_rec_numeral)
  then show ?thesis using l(2) by simp
qed

section \<open>What the operations read and write\<close>

lemma timer_more_fields:
  fixes k k' :: kernel
  assumes "timer_sys.more k' = timer_sys.more k"
  shows "tcbs k' = tcbs k" "priority_table k' = priority_table k" "ready_group k' = ready_group k"
    "cur_thread k' = cur_thread k" "lock_nest k' = lock_nest k"
  using assms by (cases k; cases k'; simp)+

lemma rt_timer_stop_simps [simp]:
  "timer_sys.more (fst (rt_timer_stop t s)) = timer_sys.more s" "tick_now (fst (rt_timer_stop t s)) = tick_now s"
  "fired_list s = [] \<Longrightarrow> fired_list (fst (rt_timer_stop t s)) = []"
  "tmr (fst (rt_timer_stop t s)) = (tmr s)(t := (tmr s t)\<lparr>tm_activated := False\<rparr>)"
  by (auto simp: rt_timer_stop_def fun_eq_iff)

lemma rt_timer_detach_simps [simp]:
  "timer_sys.more (rt_timer_detach t s) = timer_sys.more s" "tick_now (rt_timer_detach t s) = tick_now s"
  "tmr (rt_timer_detach t s) = (tmr s)(t := (tmr s t)\<lparr>tm_activated := False\<rparr>)"
  by (simp_all add: rt_timer_detach_def)

lemma rt_timer_control_simps [simp]:
  "fst (rt_timer_control t (CTRL_SET_TIME n) s) = upd_timer t (\<lambda>x. x\<lparr>tm_init_tick := n\<rparr>) s"
  by (simp add: rt_timer_control_def)

lemmas timer_frame [simp] =
  timer_more_fields [OF rt_timer_stop_simps(1)] timer_more_fields [OF rt_timer_detach_simps(1)]
  timer_more_fields [OF rt_timer_start_simps(5)] timer_more_fields [OF upd_timer_simps(4)]
  timer_more_fields [OF timer_remove_simps(5)] timer_more_fields [OF timer_deactivate_simps(4)]

text \<open>The timer part of a state, which the scheduler does not touch.\<close>

definition same_timers :: "kernel \<Rightarrow> kernel \<Rightarrow> bool" where
  "same_timers k k' \<longleftrightarrow> tmr k' = tmr k \<and> timer_list k' = timer_list k \<and> fired_list k' = fired_list k \<and> tick_now k' = tick_now k"

lemma upd_tcb_simps [simp]:
  "tcbs (upd_tcb t f k) = (tcbs k)(t := f (tcbs k t))" "priority_table (upd_tcb t f k) = priority_table k"
  "ready_group (upd_tcb t f k) = ready_group k" "cur_thread (upd_tcb t f k) = cur_thread k"
  "lock_nest (upd_tcb t f k) = lock_nest k" "tmr (upd_tcb t f k) = tmr k" "timer_list (upd_tcb t f k) = timer_list k"
  "fired_list (upd_tcb t f k) = fired_list k" "tick_now (upd_tcb t f k) = tick_now k"
  by (simp_all add: upd_tcb_def)

lemma list_remove_simps [simp]:
  "tcbs (list_remove t k) = tcbs k" "ready_group (list_remove t k) = ready_group k"
  "cur_thread (list_remove t k) = cur_thread k" "lock_nest (list_remove t k) = lock_nest k" "tmr (list_remove t k) = tmr k"
  "timer_list (list_remove t k) = timer_list k" "fired_list (list_remove t k) = fired_list k"
  "tick_now (list_remove t k) = tick_now k"
  by (simp_all add: list_remove_def)

lemma rt_schedule_remove_thread_simps [simp]:
  "tcbs (rt_schedule_remove_thread t k) = tcbs k" "cur_thread (rt_schedule_remove_thread t k) = cur_thread k"
  "priority_table (rt_schedule_remove_thread t k) = map (removeAll t) (priority_table k)"
  "lock_nest (rt_schedule_remove_thread t k) = lock_nest k" "tmr (rt_schedule_remove_thread t k) = tmr k"
  "timer_list (rt_schedule_remove_thread t k) = timer_list k" "fired_list (rt_schedule_remove_thread t k) = fired_list k"
  "tick_now (rt_schedule_remove_thread t k) = tick_now k"
  by (simp_all add: rt_schedule_remove_thread_def Let_def list_remove_def)

lemma rt_schedule_insert_thread_simps [simp]:
  "cur_thread (rt_schedule_insert_thread t k) = cur_thread k" "lock_nest (rt_schedule_insert_thread t k) = lock_nest k"
  "tcbs (rt_schedule_insert_thread t k) =
     (tcbs k)(t := (tcbs k t)\<lparr>tcb_stat := if cur_thread k = Some t then RT_THREAD_RUNNING else RT_THREAD_READY\<rparr>)"
  "tmr (rt_schedule_insert_thread t k) = tmr k" "timer_list (rt_schedule_insert_thread t k) = timer_list k"
  "fired_list (rt_schedule_insert_thread t k) = fired_list k" "tick_now (rt_schedule_insert_thread t k) = tick_now k"
  by (simp_all add: rt_schedule_insert_thread_def Let_def set_stat_def)

lemma rt_schedule_same_timers [simp]: "same_timers k (rt_schedule k)" "lock_nest (rt_schedule k) = lock_nest k"
  by (auto simp: rt_schedule_def schedule_choice_def same_timers_def set_stat_def Let_def split: option.splits prod.splits)

lemma rt_thread_timeout_same_timers: "same_timers k (rt_thread_timeout t k)"
  using rt_schedule_same_timers(1)
  by (simp add: rt_thread_timeout_def same_timers_def Let_def)

lemma rt_thread_timeout_quiet: "timer_quiet rt_thread_timeout"
  using rt_thread_timeout_same_timers by (simp add: timer_quiet_def same_timers_def)

section \<open>The ready lists\<close>

definition ready_set :: "kernel \<Rightarrow> nat set" where
  "ready_set k = {t. \<exists>p < 32. t \<in> set (priority_table k ! p)}"

text \<open>
  The table has a list for every priority, the bits of the group are those of the lists that are not empty, and a thread is in
  the list of its priority, once.
\<close>

definition queue_ok :: "kernel \<Rightarrow> bool" where
  "queue_ok k \<longleftrightarrow> length (priority_table k) = 32
     \<and> (\<forall>p < 32. distinct (priority_table k ! p) \<and> (bit (ready_group k) p \<longleftrightarrow> priority_table k ! p \<noteq> [])
          \<and> (\<forall>t \<in> set (priority_table k ! p). tcb_priority (tcbs k t) = p))"

text \<open>A thread that was started has its priority's bit; one that was not may have none.\<close>

definition tcb_ok :: "tcb \<Rightarrow> bool" where
  "tcb_ok x \<longleftrightarrow> tcb_priority x < 32 \<and> tcb_init_priority x < 32
     \<and> (tcb_number_mask x = prio_mask (tcb_priority x)
        \<or> tcb_number_mask x = 0 \<and> tcb_stat x \<in> {RT_THREAD_INIT, RT_THREAD_CLOSE})"

lemma queue_ok_cong:
  assumes "queue_ok k" "priority_table k' = priority_table k" "ready_group k' = ready_group k"
    "\<And>t. t \<in> ready_set k \<Longrightarrow> tcb_priority (tcbs k' t) = tcb_priority (tcbs k t)"
  shows "queue_ok k'"
  using assms by (fastforce simp: queue_ok_def ready_set_def)

lemma ready_set_cong: "priority_table k' = priority_table k \<Longrightarrow> ready_set k' = ready_set k"
  by (simp add: ready_set_def)

lemma queue_ok_ready: "queue_ok k \<Longrightarrow> t \<in> ready_set k \<longleftrightarrow> t \<in> set (priority_table k ! tcb_priority (tcbs k t)) \<and> tcb_priority (tcbs k t) < 32"
  by (auto simp: queue_ok_def ready_set_def)

lemma bit_prio_mask: "p < 32 \<Longrightarrow> bit (prio_mask p) i \<longleftrightarrow> i = p"
  unfolding prio_mask_def bit_push_bit_iff by (auto simp: bit_1_iff)

lemma bit_not_prio_mask: "p < 32 \<Longrightarrow> i < 32 \<Longrightarrow> bit (v AND NOT (prio_mask p)) i \<longleftrightarrow> bit v i \<and> i \<noteq> p"
  by (simp add: bit_and_iff bit_not_iff bit_prio_mask)

text \<open>Insertion goes to the end of the list of the thread's priority.\<close>

lemma insert_queue_ok:
  assumes q: "queue_ok k" and x: "tcb_priority (tcbs k t) < 32" "tcb_number_mask (tcbs k t) = prio_mask (tcb_priority (tcbs k t))"
    and n: "t \<notin> ready_set k" "cur_thread k \<noteq> Some t"
  shows "queue_ok (rt_schedule_insert_thread t k)" "ready_set (rt_schedule_insert_thread t k) = insert t (ready_set k)"
    "priority_table (rt_schedule_insert_thread t k) =
       (priority_table k)[tcb_priority (tcbs k t) := priority_table k ! tcb_priority (tcbs k t) @ [t]]"
proof -
  let ?p = "tcb_priority (tcbs k t)" and ?k = "rt_schedule_insert_thread t k"
  have len: "length (priority_table k) = 32" using q by (simp add: queue_ok_def)
  show tab: "priority_table ?k = (priority_table k)[?p := priority_table k ! ?p @ [t]]"
    using n(2) by (simp add: rt_schedule_insert_thread_def Let_def set_stat_def)
  have grp: "ready_group ?k = ready_group k OR prio_mask ?p"
    using n(2) x(2) by (simp add: rt_schedule_insert_thread_def Let_def set_stat_def)
  have at: "priority_table ?k ! p = (if p = ?p then priority_table k ! ?p @ [t] else priority_table k ! p)" if "p < 32" for p
    using that len x(1) by (simp add: tab nth_list_update)
  have "t \<notin> set (priority_table k ! p)" if "p < 32" for p using n(1) that by (auto simp: ready_set_def)
  note absent = this
  have "distinct (priority_table ?k ! p) \<and> (bit (ready_group ?k) p \<longleftrightarrow> priority_table ?k ! p \<noteq> [])
      \<and> (\<forall>u \<in> set (priority_table ?k ! p). tcb_priority (tcbs ?k u) = p)" if p: "p < 32" for p
  proof -
    have "distinct (priority_table k ! p)" "bit (ready_group k) p \<longleftrightarrow> priority_table k ! p \<noteq> []"
      "\<forall>u \<in> set (priority_table k ! p). tcb_priority (tcbs k u) = p" using q p by (simp_all add: queue_ok_def)
    moreover have "bit (ready_group ?k) p \<longleftrightarrow> bit (ready_group k) p \<or> p = ?p"
      unfolding grp bit_or_iff bit_prio_mask [OF x(1)] by (rule refl)
    ultimately show ?thesis using absent [OF p] unfolding at [OF p] by auto
  qed
  then show "queue_ok ?k" using len by (simp add: queue_ok_def tab)
  show "ready_set ?k = insert t (ready_set k)" using x(1) by (auto simp: ready_set_def at split: if_splits)
qed

lemma remove_queue_ok:
  assumes q: "queue_ok k" and x: "tcb_ok (tcbs k t)" and m: "t \<in> ready_set k \<Longrightarrow> tcb_number_mask (tcbs k t) \<noteq> 0"
  shows "queue_ok (rt_schedule_remove_thread t k)" "ready_set (rt_schedule_remove_thread t k) = ready_set k - {t}"
proof -
  let ?p = "tcb_priority (tcbs k t)" and ?k = "rt_schedule_remove_thread t k"
  have len: "length (priority_table k) = 32" using q by (simp add: queue_ok_def)
  have at: "priority_table ?k ! p = removeAll t (priority_table k ! p)" if "p < 32" for p using that len by simp
  show r: "ready_set ?k = ready_set k - {t}" using at by (auto simp: ready_set_def)
  have p: "?p < 32" using x by (simp add: tcb_ok_def)
  have grp: "ready_group ?k = (if removeAll t (priority_table k ! ?p) = [] then ready_group k AND NOT (tcb_number_mask (tcbs k t))
      else ready_group k)"
    using len p by (simp add: rt_schedule_remove_thread_def Let_def list_remove_def)
  have other: "removeAll t (priority_table k ! p) = priority_table k ! p" if "p < 32" "p \<noteq> ?p" for p
    using q that by (auto simp: queue_ok_def intro!: removeAll_id)
  have b: "bit (ready_group ?k) p \<longleftrightarrow> priority_table ?k ! p \<noteq> []" if "p < 32" for p
  proof (cases "tcb_number_mask (tcbs k t) = 0")
    case True
    then have "t \<notin> ready_set k" using m by blast
    then have "removeAll t (priority_table k ! p) = priority_table k ! p" using that by (intro removeAll_id) (auto simp: ready_set_def)
    then show ?thesis using q that by (simp add: at grp True queue_ok_def)
  next
    case False
    then have mk: "tcb_number_mask (tcbs k t) = prio_mask ?p" using x by (simp add: tcb_ok_def)
    show ?thesis
    proof (cases "p = ?p")
      case True
      have "removeAll t (priority_table k ! ?p) \<noteq> [] \<Longrightarrow> priority_table k ! ?p \<noteq> []" by auto
      then show ?thesis using q p True by (simp add: at grp mk bit_not_prio_mask queue_ok_def)
    next
      case False
      then show ?thesis using q that p other [OF that False] by (simp add: at grp mk bit_not_prio_mask queue_ok_def)
    qed
  qed
  show "queue_ok ?k" using q b at len by (auto simp: queue_ok_def distinct_removeAll)
qed

lemma remove_absent:
  assumes q: "queue_ok k" and x: "tcb_ok (tcbs k t)" and n: "t \<notin> ready_set k"
  shows "rt_schedule_remove_thread t k = k"
proof -
  let ?p = "tcb_priority (tcbs k t)"
  have len: "length (priority_table k) = 32" and p: "?p < 32" using q x by (simp_all add: queue_ok_def tcb_ok_def)
  have "map (removeAll t) (priority_table k) = priority_table k"
  proof (rule map_idI)
    fix xs assume "xs \<in> set (priority_table k)"
    then obtain i where "i < 32" "xs = priority_table k ! i" using len by (metis in_set_conv_nth)
    then show "removeAll t xs = xs" using n by (intro removeAll_id) (auto simp: ready_set_def)
  qed
  then have l: "list_remove t k = k" by (simp add: list_remove_def)
  have "ready_group k AND NOT (tcb_number_mask (tcbs k t)) = ready_group k" if "priority_table k ! ?p = []"
  proof -
    have b: "\<not> bit (ready_group k) ?p" using q p that by (simp add: queue_ok_def)
    show ?thesis
    proof (cases "tcb_number_mask (tcbs k t) = 0")
      case False
      then have mk: "tcb_number_mask (tcbs k t) = prio_mask ?p" using x by (simp add: tcb_ok_def)
      show ?thesis unfolding mk by (rule bit_eqI) (use b p in \<open>auto simp: bit_not_prio_mask simp del: bit_and_iff\<close>)
    qed simp
  qed
  then show ?thesis by (simp add: rt_schedule_remove_thread_def l Let_def)
qed


section \<open>The invariant\<close>

abbreviation stat_of :: "kernel \<Rightarrow> nat \<Rightarrow> thread_stat" where
  "stat_of k t \<equiv> tcb_stat (tcbs k t)"

abbreviation prio_of :: "kernel \<Rightarrow> nat \<Rightarrow> nat" where
  "prio_of k t \<equiv> tcb_priority (tcbs k t)"

text \<open>
  The threads in the ready lists are those in the ready state; only the current thread runs, and it is not in a list; only a
  suspended thread has a running timer.
\<close>

definition sched_base :: "kernel \<Rightarrow> bool" where
  "sched_base k \<longleftrightarrow> queue_ok k \<and> ready_set k = {t. stat_of k t = RT_THREAD_READY} \<and> (\<forall>t. tcb_ok (tcbs k t))
     \<and> (\<forall>t. tm_activated (tmr k t) \<longrightarrow> stat_of k t = RT_THREAD_SUSPEND)"

definition sched_inv :: "kernel \<Rightarrow> bool" where
  "sched_inv k \<longleftrightarrow> sched_base k \<and> (\<forall>t. stat_of k t = RT_THREAD_RUNNING \<longrightarrow> cur_thread k = Some t)
     \<and> (\<forall>t. cur_thread k = Some t \<longrightarrow> stat_of k t \<noteq> RT_THREAD_READY)"

text \<open>A step that leaves the ready lists alone.\<close>

lemma sched_base_frame:
  assumes "sched_base k" "priority_table k' = priority_table k" "ready_group k' = ready_group k"
    "\<And>t. stat_of k' t = RT_THREAD_READY \<longleftrightarrow> stat_of k t = RT_THREAD_READY"
    "\<And>t. stat_of k t = RT_THREAD_READY \<Longrightarrow> prio_of k' t = prio_of k t" "\<And>t. tcb_ok (tcbs k' t)"
    "\<And>t. tm_activated (tmr k' t) \<Longrightarrow> stat_of k' t = RT_THREAD_SUSPEND"
  shows "sched_base k'"
proof -
  have "queue_ok k'" by (rule queue_ok_cong [of k]) (use assms in \<open>auto simp: sched_base_def\<close>)
  moreover have "ready_set k' = ready_set k" by (rule ready_set_cong [OF assms(2)])
  ultimately show ?thesis using assms by (simp add: sched_base_def)
qed

lemma tcb_ok_started: "tcb_ok x \<Longrightarrow> tcb_stat x \<in> {RT_THREAD_READY, RT_THREAD_SUSPEND, RT_THREAD_RUNNING}
    \<Longrightarrow> tcb_number_mask x = prio_mask (tcb_priority x)"
  by (auto simp: tcb_ok_def)

lemma prio_mask_nonzero: "p < 32 \<Longrightarrow> prio_mask p \<noteq> 0"
  using bit_prio_mask [of p p] by auto

lemma sched_baseD:
  assumes "sched_base k"
  shows "queue_ok k" "ready_set k = {t. stat_of k t = RT_THREAD_READY}" "tcb_ok (tcbs k t)"
    "tm_activated (tmr k t) \<Longrightarrow> stat_of k t = RT_THREAD_SUSPEND" "prio_of k t < 32"
    "t \<in> ready_set k \<Longrightarrow> tcb_number_mask (tcbs k t) \<noteq> 0"
proof -
  show b: "queue_ok k" "ready_set k = {t. stat_of k t = RT_THREAD_READY}" "tcb_ok (tcbs k t)"
    "tm_activated (tmr k t) \<Longrightarrow> stat_of k t = RT_THREAD_SUSPEND" using assms by (simp_all add: sched_base_def)
  show "prio_of k t < 32" using b(3) by (simp add: tcb_ok_def)
  then show "t \<in> ready_set k \<Longrightarrow> tcb_number_mask (tcbs k t) \<noteq> 0"
    using tcb_ok_started [OF b(3)] prio_mask_nonzero b(2) by simp
qed

text \<open>A thread leaves the lists for a state that is not ready.\<close>

lemma sched_base_remove:
  assumes b: "sched_base k" and tab: "priority_table k' = priority_table (rt_schedule_remove_thread t k)"
    "ready_group k' = ready_group (rt_schedule_remove_thread t k)"
    and st: "stat_of k' t \<noteq> RT_THREAD_READY" "\<And>u. u \<noteq> t \<Longrightarrow> tcbs k' u = tcbs k u" "tcb_ok (tcbs k' t)"
    and tm: "\<And>u. tm_activated (tmr k' u) \<Longrightarrow> stat_of k' u = RT_THREAD_SUSPEND"
  shows "sched_base k'"
proof -
  note d = sched_baseD [OF b]
  note r = remove_queue_ok [OF d(1,3,6)]
  have rs: "ready_set k' = ready_set k - {t}" using ready_set_cong [OF tab(1)] r(2) by blast
  have "queue_ok k'"
    by (rule queue_ok_cong [OF r(1) tab]) (use st(2) r(2) in auto)
  moreover have "ready_set k' = {u. stat_of k' u = RT_THREAD_READY}"
    unfolding rs d(2) using st(1,2) by (auto, metis)
  moreover have "tcb_ok (tcbs k' u)" for u using st(2,3) d(3) by (cases "u = t") auto
  ultimately show ?thesis using tm by (simp add: sched_base_def)
qed

text \<open>A thread that is not in a list, and not current, becomes ready.\<close>

lemma sched_base_insert:
  assumes b: "sched_base k" and n: "stat_of k t \<noteq> RT_THREAD_READY" "cur_thread k \<noteq> Some t" "\<not> tm_activated (tmr k t)"
    and m: "tcb_number_mask (tcbs k t) = prio_mask (prio_of k t)"
  shows "sched_base (rt_schedule_insert_thread t k)"
proof -
  note d = sched_baseD [OF b]
  have "t \<notin> ready_set k" using d(2) n(1) by simp
  note i = insert_queue_ok [OF d(1,5) m this n(2)]
  have "ready_set (rt_schedule_insert_thread t k) = {u. stat_of (rt_schedule_insert_thread t k) u = RT_THREAD_READY}"
    unfolding i(2) d(2) using n(2) by auto
  moreover have "tcb_ok (tcbs (rt_schedule_insert_thread t k) u)" for u
    using d(3) [of u] m by (auto simp: tcb_ok_def)
  ultimately show ?thesis using i(1) d(4) n(3) by (simp add: sched_base_def)
qed

section \<open>The schedule\<close>

lemma ready_group_top:
  assumes "sched_base k" "ready_group k \<noteq> 0"
  defines "h \<equiv> fst (highest_priority_thread k)" and "p \<equiv> snd (highest_priority_thread k)"
  shows "p < 32" "priority_table k ! p \<noteq> []" "h = hd (priority_table k ! p)" "stat_of k h = RT_THREAD_READY" "prio_of k h = p"
    "\<And>u. stat_of k u = RT_THREAD_READY \<Longrightarrow> p \<le> prio_of k u"
proof -
  note d = sched_baseD [OF assms(1)]
  have l: "is_lowest_bit (ready_group k) p" using rt_ffs_lowest(1) [OF assms(2)] by (simp add: p_def highest_priority_thread_def Let_def)
  show p: "p < 32" using l by (simp add: is_lowest_bit_def)
  show ne: "priority_table k ! p \<noteq> []" using l d(1) unfolding is_lowest_bit_def queue_ok_def by blast
  show h: "h = hd (priority_table k ! p)" by (simp add: h_def p_def highest_priority_thread_def Let_def)
  then have mem: "h \<in> set (priority_table k ! p)" using ne by simp
  then have "h \<in> ready_set k" using p by (auto simp: ready_set_def)
  then show "stat_of k h = RT_THREAD_READY" using d(2) by simp
  show "prio_of k h = p" using mem p d(1) by (simp add: queue_ok_def)
  fix u assume "stat_of k u = RT_THREAD_READY"
  then have "u \<in> set (priority_table k ! prio_of k u)" "prio_of k u < 32" using d(1,2) queue_ok_ready by auto
  moreover from this have "priority_table k ! prio_of k u \<noteq> []" by auto
  ultimately have "bit (ready_group k) (prio_of k u)" using d(1) unfolding queue_ok_def by blast
  then show "p \<le> prio_of k u" using l by (meson is_lowest_bit_def not_le_imp_less)
qed

lemma ready_group_zero:
  assumes "sched_base k"
  shows "ready_group k = 0 \<longleftrightarrow> (\<forall>t. stat_of k t \<noteq> RT_THREAD_READY)"
proof
  note d = sched_baseD [OF assms]
  assume z: "ready_group k = 0"
  have "priority_table k ! p = []" if "p < 32" for p using d(1) that z by (simp add: queue_ok_def)
  then have "ready_set k = {}" by (simp add: ready_set_def)
  then show "\<forall>t. stat_of k t \<noteq> RT_THREAD_READY" using d(2) by simp
next
  assume "\<forall>t. stat_of k t \<noteq> RT_THREAD_READY"
  then show "ready_group k = 0" using ready_group_top(4) [OF assms] by blast
qed

text \<open>The three ways \<open>rt_schedule\<close> goes when it is not locked and a thread is ready.\<close>

definition keeps_running :: "nat \<Rightarrow> kernel \<Rightarrow> bool" where
  "keeps_running c k \<longleftrightarrow> stat_of k c = RT_THREAD_RUNNING
     \<and> (prio_of k c < snd (highest_priority_thread k)
        \<or> prio_of k c = snd (highest_priority_thread k) \<and> \<not> tcb_yield (tcbs k c))"

definition switch_to :: "nat \<Rightarrow> kernel \<Rightarrow> kernel" where
  "switch_to h k = set_stat h RT_THREAD_RUNNING (rt_schedule_remove_thread h k)"

lemma rt_schedule_cases:
  assumes inv: "sched_inv k" and c: "cur_thread k = Some c" "lock_nest k = 0" "ready_group k \<noteq> 0"
  defines "h \<equiv> fst (highest_priority_thread k)" and "p \<equiv> snd (highest_priority_thread k)"
    and "k1 \<equiv> upd_tcb c (\<lambda>x. x\<lparr>tcb_yield := False\<rparr>) k"
  shows "keeps_running c k \<Longrightarrow> rt_schedule k = k1"
    "stat_of k c = RT_THREAD_RUNNING \<Longrightarrow> \<not> keeps_running c k
      \<Longrightarrow> rt_schedule k = switch_to h (rt_schedule_insert_thread c (k1\<lparr>cur_prio := p mod 256, cur_thread := Some h\<rparr>))"
    "stat_of k c \<noteq> RT_THREAD_RUNNING \<Longrightarrow> rt_schedule k = switch_to h (k\<lparr>cur_prio := p mod 256, cur_thread := Some h\<rparr>)"
proof -
  have b: "sched_base k" using inv by (simp add: sched_inv_def)
  note t = ready_group_top [OF b c(3), folded h_def p_def]
  have hp: "highest_priority_thread k = (h, p)" by (simp add: h_def p_def)
  have nr: "stat_of k c \<noteq> RT_THREAD_READY" using inv c(1) by (simp add: sched_inv_def)
  then have hc: "h \<noteq> c" using t(4) by auto
  {
    assume kr: "keeps_running c k"
    have b1: "queue_ok k1" by (rule queue_ok_cong [OF sched_baseD(1) [OF b]]) (simp_all add: k1_def)
    have "c \<notin> ready_set k" using nr sched_baseD(2) [OF b] by simp
    then have n1: "c \<notin> ready_set k1" using ready_set_cong [of k1 k] by (simp add: k1_def)
    have "tcb_ok (tcbs k1 c)" using sched_baseD(3) [OF b, of c] by (simp add: k1_def tcb_ok_def)
    then have rm: "rt_schedule_remove_thread c k1 = k1" by (rule remove_absent [OF b1 _ n1])
    have "set_stat c RT_THREAD_RUNNING k1 = k1"
      using kr by (cases "tcbs k c") (simp add: set_stat_def k1_def keeps_running_def upd_tcb_def)
    then show "rt_schedule k = k1"
      using kr c by (auto simp: rt_schedule_def schedule_choice_def hp keeps_running_def Let_def rm simp flip: k1_def)
  next
    assume "stat_of k c = RT_THREAD_RUNNING" "\<not> keeps_running c k"
    then show "rt_schedule k = switch_to h (rt_schedule_insert_thread c (k1\<lparr>cur_prio := p mod 256, cur_thread := Some h\<rparr>))"
      using c hc by (auto simp: rt_schedule_def schedule_choice_def hp keeps_running_def switch_to_def Let_def simp flip: k1_def)
  next
    assume "stat_of k c \<noteq> RT_THREAD_RUNNING"
    then show "rt_schedule k = switch_to h (k\<lparr>cur_prio := p mod 256, cur_thread := Some h\<rparr>)"
      using c hc by (simp add: rt_schedule_def schedule_choice_def hp switch_to_def Let_def)
  }
qed


text \<open>The switch to a ready thread that is current already, when no thread runs.\<close>

lemma switch_to_inv:
  assumes b: "sched_base k" and c: "cur_thread k = Some h" "stat_of k h = RT_THREAD_READY"
    and n: "\<And>t. stat_of k t \<noteq> RT_THREAD_RUNNING"
  shows "sched_inv (switch_to h k)"
proof -
  note d = sched_baseD [OF b]
  have "sched_base (switch_to h k)"
  proof (rule sched_base_remove [OF b])
    show "tcb_ok (tcbs (switch_to h k) h)" using d(3) [of h] c(2) by (auto simp: switch_to_def set_stat_def tcb_ok_def)
    show "stat_of (switch_to h k) u = RT_THREAD_SUSPEND" if "tm_activated (tmr (switch_to h k) u)" for u
      using that d(4) [of u] c(2) by (auto simp: switch_to_def set_stat_def)
  qed (simp_all add: switch_to_def set_stat_def)
  then show ?thesis using c(1) n by (auto simp: sched_inv_def switch_to_def set_stat_def)
qed

lemma switch_to_simps:
  "stat_of (switch_to h k) t = (if t = h then RT_THREAD_RUNNING else stat_of k t)" "prio_of (switch_to h k) t = prio_of k t"
  "cur_thread (switch_to h k) = cur_thread k" "same_timers k (switch_to h k)"
  by (auto simp: switch_to_def set_stat_def same_timers_def fun_eq_iff)

lemma rt_schedule_result:
  assumes inv: "sched_inv k" and c: "cur_thread k = Some c" "lock_nest k = 0" "ready_group k \<noteq> 0"
  defines "h \<equiv> fst (highest_priority_thread k)"
  shows "sched_inv (rt_schedule k)"
    "\<forall>t. prio_of (rt_schedule k) t = prio_of k t"
    "keeps_running c k \<Longrightarrow> cur_thread (rt_schedule k) = Some c \<and> (\<forall>t. stat_of (rt_schedule k) t = stat_of k t)"
    "\<not> keeps_running c k \<Longrightarrow> cur_thread (rt_schedule k) = Some h
       \<and> (\<forall>t. stat_of (rt_schedule k) t =
            (if t = h then RT_THREAD_RUNNING else if t = c \<and> stat_of k c = RT_THREAD_RUNNING then RT_THREAD_READY else stat_of k t))"
proof -
  have b: "sched_base k" using inv by (simp add: sched_inv_def)
  note t = ready_group_top [OF b c(3), folded h_def]
  note cs = rt_schedule_cases [OF inv c, folded h_def]
  let ?p = "snd (highest_priority_thread k)"
  define k1 where "k1 = upd_tcb c (\<lambda>x. x\<lparr>tcb_yield := False\<rparr>) k"
  define k2 where "k2 = k1\<lparr>cur_prio := ?p mod 256, cur_thread := Some h\<rparr>"
  define k3 where "k3 = k\<lparr>cur_prio := ?p mod 256, cur_thread := Some h\<rparr>"
  have nr: "stat_of k c \<noteq> RT_THREAD_READY" using inv c(1) by (simp add: sched_inv_def)
  then have hc: "h \<noteq> c" using t(4) by auto
  have yk: "tcb_ok (tcbs k1 u)" for u using sched_baseD(3) [OF b, of u] by (auto simp: k1_def tcb_ok_def)
  have b1: "sched_base k1"
    by (rule sched_base_frame [OF b]) (use yk sched_baseD(4) [OF b] in \<open>auto simp: k1_def\<close>)
  have st1: "stat_of k1 t = stat_of k t" "prio_of k1 t = prio_of k t" "cur_thread k1 = Some c" for t
    using c(1) by (simp_all add: k1_def)
  have b2: "sched_base k2"
    by (rule sched_base_frame [OF b1]) (use yk sched_baseD(4) [OF b1] in \<open>auto simp: k2_def\<close>)
  have b3: "sched_base k3"
    by (rule sched_base_frame [OF b]) (use sched_baseD(3,4) [OF b] in \<open>auto simp: k3_def\<close>)
  have run: "stat_of k u = RT_THREAD_RUNNING \<Longrightarrow> u = c" for u using inv c(1) by (auto simp: sched_inv_def)
  have "sched_inv (rt_schedule k) \<and> (\<forall>t. prio_of (rt_schedule k) t = prio_of k t)
    \<and> (keeps_running c k \<longrightarrow> cur_thread (rt_schedule k) = Some c \<and> (\<forall>t. stat_of (rt_schedule k) t = stat_of k t))
    \<and> (\<not> keeps_running c k \<longrightarrow> cur_thread (rt_schedule k) = Some h
       \<and> (\<forall>t. stat_of (rt_schedule k) t =
            (if t = h then RT_THREAD_RUNNING else if t = c \<and> stat_of k c = RT_THREAD_RUNNING then RT_THREAD_READY else stat_of k t)))"
  proof (cases "keeps_running c k")
    case True
    note e = cs(1) [OF True, folded k1_def]
    have "sched_inv k1" using inv b1 st1 c(1) unfolding sched_inv_def by simp
    then show ?thesis using True st1 unfolding e by blast
  next
    case nk: False
    show ?thesis
    proof (cases "stat_of k c = RT_THREAD_RUNNING")
      case True
      note e = cs(2) [OF True nk, folded k1_def, folded k2_def]
      define k4 where "k4 = rt_schedule_insert_thread c k2"
      have s2: "stat_of k2 t = stat_of k t" "prio_of k2 t = prio_of k t" "cur_thread k2 = Some h" for t
        using st1 by (simp_all add: k2_def)
      have "\<not> tm_activated (tmr k2 c)" using sched_baseD(4) [OF b2, of c] s2(1) True by auto
      moreover have "tcb_number_mask (tcbs k2 c) = prio_mask (prio_of k2 c)"
        by (rule tcb_ok_started [OF sched_baseD(3) [OF b2]]) (simp add: s2(1) True)
      ultimately have b4: "sched_base k4" unfolding k4_def using s2 nr hc by (intro sched_base_insert [OF b2]) simp_all
      have s4: "stat_of k4 t = (if t = c then RT_THREAD_READY else stat_of k t)" "prio_of k4 t = prio_of k t"
        "cur_thread k4 = Some h" for t
        using s2 hc by (simp_all add: k4_def)
      have "sched_inv (switch_to h k4)" by (rule switch_to_inv [OF b4 s4(3)]) (use s4(1) t(4) run hc in auto)
      then show ?thesis unfolding e k4_def [symmetric] switch_to_simps s4 using nk True hc by auto
    next
      case False
      note e = cs(3) [OF False, folded k3_def]
      have s3: "stat_of k3 t = stat_of k t" "prio_of k3 t = prio_of k t" "cur_thread k3 = Some h" for t by (simp_all add: k3_def)
      have "sched_inv (switch_to h k3)" by (rule switch_to_inv [OF b3 s3(3)]) (use s3(1) t(4) run False in auto)
      then show ?thesis unfolding e switch_to_simps s3 using nk False by auto
    qed
  qed
  then show "sched_inv (rt_schedule k)" "\<forall>t. prio_of (rt_schedule k) t = prio_of k t"
    "keeps_running c k \<Longrightarrow> cur_thread (rt_schedule k) = Some c \<and> (\<forall>t. stat_of (rt_schedule k) t = stat_of k t)"
    "\<not> keeps_running c k \<Longrightarrow> cur_thread (rt_schedule k) = Some h
       \<and> (\<forall>t. stat_of (rt_schedule k) t =
            (if t = h then RT_THREAD_RUNNING else if t = c \<and> stat_of k c = RT_THREAD_RUNNING then RT_THREAD_READY else stat_of k t))" by blast+
qed

lemma rt_schedule_idle:
  "cur_thread k = None \<or> lock_nest k \<noteq> 0 \<or> ready_group k = 0 \<Longrightarrow> rt_schedule k = k"
  by (auto simp: rt_schedule_def split: option.splits)

lemma rt_schedule_inv: "sched_inv k \<Longrightarrow> sched_inv (rt_schedule k)"
  using rt_schedule_result(1) [of k] rt_schedule_idle [of k] by fastforce

lemma rt_schedule_prio: "sched_inv k \<Longrightarrow> prio_of (rt_schedule k) t = prio_of k t"
  using rt_schedule_result(2) [of k] rt_schedule_idle [of k] by fastforce

text \<open>A thread that neither runs nor is ready is left alone, and a ready one stays in the game.\<close>

lemma rt_schedule_others:
  assumes "sched_inv k"
  shows "stat_of k t \<notin> {RT_THREAD_READY, RT_THREAD_RUNNING} \<Longrightarrow> stat_of (rt_schedule k) t = stat_of k t"
    "stat_of k t \<in> {RT_THREAD_READY, RT_THREAD_RUNNING} \<Longrightarrow> stat_of (rt_schedule k) t \<in> {RT_THREAD_READY, RT_THREAD_RUNNING}"
proof -
  have "(stat_of k t \<notin> {RT_THREAD_READY, RT_THREAD_RUNNING} \<longrightarrow> stat_of (rt_schedule k) t = stat_of k t)
    \<and> (stat_of k t \<in> {RT_THREAD_READY, RT_THREAD_RUNNING} \<longrightarrow> stat_of (rt_schedule k) t \<in> {RT_THREAD_READY, RT_THREAD_RUNNING})"
  proof (cases "cur_thread k = None \<or> lock_nest k \<noteq> 0 \<or> ready_group k = 0")
    case True
    then show ?thesis by (simp add: rt_schedule_idle)
  next
    case False
    then obtain c where c: "cur_thread k = Some c" "lock_nest k = 0" "ready_group k \<noteq> 0" by auto
    have b: "sched_base k" using assms by (simp add: sched_inv_def)
    show ?thesis
      using rt_schedule_result(3,4) [OF assms c] ready_group_top(4) [OF b c(3)] by (cases "keeps_running c k") auto
  qed
  then show "stat_of k t \<notin> {RT_THREAD_READY, RT_THREAD_RUNNING} \<Longrightarrow> stat_of (rt_schedule k) t = stat_of k t"
    "stat_of k t \<in> {RT_THREAD_READY, RT_THREAD_RUNNING} \<Longrightarrow> stat_of (rt_schedule k) t \<in> {RT_THREAD_READY, RT_THREAD_RUNNING}"
    by blast+
qed

end
