(* ===== verification/Thread_Spec.thy ===== *)
theory Thread_Spec
  imports Scheduler_Spec
begin

text \<open>
  The operations of the kernel as one labelled step relation, the invariant that every step keeps, and a thread's sleep.  The
  guards of the steps are the assertions of the source (\<open>RT_ASSERT\<close>): priorities below 32, a start only of an initialised
  thread, a timer less than half the tick range ahead; and a thread that has been closed does not sleep.
\<close>

section \<open>Steps\<close>

datatype kop = K_START | K_INIT nat nat u32 | K_STARTUP nat | K_RESUME nat | K_SUSPEND nat | K_SCHEDULE | K_YIELD | K_SLEEP u32
  | K_DELAY_UNTIL u32 u32 | K_WAIT nat u32 | K_CHANGE_PRIORITY nat nat | K_DETACH nat | K_EXIT | K_ENTER_CRITICAL
  | K_EXIT_CRITICAL | K_TICK

text \<open>A suspended thread's timer is set and started, as \<open>rt_thread_sleep\<close> and the blocking calls of \<open>ipc.c\<close> do.\<close>

definition timed_wait :: "nat \<Rightarrow> u32 \<Rightarrow> kernel \<Rightarrow> kernel" where
  "timed_wait t n k = rt_timer_start t (fst (rt_timer_control t (CTRL_SET_TIME n) k))"

definition by_current :: "(nat \<Rightarrow> kernel \<Rightarrow> kernel) \<Rightarrow> kernel \<Rightarrow> kernel option" where
  "by_current f k = (case cur_thread k of None \<Rightarrow> None | Some c \<Rightarrow> Some (f c k))"

text \<open>A thread that waits runs, or is suspended already while the scheduler is locked.\<close>

definition may_wait :: "u32 \<Rightarrow> kernel \<Rightarrow> bool" where
  "may_wait n k \<longleftrightarrow> n < RT_TICK_MAX div 2
     \<and> (\<forall>c \<in> set_option (cur_thread k). tcb_stat (tcbs k c) \<in> {RT_THREAD_RUNNING, RT_THREAD_SUSPEND})"

definition allowed :: "bool \<Rightarrow> kernel \<Rightarrow> kernel option" where
  "allowed b k = (if b then Some k else None)"

fun kexec :: "kop \<Rightarrow> kernel \<Rightarrow> kernel option" where
  "kexec K_START k = allowed (cur_thread k = None \<and> ready_group k \<noteq> 0) (rt_system_scheduler_start k)"
| "kexec (K_INIT t p n) k =
     allowed (p < 32 \<and> tcb_stat (tcbs k t) \<in> {RT_THREAD_INIT, RT_THREAD_CLOSE}) (rt_thread_init t p n k)"
| "kexec (K_STARTUP t) k = allowed (tcb_stat (tcbs k t) = RT_THREAD_INIT) (rt_thread_startup t k)"
| "kexec (K_RESUME t) k = Some (fst (rt_thread_resume t k))"
| "kexec (K_SUSPEND t) k = Some (fst (rt_thread_suspend t k))"
| "kexec K_SCHEDULE k = Some (rt_schedule k)"
| "kexec K_YIELD k = by_current rt_thread_yield k"
| "kexec (K_SLEEP n) k = (if may_wait n k then by_current (\<lambda>c. rt_thread_sleep c n) k else None)"
| "kexec (K_DELAY_UNTIL t n) k =
     (if may_wait n k then by_current (\<lambda>c k. fst (rt_thread_delay_until c t n k)) k else None)"
| "kexec (K_WAIT t n) k = allowed (tcb_stat (tcbs k t) = RT_THREAD_SUSPEND \<and> n < RT_TICK_MAX div 2) (timed_wait t n k)"
| "kexec (K_CHANGE_PRIORITY t p) k = allowed (p < 32) (rt_thread_change_priority t p k)"
| "kexec (K_DETACH t) k = Some (rt_thread_detach t k)"
| "kexec K_EXIT k = by_current rt_thread_exit k"
| "kexec K_ENTER_CRITICAL k = Some (rt_enter_critical k)"
| "kexec K_EXIT_CRITICAL k = Some (rt_exit_critical k)"
| "kexec K_TICK k = rt_tick_increase k"

section \<open>Each operation keeps the invariant\<close>

lemma sched_inv_base: "sched_inv k \<Longrightarrow> sched_base k"
  by (simp add: sched_inv_def)

text \<open>A change that leaves states, lists and priorities alone.\<close>

lemma sched_inv_frame:
  assumes "sched_inv k" "priority_table k' = priority_table k" "ready_group k' = ready_group k" "cur_thread k' = cur_thread k"
    "\<And>t. stat_of k' t = stat_of k t" "\<And>t. stat_of k t = RT_THREAD_READY \<Longrightarrow> prio_of k' t = prio_of k t"
    "\<And>t. tcb_ok (tcbs k' t)" "\<And>t. tm_activated (tmr k' t) \<Longrightarrow> stat_of k t = RT_THREAD_SUSPEND"
  shows "sched_inv k'"
proof -
  have "sched_base k'" by (rule sched_base_frame [OF sched_inv_base [OF assms(1)]]) (use assms in auto)
  then show ?thesis using assms by (simp add: sched_inv_def)
qed

lemma sched_inv_tcb:
  assumes "sched_inv k" "\<And>x. tcb_stat (f x) = tcb_stat x" "\<And>x. tcb_priority (f x) = tcb_priority x"
    "\<And>x. tcb_ok x \<Longrightarrow> tcb_ok (f x)"
  shows "sched_inv (upd_tcb t f k)"
  by (rule sched_inv_frame [OF assms(1)]) (use sched_baseD(3,4) [OF sched_inv_base [OF assms(1)]] assms(2-4) in auto)

lemma list_remove_absent:
  assumes "sched_base k" "stat_of k t \<noteq> RT_THREAD_READY"
  shows "list_remove t k = k" "rt_schedule_remove_thread t k = k"
proof -
  note d = sched_baseD [OF assms(1)]
  have n: "t \<notin> ready_set k" using d(2) assms(2) by simp
  show r: "rt_schedule_remove_thread t k = k" by (rule remove_absent [OF d(1,3) n])
  then have "map (removeAll t) (priority_table k) = priority_table k" by (metis rt_schedule_remove_thread_simps(3))
  then show "list_remove t k = k" by (simp add: list_remove_def)
qed

text \<open>A thread whose timer does not run leaves the suspended state.\<close>

lemma wake_inv:
  assumes inv: "sched_inv k" and t: "stat_of k t = RT_THREAD_SUSPEND" "\<not> tm_activated (tmr k t)"
  shows "sched_inv (rt_schedule_insert_thread t k)"
proof -
  have b: "sched_base k" by (rule sched_inv_base [OF inv])
  note d = sched_baseD [OF b]
  have m: "tcb_number_mask (tcbs k t) = prio_mask (prio_of k t)" by (rule tcb_ok_started [OF d(3)]) (simp add: t(1))
  show ?thesis
  proof (cases "cur_thread k = Some t")
    case True
    then have e: "rt_schedule_insert_thread t k = set_stat t RT_THREAD_RUNNING k" by (simp add: rt_schedule_insert_thread_def)
    have "sched_base (set_stat t RT_THREAD_RUNNING k)"
      by (rule sched_base_frame [OF b]) (use t m d(3) d(4) in \<open>auto simp: set_stat_def tcb_ok_def\<close>)
    then show ?thesis using inv True unfolding e by (auto simp: sched_inv_def set_stat_def)
  next
    case False
    have "sched_base (rt_schedule_insert_thread t k)" by (rule sched_base_insert [OF b _ False t(2) m]) (simp add: t(1))
    then show ?thesis using inv False t(1) by (auto simp: sched_inv_def)
  qed
qed

text \<open>A thread leaves the lists to be suspended or closed.\<close>

lemma leave_inv:
  assumes inv: "sched_inv k" and tab: "priority_table k' = priority_table (rt_schedule_remove_thread t k)"
    "ready_group k' = ready_group (rt_schedule_remove_thread t k)" "cur_thread k' = cur_thread k"
    and st: "stat_of k' t \<notin> {RT_THREAD_READY, RT_THREAD_RUNNING}" "\<And>u. u \<noteq> t \<Longrightarrow> tcbs k' u = tcbs k u" "tcb_ok (tcbs k' t)"
    and tm: "\<not> tm_activated (tmr k' t)" "\<And>u. u \<noteq> t \<Longrightarrow> tmr k' u = tmr k u"
  shows "sched_inv k'"
proof -
  note b = sched_inv_base [OF inv]
  have "sched_base k'"
    by (rule sched_base_remove [OF b tab(1,2)]) (use st tm sched_baseD(4) [OF b] in \<open>auto, metis\<close>)
  moreover have "stat_of k' u = (if u = t then stat_of k' t else stat_of k u)" for u using st(2) by simp
  ultimately show ?thesis using inv st(1) unfolding sched_inv_def tab(3) by (metis insertCI)
qed


text \<open>Timer operations of a suspended thread, and those that stop a timer.\<close>

lemma sched_inv_timers:
  assumes "sched_inv k" "timer_sys.more k' = timer_sys.more k"
    "\<And>t. tm_activated (tmr k' t) \<Longrightarrow> tm_activated (tmr k t) \<or> stat_of k t = RT_THREAD_SUSPEND"
  shows "sched_inv k'"
proof -
  note m = timer_more_fields [OF assms(2)] and d = sched_baseD [OF sched_inv_base [OF assms(1)]]
  show ?thesis by (rule sched_inv_frame [OF assms(1)]) (use assms(3) d(3,4) in \<open>auto simp: m\<close>)
qed

lemma rt_timer_stop_inv: "sched_inv k \<Longrightarrow> sched_inv (fst (rt_timer_stop t k))"
  by (rule sched_inv_timers) (auto split: if_splits)

lemma rt_timer_detach_inv: "sched_inv k \<Longrightarrow> sched_inv (rt_timer_detach t k)"
  by (rule sched_inv_timers) (auto split: if_splits)

lemma timed_wait_inv:
  assumes "sched_inv k" "stat_of k t = RT_THREAD_SUSPEND"
  shows "sched_inv (timed_wait t n k)"
  by (rule sched_inv_timers [OF assms(1)])
    (use assms(2) in \<open>auto simp: timed_wait_def rt_timer_start_simps split: if_splits\<close>)

lemma rt_thread_resume_inv:
  assumes "sched_inv k"
  shows "sched_inv (fst (rt_thread_resume t k))"
proof (cases "stat_of k t = RT_THREAD_SUSPEND")
  case True
  then have "list_remove t k = k" by (intro list_remove_absent [OF sched_inv_base [OF assms]]) simp
  then have "fst (rt_thread_resume t k) = rt_schedule_insert_thread t (fst (rt_timer_stop t k))"
    using True by (simp add: rt_thread_resume_def Let_def)
  then show ?thesis using wake_inv [OF rt_timer_stop_inv [OF assms, of t], of t] True by simp
qed (use assms in \<open>simp add: rt_thread_resume_def\<close>)

lemma rt_thread_suspend_inv:
  assumes "sched_inv k"
  shows "sched_inv (fst (rt_thread_suspend t k))"
proof (cases "stat_of k t \<noteq> RT_THREAD_READY \<and> stat_of k t \<noteq> RT_THREAD_RUNNING")
  case False
  have ok: "tcb_ok ((tcbs k t)\<lparr>tcb_stat := RT_THREAD_SUSPEND\<rparr>)"
    using False sched_baseD(3) [OF sched_inv_base [OF assms], of t] by (auto simp: tcb_ok_def)
  show ?thesis
    by (rule leave_inv [OF assms, of _ t]) (use False ok in \<open>auto simp: rt_thread_suspend_def Let_def set_stat_def\<close>)
qed (use assms in \<open>simp add: rt_thread_suspend_def\<close>)

text \<open>Closing, of a thread in any state.\<close>

lemma close_inv:
  assumes "sched_inv k"
  shows "sched_inv (upd_tcb t (\<lambda>x. x\<lparr>tcb_stat := RT_THREAD_CLOSE, tcb_yield := False\<rparr>)
    (rt_timer_detach t (rt_schedule_remove_thread t k)))"
  by (rule leave_inv [OF assms, of _ t])
    (use sched_baseD(3) [OF sched_inv_base [OF assms], of t] in \<open>auto simp: tcb_ok_def\<close>)

lemma rt_thread_detach_close:
  assumes "sched_inv k" "stat_of k t \<noteq> RT_THREAD_CLOSE"
  shows "rt_thread_detach t k = upd_tcb t (\<lambda>x. x\<lparr>tcb_stat := RT_THREAD_CLOSE, tcb_yield := False\<rparr>)
    (rt_timer_detach t (rt_schedule_remove_thread t k))"
proof (cases "stat_of k t = RT_THREAD_INIT")
  case True
  then have "rt_schedule_remove_thread t k = k" by (intro list_remove_absent [OF sched_inv_base [OF assms(1)]]) simp
  then show ?thesis using True by (simp add: rt_thread_detach_def Let_def)
qed (use assms in \<open>simp add: rt_thread_detach_def Let_def\<close>)

lemma rt_thread_detach_inv: "sched_inv k \<Longrightarrow> sched_inv (rt_thread_detach t k)"
  using close_inv [of k t] rt_thread_detach_close [of k t]
  by (cases "stat_of k t = RT_THREAD_CLOSE") (simp_all add: rt_thread_detach_def)

lemma close_commutes:
  "rt_timer_detach t (upd_tcb u f k) = upd_tcb u f (rt_timer_detach t k)"
  by (simp add: upd_tcb_def rt_timer_detach_def timer_deactivate_def timer_remove_def upd_timer_def)

lemma rt_thread_exit_inv: "sched_inv k \<Longrightarrow> sched_inv (rt_thread_exit c k)"
  using rt_schedule_inv [OF close_inv [of k c]] by (simp add: rt_thread_exit_def Let_def close_commutes)

lemma rt_thread_yield_inv: "sched_inv k \<Longrightarrow> sched_inv (rt_thread_yield c k)"
  unfolding rt_thread_yield_def by (intro rt_schedule_inv sched_inv_tcb) (auto simp: tcb_ok_def)

lemma tick_slice_inv: "sched_inv k \<Longrightarrow> sched_inv (tick_slice c k)"
  using rt_schedule_inv [OF sched_inv_tcb, of "upd_tcb c (\<lambda>x. x\<lparr>tcb_remaining_tick := tcb_remaining_tick x - 1\<rparr>) k"
      "\<lambda>x. x\<lparr>tcb_remaining_tick := tcb_init_tick x, tcb_yield := True\<rparr>" c]
    sched_inv_tcb [of k "\<lambda>x. x\<lparr>tcb_remaining_tick := tcb_remaining_tick x - 1\<rparr>" c]
  by (simp add: tick_slice_def Let_def tcb_ok_def)

lemma rt_thread_sleep_wait:
  "rt_thread_sleep c n k = rt_schedule (timed_wait c n (fst (rt_thread_suspend c k)))"
  by (simp add: rt_thread_sleep_def timed_wait_def Let_def)

lemma stat_suspend: "stat_of (fst (rt_thread_suspend t k)) u =
    (if u = t \<and> stat_of k t \<in> {RT_THREAD_READY, RT_THREAD_RUNNING} then RT_THREAD_SUSPEND else stat_of k u)"
  by (auto simp: rt_thread_suspend_def Let_def set_stat_def)

lemma rt_thread_sleep_inv:
  assumes "sched_inv k" "stat_of k c \<in> {RT_THREAD_RUNNING, RT_THREAD_SUSPEND}"
  shows "sched_inv (rt_thread_sleep c n k)"
  unfolding rt_thread_sleep_wait
  by (intro rt_schedule_inv timed_wait_inv rt_thread_suspend_inv assms(1)) (use assms(2) in \<open>auto simp: stat_suspend\<close>)

lemma rt_thread_init_inv:
  assumes inv: "sched_inv k" and t: "p < 32" "stat_of k t \<in> {RT_THREAD_INIT, RT_THREAD_CLOSE}"
  shows "sched_inv (rt_thread_init t p n k)"
proof -
  note b = sched_inv_base [OF inv]
  have "sched_base (rt_thread_init t p n k)"
    by (rule sched_base_frame [OF b])
      (use t sched_baseD(3,4) [OF b] in \<open>auto simp: rt_thread_init_def Let_def timer_init_def tcb_ok_def\<close>)
  then show ?thesis using inv t(2) by (auto simp: sched_inv_def rt_thread_init_def Let_def)
qed

lemma rt_thread_startup_inv:
  assumes inv: "sched_inv k" and t: "stat_of k t = RT_THREAD_INIT"
  shows "sched_inv (rt_thread_startup t k)"
proof -
  note b = sched_inv_base [OF inv]
  define k1 where "k1 = upd_tcb t (\<lambda>x. x\<lparr>tcb_priority := tcb_init_priority x,
      tcb_number_mask := prio_mask (tcb_init_priority x), tcb_stat := RT_THREAD_SUSPEND, tcb_yield := False\<rparr>) k"
  have "sched_base k1"
    by (rule sched_base_frame [OF b]) (use t sched_baseD(3,4) [OF b] in \<open>auto simp: k1_def tcb_ok_def\<close>)
  then have k1: "sched_inv k1" using inv t by (auto simp: sched_inv_def k1_def)
  have "upd_tcb t (\<lambda>x. x\<lparr>tcb_stat := RT_THREAD_SUSPEND, tcb_yield := False\<rparr>)
      (upd_tcb t (\<lambda>x. x\<lparr>tcb_number_mask := prio_mask (tcb_priority x)\<rparr>)
        (upd_tcb t (\<lambda>x. x\<lparr>tcb_priority := tcb_init_priority x\<rparr>) k)) = k1"
    by (cases "tcbs k t") (simp add: k1_def upd_tcb_def)
  then have "rt_thread_startup t k = (let k = fst (rt_thread_resume t k1) in if cur_thread k \<noteq> None then rt_schedule k else k)"
    by (simp add: rt_thread_startup_def Let_def)
  then show ?thesis using rt_thread_resume_inv [OF k1, of t] rt_schedule_inv by (simp add: Let_def)
qed


lemma rt_thread_change_priority_inv:
  assumes inv: "sched_inv k" and p: "p < 32"
  shows "sched_inv (rt_thread_change_priority t p k)"
proof -
  note b = sched_inv_base [OF inv]
  note d = sched_baseD [OF b]
  let ?f = "\<lambda>x :: tcb. x\<lparr>tcb_priority := p, tcb_number_mask := prio_mask p\<rparr>"
  have ok: "tcb_ok (?f (tcbs k u))" for u using p d(3) [of u] by (simp add: tcb_ok_def)
  show ?thesis
  proof (cases "stat_of k t = RT_THREAD_READY")
    case False
    have "sched_inv (upd_tcb t ?f k)"
      by (rule sched_inv_frame [OF inv]) (use False ok d(3,4) in \<open>auto\<close>)
    then show ?thesis using False by (simp add: rt_thread_change_priority_def)
  next
    case True
    define k1 where "k1 = upd_tcb t ?f (rt_schedule_remove_thread t k)"
    have cur: "cur_thread k \<noteq> Some t" using inv True by (auto simp: sched_inv_def)
    note r = remove_queue_ok [OF d(1,3,6), of t]
    have q: "queue_ok k1" by (rule queue_ok_cong [OF r(1)]) (use r(2) in \<open>auto simp: k1_def\<close>)
    have rs: "ready_set k1 = ready_set k - {t}" using ready_set_cong [of k1 "rt_schedule_remove_thread t k"] r(2) by (simp add: k1_def)
    note i = insert_queue_ok [OF q, of t]
    have e: "rt_thread_change_priority t p k = rt_schedule_insert_thread t k1"
      using True by (simp add: rt_thread_change_priority_def k1_def Let_def)
    have i1: "queue_ok (rt_schedule_insert_thread t k1)" "ready_set (rt_schedule_insert_thread t k1) = ready_set k"
      using i p rs cur True d(2) by (auto simp: k1_def)
    have st: "stat_of (rt_schedule_insert_thread t k1) u = stat_of k u" for u using cur True by (simp add: k1_def)
    have "tcb_ok (tcbs (rt_schedule_insert_thread t k1) u)" for u using ok d(3) [of u] cur True p by (auto simp: k1_def tcb_ok_def)
    moreover have "tm_activated (tmr (rt_schedule_insert_thread t k1) u) \<Longrightarrow> stat_of k u = RT_THREAD_SUSPEND" for u
      using d(4) by (simp add: k1_def)
    ultimately have "sched_base (rt_schedule_insert_thread t k1)" using i1 d(2) st by (simp add: sched_base_def)
    then show ?thesis using inv st unfolding e sched_inv_def by (simp add: k1_def)
  qed
qed

lemma rt_system_scheduler_start_inv:
  assumes inv: "sched_inv k" and s: "cur_thread k = None" "ready_group k \<noteq> 0"
  shows "sched_inv (rt_system_scheduler_start k)"
proof -
  note b = sched_inv_base [OF inv]
  define h where "h = fst (highest_priority_thread k)"
  define k1 where "k1 = k\<lparr>cur_thread := Some h\<rparr>"
  note t = ready_group_top [OF b s(2), folded h_def]
  have b1: "sched_base k1" by (rule sched_base_frame [OF b]) (use sched_baseD(3,4) [OF b] in \<open>auto simp: k1_def\<close>)
  have "stat_of k u \<noteq> RT_THREAD_RUNNING" for u using inv s(1) by (auto simp: sched_inv_def)
  then have sw: "sched_inv (switch_to h k1)" using t(4) by (intro switch_to_inv [OF b1]) (simp_all add: k1_def)
  have e: "rt_system_scheduler_start k = upd_tcb h (\<lambda>x. x\<lparr>tcb_yield := False\<rparr>) (switch_to h k1)"
    by (simp add: rt_system_scheduler_start_def Let_def switch_to_def set_stat_def upd_tcb_def k1_def h_def)
  show ?thesis unfolding e by (rule sched_inv_tcb [OF sw]) (auto simp: tcb_ok_def)
qed

lemma sched_inv_lock: "sched_inv (k\<lparr>lock_nest := n\<rparr>) \<longleftrightarrow> sched_inv k"
  by (simp add: sched_inv_def sched_base_def queue_ok_def ready_set_def)

lemma rt_exit_critical_inv: "sched_inv k \<Longrightarrow> sched_inv (rt_exit_critical k)"
  using rt_schedule_inv [of "k\<lparr>lock_nest := 0\<rparr>"] by (simp add: rt_exit_critical_def Let_def sched_inv_lock)

text \<open>What the end of a wait does to every thread.\<close>

lemma rt_thread_timeout_inv:
  assumes inv: "sched_inv k" and t: "stat_of k t = RT_THREAD_SUSPEND" "\<not> tm_activated (tmr k t)"
  shows "sched_inv (rt_thread_timeout t k)"
    "stat_of (rt_thread_timeout t k) t \<in> {RT_THREAD_READY, RT_THREAD_RUNNING}"
    "u \<noteq> t \<Longrightarrow> stat_of k u = RT_THREAD_SUSPEND \<Longrightarrow> stat_of (rt_thread_timeout t k) u = RT_THREAD_SUSPEND"
    "stat_of k u \<in> {RT_THREAD_READY, RT_THREAD_RUNNING}
      \<Longrightarrow> stat_of (rt_thread_timeout t k) u \<in> {RT_THREAD_READY, RT_THREAD_RUNNING}"
    "prio_of (rt_thread_timeout t k) u = prio_of k u"
proof -
  define k1 where "k1 = upd_tcb t (\<lambda>x. x\<lparr>tcb_error := - 2\<rparr>) k"
  have k1: "sched_inv k1" unfolding k1_def by (rule sched_inv_tcb [OF inv]) (auto simp: tcb_ok_def)
  have s1: "stat_of k1 v = stat_of k v" "tmr k1 = tmr k" for v by (simp_all add: k1_def)
  have "list_remove t k1 = k1" by (rule list_remove_absent(1) [OF sched_inv_base [OF k1]]) (simp add: s1 t(1))
  then have e: "rt_thread_timeout t k = rt_schedule (rt_schedule_insert_thread t k1)"
    by (simp add: rt_thread_timeout_def Let_def k1_def)
  have w: "sched_inv (rt_schedule_insert_thread t k1)" by (rule wake_inv [OF k1]) (simp_all add: s1 t)
  have s2: "stat_of (rt_schedule_insert_thread t k1) v =
      (if v = t then if cur_thread k1 = Some t then RT_THREAD_RUNNING else RT_THREAD_READY else stat_of k v)" for v
    by (simp add: s1)
  note o = rt_schedule_others [OF w, unfolded s2, folded e]
  show "sched_inv (rt_thread_timeout t k)" unfolding e by (rule rt_schedule_inv [OF w])
  show "stat_of (rt_thread_timeout t k) t \<in> {RT_THREAD_READY, RT_THREAD_RUNNING}" using o(2) [of t] by simp
  show "stat_of (rt_thread_timeout t k) u = RT_THREAD_SUSPEND" if "u \<noteq> t" "stat_of k u = RT_THREAD_SUSPEND"
    using o(1) [of u] that by simp
  show "stat_of (rt_thread_timeout t k) u \<in> {RT_THREAD_READY, RT_THREAD_RUNNING}"
    if "stat_of k u \<in> {RT_THREAD_READY, RT_THREAD_RUNNING}"
    using o(2) [of u] that by (cases "u = t") auto
  show "prio_of (rt_thread_timeout t k) u = prio_of k u" unfolding e rt_schedule_prio [OF w] by (simp add: k1_def)
qed


section \<open>The whole kernel state\<close>

definition kernel_ok :: "kernel \<Rightarrow> bool" where
  "kernel_ok k \<longleftrightarrow> sched_inv k \<and> timers_ok k \<and> (\<forall>t. \<not> tm_periodic (tmr k t))"

definition thread_awake :: "kernel \<Rightarrow> nat \<Rightarrow> bool" where
  "thread_awake k t \<longleftrightarrow> stat_of k t \<in> {RT_THREAD_READY, RT_THREAD_RUNNING}"

lemma timers_ok_same: "same_timers k k' \<Longrightarrow> timers_ok k \<Longrightarrow> timers_ok k'"
  by (simp add: timers_ok_def timers_ordered_def same_timers_def)

lemma timers_ok_init:
  assumes "timers_ok k" "\<not> tm_activated (tmr k t)" "\<And>x. tm_activated (f x) = False"
  shows "timers_ok (upd_timer t f k)"
proof -
  have "t \<notin> set (timer_list k)" using assms(1,2) by (simp add: timers_ok_def)
  then have "timer_key n (upd_timer t f k) u = timer_key n k u" if "u \<in> set (timer_list k)" for n u using that by auto
  note key = this
  then have "map (timer_key n (upd_timer t f k)) (timer_list k) = map (timer_key n k) (timer_list k)" for n
    by (intro map_cong) simp_all
  note key = key this
  then have "timers_ordered (tick_now k) (upd_timer t f k)"
    using assms(1) unfolding timers_ok_def timers_ordered_def upd_timer_simps(1) key(2) by (simp add: key(1) del: upd_timer_simps)
  moreover have "{u. tm_activated (tmr (upd_timer t f k) u)} = {u. tm_activated (tmr k u)}" using assms(2,3) by auto
  ultimately show ?thesis using assms(1) by (simp only: timers_ok_def upd_timer_simps)
qed

lemma timed_wait_ok:
  assumes "timers_ok k" "n < RT_TICK_MAX div 2"
  shows "timers_ok (timed_wait t n k)"
proof -
  let ?k = "upd_timer t (\<lambda>x. x\<lparr>tm_init_tick := n\<rparr>) k"
  have "timers_ordered (tick_now k) ?k \<longleftrightarrow> timers_ordered (tick_now k) k" by (rule timers_ordered_cong) auto
  then have "timers_ok ?k" using assms(1) by (auto simp: timers_ok_def)
  then show ?thesis unfolding timed_wait_def using assms(2) by (simp add: rt_timer_start_ok)
qed

lemma timed_wait_timer:
  assumes "n < RT_TICK_MAX div 2"
  shows "tmr (timed_wait t n k) = (tmr k)(t := (tmr k t)\<lparr>tm_init_tick := n, tm_timeout_tick := tick_now k + n, tm_activated := True\<rparr>)"
    "tick_now (timed_wait t n k) = tick_now k" "timer_key (tick_now k) (timed_wait t n k) t = unat n"
proof -
  show t: "tmr (timed_wait t n k) = (tmr k)(t := (tmr k t)\<lparr>tm_init_tick := n, tm_timeout_tick := tick_now k + n, tm_activated := True\<rparr>)"
    by (simp add: timed_wait_def rt_timer_start_simps)
  show "tick_now (timed_wait t n k) = tick_now k" by (simp add: timed_wait_def rt_timer_start_simps)
  show "timer_key (tick_now k) (timed_wait t n k) t = unat n" by (simp add: t to_go_def)
qed

section \<open>The tick\<close>

lemma timer_step_kernel:
  fixes s :: kernel
  assumes "fired_list s = []" "\<not> tm_periodic (tmr s u)"
  shows "timer_sys.more (timer_step rt_thread_timeout u s) = timer_sys.more (rt_thread_timeout u (timer_fire u s))"
  using assms rt_thread_timeout_same_timers [of "timer_fire u s" u]
  by (simp add: timer_step_def timer_after_def Let_def same_timers_def timer_fire_def)

lemma timer_fire_kernel:
  fixes s :: kernel
  shows "timer_sys.more (timer_fire u s) = timer_sys.more s"
  by (simp add: timer_fire_def Let_def)

lemma timer_step_timeout:
  fixes s :: kernel
  assumes inv: "sched_inv s" and a: "tm_activated (tmr s u)" and f: "fired_list s = []" "\<forall>t. \<not> tm_periodic (tmr s t)"
  defines "s' \<equiv> timer_step rt_thread_timeout u s"
  shows "sched_inv s'" "thread_awake s' u" "fired_list s' = []" "tmr s' = (tmr s)(u := (tmr s u)\<lparr>tm_activated := False\<rparr>)"
    "t \<noteq> u \<Longrightarrow> stat_of s t = RT_THREAD_SUSPEND \<Longrightarrow> stat_of s' t = RT_THREAD_SUSPEND"
    "thread_awake s t \<Longrightarrow> thread_awake s' t" "prio_of s' t = prio_of s t"
proof -
  note one = timer_step_one_shot [OF rt_thread_timeout_quiet f(2) [rule_format, of u] f(1), folded s'_def]
  note m = timer_more_fields [OF timer_fire_kernel [of u s]]
    and m' = timer_more_fields [OF timer_step_kernel [OF f(1) f(2) [rule_format, of u], folded s'_def]]
  have tf: "tmr (timer_fire u s) = (tmr s)(u := (tmr s u)\<lparr>tm_activated := False\<rparr>)"
    using f(2) by (simp add: timer_fire_def Let_def)
  have fi: "sched_inv (timer_fire u s)"
    by (rule sched_inv_timers [OF inv timer_fire_kernel]) (auto simp: tf split: if_splits)
  have su: "stat_of (timer_fire u s) u = RT_THREAD_SUSPEND" using sched_baseD(4) [OF sched_inv_base [OF inv] a] by (simp add: m)
  have na: "\<not> tm_activated (tmr (timer_fire u s) u)" by (simp add: tf)
  note w = rt_thread_timeout_inv [OF fi su na]
  show "tmr s' = (tmr s)(u := (tmr s u)\<lparr>tm_activated := False\<rparr>)" "fired_list s' = []" using one by simp_all
  have "tmr s' = tmr (rt_thread_timeout u (timer_fire u s))"
    using one(1) tf rt_thread_timeout_same_timers [of "timer_fire u s" u] by (simp add: same_timers_def)
  then show "sched_inv s'" using w(1) m' by (simp add: sched_inv_def sched_base_def queue_ok_def ready_set_def)
  show "thread_awake s' u" using w(2) by (simp add: thread_awake_def m')
  show "t \<noteq> u \<Longrightarrow> stat_of s t = RT_THREAD_SUSPEND \<Longrightarrow> stat_of s' t = RT_THREAD_SUSPEND"
    using w(3) [of t] by (simp add: m m')
  show "thread_awake s t \<Longrightarrow> thread_awake s' t" using w(4) [of t] by (simp add: thread_awake_def m m')
  show "prio_of s' t = prio_of s t" using w(5) [of t] by (simp add: m m')
qed

lemma timeouts_fold:
  fixes s :: kernel
  assumes "distinct us" "\<forall>u \<in> set us. tm_activated (tmr s u)" "sched_inv s" "fired_list s = []" "\<forall>t. \<not> tm_periodic (tmr s t)"
  shows "sched_inv (fold (timer_step rt_thread_timeout) us s) \<and> (\<forall>t. \<not> tm_periodic (tmr (fold (timer_step rt_thread_timeout) us s) t))
    \<and> (\<forall>t. t \<notin> set us \<longrightarrow> tmr (fold (timer_step rt_thread_timeout) us s) t = tmr s t
         \<and> (stat_of s t = RT_THREAD_SUSPEND \<longrightarrow> stat_of (fold (timer_step rt_thread_timeout) us s) t = RT_THREAD_SUSPEND))
    \<and> (\<forall>t. thread_awake s t \<or> t \<in> set us \<longrightarrow> thread_awake (fold (timer_step rt_thread_timeout) us s) t)
    \<and> (\<forall>t. prio_of (fold (timer_step rt_thread_timeout) us s) t = prio_of s t)"
  using assms
proof (induction us arbitrary: s)
  case (Cons u us)
  define s1 where "s1 = timer_step rt_thread_timeout u s"
  have a: "tm_activated (tmr s u)" using Cons.prems(2) by simp
  note st = timer_step_timeout [OF Cons.prems(3) a Cons.prems(4,5), folded s1_def]
  have p: "\<forall>v \<in> set us. tm_activated (tmr s1 v)" "\<forall>t. \<not> tm_periodic (tmr s1 t)"
    using Cons.prems(1,2,5) st(4) by auto
  have d: "distinct us" "u \<notin> set us" using Cons.prems(1) by simp_all
  note ih = Cons.IH [OF d(1) p(1) st(1,3) p(2)]
  have "tmr s1 t = tmr s t \<and> (stat_of s t = RT_THREAD_SUSPEND \<longrightarrow> stat_of s1 t = RT_THREAD_SUSPEND)" if "t \<noteq> u" for t
    using st(4,5) that by simp
  moreover have "thread_awake s1 t" if "thread_awake s t \<or> t = u" for t using st(2,6) that by blast
  moreover have "\<forall>t. prio_of s1 t = prio_of s t" using st(7) by blast
  ultimately show ?case using ih unfolding fold.simps o_apply s1_def [symmetric] set_simps by (metis insert_iff)
qed simp

lemma rt_schedule_cur: "cur_thread k \<noteq> None \<Longrightarrow> cur_thread (rt_schedule k) \<noteq> None"
  by (auto simp: rt_schedule_def schedule_choice_def set_stat_def Let_def split: option.splits prod.splits)

lemma timer_step_cur:
  fixes s :: kernel
  assumes "cur_thread s \<noteq> None"
  shows "cur_thread (timer_step rt_thread_timeout u s) \<noteq> None"
proof -
  have f: "cur_thread (timer_fire u s) = cur_thread s" by (rule timer_more_fields(4) [OF timer_fire_kernel])
  have "cur_thread (rt_thread_timeout u (timer_fire u s)) \<noteq> None"
    using assms rt_schedule_cur by (simp add: rt_thread_timeout_def Let_def f)
  moreover have "timer_sys.more (timer_after u j) = timer_sys.more j" for j :: kernel
    by (simp add: timer_after_def Let_def rt_timer_start_simps)
  then have "cur_thread (timer_after u j) = cur_thread j" for j :: kernel by (rule timer_more_fields(4))
  ultimately show ?thesis by (simp add: timer_step_def)
qed

lemma timeouts_cur:
  fixes s :: kernel
  shows "cur_thread s \<noteq> None \<Longrightarrow> cur_thread (fold (timer_step rt_thread_timeout) us s) \<noteq> None"
  by (induction us arbitrary: s) (simp_all add: timer_step_cur del: not_None_eq)

lemma tick_slice_others:
  assumes inv: "sched_inv k"
  shows "stat_of k t = RT_THREAD_SUSPEND \<Longrightarrow> stat_of (tick_slice c k) t = RT_THREAD_SUSPEND"
    "thread_awake k t \<Longrightarrow> thread_awake (tick_slice c k) t" "prio_of (tick_slice c k) t = prio_of k t"
proof -
  define k1 where "k1 = upd_tcb c (\<lambda>x. x\<lparr>tcb_remaining_tick := tcb_remaining_tick x - 1\<rparr>) k"
  define k2 where "k2 = upd_tcb c (\<lambda>x. x\<lparr>tcb_remaining_tick := tcb_init_tick x, tcb_yield := True\<rparr>) k1"
  have "sched_inv k1" unfolding k1_def by (rule sched_inv_tcb [OF inv]) (auto simp: tcb_ok_def)
  then have k2: "sched_inv k2" unfolding k2_def by (rule sched_inv_tcb) (auto simp: tcb_ok_def)
  have st: "stat_of k1 t = stat_of k t" "stat_of k2 t = stat_of k t" by (simp_all add: k1_def k2_def)
  have "tick_slice c k = (if tcb_remaining_tick (tcbs k1 c) = 0 then rt_schedule k2 else k1)"
    by (simp add: tick_slice_def k1_def k2_def Let_def)
  then show "stat_of k t = RT_THREAD_SUSPEND \<Longrightarrow> stat_of (tick_slice c k) t = RT_THREAD_SUSPEND"
    "thread_awake k t \<Longrightarrow> thread_awake (tick_slice c k) t"
    using rt_schedule_others [OF k2, of t] st by (auto simp: thread_awake_def split: if_splits)
  show "prio_of (tick_slice c k) t = prio_of k t"
    using \<open>tick_slice c k = _\<close> rt_schedule_prio [OF k2, of t] by (simp add: k1_def k2_def)
qed

lemma tick_result:
  assumes ok: "kernel_ok k" and c: "cur_thread k = Some c"
  obtains k' where "rt_tick_increase k = Some k'" "kernel_ok k'" "tick_now k' = tick_now k + 1" "cur_thread k' \<noteq> None"
    "\<And>t. prio_of k' t = prio_of k t" "\<And>t. thread_awake k t \<Longrightarrow> thread_awake k' t"
    "\<And>t. tm_activated (tmr k t) \<Longrightarrow> timer_key (tick_now k) k t \<le> 1 \<Longrightarrow> thread_awake k' t"
    "\<And>t. \<not> (tm_activated (tmr k t) \<and> timer_key (tick_now k) k t \<le> 1) \<Longrightarrow> tmr k' t = tmr k t
       \<and> (stat_of k t = RT_THREAD_SUSPEND \<longrightarrow> stat_of k' t = RT_THREAD_SUSPEND)"
proof -
  let ?n = "tick_now k"
  define j where "j = tick_slice c (k\<lparr>tick_now := ?n + 1\<rparr>)"
  have inv: "sched_inv k" and to: "timers_ok k" and np: "\<forall>t. \<not> tm_periodic (tmr k t)" using ok by (simp_all add: kernel_ok_def)
  have ki: "sched_inv (k\<lparr>tick_now := ?n + 1\<rparr>)" using inv by (simp add: sched_inv_def sched_base_def queue_ok_def ready_set_def)
  then have ji: "sched_inv j" unfolding j_def by (rule tick_slice_inv)
  have jt: "same_timers (k\<lparr>tick_now := ?n + 1\<rparr>) j"
    using rt_schedule_same_timers(1) by (simp add: j_def tick_slice_def Let_def same_timers_def)
  then have jf: "tmr j = tmr k" "timer_list j = timer_list k" "fired_list j = []" "tick_now j = ?n + 1"
    using to by (simp_all add: same_timers_def timers_ok_def)
  have jstat: "stat_of j t = RT_THREAD_SUSPEND" if "stat_of k t = RT_THREAD_SUSPEND" for t
    unfolding j_def by (rule tick_slice_others(1) [OF ki]) (use that in simp)
  have jaw: "thread_awake j t" if "thread_awake k t" for t
    unfolding j_def by (rule tick_slice_others(2) [OF ki]) (use that in \<open>simp add: thread_awake_def\<close>)
  have jp: "prio_of j t = prio_of k t" for t unfolding j_def tick_slice_others(3) [OF ki] by simp
  have ci: "check_inv ?n j" using to np by (auto simp: check_inv_def timers_ok_def timers_ordered_def jf)
  define due where "due = takeWhile (\<lambda>u. timer_key ?n j u \<le> 1) (timer_list j)"
  define k' where "k' = fold (timer_step rt_thread_timeout) due j"
  note l = timer_check_loop_fold [OF rt_thread_timeout_quiet ci, folded due_def, folded k'_def]
  have "j\<lparr>fired_list := []\<rparr> = j" using jf(3) by simp
  then have "rt_tick_increase k = Some k'" using l c unfolding rt_tick_increase_def Let_def
    by (simp add: rt_timer_check_def jf(4) flip: j_def)
  moreover have ds: "set due = {t. tm_activated (tmr k t) \<and> timer_key ?n k t \<le> 1}"
    unfolding due_def using due_set [of ?n j] ci by (auto simp: check_inv_def jf)
  have "distinct due" unfolding due_def using ci by (simp add: check_inv_def timers_ordered_def)
  note f = timeouts_fold [OF this _ ji jf(3), folded k'_def]
  have tk: "timers_ok k'" using check_inv_ok l by blast
  have f: "sched_inv k' \<and> (\<forall>t. \<not> tm_periodic (tmr k' t))
      \<and> (\<forall>t. t \<notin> set due \<longrightarrow> tmr k' t = tmr j t \<and> (stat_of j t = RT_THREAD_SUSPEND \<longrightarrow> stat_of k' t = RT_THREAD_SUSPEND))
      \<and> (\<forall>t. thread_awake j t \<or> t \<in> set due \<longrightarrow> thread_awake k' t) \<and> (\<forall>t. prio_of k' t = prio_of j t)"
    by (rule f) (use ds np jf in auto)
  moreover have "cur_thread j \<noteq> None" using rt_schedule_cur c by (simp add: j_def tick_slice_def Let_def)
  then have "cur_thread k' \<noteq> None" unfolding k'_def by (rule timeouts_cur)
  ultimately show thesis
    using that [of k'] f tk l jf jstat jaw jp ds by (auto simp: kernel_ok_def check_inv_def)
qed


section \<open>Every step keeps the kernel state in order\<close>

lemma kernel_ok_same:
  assumes "kernel_ok k" "same_timers k k'" "sched_inv k'"
  shows "kernel_ok k'"
  using assms timers_ok_same [OF assms(2)] by (simp add: kernel_ok_def same_timers_def)

lemma kernel_ok_schedule: "kernel_ok k \<Longrightarrow> kernel_ok (rt_schedule k)"
  using kernel_ok_same rt_schedule_same_timers(1) rt_schedule_inv kernel_ok_def by blast

lemma kernel_ok_wait:
  assumes "kernel_ok k" "stat_of k t = RT_THREAD_SUSPEND" "n < RT_TICK_MAX div 2"
  shows "kernel_ok (timed_wait t n k)"
  using assms timed_wait_inv [of k t n] timed_wait_ok [of k n t] by (simp add: kernel_ok_def timed_wait_timer(1))

lemma timers_ok_fields:
  assumes "timers_ok s" "tmr s' = tmr s" "timer_list s' = timer_list s" "fired_list s' = fired_list s" "tick_now s' = tick_now s"
  shows "timers_ok s'"
  using assms by (simp add: timers_ok_def timers_ordered_def)

lemma kernel_ok_suspend:
  assumes "kernel_ok k"
  shows "kernel_ok (fst (rt_thread_suspend t k))"
proof -
  define k1 where "k1 = set_stat t RT_THREAD_SUSPEND (rt_schedule_remove_thread t k)"
  have "timers_ok k1" by (rule timers_ok_fields [of k]) (use assms in \<open>simp_all add: k1_def set_stat_def kernel_ok_def\<close>)
  then have "timers_ok (fst (rt_timer_stop t k1))" by (rule rt_timer_stop_ok)
  moreover have "tmr k1 = tmr k" by (simp add: k1_def set_stat_def)
  ultimately show ?thesis using assms rt_thread_suspend_inv [of k t]
    by (auto simp: kernel_ok_def rt_thread_suspend_def Let_def k1_def split: if_splits)
qed

lemma kernel_ok_resume:
  assumes "kernel_ok k"
  shows "kernel_ok (fst (rt_thread_resume t k))"
proof -
  define k1 where "k1 = list_remove t k"
  have "timers_ok k1" by (rule timers_ok_fields [of k]) (use assms in \<open>simp_all add: k1_def kernel_ok_def\<close>)
  then have s: "timers_ok (fst (rt_timer_stop t k1))" by (rule rt_timer_stop_ok)
  have "timers_ok (rt_schedule_insert_thread t (fst (rt_timer_stop t k1)))" by (rule timers_ok_fields [OF s]) simp_all
  moreover have "tmr k1 = tmr k" by (simp add: k1_def)
  ultimately show ?thesis using assms rt_thread_resume_inv [of k t]
    by (auto simp: kernel_ok_def rt_thread_resume_def Let_def k1_def split: if_splits)
qed

lemma kernel_ok_close:
  assumes "kernel_ok k"
  shows "kernel_ok (upd_tcb t (\<lambda>x. x\<lparr>tcb_stat := RT_THREAD_CLOSE, tcb_yield := False\<rparr>)
    (rt_timer_detach t (rt_schedule_remove_thread t k)))"
proof -
  let ?k1 = "rt_schedule_remove_thread t k"
  have "timers_ok ?k1" by (rule timers_ok_fields [of k]) (use assms in \<open>simp_all add: kernel_ok_def\<close>)
  then have "timers_ok (rt_timer_detach t ?k1)" by (rule rt_timer_detach_ok)
  then have "timers_ok (upd_tcb t (\<lambda>x. x\<lparr>tcb_stat := RT_THREAD_CLOSE, tcb_yield := False\<rparr>) (rt_timer_detach t ?k1))"
    by (rule timers_ok_fields) simp_all
  then show ?thesis using assms close_inv [of k t] by (simp add: kernel_ok_def)
qed

lemma kernel_ok_sleep:
  assumes "kernel_ok k" "stat_of k c \<in> {RT_THREAD_RUNNING, RT_THREAD_SUSPEND}" "n < RT_TICK_MAX div 2"
  shows "kernel_ok (rt_thread_sleep c n k)"
  unfolding rt_thread_sleep_wait
  by (intro kernel_ok_schedule kernel_ok_wait kernel_ok_suspend assms(1,3)) (use assms(2) in \<open>auto simp: stat_suspend\<close>)

lemma kernel_ok_init:
  assumes "kernel_ok k" "p < 32" "stat_of k t \<in> {RT_THREAD_INIT, RT_THREAD_CLOSE}"
  shows "kernel_ok (rt_thread_init t p n k)"
proof -
  define x where "x = \<lparr>tcb_stat = RT_THREAD_INIT, tcb_yield = False, tcb_init_priority = p, tcb_priority = p,
    tcb_number_mask = 0, tcb_init_tick = n, tcb_remaining_tick = n, tcb_error = 0\<rparr>"
  have e: "rt_thread_init t p n k = upd_timer t (\<lambda>_. timer_init 0 False) (upd_tcb t (\<lambda>_. x) k)"
    by (simp add: rt_thread_init_def Let_def x_def)
  have inv: "sched_inv k" and np: "\<not> tm_periodic (tmr k u)" for u using assms(1) by (simp_all add: kernel_ok_def)
  have "\<not> tm_activated (tmr k t)" using sched_baseD(4) [OF sched_inv_base [OF inv], of t] assms(3) by auto
  moreover have "timers_ok (upd_tcb t (\<lambda>_. x) k)"
    by (rule timers_ok_fields [of k]) (use assms(1) in \<open>simp_all add: kernel_ok_def\<close>)
  ultimately have "timers_ok (rt_thread_init t p n k)" unfolding e by (intro timers_ok_init) (simp_all add: timer_init_def)
  moreover have "\<not> tm_periodic (tmr (rt_thread_init t p n k) u)" for u using np by (simp add: e timer_init_def)
  ultimately show ?thesis using rt_thread_init_inv [OF inv assms(2,3)] by (simp add: kernel_ok_def)
qed

lemma kernel_ok_startup:
  assumes "kernel_ok k" "stat_of k t = RT_THREAD_INIT"
  shows "kernel_ok (rt_thread_startup t k)"
proof -
  define k1 where "k1 = upd_tcb t (\<lambda>x. x\<lparr>tcb_stat := RT_THREAD_SUSPEND, tcb_yield := False\<rparr>)
      (upd_tcb t (\<lambda>x. x\<lparr>tcb_number_mask := prio_mask (tcb_priority x)\<rparr>)
        (upd_tcb t (\<lambda>x. x\<lparr>tcb_priority := tcb_init_priority x\<rparr>) k))"
  define k2 where "k2 = rt_schedule_insert_thread t (fst (rt_timer_stop t (list_remove t k1)))"
  have st: "stat_of k1 t = RT_THREAD_SUSPEND" "cur_thread k1 = cur_thread k" by (simp_all add: k1_def)
  have e: "rt_thread_startup t k = (if cur_thread k2 \<noteq> None then rt_schedule k2 else k2)"
    using st by (simp add: rt_thread_startup_def Let_def k2_def rt_thread_resume_def flip: k1_def)
  have "timers_ok (list_remove t k1)"
    by (rule timers_ok_fields [of k]) (use assms(1) in \<open>simp_all add: k1_def kernel_ok_def\<close>)
  then have s: "timers_ok (fst (rt_timer_stop t (list_remove t k1)))" by (rule rt_timer_stop_ok)
  have "timers_ok k2" unfolding k2_def by (rule timers_ok_fields [OF s]) simp_all
  then have t: "timers_ok (rt_thread_startup t k)"
    unfolding e using timers_ok_same [OF rt_schedule_same_timers(1)] by simp
  have m: "tmr (rt_thread_startup t k) = (tmr k)(t := (tmr k t)\<lparr>tm_activated := False\<rparr>)"
    unfolding e using rt_schedule_same_timers(1) [of k2] by (auto simp: same_timers_def k2_def k1_def)
  have "\<not> tm_periodic (tmr (rt_thread_startup t k) u)" for u using assms(1) unfolding m by (simp add: kernel_ok_def)
  then show ?thesis using rt_thread_startup_inv [of k t] assms t by (simp add: kernel_ok_def)
qed


lemma exit_critical_same_timers: "same_timers k (rt_exit_critical k)"
  using rt_schedule_same_timers(1) [of "k\<lparr>lock_nest := 0\<rparr>"] by (simp add: rt_exit_critical_def Let_def same_timers_def)

lemma change_priority_same_timers: "same_timers k (rt_thread_change_priority t p k)"
  by (simp add: rt_thread_change_priority_def Let_def same_timers_def)

lemma start_same_timers: "same_timers k (rt_system_scheduler_start k)"
  by (simp add: rt_system_scheduler_start_def Let_def same_timers_def)

lemma yield_same_timers: "same_timers k (rt_thread_yield c k)"
  using rt_schedule_same_timers(1) by (simp add: rt_thread_yield_def same_timers_def)

lemma delay_until_less:
  assumes "cur - tick < inc" "inc < RT_TICK_MAX div 2"
  shows "tick + inc - cur < RT_TICK_MAX div 2"
proof -
  have e: "tick + inc - cur = inc - (cur - tick)" by simp
  have "inc - (cur - tick) \<le> inc" using assms(1) by (simp add: word_sub_le)
  then show ?thesis unfolding e using assms(2) by (rule order_le_less_trans)
qed

lemma kexec_ok:
  assumes ok: "kernel_ok k" and s: "kexec op k = Some k'"
  shows "kernel_ok k'"
proof -
  have inv: "sched_inv k" using ok by (simp add: kernel_ok_def)
  show ?thesis
  proof (cases op)
    case K_START
    then show ?thesis using s kernel_ok_same [OF ok start_same_timers rt_system_scheduler_start_inv [OF inv]]
      by (auto simp: allowed_def split: if_splits)
  next
    case (K_INIT t p n)
    then show ?thesis using s kernel_ok_init [OF ok, of p t n] by (auto simp: allowed_def split: if_splits)
  next
    case (K_STARTUP t)
    then show ?thesis using s kernel_ok_startup [OF ok, of t] by (auto simp: allowed_def split: if_splits)
  next
    case (K_RESUME t)
    then show ?thesis using s kernel_ok_resume [OF ok, of t] by simp
  next
    case (K_SUSPEND t)
    then show ?thesis using s kernel_ok_suspend [OF ok, of t] by simp
  next
    case K_SCHEDULE
    then show ?thesis using s kernel_ok_schedule [OF ok] by simp
  next
    case K_YIELD
    then show ?thesis using s kernel_ok_same [OF ok yield_same_timers rt_thread_yield_inv [OF inv]]
      by (auto simp: by_current_def split: option.splits)
  next
    case (K_SLEEP n)
    then show ?thesis using s kernel_ok_sleep [OF ok, of _ n]
      by (auto simp: by_current_def may_wait_def split: option.splits if_splits)
  next
    case (K_DELAY_UNTIL t n)
    then obtain c where c: "cur_thread k = Some c" "may_wait n k" "k' = fst (rt_thread_delay_until c t n k)"
      using s by (auto simp: by_current_def split: option.splits if_splits)
    have st: "stat_of k c \<in> {RT_THREAD_RUNNING, RT_THREAD_SUSPEND}" "n < RT_TICK_MAX div 2"
      using c(1,2) by (simp_all add: may_wait_def)
    show ?thesis
    proof (cases "tick_now k - t < n")
      case True
      show ?thesis using kernel_ok_sleep [OF ok st(1) delay_until_less [OF True st(2)]] True
        by (simp add: c(3) rt_thread_delay_until_def Let_def)
    qed (simp add: c(3) rt_thread_delay_until_def ok)
  next
    case (K_WAIT t n)
    then show ?thesis using s kernel_ok_wait [OF ok, of t n] by (auto simp: allowed_def split: if_splits)
  next
    case (K_CHANGE_PRIORITY t p)
    then show ?thesis using s kernel_ok_same [OF ok change_priority_same_timers rt_thread_change_priority_inv [OF inv]]
      by (auto simp: allowed_def split: if_splits)
  next
    case (K_DETACH t)
    then show ?thesis using s ok kernel_ok_close [OF ok, of t] rt_thread_detach_close [OF inv, of t]
      by (cases "stat_of k t = RT_THREAD_CLOSE") (auto simp: rt_thread_detach_def)
  next
    case K_EXIT
    then show ?thesis using s kernel_ok_schedule [OF kernel_ok_close [OF ok]]
      by (auto simp: by_current_def rt_thread_exit_def Let_def close_commutes split: option.splits)
  next
    case K_ENTER_CRITICAL
    moreover have "same_timers k (rt_enter_critical k)" "sched_inv (rt_enter_critical k)"
      using inv by (simp_all add: rt_enter_critical_def same_timers_def sched_inv_lock)
    ultimately show ?thesis using s kernel_ok_same [OF ok] by simp
  next
    case K_EXIT_CRITICAL
    then show ?thesis using s kernel_ok_same [OF ok exit_critical_same_timers rt_exit_critical_inv [OF inv]] by simp
  next
    case K_TICK
    show ?thesis
    proof (cases "cur_thread k")
      case None
      then show ?thesis using K_TICK s by (simp add: rt_tick_increase_def Let_def)
    next
      case (Some c)
      from tick_result [OF ok Some] show ?thesis using K_TICK s by auto
    qed
  qed
qed

section \<open>Reachable states\<close>

text \<open>The kernel after \<open>rt_system_scheduler_init\<close>, at some tick; a thread that does not exist yet counts as closed.\<close>

definition no_thread :: tcb where
  "no_thread = \<lparr>tcb_stat = RT_THREAD_CLOSE, tcb_yield = False, tcb_init_priority = 0, tcb_priority = 0, tcb_number_mask = 0,
     tcb_init_tick = 0, tcb_remaining_tick = 0, tcb_error = 0\<rparr>"

definition kernel_boot :: "u32 \<Rightarrow> kernel" where
  "kernel_boot tick = rt_system_scheduler_init
     \<lparr>tmr = \<lambda>_. timer_init 0 False, timer_list = [], fired_list = [], tick_now = tick, tcbs = \<lambda>_. no_thread,
      priority_table = [], ready_group = 0, cur_thread = None, cur_prio = 0, lock_nest = 0\<rparr>"

inductive kernel_reach :: "kernel \<Rightarrow> bool" where
  boot: "kernel_reach (kernel_boot tick)"
| step: "kernel_reach k \<Longrightarrow> kexec op k = Some k' \<Longrightarrow> kernel_reach k'"

lemma kernel_boot_ok: "kernel_ok (kernel_boot tick)"
proof -
  have "queue_ok (kernel_boot tick)" by (simp add: queue_ok_def kernel_boot_def rt_system_scheduler_init_def)
  moreover have "ready_set (kernel_boot tick) = {}" by (simp add: ready_set_def kernel_boot_def rt_system_scheduler_init_def)
  ultimately show ?thesis
    by (simp add: kernel_ok_def sched_inv_def sched_base_def timers_ok_def timers_ordered_def kernel_boot_def
        rt_system_scheduler_init_def no_thread_def timer_init_def tcb_ok_def)
qed

lemma kernel_reach_ok: "kernel_reach k \<Longrightarrow> kernel_ok k"
  by (induction rule: kernel_reach.induct) (auto intro: kernel_boot_ok kexec_ok)


section \<open>What leaves a sleeping thread alone\<close>

definition sleeper_kept :: "nat \<Rightarrow> kernel \<Rightarrow> kernel \<Rightarrow> bool" where
  "sleeper_kept c k k' \<longleftrightarrow> stat_of k' c = RT_THREAD_SUSPEND \<and> tmr k' c = tmr k c \<and> tick_now k' = tick_now k
     \<and> (cur_thread k \<noteq> None \<longrightarrow> cur_thread k' \<noteq> None)"

text \<open>The steps that end or change the wait of a thread \<open>c\<close>.\<close>

definition touches :: "kop \<Rightarrow> kernel \<Rightarrow> nat \<Rightarrow> bool" where
  "touches op k c \<longleftrightarrow> (case op of
     K_RESUME t \<Rightarrow> t = c | K_WAIT t n \<Rightarrow> t = c | K_DETACH t \<Rightarrow> t = c
   | K_SLEEP n \<Rightarrow> cur_thread k = Some c | K_DELAY_UNTIL t n \<Rightarrow> cur_thread k = Some c | K_EXIT \<Rightarrow> cur_thread k = Some c
   | _ \<Rightarrow> False)"

lemma sleeper_schedule:
  assumes "sched_inv k'" "sleeper_kept c k k'"
  shows "sleeper_kept c k (rt_schedule k')"
  using assms(2) rt_schedule_others(1) [OF assms(1), of c] rt_schedule_same_timers(1) [of k'] rt_schedule_cur [of k']
  by (simp add: sleeper_kept_def same_timers_def)

lemma sleeper_wait:
  assumes "sched_inv k" "stat_of k c = RT_THREAD_SUSPEND" "t \<noteq> c" "stat_of k t \<in> {RT_THREAD_RUNNING, RT_THREAD_SUSPEND}"
  shows "sleeper_kept c k (rt_thread_sleep t n k)"
  unfolding rt_thread_sleep_wait
proof (rule sleeper_schedule)
  show "sched_inv (timed_wait t n (fst (rt_thread_suspend t k)))"
    by (intro timed_wait_inv rt_thread_suspend_inv assms(1)) (use assms(4) in \<open>auto simp: stat_suspend\<close>)
  show "sleeper_kept c k (timed_wait t n (fst (rt_thread_suspend t k)))"
    using assms(2-4) by (auto simp: sleeper_kept_def timed_wait_def rt_timer_start_simps rt_thread_suspend_def Let_def set_stat_def)
qed

lemma sleeper_startup:
  assumes inv: "sched_inv k" and c: "stat_of k c = RT_THREAD_SUSPEND" and t: "stat_of k t = RT_THREAD_INIT"
  shows "sleeper_kept c k (rt_thread_startup t k)"
proof -
  define k1 where "k1 = upd_tcb t (\<lambda>x. x\<lparr>tcb_stat := RT_THREAD_SUSPEND, tcb_yield := False\<rparr>)
      (upd_tcb t (\<lambda>x. x\<lparr>tcb_number_mask := prio_mask (tcb_priority x)\<rparr>)
        (upd_tcb t (\<lambda>x. x\<lparr>tcb_priority := tcb_init_priority x\<rparr>) k))"
  have ne: "c \<noteq> t" using c t by auto
  have "sched_base k1"
    by (rule sched_base_frame [OF sched_inv_base [OF inv]])
      (use t sched_baseD(3,4) [OF sched_inv_base [OF inv]] in \<open>auto simp: k1_def tcb_ok_def\<close>)
  then have "sched_inv k1" using inv t by (auto simp: sched_inv_def k1_def)
  then have "sched_inv (fst (rt_thread_resume t k1))" by (rule rt_thread_resume_inv)
  moreover have "sleeper_kept c k (fst (rt_thread_resume t k1))" using ne c
    by (simp add: sleeper_kept_def rt_thread_resume_def Let_def k1_def)
  moreover have "rt_thread_startup t k =
      (if cur_thread (fst (rt_thread_resume t k1)) \<noteq> None then rt_schedule (fst (rt_thread_resume t k1))
       else fst (rt_thread_resume t k1))"
    unfolding rt_thread_startup_def k1_def Let_def by (rule refl)
  ultimately show ?thesis using sleeper_schedule by simp
qed

lemma kexec_sleeper:
  assumes ok: "kernel_ok k" and s: "kexec op k = Some k'" and c: "stat_of k c = RT_THREAD_SUSPEND"
    and n: "\<not> touches op k c" "op \<noteq> K_TICK"
  shows "sleeper_kept c k k'"
proof -
  have inv: "sched_inv k" using ok by (simp add: kernel_ok_def)
  show ?thesis
  proof (cases op)
    case K_START
    then have st: "cur_thread k = None" "ready_group k \<noteq> 0" "k' = rt_system_scheduler_start k"
      using s by (auto simp: allowed_def split: if_splits)
    have "fst (highest_priority_thread k) \<noteq> c" using ready_group_top(4) [OF sched_inv_base [OF inv] st(2)] c by auto
    then show ?thesis using c by (simp add: st(3) sleeper_kept_def rt_system_scheduler_start_def Let_def)
  next
    case (K_INIT t p n)
    then have "stat_of k t \<in> {RT_THREAD_INIT, RT_THREAD_CLOSE}" "k' = rt_thread_init t p n k"
      using s by (auto simp: allowed_def split: if_splits)
    moreover from this c have "t \<noteq> c" by auto
    ultimately show ?thesis using c by (simp add: sleeper_kept_def rt_thread_init_def Let_def)
  next
    case (K_STARTUP t)
    then show ?thesis using s sleeper_startup [OF inv c, of t] by (auto simp: allowed_def split: if_splits)
  next
    case (K_RESUME t)
    then show ?thesis using s n c by (auto simp: touches_def sleeper_kept_def rt_thread_resume_def Let_def)
  next
    case (K_SUSPEND t)
    then show ?thesis using s c by (auto simp: sleeper_kept_def rt_thread_suspend_def Let_def set_stat_def)
  next
    case K_SCHEDULE
    then show ?thesis using s c sleeper_schedule [OF inv, of c k] by (simp add: sleeper_kept_def)
  next
    case K_YIELD
    then obtain t where t: "cur_thread k = Some t" "k' = rt_thread_yield t k" using s by (auto simp: by_current_def split: option.splits)
    have "sched_inv (upd_tcb t (\<lambda>x. x\<lparr>tcb_remaining_tick := tcb_init_tick x, tcb_yield := True\<rparr>) k)"
      by (rule sched_inv_tcb [OF inv]) (auto simp: tcb_ok_def)
    then show ?thesis unfolding t(2) rt_thread_yield_def by (rule sleeper_schedule) (use c in \<open>auto simp: sleeper_kept_def\<close>)
  next
    case (K_SLEEP m)
    then show ?thesis using s n sleeper_wait [OF inv c]
      by (auto simp: by_current_def may_wait_def touches_def split: option.splits if_splits)
  next
    case (K_DELAY_UNTIL t m)
    then obtain u where u: "cur_thread k = Some u" "may_wait m k" "k' = fst (rt_thread_delay_until u t m k)"
      using s by (auto simp: by_current_def split: option.splits if_splits)
    have "sleeper_kept c k (rt_thread_sleep u i k)" for i
      using sleeper_wait [OF inv c, of u] u(1,2) n K_DELAY_UNTIL by (auto simp: may_wait_def touches_def)
    then show ?thesis using c by (simp add: u(3) rt_thread_delay_until_def Let_def sleeper_kept_def)
  next
    case (K_WAIT t m)
    then show ?thesis using s n c
      by (auto simp: allowed_def touches_def sleeper_kept_def timed_wait_timer timed_wait_def rt_timer_start_simps split: if_splits)
  next
    case (K_CHANGE_PRIORITY t p)
    then show ?thesis using s c
      by (auto simp: allowed_def sleeper_kept_def rt_thread_change_priority_def Let_def split: if_splits)
  next
    case (K_DETACH t)
    then show ?thesis using s n c by (auto simp: touches_def sleeper_kept_def rt_thread_detach_def Let_def)
  next
    case K_EXIT
    then obtain t where t: "cur_thread k = Some t" "k' = rt_thread_exit t k" using s by (auto simp: by_current_def split: option.splits)
    then have ne: "t \<noteq> c" using n K_EXIT by (auto simp: touches_def)
    have "k' = rt_schedule (upd_tcb t (\<lambda>x. x\<lparr>tcb_stat := RT_THREAD_CLOSE, tcb_yield := False\<rparr>)
        (rt_timer_detach t (rt_schedule_remove_thread t k)))"
      by (simp add: t(2) rt_thread_exit_def Let_def close_commutes)
    then show ?thesis using sleeper_schedule [OF close_inv [OF inv, of t], of c k] ne c by (simp add: sleeper_kept_def)
  next
    case K_ENTER_CRITICAL
    then show ?thesis using s c by (auto simp: rt_enter_critical_def sleeper_kept_def)
  next
    case K_EXIT_CRITICAL
    have "sched_inv (k\<lparr>lock_nest := 0\<rparr>)" using inv by (simp add: sched_inv_lock)
    from sleeper_schedule [OF this, of c k] show ?thesis using K_EXIT_CRITICAL s c
      by (auto simp: rt_exit_critical_def Let_def sleeper_kept_def)
  next
    case K_TICK
    then show ?thesis using n by blast
  qed
qed


text \<open>Any steps that do not touch \<open>c\<close>, with the number of ticks among them.\<close>

inductive quiet_run :: "nat \<Rightarrow> kernel \<Rightarrow> nat \<Rightarrow> kernel \<Rightarrow> bool" for c where
  none: "quiet_run c k 0 k"
| more: "quiet_run c k n k' \<Longrightarrow> kexec op k' = Some k'' \<Longrightarrow> \<not> touches op k' c
    \<Longrightarrow> quiet_run c k (n + (if op = K_TICK then 1 else 0)) k''"

definition asleep :: "nat \<Rightarrow> nat \<Rightarrow> kernel \<Rightarrow> bool" where
  "asleep c d k \<longleftrightarrow> kernel_ok k \<and> cur_thread k \<noteq> None \<and> stat_of k c = RT_THREAD_SUSPEND \<and> tm_activated (tmr k c)
     \<and> timer_key (tick_now k) k c = d"

lemma tick_cur:
  assumes "rt_tick_increase k = Some k'"
  shows "cur_thread k \<noteq> None"
  using assms by (cases "cur_thread k") (simp_all add: rt_tick_increase_def Let_def)

lemma asleep_tick:
  assumes a: "asleep c d k" and d: "1 < d" and s: "rt_tick_increase k = Some k'"
  shows "asleep c (d - 1) k'"
proof -
  obtain c0 where c0: "cur_thread k = Some c0" and ok: "kernel_ok k" using a by (auto simp: asleep_def)
  from tick_result [OF ok c0] obtain k2 where k2: "rt_tick_increase k = Some k2" "kernel_ok k2" "tick_now k2 = tick_now k + 1" "cur_thread k2 \<noteq> None"
    and o: "\<And>t. \<not> (tm_activated (tmr k t) \<and> timer_key (tick_now k) k t \<le> 1) \<Longrightarrow> tmr k2 t = tmr k t
       \<and> (stat_of k t = RT_THREAD_SUSPEND \<longrightarrow> stat_of k2 t = RT_THREAD_SUSPEND)" by metis
  have e: "k2 = k'" using k2(1) s by simp
  have "tmr k' c = tmr k c" "stat_of k' c = RT_THREAD_SUSPEND" using o [of c] a d by (simp_all add: asleep_def e)
  moreover have "timer_key (tick_now k + 1) k c = d - 1"
    using to_go_tick [of "tick_now k" "tm_timeout_tick (tmr k c)"] a d by (simp add: asleep_def)
  ultimately show ?thesis using a k2(2-4) by (simp add: asleep_def e)
qed

lemma asleep_run:
  assumes "quiet_run c k m k'" "asleep c n k" "m < n"
  shows "asleep c (n - m) k'"
  using assms
proof (induction rule: quiet_run.induct)
  case (more k m k' op k'')
  have m: "m < n" using more.prems(2) by simp
  note a = more.IH [OF more.prems(1) m]
  have ok: "kernel_ok k'" "stat_of k' c = RT_THREAD_SUSPEND" using a by (simp_all add: asleep_def)
  show ?case
  proof (cases "op = K_TICK")
    case True
    then have s: "rt_tick_increase k' = Some k''" using more.hyps(2) by simp
    have "1 < n - m" using more.prems(2) True by simp
    from asleep_tick [OF a this s] show ?thesis using True by simp
  next
    case False
    have "sleeper_kept c k' k''" by (rule kexec_sleeper [OF ok(1) more.hyps(2) ok(2) more.hyps(3) False])
    then show ?thesis using a kexec_ok [OF ok(1) more.hyps(2)] False by (simp add: asleep_def sleeper_kept_def)
  qed
qed simp


lemma rt_thread_sleep_asleep:
  assumes "kernel_ok k" "cur_thread k = Some c" "stat_of k c = RT_THREAD_RUNNING" "n < RT_TICK_MAX div 2"
  shows "asleep c (unat n) (rt_thread_sleep c n k)"
proof -
  define j where "j = timed_wait c n (fst (rt_thread_suspend c k))"
  have e: "rt_thread_sleep c n k = rt_schedule j" by (simp add: rt_thread_sleep_wait j_def)
  have st: "stat_of (fst (rt_thread_suspend c k)) c = RT_THREAD_SUSPEND" using assms(3) by (simp add: stat_suspend)
  have jok: "kernel_ok j" unfolding j_def by (intro kernel_ok_wait kernel_ok_suspend assms(1) st assms(4))
  have js: "stat_of j c = RT_THREAD_SUSPEND" using st by (simp add: j_def timed_wait_def)
  have cur: "cur_thread j \<noteq> None" using assms(2,3)
    by (simp add: j_def timed_wait_def rt_thread_suspend_def Let_def set_stat_def)
  have tm: "tm_activated (tmr j c)" "timer_key (tick_now j) j c = unat n"
    using timed_wait_timer [OF assms(4), where t = c and k = "fst (rt_thread_suspend c k)"] by (simp_all add: j_def)
  have jinv: "sched_inv j" using jok by (simp add: kernel_ok_def)
  have "sleeper_kept c j (rt_schedule j)" by (rule sleeper_schedule [OF jinv]) (use js in \<open>simp add: sleeper_kept_def\<close>)
  then show ?thesis using tm cur kernel_ok_schedule [OF jok] unfolding e by (simp add: asleep_def sleeper_kept_def)
qed

lemma asleep_tick_some:
  assumes "asleep c d k"
  shows "\<exists>k'. rt_tick_increase k = Some k'"
proof -
  obtain c' where c': "cur_thread k = Some c'" and ok: "kernel_ok k" using assms by (auto simp: asleep_def)
  from tick_result [OF ok c'] show ?thesis by metis
qed

section \<open>The thread that runs next\<close>

lemma schedule_top:
  assumes inv: "sched_inv k" and c: "cur_thread k = Some c" "lock_nest k = 0"
    "stat_of k c = RT_THREAD_RUNNING \<or> (\<exists>t. stat_of k t = RT_THREAD_READY)"
  shows "\<exists>h. cur_thread (rt_schedule k) = Some h \<and> stat_of (rt_schedule k) h = RT_THREAD_RUNNING
    \<and> (\<forall>u. stat_of (rt_schedule k) u = RT_THREAD_READY \<longrightarrow> prio_of k h \<le> prio_of k u)
    \<and> (h \<noteq> c \<longrightarrow> h = hd (priority_table k ! prio_of k h))
    \<and> (h \<noteq> c \<and> stat_of k c = RT_THREAD_RUNNING \<longrightarrow> last (priority_table (rt_schedule k) ! prio_of k c) = c
         \<and> (prio_of k h < prio_of k c \<or> prio_of k h = prio_of k c \<and> tcb_yield (tcbs k c)))"
proof (cases "ready_group k = 0")
  case True
  have "\<forall>t. stat_of k t \<noteq> RT_THREAD_READY" using ready_group_zero [OF sched_inv_base [OF inv]] True by blast
  moreover have "rt_schedule k = k" using True by (simp add: rt_schedule_idle)
  ultimately show ?thesis using assms(2,4) by auto
next
  case False
  define h where "h = fst (highest_priority_thread k)"
  define p where "p = snd (highest_priority_thread k)"
  note t = ready_group_top [OF sched_inv_base [OF inv] False, folded h_def p_def]
  note r = rt_schedule_result [OF inv assms(2,3) False, folded h_def]
  have nr: "stat_of k c \<noteq> RT_THREAD_READY" using inv assms(2) by (simp add: sched_inv_def)
  then have hc: "h \<noteq> c" using t(4) by auto
  show ?thesis
  proof (cases "keeps_running c k")
    case True
    then have "prio_of k c \<le> p" "stat_of k c = RT_THREAD_RUNNING" by (auto simp: keeps_running_def p_def)
    then show ?thesis using r(3) [OF True] t(6) by (intro exI [of _ c]) (auto intro: le_trans)
  next
    case nk: False
    have up: "p \<le> prio_of k u" if "stat_of (rt_schedule k) u = RT_THREAD_READY" for u
    proof (cases "u = c \<and> stat_of k c = RT_THREAD_RUNNING")
      case True
      then show ?thesis using nk by (auto simp: keeps_running_def p_def)
    next
      case False
      then show ?thesis using r(4) [OF nk] that t(6) [of u] by (auto split: if_splits)
    qed
    have "last (priority_table (rt_schedule k) ! prio_of k c) = c
         \<and> (p < prio_of k c \<or> p = prio_of k c \<and> tcb_yield (tcbs k c))" if run: "stat_of k c = RT_THREAD_RUNNING"
    proof -
      let ?q = "prio_of k c"
      note d = sched_baseD [OF sched_inv_base [OF inv]]
      have q: "?q < 32" "length (priority_table k) = 32" using d(1,5) by (simp_all add: queue_ok_def)
      have "priority_table (rt_schedule k) ! ?q = removeAll h (priority_table k ! ?q @ [c])"
        unfolding rt_schedule_cases(2) [OF inv assms(2,3) False run nk, folded h_def] switch_to_def set_stat_def
        using hc q by (simp add: rt_schedule_insert_thread_def Let_def set_stat_def)
      then show ?thesis using hc nk run by (auto simp: keeps_running_def p_def)
    qed
    then show ?thesis using r(4) [OF nk] up t(3,5) by (intro exI [of _ h]) auto
  qed
qed

section \<open>Runs of steps\<close>

fun kruns :: "kop list \<Rightarrow> kernel \<Rightarrow> kernel option" where
  "kruns [] k = Some k"
| "kruns (op # ops) k = (case kexec op k of None \<Rightarrow> None | Some k' \<Rightarrow> kruns ops k')"

lemma kruns_reach: "kernel_reach k \<Longrightarrow> kruns ops k = Some k' \<Longrightarrow> kernel_reach k'"
  by (induction ops arbitrary: k) (auto intro: kernel_reach.step split: option.splits)

text \<open>An idle thread 0 of priority 31 and two threads of priority 10, started.\<close>

definition demo_ops :: "kop list" where
  "demo_ops = [K_INIT 0 31 20, K_INIT 1 10 2, K_INIT 2 10 2, K_STARTUP 0, K_STARTUP 1, K_STARTUP 2, K_START]"

definition demo_kernel :: kernel where
  "demo_kernel = the (kruns demo_ops (kernel_boot 0xFFFFFFFE))"

lemma demo_some: "kruns demo_ops (kernel_boot 0xFFFFFFFE) \<noteq> None"
  by code_simp

lemma demo_facts:
  "cur_thread demo_kernel = Some 1" "stat_of demo_kernel 1 = RT_THREAD_RUNNING" "stat_of demo_kernel 2 = RT_THREAD_READY"
  "lock_nest demo_kernel = 0"
  by code_simp+

lemma demo_reach: "kernel_reach demo_kernel"
  by (rule kruns_reach [OF kernel_reach.boot, of demo_ops]) (use demo_some in \<open>auto simp: demo_kernel_def\<close>)


section \<open>Properties\<close>

text \<open>
  C14. In every state the kernel reaches, by any sequence of its operations and ticks: a thread is in the ready state exactly
  when it stands in the ready list of its priority, where it stands once; a bit of the priority group is set exactly when the
  list of that priority is not empty; only the current thread runs, and it is in no list; a running thread timer belongs to a
  suspended thread; and the timer list is in the order of firing.
\<close>

theorem ready_lists_exact:
  assumes "kernel_reach k"
  shows "(\<forall>t. stat_of k t = RT_THREAD_READY \<longleftrightarrow> prio_of k t < 32 \<and> t \<in> set (priority_table k ! prio_of k t))
    \<and> (\<forall>p < 32. distinct (priority_table k ! p) \<and> (\<forall>t \<in> set (priority_table k ! p). prio_of k t = p)
         \<and> (bit (ready_group k) p \<longleftrightarrow> priority_table k ! p \<noteq> []))
    \<and> (\<forall>t. stat_of k t = RT_THREAD_RUNNING \<longrightarrow> cur_thread k = Some t)
    \<and> (\<forall>t. cur_thread k = Some t \<longrightarrow> stat_of k t \<noteq> RT_THREAD_READY)
    \<and> (\<forall>t. tm_activated (tmr k t) \<longrightarrow> stat_of k t = RT_THREAD_SUSPEND)
    \<and> timers_ok k"
proof -
  have ok: "sched_inv k" "timers_ok k" using kernel_reach_ok [OF assms] by (simp_all add: kernel_ok_def)
  note d = sched_baseD [OF sched_inv_base [OF ok(1)]]
  have "stat_of k t = RT_THREAD_READY \<longleftrightarrow> prio_of k t < 32 \<and> t \<in> set (priority_table k ! prio_of k t)" for t
    using d(2) queue_ok_ready [OF d(1), of t] by auto
  moreover have "\<forall>p < 32. distinct (priority_table k ! p) \<and> (\<forall>t \<in> set (priority_table k ! p). prio_of k t = p)
         \<and> (bit (ready_group k) p \<longleftrightarrow> priority_table k ! p \<noteq> [])"
    using d(1) unfolding queue_ok_def by blast
  ultimately show ?thesis using ok d(4) unfolding sched_inv_def by blast
qed

theorem ready_lists_exact_witness:
  "stat_of demo_kernel 2 = RT_THREAD_READY \<and> 2 \<in> set (priority_table demo_kernel ! prio_of demo_kernel 2)"
  using ready_lists_exact [OF demo_reach] demo_facts by blast

text \<open>
  C15. Scheduling in any reachable state, with the scheduler not locked and a thread ready or running: afterwards a thread runs,
  and no ready thread has a higher priority (a smaller number).  When it is another thread than before, it was the first of
  its ready list, and the thread that ran until then is the last of its own: it lost the processor to a higher priority, or
  yielded to one of the same.
\<close>

theorem schedule_highest:
  assumes "kernel_reach k" "cur_thread k = Some c" "lock_nest k = 0"
    "stat_of k c = RT_THREAD_RUNNING \<or> (\<exists>t. stat_of k t = RT_THREAD_READY)"
  shows "\<exists>h. cur_thread (rt_schedule k) = Some h \<and> stat_of (rt_schedule k) h = RT_THREAD_RUNNING
    \<and> (\<forall>u. stat_of (rt_schedule k) u = RT_THREAD_READY \<longrightarrow> prio_of k h \<le> prio_of k u)
    \<and> (h \<noteq> c \<longrightarrow> h = hd (priority_table k ! prio_of k h))
    \<and> (h \<noteq> c \<and> stat_of k c = RT_THREAD_RUNNING \<longrightarrow> last (priority_table (rt_schedule k) ! prio_of k c) = c
         \<and> (prio_of k h < prio_of k c \<or> prio_of k h = prio_of k c \<and> tcb_yield (tcbs k c)))"
  by (rule schedule_top) (use assms kernel_reach_ok in \<open>auto simp: kernel_ok_def\<close>)

theorem schedule_highest_witness:
  "\<exists>h. cur_thread (rt_schedule demo_kernel) = Some h \<and> stat_of (rt_schedule demo_kernel) h = RT_THREAD_RUNNING"
  using schedule_highest [OF demo_reach demo_facts(1,4)] demo_facts(2) by blast

text \<open>
  C16. A thread that calls \<open>rt_thread_sleep(n)\<close>, in any reachable state and also across the wrap-around of the tick counter, is
  suspended through the next \<open>n - 1\<close> ticks, whatever the other threads and the kernel do in the meantime short of resuming or
  deleting it; the tick after that ends, and makes it ready or lets it run.
\<close>

theorem sleep_wakes_on_time:
  assumes "kernel_reach k" "cur_thread k = Some c" "stat_of k c = RT_THREAD_RUNNING" "n \<noteq> 0" "n < RT_TICK_MAX div 2"
    "quiet_run c (rt_thread_sleep c n k) m k'" "m < unat n"
  shows "stat_of k' c = RT_THREAD_SUSPEND
    \<and> (m = unat n - 1 \<longrightarrow> (\<exists>k''. rt_tick_increase k' = Some k'' \<and> stat_of k'' c \<in> {RT_THREAD_READY, RT_THREAD_RUNNING}))"
proof -
  have ok: "kernel_ok k" by (rule kernel_reach_ok [OF assms(1)])
  have a: "asleep c (unat n - m) k'"
    by (rule asleep_run [OF assms(6) rt_thread_sleep_asleep [OF ok assms(2,3,5)] assms(7)])
  have "\<exists>k''. rt_tick_increase k' = Some k'' \<and> stat_of k'' c \<in> {RT_THREAD_READY, RT_THREAD_RUNNING}" if "m = unat n - 1"
  proof -
    have k: "timer_key (tick_now k') k' c \<le> 1" "kernel_ok k'" "tm_activated (tmr k' c)" using a that assms(7)
      by (simp_all add: asleep_def)
    obtain c' where "cur_thread k' = Some c'" using a by (auto simp: asleep_def)
    from tick_result [OF k(2) this] k show ?thesis by (metis thread_awake_def)
  qed
  then show ?thesis using a by (simp add: asleep_def)
qed

text \<open>Thread 1 sleeps for three ticks; after two ticks, with a yield of thread 2 between them, one is left.\<close>

theorem sleep_wakes_on_time_witness:
  "\<exists>k' k''. quiet_run 1 (rt_thread_sleep 1 3 demo_kernel) 2 k' \<and> stat_of k' 1 = RT_THREAD_SUSPEND
     \<and> rt_tick_increase k' = Some k'' \<and> stat_of k'' 1 \<in> {RT_THREAD_READY, RT_THREAD_RUNNING}"
proof -
  define k0 where "k0 = rt_thread_sleep 1 3 demo_kernel"
  have a0: "asleep 1 3 k0" unfolding k0_def
    using rt_thread_sleep_asleep [OF kernel_reach_ok [OF demo_reach] demo_facts(1,2), of 3] by (simp add: RT_TICK_MAX_def)
  obtain k1 where s1: "kexec K_TICK k0 = Some k1" using asleep_tick_some [OF a0] by auto
  have "quiet_run 1 k0 0 k0" by (rule quiet_run.none)
  from quiet_run.more [OF this s1] have q1: "quiet_run 1 k0 1 k1" by (simp add: touches_def)
  have a1: "asleep 1 2 k1" using asleep_run [OF q1 a0] by simp
  obtain k2 where s2: "kexec K_YIELD k1 = Some k2" using a1 by (auto simp: asleep_def by_current_def)
  from quiet_run.more [OF q1 s2] have q2: "quiet_run 1 k0 1 k2" by (simp add: touches_def)
  have a2: "asleep 1 2 k2" using asleep_run [OF q2 a0] by simp
  obtain k3 where s3: "kexec K_TICK k2 = Some k3" using asleep_tick_some [OF a2] by auto
  from quiet_run.more [OF q2 s3] have q3: "quiet_run 1 k0 2 k3" by (simp add: touches_def numeral_2_eq_2)
  have "stat_of k3 1 = RT_THREAD_SUSPEND
      \<and> (2 = unat (3 :: u32) - 1 \<longrightarrow> (\<exists>k''. rt_tick_increase k3 = Some k'' \<and> stat_of k'' 1 \<in> {RT_THREAD_READY, RT_THREAD_RUNNING}))"
    by (rule sleep_wakes_on_time [OF demo_reach demo_facts(1,2) _ _ q3 [unfolded k0_def]]) (simp_all add: RT_TICK_MAX_def)
  then show ?thesis using q3 unfolding k0_def by auto
qed

end
