(* ===== verification/Mutex.thy ===== *)
theory Mutex
  imports Thread_Spec Ipc
begin

text \<open>
  The mutex of the kernel (\<open>rt-thread/src/ipc.c\<close>) over the threads and the scheduler of \<open>Scheduler\<close>: taking, waiting with
  priority inheritance, and releasing with the hand-over to the first waiting thread.  lwIP protects its data with it.  A call is
  the part up to and including \<open>rt_schedule\<close>, from where the calling thread goes on when it is switched to again.
  \<open>None\<close> is the use of a null owner.
\<close>

record mutex =
  m_value :: nat
  m_original_priority :: nat
  m_hold :: nat
  m_owner :: "nat option"
  m_waiting :: "nat list"

definition RT_MUTEX_VALUE_MAX :: nat where "RT_MUTEX_VALUE_MAX = 65535"
definition RT_MUTEX_HOLD_MAX :: nat where "RT_MUTEX_HOLD_MAX = 255"

definition rt_mutex_init :: mutex where
  "rt_mutex_init = \<lparr>m_value = 1, m_original_priority = 0xff, m_hold = 0, m_owner = None, m_waiting = []\<rparr>"

text \<open>A thread with its priority, as the list of suspended threads sees it, and the insertion into that list.\<close>

definition ipc_thread :: "kernel \<Rightarrow> nat \<Rightarrow> rt_thread" where
  "ipc_thread k t = \<lparr>th_id = t, current_priority = tcb_priority (tcbs k t)\<rparr>"

definition wait_insert :: "kernel \<Rightarrow> nat \<Rightarrow> nat list \<Rightarrow> nat list" where
  "wait_insert k t ws = map th_id (rt_ipc_list_suspend (map (ipc_thread k) ws) (ipc_thread k t) RT_IPC_FLAG_PRIO)"

definition set_error :: "nat \<Rightarrow> int \<Rightarrow> kernel \<Rightarrow> kernel" where
  "set_error t e k = upd_tcb t (\<lambda>x. x\<lparr>tcb_error := e\<rparr>) k"

text \<open>The owner \<open>ow\<close> inherits the priority of the thread \<open>c\<close> that is about to wait.\<close>

definition mutex_inherit :: "nat \<Rightarrow> nat \<Rightarrow> kernel \<Rightarrow> kernel" where
  "mutex_inherit c ow k =
     (if tcb_priority (tcbs k c) < tcb_priority (tcbs k ow)
      then rt_thread_change_priority ow (tcb_priority (tcbs k c)) k else k)"

text \<open>\<open>time\<close> is 0 for no waiting, negative for waiting forever.\<close>

definition rt_mutex_take :: "nat \<Rightarrow> int \<Rightarrow> mutex \<Rightarrow> kernel \<Rightarrow> (mutex \<times> kernel \<times> ipc_outcome) option" where
  "rt_mutex_take thread time mutex k =
     (let k = set_error thread 0 k
      in if m_owner mutex = Some thread
         then if m_hold mutex < RT_MUTEX_HOLD_MAX then Some (mutex\<lparr>m_hold := m_hold mutex + 1\<rparr>, k, Ret 0)
              else Some (mutex, k, Ret (- 3))
         else if m_value mutex > 0
         then (let mutex = mutex\<lparr>m_value := m_value mutex - 1, m_owner := Some thread,
                     m_original_priority := tcb_priority (tcbs k thread)\<rparr>
               in if m_hold mutex < RT_MUTEX_HOLD_MAX then Some (mutex\<lparr>m_hold := m_hold mutex + 1\<rparr>, k, Ret 0)
                  else Some (mutex, k, Ret (- 3)))
         else if time = 0 then Some (mutex, set_error thread (- 2) k, Ret (- 2))
         else (case m_owner mutex of
                 None \<Rightarrow> None
               | Some ow \<Rightarrow>
                   (let k = mutex_inherit thread ow k;
                        k = fst (rt_thread_suspend thread k);
                        mutex = mutex\<lparr>m_waiting := wait_insert k thread (m_waiting mutex)\<rparr>;
                        k = (if time > 0 then timed_wait thread (of_int time) k else k)
                    in Some (mutex, rt_schedule k, Suspended))))"

definition rt_mutex_trytake :: "nat \<Rightarrow> mutex \<Rightarrow> kernel \<Rightarrow> (mutex \<times> kernel \<times> ipc_outcome) option" where
  "rt_mutex_trytake thread mutex k = rt_mutex_take thread 0 mutex k"

text \<open>What a waiting thread returns when it runs again.\<close>

definition mutex_take_resumed :: "nat \<Rightarrow> kernel \<Rightarrow> int" where
  "mutex_take_resumed thread k = (if tcb_error (tcbs k thread) \<noteq> 0 then tcb_error (tcbs k thread) else 0)"

text \<open>The last release: the owner's own priority, then the hand-over or the mutex is free.\<close>

definition mutex_restore :: "nat \<Rightarrow> mutex \<Rightarrow> kernel \<Rightarrow> kernel" where
  "mutex_restore thread mutex k =
     (if m_original_priority mutex \<noteq> tcb_priority (tcbs k thread)
      then rt_thread_change_priority thread (m_original_priority mutex) k else k)"

definition mutex_hand_over :: "mutex \<Rightarrow> kernel \<Rightarrow> mutex \<times> kernel \<times> int" where
  "mutex_hand_over mutex k =
     (if m_waiting mutex \<noteq> []
      then (let thread = hd (m_waiting mutex);
                mutex = mutex\<lparr>m_owner := Some thread, m_original_priority := tcb_priority (tcbs k thread)\<rparr>
            in if m_hold mutex < RT_MUTEX_HOLD_MAX
               then (mutex\<lparr>m_hold := m_hold mutex + 1, m_waiting := tl (m_waiting mutex)\<rparr>,
                     rt_schedule (fst (rt_thread_resume thread k)), 0)
               else (mutex, k, - 3))
      else if m_value mutex < RT_MUTEX_VALUE_MAX
      then (mutex\<lparr>m_value := m_value mutex + 1, m_owner := None, m_original_priority := 0xff\<rparr>, k, 0)
      else (mutex, k, - 3))"

definition rt_mutex_release :: "nat \<Rightarrow> mutex \<Rightarrow> kernel \<Rightarrow> mutex \<times> kernel \<times> int" where
  "rt_mutex_release thread mutex k =
     (if m_owner mutex \<noteq> Some thread then (mutex, set_error thread (- 1) k, - 1)
      else let mutex = mutex\<lparr>m_hold := (m_hold mutex + 255) mod 256\<rparr>
           in if m_hold mutex = 0 then mutex_hand_over mutex (mutex_restore thread mutex k) else (mutex, k, 0))"

text \<open>\<open>rt_mutex_detach\<close> and \<open>rt_mutex_delete\<close>: every waiting thread is resumed with an error.\<close>

definition rt_mutex_detach :: "mutex \<Rightarrow> kernel \<Rightarrow> mutex \<times> kernel" where
  "rt_mutex_detach mutex k =
     (mutex\<lparr>m_waiting := []\<rparr>, fold (\<lambda>t k. fst (rt_thread_resume t (set_error t (- 1) k))) (m_waiting mutex) k)"


section \<open>What the kernel's steps leave alone\<close>

definition alive :: "kernel \<Rightarrow> nat \<Rightarrow> bool" where
  "alive k t \<longleftrightarrow> stat_of k t \<notin> {RT_THREAD_INIT, RT_THREAD_CLOSE}"

text \<open>The steps that end a thread.\<close>

definition ends :: "kop \<Rightarrow> kernel \<Rightarrow> nat \<Rightarrow> bool" where
  "ends op k t \<longleftrightarrow> op = K_DETACH t \<or> op = K_EXIT \<and> cur_thread k = Some t"

definition thread_kept :: "nat \<Rightarrow> kernel \<Rightarrow> kernel \<Rightarrow> bool" where
  "thread_kept t k k' \<longleftrightarrow> prio_of k' t = prio_of k t \<and> alive k' t"

lemma schedule_kept:
  assumes "sched_inv k'" "thread_kept t k k'"
  shows "thread_kept t k (rt_schedule k')"
  using assms(2) rt_schedule_prio [OF assms(1), of t] rt_schedule_others [OF assms(1), of t]
  by (cases "stat_of k' t") (auto simp: thread_kept_def alive_def)

lemma suspend_kept: "alive k t \<Longrightarrow> thread_kept t k (fst (rt_thread_suspend c k))"
  by (auto simp: thread_kept_def alive_def rt_thread_suspend_def Let_def set_stat_def)

lemma wait_kept: "thread_kept t k k' \<Longrightarrow> thread_kept t k (timed_wait c n k')"
  by (simp add: thread_kept_def alive_def timed_wait_def)

lemma resume_kept: "alive k t \<Longrightarrow> thread_kept t k (fst (rt_thread_resume c k))"
  by (auto simp: thread_kept_def alive_def rt_thread_resume_def Let_def)

lemma sleep_kept:
  assumes "sched_inv k" "stat_of k c \<in> {RT_THREAD_RUNNING, RT_THREAD_SUSPEND}" "alive k t"
  shows "thread_kept t k (rt_thread_sleep c n k)"
  unfolding rt_thread_sleep_wait
  by (rule schedule_kept) (use assms in \<open>auto intro!: timed_wait_inv rt_thread_suspend_inv wait_kept suspend_kept simp: stat_suspend\<close>)

lemma startup_kept:
  assumes inv: "sched_inv k" and a: "alive k t" and c: "stat_of k c = RT_THREAD_INIT"
  shows "thread_kept t k (rt_thread_startup c k)"
proof -
  define k1 where "k1 = upd_tcb c (\<lambda>x. x\<lparr>tcb_stat := RT_THREAD_SUSPEND, tcb_yield := False\<rparr>)
      (upd_tcb c (\<lambda>x. x\<lparr>tcb_number_mask := prio_mask (tcb_priority x)\<rparr>)
        (upd_tcb c (\<lambda>x. x\<lparr>tcb_priority := tcb_init_priority x\<rparr>) k))"
  have ne: "t \<noteq> c" using a c by (auto simp: alive_def)
  have "sched_base k1"
    by (rule sched_base_frame [OF sched_inv_base [OF inv]])
      (use c sched_baseD(3,4) [OF sched_inv_base [OF inv]] in \<open>auto simp: k1_def tcb_ok_def\<close>)
  then have "sched_inv k1" using inv c by (auto simp: sched_inv_def k1_def)
  then have r: "sched_inv (fst (rt_thread_resume c k1))" by (rule rt_thread_resume_inv)
  have k: "thread_kept t k (fst (rt_thread_resume c k1))" using ne a
    by (simp add: thread_kept_def alive_def rt_thread_resume_def Let_def k1_def)
  have "rt_thread_startup c k =
      (if cur_thread (fst (rt_thread_resume c k1)) \<noteq> None then rt_schedule (fst (rt_thread_resume c k1))
       else fst (rt_thread_resume c k1))"
    unfolding rt_thread_startup_def k1_def Let_def by (rule refl)
  then show ?thesis using schedule_kept [OF r k] k by simp
qed

lemma tick_kept:
  assumes ok: "kernel_ok k" and a: "alive k t" and s: "rt_tick_increase k = Some k'"
  shows "thread_kept t k k'"
proof -
  obtain c where c: "cur_thread k = Some c" using tick_cur [OF s] by auto
  from tick_result [OF ok c] obtain k2 where k2: "rt_tick_increase k = Some k2" "\<And>t. prio_of k2 t = prio_of k t"
    "\<And>t. thread_awake k t \<Longrightarrow> thread_awake k2 t"
    "\<And>t. tm_activated (tmr k t) \<Longrightarrow> timer_key (tick_now k) k t \<le> 1 \<Longrightarrow> thread_awake k2 t"
    "\<And>t. \<not> (tm_activated (tmr k t) \<and> timer_key (tick_now k) k t \<le> 1) \<Longrightarrow> tmr k2 t = tmr k t
       \<and> (stat_of k t = RT_THREAD_SUSPEND \<longrightarrow> stat_of k2 t = RT_THREAD_SUSPEND)" by metis
  have e: "k2 = k'" using k2(1) s by simp
  have "thread_awake k' t \<or> stat_of k' t = RT_THREAD_SUSPEND"
  proof (cases "stat_of k t = RT_THREAD_SUSPEND")
    case True
    then show ?thesis using k2(4,5) [of t] e by blast
  next
    case False
    then have "thread_awake k t" using a by (cases "stat_of k t") (auto simp: alive_def thread_awake_def)
    then show ?thesis using k2(3) e by blast
  qed
  then show ?thesis using k2(2) e by (auto simp: thread_kept_def alive_def thread_awake_def)
qed

lemma kexec_kept:
  assumes ok: "kernel_ok k" and s: "kexec op k = Some k'" and a: "alive k t"
    and n: "\<And>c p. op \<noteq> K_CHANGE_PRIORITY c p" "\<not> ends op k t"
  shows "thread_kept t k k'"
proof -
  have inv: "sched_inv k" using ok by (simp add: kernel_ok_def)
  have self: "thread_kept t k k" using a by (simp add: thread_kept_def)
  show ?thesis
  proof (cases op)
    case K_START
    then show ?thesis using s a
      by (auto simp: allowed_def thread_kept_def alive_def rt_system_scheduler_start_def Let_def split: if_splits)
  next
    case (K_INIT c p i)
    then show ?thesis using s a
      by (auto simp: allowed_def thread_kept_def alive_def rt_thread_init_def Let_def split: if_splits)
  next
    case (K_STARTUP c)
    then show ?thesis using s startup_kept [OF inv a, of c] by (auto simp: allowed_def split: if_splits)
  next
    case (K_RESUME c)
    then show ?thesis using s resume_kept [OF a, of c] by simp
  next
    case (K_SUSPEND c)
    then show ?thesis using s suspend_kept [OF a, of c] by simp
  next
    case K_SCHEDULE
    then show ?thesis using s schedule_kept [OF inv self] by simp
  next
    case K_YIELD
    then obtain c where c: "cur_thread k = Some c" "k' = rt_thread_yield c k" using s by (auto simp: by_current_def split: option.splits)
    have "sched_inv (upd_tcb c (\<lambda>x. x\<lparr>tcb_remaining_tick := tcb_init_tick x, tcb_yield := True\<rparr>) k)"
      by (rule sched_inv_tcb [OF inv]) (auto simp: tcb_ok_def)
    then show ?thesis unfolding c(2) rt_thread_yield_def
      by (rule schedule_kept) (use a in \<open>auto simp: thread_kept_def alive_def\<close>)
  next
    case (K_SLEEP i)
    then show ?thesis using s sleep_kept [OF inv _ a]
      by (auto simp: by_current_def may_wait_def split: option.splits if_splits)
  next
    case (K_DELAY_UNTIL w i)
    then obtain c where c: "cur_thread k = Some c" "may_wait i k" "k' = fst (rt_thread_delay_until c w i k)"
      using s by (auto simp: by_current_def split: option.splits if_splits)
    have "thread_kept t k (rt_thread_sleep c j k)" for j using sleep_kept [OF inv _ a, of c] c(1,2) by (auto simp: may_wait_def)
    then show ?thesis using self by (simp add: c(3) rt_thread_delay_until_def Let_def)
  next
    case (K_WAIT c i)
    then show ?thesis using s wait_kept [OF self] by (auto simp: allowed_def split: if_splits)
  next
    case (K_CHANGE_PRIORITY c p)
    then show ?thesis using n(1) by blast
  next
    case (K_DETACH c)
    then have ne: "c \<noteq> t" and k': "k' = rt_thread_detach c k" using s n(2) by (auto simp: ends_def)
    show ?thesis
    proof (cases "stat_of k c = RT_THREAD_CLOSE")
      case True
      then show ?thesis using self by (simp add: k' rt_thread_detach_def)
    next
      case False
      show ?thesis unfolding k' rt_thread_detach_close [OF inv False] using ne a by (simp add: thread_kept_def alive_def)
    qed
  next
    case K_EXIT
    then obtain c where c: "cur_thread k = Some c" "k' = rt_thread_exit c k" using s by (auto simp: by_current_def split: option.splits)
    then have ne: "c \<noteq> t" using n K_EXIT by (auto simp: ends_def)
    have e: "k' = rt_schedule (upd_tcb c (\<lambda>x. x\<lparr>tcb_stat := RT_THREAD_CLOSE, tcb_yield := False\<rparr>)
        (rt_timer_detach c (rt_schedule_remove_thread c k)))"
      by (simp add: c(2) rt_thread_exit_def Let_def close_commutes)
    show ?thesis unfolding e by (rule schedule_kept [OF close_inv [OF inv]]) (use ne a in \<open>simp add: thread_kept_def alive_def\<close>)
  next
    case K_ENTER_CRITICAL
    then show ?thesis using s a by (auto simp: rt_enter_critical_def thread_kept_def alive_def)
  next
    case K_EXIT_CRITICAL
    have "thread_kept t k (rt_schedule (k\<lparr>lock_nest := 0\<rparr>))"
      by (rule schedule_kept) (use inv a in \<open>simp_all add: sched_inv_lock thread_kept_def alive_def\<close>)
    moreover have "thread_kept t k (k\<lparr>lock_nest := i\<rparr>)" for i using a by (simp add: thread_kept_def alive_def)
    moreover have "k' = rt_schedule (k\<lparr>lock_nest := 0\<rparr>) \<or> (\<exists>i. k' = k\<lparr>lock_nest := i\<rparr>)"
      using K_EXIT_CRITICAL s by (auto simp: rt_exit_critical_def Let_def split: if_splits)
    ultimately show ?thesis by metis
  next
    case K_TICK
    then show ?thesis using tick_kept [OF ok a] s by simp
  qed
qed


section \<open>The list of waiting threads\<close>

lemma wait_insert_eq:
  "rt_ipc_list_suspend (map (ipc_thread k) ws) (ipc_thread k t) RT_IPC_FLAG_PRIO = map (ipc_thread k) (wait_insert k t ws)"
proof -
  have "\<exists>vs. insert_prio (ipc_thread k t) (map (ipc_thread k) ws) = map (ipc_thread k) vs"
  proof (induction ws)
    case Nil
    then show ?case by (intro exI [of _ "[t]"]) simp
  next
    case (Cons w ws)
    then obtain vs where "insert_prio (ipc_thread k t) (map (ipc_thread k) ws) = map (ipc_thread k) vs" by blast
    then show ?case by (cases "current_priority (ipc_thread k t) < current_priority (ipc_thread k w)")
      (auto intro: exI [of _ "t # w # ws"] exI [of _ "w # vs"])
  qed
  then show ?thesis by (auto simp: wait_insert_def rt_ipc_list_suspend_def comp_def ipc_thread_def)
qed

lemma current_priority_map: "map current_priority (map (ipc_thread k) ws) = map (prio_of k) ws"
  by (simp add: ipc_thread_def)

lemma wait_insert_sorted:
  assumes "sorted (map (prio_of k) ws)"
  shows "sorted (map (prio_of k) (wait_insert k t ws))"
  using sorted_insert_prio [of "map (ipc_thread k) ws" "ipc_thread k t"] assms
  unfolding current_priority_map by (simp add: rt_ipc_list_suspend_def flip: wait_insert_eq current_priority_map)

lemma wait_insert_set: "set (wait_insert k t ws) = insert t (set ws)" "length (wait_insert k t ws) = length ws + 1"
proof -
  have "length (insert_prio a us) = length us + 1" for a us by (induction us) auto
  then show "length (wait_insert k t ws) = length ws + 1" by (simp add: wait_insert_def rt_ipc_list_suspend_def)
  show "set (wait_insert k t ws) = insert t (set ws)"
    by (simp add: wait_insert_def image_image ipc_thread_def)
qed

lemma wait_insert_distinct: "distinct ws \<Longrightarrow> t \<notin> set ws \<Longrightarrow> distinct (wait_insert k t ws)"
  using wait_insert_set [of k t ws] by (intro card_distinct) (simp add: distinct_card)

section \<open>The invariant\<close>

lemma change_priority_fields:
  assumes "sched_inv k"
  shows "stat_of (rt_thread_change_priority t p k) u = stat_of k u"
    "prio_of (rt_thread_change_priority t p k) u = (if u = t then p else prio_of k u)"
    "cur_thread (rt_thread_change_priority t p k) = cur_thread k" "lock_nest (rt_thread_change_priority t p k) = lock_nest k"
proof -
  have "stat_of k t = RT_THREAD_READY \<Longrightarrow> cur_thread k \<noteq> Some t" using assms by (auto simp: sched_inv_def)
  then show "stat_of (rt_thread_change_priority t p k) u = stat_of k u"
    "prio_of (rt_thread_change_priority t p k) u = (if u = t then p else prio_of k u)"
    "cur_thread (rt_thread_change_priority t p k) = cur_thread k" "lock_nest (rt_thread_change_priority t p k) = lock_nest k"
    by (auto simp: rt_thread_change_priority_def Let_def)
qed

lemma kernel_ok_change_priority: "kernel_ok k \<Longrightarrow> p < 32 \<Longrightarrow> kernel_ok (rt_thread_change_priority t p k)"
  using kernel_ok_same [OF _ change_priority_same_timers rt_thread_change_priority_inv] by (simp add: kernel_ok_def)

lemma kernel_ok_set_error: "kernel_ok k \<Longrightarrow> kernel_ok (set_error t e k)"
  unfolding set_error_def by (rule kernel_ok_same) (auto simp: kernel_ok_def same_timers_def tcb_ok_def intro!: sched_inv_tcb)

lemma set_error_simps [simp]:
  "stat_of (set_error t e k) u = stat_of k u" "prio_of (set_error t e k) u = prio_of k u"
  "cur_thread (set_error t e k) = cur_thread k" "lock_nest (set_error t e k) = lock_nest k"
  by (simp_all add: set_error_def)

lemma kernel_ok_prio: "kernel_ok k \<Longrightarrow> prio_of k t < 32"
  using sched_baseD(5) [of k t] by (simp add: kernel_ok_def sched_inv_def)

definition mutex_ok :: "mutex \<Rightarrow> kernel \<Rightarrow> bool" where
  "mutex_ok m k \<longleftrightarrow> distinct (m_waiting m) \<and> sorted (map (prio_of k) (m_waiting m))
     \<and> (\<forall>w \<in> set (m_waiting m). stat_of k w = RT_THREAD_SUSPEND)
     \<and> (case m_owner m of
          None \<Rightarrow> m_value m = 1 \<and> m_hold m = 0 \<and> m_waiting m = []
        | Some ow \<Rightarrow> m_value m = 0 \<and> 0 < m_hold m \<and> m_hold m \<le> RT_MUTEX_HOLD_MAX \<and> m_original_priority m < 32 \<and> alive k ow
            \<and> ow \<notin> set (m_waiting m) \<and> (\<forall>w \<in> set (m_waiting m). prio_of k ow \<le> prio_of k w))"

lemma mutex_ok_cong:
  assumes "\<And>u. stat_of k' u = stat_of k u" "\<And>u. prio_of k' u = prio_of k u"
  shows "mutex_ok m k' \<longleftrightarrow> mutex_ok m k"
proof -
  have "map (prio_of k') ws = map (prio_of k) ws" for ws using assms(2) by simp
  then show ?thesis using assms by (cases "m_owner m") (simp_all add: mutex_ok_def alive_def)
qed

text \<open>A change of the kernel that keeps the owner, and of the waiting threads those that are still suspended.\<close>

lemma mutex_ok_kept:
  assumes ok: "mutex_ok m k" and ow: "\<And>t. m_owner m = Some t \<Longrightarrow> thread_kept t k k'"
    and w: "\<And>t. t \<in> set (m_waiting m) \<Longrightarrow> stat_of k' t = RT_THREAD_SUSPEND \<Longrightarrow> prio_of k' t = prio_of k t"
  shows "mutex_ok (m\<lparr>m_waiting := filter (\<lambda>t. stat_of k' t = RT_THREAD_SUSPEND) (m_waiting m)\<rparr>) k'"
proof -
  let ?ws = "filter (\<lambda>t. stat_of k' t = RT_THREAD_SUSPEND) (m_waiting m)"
  have "map (prio_of k') ?ws = map (prio_of k) ?ws" using w by simp
  moreover have "sorted (map (prio_of k) ?ws)" using ok by (intro sorted_filter) (simp add: mutex_ok_def)
  ultimately have "sorted (map (prio_of k') ?ws)" by (simp only:)
  moreover have "prio_of k' t \<le> prio_of k' u" if "m_owner m = Some t" "u \<in> set ?ws" for t u
    using that ok ow [OF that(1)] w [of u] by (auto simp: mutex_ok_def thread_kept_def)
  ultimately show ?thesis using ok ow by (auto simp: mutex_ok_def thread_kept_def split: option.splits)
qed

inductive mutex_run :: "mutex \<Rightarrow> kernel \<Rightarrow> bool" where
  init: "kernel_reach k \<Longrightarrow> mutex_run rt_mutex_init k"
| kernel: "mutex_run m k \<Longrightarrow> kexec op k = Some k' \<Longrightarrow> (\<forall>c p. op \<noteq> K_CHANGE_PRIORITY c p)
    \<Longrightarrow> (\<forall>t. m_owner m = Some t \<longrightarrow> \<not> ends op k t)
    \<Longrightarrow> mutex_run (m\<lparr>m_waiting := filter (\<lambda>t. stat_of k' t = RT_THREAD_SUSPEND) (m_waiting m)\<rparr>) k'"
| take: "mutex_run m k \<Longrightarrow> cur_thread k = Some c \<Longrightarrow> stat_of k c = RT_THREAD_RUNNING
    \<Longrightarrow> (time > 0 \<longrightarrow> of_int time < RT_TICK_MAX div 2) \<Longrightarrow> rt_mutex_take c time m k = Some (m', k', out) \<Longrightarrow> mutex_run m' k'"
| release: "mutex_run m k \<Longrightarrow> cur_thread k = Some c \<Longrightarrow> stat_of k c = RT_THREAD_RUNNING
    \<Longrightarrow> rt_mutex_release c m k = (m', k', e) \<Longrightarrow> mutex_run m' k'"


section \<open>Taking\<close>

lemma mutex_inherit_facts:
  assumes "kernel_ok k"
  shows "kernel_ok (mutex_inherit c ow k)" "stat_of (mutex_inherit c ow k) t = stat_of k t"
    "prio_of (mutex_inherit c ow k) t = (if t = ow then min (prio_of k c) (prio_of k ow) else prio_of k t)"
    "cur_thread (mutex_inherit c ow k) = cur_thread k"
  using assms kernel_ok_change_priority [OF assms kernel_ok_prio [OF assms]] change_priority_fields [of k ow "prio_of k c"]
  by (auto simp: mutex_inherit_def kernel_ok_def)

lemma mutex_wait_ok:
  assumes ok: "kernel_ok k" "mutex_ok m k" and m: "m_owner m = Some ow" "ow \<noteq> c"
    and c: "stat_of k c = RT_THREAD_RUNNING" and n: "time > 0 \<longrightarrow> of_int time < RT_TICK_MAX div 2"
  defines "k1 \<equiv> fst (rt_thread_suspend c (mutex_inherit c ow k))"
  defines "k2 \<equiv> rt_schedule (if time > 0 then timed_wait c (of_int time) k1 else k1)"
  shows "kernel_ok k2" "mutex_ok (m\<lparr>m_waiting := wait_insert k1 c (m_waiting m)\<rparr>) k2"
proof -
  note i = mutex_inherit_facts [OF ok(1), of c ow]
  have k1: "kernel_ok k1" unfolding k1_def by (rule kernel_ok_suspend [OF i(1)])
  have st: "stat_of k1 t = (if t = c then RT_THREAD_SUSPEND else stat_of k t)" for t
    using c by (simp add: k1_def stat_suspend i)
  have pr: "prio_of k1 t = (if t = ow then min (prio_of k c) (prio_of k ow) else prio_of k t)" for t
    by (simp add: k1_def i(3) [symmetric] rt_thread_suspend_def Let_def set_stat_def)
  define k3 where "k3 = (if time > 0 then timed_wait c (of_int time) k1 else k1)"
  have k3: "kernel_ok k3" unfolding k3_def using kernel_ok_wait [OF k1, of c "of_int time"] n st k1 by simp
  have e3: "stat_of k3 t = stat_of k1 t" "prio_of k3 t = prio_of k1 t" for t by (simp_all add: k3_def timed_wait_def)
  have k2: "k2 = rt_schedule k3" by (simp add: k2_def k3_def)
  show "kernel_ok k2" unfolding k2 by (rule kernel_ok_schedule [OF k3])
  have inv3: "sched_inv k3" using k3 by (simp add: kernel_ok_def)
  have p2: "prio_of k2 t = prio_of k1 t" for t using rt_schedule_prio [OF inv3] by (simp add: k2 e3)
  have s2: "stat_of k2 t = RT_THREAD_SUSPEND" if "stat_of k1 t = RT_THREAD_SUSPEND" for t
    using rt_schedule_others(1) [OF inv3, of t] that by (simp add: k2 e3)
  have mo: "distinct (m_waiting m)" "sorted (map (prio_of k) (m_waiting m))" "\<forall>w \<in> set (m_waiting m). stat_of k w = RT_THREAD_SUSPEND"
    "m_value m = 0" "0 < m_hold m" "m_hold m \<le> RT_MUTEX_HOLD_MAX" "m_original_priority m < 32" "alive k ow" "ow \<notin> set (m_waiting m)"
    "\<forall>w \<in> set (m_waiting m). prio_of k ow \<le> prio_of k w"
    using ok(2) m by (simp_all add: mutex_ok_def)
  have cw: "c \<notin> set (m_waiting m)" using mo(3) c by auto
  let ?ws = "wait_insert k1 c (m_waiting m)"
  have "map (prio_of k1) (m_waiting m) = map (prio_of k) (m_waiting m)" using mo(9) pr by auto
  then have "sorted (map (prio_of k1) (m_waiting m))" using mo(2) by (simp only:)
  then have "sorted (map (prio_of k1) ?ws)" by (rule wait_insert_sorted)
  then have "sorted (map (prio_of k2) ?ws)" using p2 by simp
  moreover have "distinct ?ws" by (rule wait_insert_distinct [OF mo(1) cw])
  moreover have "\<forall>w \<in> set ?ws. stat_of k2 w = RT_THREAD_SUSPEND" using mo(3) st s2 by (auto simp: wait_insert_set)
  moreover have "alive k2 ow"
    using schedule_kept [OF inv3, of ow k3] mo(8) m(2) by (simp add: thread_kept_def alive_def k2 e3 st)
  moreover have "ow \<notin> set ?ws" using mo(9) m(2) by (auto simp: wait_insert_set)
  moreover have "prio_of k2 ow \<le> prio_of k2 w" if "w \<in> set ?ws" for w
    using that mo(9,10) m(2) by (auto simp: p2 pr wait_insert_set)
  ultimately show "mutex_ok (m\<lparr>m_waiting := ?ws\<rparr>) k2" using mo m by (simp add: mutex_ok_def)
qed

lemma mutex_take_ok:
  assumes ok: "kernel_ok k" "mutex_ok m k" and c: "stat_of k c = RT_THREAD_RUNNING"
    and n: "time > 0 \<longrightarrow> of_int time < RT_TICK_MAX div 2" and t: "rt_mutex_take c time m k = Some (m', k', out)"
  shows "kernel_ok k' \<and> mutex_ok m' k'"
proof -
  define k0 where "k0 = set_error c 0 k"
  have k0: "kernel_ok k0" unfolding k0_def by (rule kernel_ok_set_error [OF ok(1)])
  have st: "stat_of k0 u = stat_of k u" "prio_of k0 u = prio_of k u" for u by (simp_all add: k0_def)
  have m0: "mutex_ok m k0" using ok(2) mutex_ok_cong [of k0 k m] by (simp add: st)
  have run: "alive k0 c" using c by (simp add: alive_def st)
  note d = t [unfolded rt_mutex_take_def Let_def, folded k0_def]
  show ?thesis
  proof (cases "m_owner m")
    case None
    then have "m_value m = 1" "m_hold m = 0" "m_waiting m = []" using m0 by (simp_all add: mutex_ok_def)
    then have "k' = k0" "m' = m\<lparr>m_value := 0, m_owner := Some c, m_original_priority := prio_of k0 c, m_hold := 1\<rparr>"
      using d None by (auto simp: RT_MUTEX_HOLD_MAX_def)
    then show ?thesis using k0 run kernel_ok_prio [OF k0, of c] \<open>m_waiting m = []\<close>
      by (simp add: mutex_ok_def RT_MUTEX_HOLD_MAX_def)
  next
    case (Some ow)
    have mo: "m_value m = 0" using m0 Some by (simp add: mutex_ok_def)
    show ?thesis
    proof (cases "ow = c")
      case True
      then have "k' = k0" "m' = (if m_hold m < RT_MUTEX_HOLD_MAX then m\<lparr>m_hold := m_hold m + 1\<rparr> else m)"
        using d Some by (simp_all split: if_splits)
      then show ?thesis using k0 m0 Some by (auto simp: mutex_ok_def)
    next
      case False
      show ?thesis
      proof (cases "time = 0")
        case True
        then have "k' = set_error c (- 2) k0" "m' = m" using d Some False mo by simp_all
        then show ?thesis using kernel_ok_set_error [OF k0, of c "- 2"] m0
          mutex_ok_cong [of "set_error c (- 2) k0" k0 m] by simp
      next
        case nz: False
        note w = mutex_wait_ok [OF k0 m0 Some False _ n]
        show ?thesis using w d Some False mo nz c by (auto simp: st)
      qed
    qed
  qed
qed


section \<open>Releasing\<close>

text \<open>The last release by the owner \<open>c\<close>, with its own priority restored.\<close>

lemma mutex_restore_facts:
  assumes "kernel_ok k" "m_original_priority m < 32"
  shows "kernel_ok (mutex_restore c m k)" "stat_of (mutex_restore c m k) t = stat_of k t"
    "prio_of (mutex_restore c m k) t = (if t = c then m_original_priority m else prio_of k t)"
    "cur_thread (mutex_restore c m k) = cur_thread k" "lock_nest (mutex_restore c m k) = lock_nest k"
  using assms kernel_ok_change_priority [OF assms] change_priority_fields [of k c "m_original_priority m"]
  by (auto simp: mutex_restore_def kernel_ok_def)

text \<open>The hand-over to the first waiting thread.\<close>

lemma resume_stat:
  assumes "stat_of k w = RT_THREAD_SUSPEND" "cur_thread k \<noteq> Some w"
  shows "stat_of (fst (rt_thread_resume w k)) t = (if t = w then RT_THREAD_READY else stat_of k t)"
    "prio_of (fst (rt_thread_resume w k)) t = prio_of k t" "cur_thread (fst (rt_thread_resume w k)) = cur_thread k"
    "lock_nest (fst (rt_thread_resume w k)) = lock_nest k"
  using assms by (simp_all add: rt_thread_resume_def Let_def)

lemma mutex_hand_over_facts:
  assumes ok: "kernel_ok k" "mutex_ok m k" and m: "m_owner m = Some c" "m_hold m = 1" "m_waiting m = w # ws"
    and c: "cur_thread k = Some c" "stat_of k c = RT_THREAD_RUNNING"
  defines "k1 \<equiv> fst (rt_thread_resume w (mutex_restore c m k))"
  shows "rt_mutex_release c m k = (m\<lparr>m_owner := Some w, m_original_priority := prio_of k w, m_waiting := ws\<rparr>, rt_schedule k1, 0)"
    "kernel_ok k1" "stat_of k1 t = (if t = w then RT_THREAD_READY else stat_of k t)"
    "prio_of k1 t = (if t = c then m_original_priority m else prio_of k t)" "cur_thread k1 = Some c" "lock_nest k1 = lock_nest k"
    "w \<noteq> c" "w \<notin> set ws" "\<forall>v \<in> set ws. prio_of k w \<le> prio_of k v" "m_original_priority m < 32"
proof -
  have mo: "distinct (w # ws)" "sorted (map (prio_of k) (w # ws))" "stat_of k w = RT_THREAD_SUSPEND" "m_original_priority m < 32"
    "c \<noteq> w" using ok(2) m by (auto simp: mutex_ok_def)
  note r = mutex_restore_facts [OF ok(1) mo(4), of c]
  have sw: "stat_of (mutex_restore c m k) w = RT_THREAD_SUSPEND" "cur_thread (mutex_restore c m k) \<noteq> Some w"
    using mo(3,5) c(1) by (simp_all add: r)
  note rs = resume_stat [OF sw, folded k1_def, unfolded r]
  have "mutex_restore c (m\<lparr>m_hold := 0\<rparr>) k = mutex_restore c m k" by (simp add: mutex_restore_def)
  then show "rt_mutex_release c m k =
      (m\<lparr>m_owner := Some w, m_original_priority := prio_of k w, m_waiting := ws\<rparr>, rt_schedule k1, 0)"
    using m mo(5) r(3) [of w]
    by (simp add: rt_mutex_release_def Let_def mutex_hand_over_def RT_MUTEX_HOLD_MAX_def k1_def)
  show "kernel_ok k1" unfolding k1_def by (rule kernel_ok_resume [OF r(1)])
  show "stat_of k1 t = (if t = w then RT_THREAD_READY else stat_of k t)"
    "prio_of k1 t = (if t = c then m_original_priority m else prio_of k t)" "cur_thread k1 = Some c" "lock_nest k1 = lock_nest k"
    using rs c(1) by simp_all
  show "w \<noteq> c" "w \<notin> set ws" "\<forall>v \<in> set ws. prio_of k w \<le> prio_of k v" "m_original_priority m < 32"
    using mo by auto
qed

lemma mutex_release_ok:
  assumes ok: "kernel_ok k" "mutex_ok m k" and c: "cur_thread k = Some c" "stat_of k c = RT_THREAD_RUNNING"
    and r: "rt_mutex_release c m k = (m', k', e)"
  shows "kernel_ok k' \<and> mutex_ok m' k'"
proof (cases "m_owner m = Some c")
  case False
  then have "k' = set_error c (- 1) k" "m' = m" using r by (auto simp: rt_mutex_release_def)
  then show ?thesis using ok kernel_ok_set_error mutex_ok_cong [of k' k m] by simp
next
  case own: True
  have mo: "0 < m_hold m" "m_hold m \<le> 255" "m_value m = 0" "m_original_priority m < 32"
    using ok(2) own by (simp_all add: mutex_ok_def RT_MUTEX_HOLD_MAX_def)
  have h: "(m_hold m + 255) mod 256 = m_hold m - 1" using mo(1,2)
    by (cases "m_hold m") simp_all
  show ?thesis
  proof (cases "m_hold m = 1")
    case False
    then have "k' = k" "m' = m\<lparr>m_hold := m_hold m - 1\<rparr>" using r own h mo(1) by (auto simp: rt_mutex_release_def Let_def)
    then show ?thesis using ok own mo(1,2) False by (simp add: mutex_ok_def RT_MUTEX_HOLD_MAX_def)
  next
    case one: True
    show ?thesis
    proof (cases "m_waiting m")
      case Nil
      have "mutex_restore c (m\<lparr>m_hold := 0\<rparr>) k = mutex_restore c m k" by (simp add: mutex_restore_def)
      then have "k' = mutex_restore c m k" "m' = m\<lparr>m_hold := 0, m_value := 1, m_owner := None, m_original_priority := 0xff\<rparr>"
        using r own one Nil mo(3) by (auto simp: rt_mutex_release_def Let_def mutex_hand_over_def RT_MUTEX_VALUE_MAX_def)
      then show ?thesis using mutex_restore_facts(1) [OF ok(1) mo(4)] Nil by (simp add: mutex_ok_def)
    next
      case (Cons w ws)
      note f = mutex_hand_over_facts [OF ok own one Cons c]
      define k1 where "k1 = fst (rt_thread_resume w (mutex_restore c m k))"
      note f = f [folded k1_def]
      have e: "k' = rt_schedule k1" "m' = m\<lparr>m_owner := Some w, m_original_priority := prio_of k w, m_waiting := ws\<rparr>"
        using f(1) r by simp_all
      have inv: "sched_inv k1" using f(2) by (simp add: kernel_ok_def)
      have s: "\<forall>v \<in> set ws. stat_of k v = RT_THREAD_SUSPEND" "c \<notin> set ws" "distinct ws" "sorted (map (prio_of k) ws)"
        using ok(2) own Cons by (auto simp: mutex_ok_def)
      have p: "prio_of k' t = (if t = c then m_original_priority m else prio_of k t)" for t
        unfolding e(1) rt_schedule_prio [OF inv] f(4) by (rule refl)
      have "map (prio_of k') ws = map (prio_of k) ws" using s(2) p by auto
      then have "sorted (map (prio_of k') ws)" using s(4) by (simp only:)
      moreover have "stat_of k' v = RT_THREAD_SUSPEND" if "v \<in> set ws" for v
      proof -
        have "v \<noteq> w" using that f(8) by auto
        then have "stat_of k1 v = RT_THREAD_SUSPEND" using that s(1) f(3) [of v] by simp
        then show ?thesis using rt_schedule_others(1) [OF inv, of v] unfolding e(1) by simp
      qed
      moreover have "alive k' w"
        using schedule_kept [OF inv, of w k1] f(3) unfolding e(1) by (simp add: thread_kept_def alive_def)
      moreover have "prio_of k w < 32" by (rule kernel_ok_prio [OF ok(1)])
      moreover have "\<forall>v \<in> set ws. prio_of k' w \<le> prio_of k' v" using f(7,9) s(2) p by auto
      ultimately show ?thesis using kernel_ok_schedule [OF f(2)] s(3) f(8) mo(3) one
        by (simp add: e mutex_ok_def RT_MUTEX_HOLD_MAX_def)
    qed
  qed
qed


section \<open>Runs\<close>

lemma mutex_run_ok: "mutex_run m k \<Longrightarrow> kernel_ok k \<and> mutex_ok m k"
proof (induction rule: mutex_run.induct)
  case (init k)
  then show ?case using kernel_reach_ok by (simp add: mutex_ok_def rt_mutex_init_def)
next
  case (kernel m k op k')
  have ok: "kernel_ok k" "mutex_ok m k" using kernel.IH by blast+
  have kept: "thread_kept t k k'" if "alive k t" "\<not> ends op k t" for t
    by (rule kexec_kept [OF ok(1) kernel.hyps(2) that(1) _ that(2)]) (use kernel.hyps(3) in blast)
  have "mutex_ok (m\<lparr>m_waiting := filter (\<lambda>t. stat_of k' t = RT_THREAD_SUSPEND) (m_waiting m)\<rparr>) k'"
  proof (rule mutex_ok_kept [OF ok(2)])
    fix t assume "m_owner m = Some t"
    then show "thread_kept t k k'" using kept [of t] kernel.hyps(4) ok(2) by (simp add: mutex_ok_def)
  next
    fix t assume t: "t \<in> set (m_waiting m)" "stat_of k' t = RT_THREAD_SUSPEND"
    then have st: "stat_of k t = RT_THREAD_SUSPEND" using ok(2) by (simp add: mutex_ok_def)
    show "prio_of k' t = prio_of k t"
    proof (cases "ends op k t")
      case True
      have inv: "sched_inv k" using ok(1) by (simp add: kernel_ok_def)
      have "stat_of k' t = RT_THREAD_CLOSE"
        using True kernel.hyps(2) rt_thread_detach_close [OF inv, of t] st
          rt_schedule_others(1) [OF close_inv [OF inv, of t], of t]
        by (auto simp: ends_def by_current_def rt_thread_exit_def Let_def close_commutes)
      then show ?thesis using t(2) by simp
    next
      case False
      then show ?thesis using kept [of t] st by (simp add: alive_def thread_kept_def)
    qed
  qed
  then show ?case using kexec_ok [OF ok(1) kernel.hyps(2)] by blast
next
  case (take m k c time m' k' out)
  then show ?case using mutex_take_ok by blast
next
  case (release m k c m' k' e)
  then show ?case using mutex_release_ok by blast
qed

text \<open>
  Thread 1 of \<open>demo_kernel\<close> (priority 10) takes the mutex, thread 3 (priority 5) starts and waits for it: thread 1 runs on with
  the priority of thread 3.
\<close>

definition demo_taken :: "mutex \<times> kernel" where
  "demo_taken = (case the (rt_mutex_take 1 (- 1) rt_mutex_init demo_kernel) of (m, k, _) \<Rightarrow> (m, k))"

definition demo_rival :: kernel where
  "demo_rival = the (kruns [K_INIT 3 5 10, K_STARTUP 3] (snd demo_taken))"

definition demo_waiting :: "mutex \<times> kernel" where
  "demo_waiting = (case the (rt_mutex_take 3 (- 1) (fst demo_taken) demo_rival) of (m, k, _) \<Rightarrow> (m, k))"

lemma demo_mutex_calls:
  "rt_mutex_take 1 (- 1) rt_mutex_init demo_kernel \<noteq> None" "m_waiting (fst demo_taken) = []"
  "kruns [K_INIT 3 5 10] (snd demo_taken) \<noteq> None" "kruns [K_INIT 3 5 10, K_STARTUP 3] (snd demo_taken) \<noteq> None"
  "rt_mutex_take 3 (- 1) (fst demo_taken) demo_rival \<noteq> None"
  "cur_thread demo_rival = Some 3" "stat_of demo_rival 3 = RT_THREAD_RUNNING"
  by code_simp+

lemma demo_waiting_value:
  "(case demo_waiting of (m, k) \<Rightarrow> (cur_thread k, stat_of k 1, m_owner m, m_hold m, m_waiting m, prio_of k 1,
      m_original_priority m)) = (Some 1, RT_THREAD_RUNNING, Some 1, 1, [3], 5, 10)"
  by code_simp

lemma demo_mutex_facts:
  "cur_thread (snd demo_waiting) = Some 1" "stat_of (snd demo_waiting) 1 = RT_THREAD_RUNNING"
  "m_owner (fst demo_waiting) = Some 1" "m_hold (fst demo_waiting) = 1" "m_waiting (fst demo_waiting) = [3]"
  "prio_of (snd demo_waiting) 1 = 5" "m_original_priority (fst demo_waiting) = 10"
  using demo_waiting_value by (auto simp: case_prod_unfold)

lemma mutex_run_kruns:
  assumes "mutex_run m k" "m_waiting m = []" "kexec op k = Some k'" "op = K_INIT t p n \<or> op = K_STARTUP t"
  shows "mutex_run m k'"
proof -
  have "mutex_run (m\<lparr>m_waiting := filter (\<lambda>t. stat_of k' t = RT_THREAD_SUSPEND) (m_waiting m)\<rparr>) k'"
    by (rule mutex_run.kernel [OF assms(1,3)]) (use assms(4) in \<open>auto simp: ends_def\<close>)
  moreover have "m\<lparr>m_waiting := []\<rparr> = m" using assms(2) by simp
  ultimately show ?thesis using assms(2) by simp
qed

lemma demo_mutex_run: "mutex_run (fst demo_waiting) (snd demo_waiting)"
proof -
  obtain m k out where t: "rt_mutex_take 1 (- 1) rt_mutex_init demo_kernel = Some (m, k, out)" using demo_mutex_calls(1) by auto
  have e: "demo_taken = (m, k)" unfolding demo_taken_def t by simp
  have r: "mutex_run m k"
    by (rule mutex_run.take [OF mutex_run.init [OF demo_reach] demo_facts(1,2) _ t]) simp
  have w: "m_waiting m = []" using demo_mutex_calls(2) by (simp add: e)
  obtain k1 where k1: "kexec (K_INIT 3 5 10) k = Some k1" using demo_mutex_calls(3) by (auto simp: e split: option.splits)
  obtain k2 where k2: "kexec (K_STARTUP 3) k1 = Some k2" using demo_mutex_calls(4) k1 by (auto simp: e split: option.splits)
  have d: "demo_rival = k2" using k1 k2 by (simp add: demo_rival_def e)
  have "mutex_run m k1" by (rule mutex_run_kruns [OF r w k1, of 3 5 10]) simp
  then have r2: "mutex_run m k2" by (rule mutex_run_kruns [OF _ w k2, of _ 3]) simp
  obtain m3 k3 o3 where t3: "rt_mutex_take 3 (- 1) m k2 = Some (m3, k3, o3)" using demo_mutex_calls(5) by (auto simp: e d)
  have p: "demo_waiting = (m3, k3)" unfolding demo_waiting_def e d fst_conv t3 by simp
  have "mutex_run m3 k3"
    by (rule mutex_run.take [OF r2 demo_mutex_calls(6,7) [unfolded d] _ t3]) simp
  then show ?thesis unfolding p fst_conv snd_conv .
qed

section \<open>Properties\<close>

text \<open>
  C24. The mutex, whatever the threads and the kernel do, as long as no thread's priority is changed from outside and the owner does
  not end: it is free exactly when it has no owner, and then nobody waits; otherwise it is held by one living thread, and every
  waiting thread is suspended.  The owner is at least as urgent as every thread that waits for it, and the threads wait in the
  order of their priorities.
\<close>

theorem mutex_exclusion:
  assumes "mutex_run m k"
  shows "(m_owner m = None \<longleftrightarrow> m_value m = 1) \<and> (m_owner m = None \<longleftrightarrow> m_hold m = 0) \<and> (m_value m = 0 \<or> m_value m = 1)
    \<and> (m_owner m = None \<longrightarrow> m_waiting m = []) \<and> distinct (m_waiting m) \<and> sorted (map (prio_of k) (m_waiting m))
    \<and> (\<forall>w \<in> set (m_waiting m). stat_of k w = RT_THREAD_SUSPEND)
    \<and> (\<forall>ow. m_owner m = Some ow \<longrightarrow> stat_of k ow \<notin> {RT_THREAD_INIT, RT_THREAD_CLOSE} \<and> ow \<notin> set (m_waiting m)
         \<and> (\<forall>w \<in> set (m_waiting m). prio_of k ow \<le> prio_of k w))"
proof -
  have ok: "mutex_ok m k" using mutex_run_ok [OF assms] by blast
  then show ?thesis by (cases "m_owner m") (simp_all add: mutex_ok_def alive_def)
qed

theorem mutex_exclusion_witness:
  "m_waiting (fst demo_waiting) = [3] \<and> prio_of (snd demo_waiting) 1 \<le> prio_of (snd demo_waiting) 3"
  using mutex_exclusion [OF demo_mutex_run] demo_mutex_facts(3,5) by simp

text \<open>
  C25. The owner's last release with threads waiting: the mutex goes to the first of them, which no other waiting thread exceeds in
  urgency; the others keep waiting; the old owner has its own priority back; and, unless the scheduler is locked, a thread runs
  afterwards that is at least as urgent as every ready thread, the new owner among them if it does not run itself.
\<close>

theorem mutex_release_hands_over:
  assumes "mutex_run m k" "cur_thread k = Some c" "stat_of k c = RT_THREAD_RUNNING" "m_owner m = Some c" "m_hold m = 1"
    "m_waiting m = w # ws" "rt_mutex_release c m k = (m', k', e)"
  shows "e = 0 \<and> m_owner m' = Some w \<and> m_hold m' = 1 \<and> m_waiting m' = ws \<and> (\<forall>v \<in> set ws. prio_of k w \<le> prio_of k v)
    \<and> prio_of k' c = m_original_priority m \<and> stat_of k' w \<in> {RT_THREAD_READY, RT_THREAD_RUNNING}
    \<and> (lock_nest k = 0 \<longrightarrow> (\<exists>h. cur_thread k' = Some h \<and> stat_of k' h = RT_THREAD_RUNNING
         \<and> (\<forall>u. stat_of k' u = RT_THREAD_READY \<longrightarrow> prio_of k' h \<le> prio_of k' u)))"
proof -
  have ok: "kernel_ok k" "mutex_ok m k" using mutex_run_ok [OF assms(1)] by blast+
  note f = mutex_hand_over_facts [OF ok assms(4-6,2,3)]
  define k1 where "k1 = fst (rt_thread_resume w (mutex_restore c m k))"
  note f = f [folded k1_def]
  have e: "k' = rt_schedule k1" "m' = m\<lparr>m_owner := Some w, m_original_priority := prio_of k w, m_waiting := ws\<rparr>" "e = 0"
    using f(1) assms(7) by simp_all
  have inv: "sched_inv k1" using f(2) by (simp add: kernel_ok_def)
  have run: "stat_of k1 c = RT_THREAD_RUNNING" using f(3,7) assms(3) by simp
  have "\<exists>h. cur_thread k' = Some h \<and> stat_of k' h = RT_THREAD_RUNNING
         \<and> (\<forall>u. stat_of k' u = RT_THREAD_READY \<longrightarrow> prio_of k' h \<le> prio_of k' u)" if "lock_nest k = 0"
    using schedule_top [OF inv f(5)] run f(6) that rt_schedule_prio [OF inv] unfolding e(1) by metis
  moreover have "stat_of k' w \<in> {RT_THREAD_READY, RT_THREAD_RUNNING}"
    using rt_schedule_others(2) [OF inv, of w] f(3) unfolding e(1) by simp
  moreover have "prio_of k' c = m_original_priority m" unfolding e(1) rt_schedule_prio [OF inv] f(4) by simp
  ultimately show ?thesis using e f(9) assms(5) by simp
qed

theorem mutex_release_hands_over_witness:
  "\<exists>m' k'. rt_mutex_release 1 (fst demo_waiting) (snd demo_waiting) = (m', k', 0) \<and> m_owner m' = Some 3
     \<and> prio_of k' 1 = 10 \<and> stat_of k' 3 \<in> {RT_THREAD_READY, RT_THREAD_RUNNING}"
proof -
  obtain m' k' e where r: "rt_mutex_release 1 (fst demo_waiting) (snd demo_waiting) = (m', k', e)" by (metis prod_cases3)
  show ?thesis using mutex_release_hands_over [OF demo_mutex_run demo_mutex_facts(1-5) r] demo_mutex_facts(7) r by auto
qed

text \<open>
  Without a waiting thread the last release does not schedule.  When a thread that had lent the owner its priority has stopped
  waiting, the owner goes on at its own, lower priority although a ready thread may be more urgent.
\<close>

lemma mutex_release_inversion:
  assumes "mutex_run m k" "cur_thread k = Some c" "stat_of k c = RT_THREAD_RUNNING" "m_owner m = Some c" "m_hold m = 1"
    "m_waiting m = []" "stat_of k u = RT_THREAD_READY" "prio_of k u < m_original_priority m"
  shows "\<exists>m' k'. rt_mutex_release c m k = (m', k', 0) \<and> cur_thread k' = Some c \<and> stat_of k' c = RT_THREAD_RUNNING
    \<and> stat_of k' u = RT_THREAD_READY \<and> prio_of k' u < prio_of k' c"
proof -
  have ok: "kernel_ok k" "mutex_ok m k" using mutex_run_ok [OF assms(1)] by blast+
  have mo: "m_value m = 0" "m_original_priority m < 32" using ok(2) assms(4) by (simp_all add: mutex_ok_def)
  note r = mutex_restore_facts [OF ok(1) mo(2), of c]
  have "mutex_restore c (m\<lparr>m_hold := 0\<rparr>) k = mutex_restore c m k" by (simp add: mutex_restore_def)
  then have "rt_mutex_release c m k =
      (m\<lparr>m_hold := 0, m_value := 1, m_owner := None, m_original_priority := 0xff\<rparr>, mutex_restore c m k, 0)"
    using assms(4-6) mo(1) by (simp add: rt_mutex_release_def Let_def mutex_hand_over_def RT_MUTEX_VALUE_MAX_def)
  moreover have "u \<noteq> c" using assms(3,7) by auto
  ultimately show ?thesis using r(2-4) assms(2,3,7,8) by auto
qed

end
