(* ===== verification/Spec2Isabelle.thy ===== *)
theory Spec2Isabelle
  imports Session Rtp_Receiver Rtp_Fu Ring_Buffer Main_App Eth_Setup Eth_Glue Tcp_Heap Mutex
begin

text \<open>
  A verification development for the device firmware of an authentication and video-encryption system: a CH32V307 board under
  RT-Thread that authenticates itself to a center with Chebyshev polynomials, agrees on a session key, and encrypts or decrypts
  an RTP video stream with ZUC-256.  The sources are under \<open>src/ch32v307.../ChebyShev_eth/\<close>: \<open>applications/\<close> is the program
  itself, \<open>drv/\<close> its Ethernet driver, \<open>libraries/\<close> and \<open>rt-thread/\<close> the vendor's HAL and the operating system.

  \<^bold>\<open>Parts and theories.\<close>
  \<^item> \<open>Prelude\<close>: the C integer types as words, little-endian numbers of 32-bit limbs (\<open>limbs_val\<close>), \<open>memcpy\<close> (\<open>blit\<close>), formatted
    output, and the collections \<open>c_length\<close>, \<open>c_value\<close>, \<open>c_bound\<close>.
  \<^item> \<open>Bignum\<close>, \<open>Cheb_Poly\<close>, \<open>ChebyShev\<close> (\<open>ChebyShev.c\<close>): the limb routines, each with the number it computes; the polynomials and
    their matrix form; \<open>chebyshev_Tn\<close>, whose static variables are the record \<open>cheby_statics\<close>.  \<open>Key_Agreement\<close>: the locale
    \<open>chebyshev_engine\<close> states what the key agreement needs of such a routine, and the code's routine is an interpretation.
  \<^item> \<open>SM3\<close> (\<open>SM3.c\<close>): the streaming hash over \<open>gm_sm3_context\<close>, equal to a reference definition.
  \<^item> \<open>Stream_Cipher\<close>, \<open>ZUC256\<close> (\<open>zuc256.c\<close>): the contract of a stream cipher as locales, and the cipher as an interpretation.
  \<^item> \<open>Rtp_Client\<close> (\<open>rtsp_rtp_client.c\<close>), \<open>Rtp_Receiver\<close> (\<open>rtp_udp_receiver.c\<close>), \<open>Rtp_Fu\<close> (\<open>rtsp.c\<close>): the video path.  The client
    encrypts the payload behind its first 64 bytes, the receiver decrypts it, the forwarder reassembles fragments in a pool of
    buffers.
  \<^item> \<open>Uint256\<close> (\<open>protocol.c\<close>, \<open>tcp_part.c\<close>): conversions and modular arithmetic on 256-bit numbers.  \<open>Primality\<close>, \<open>Prime_number\<close>
    (\<open>Prime_number.c\<close>): the tests and the random numbers.
  \<^item> \<open>C_Text\<close>: \<open>sscanf\<close> and \<open>strtol\<close> as far as the messages need them.  \<open>Protocol\<close>, \<open>Protocol_Auth\<close>, \<open>Protocol_Key\<close>
    (\<open>protocol.c\<close>): registration, the authentication request and the two phases of the key agreement, over the record \<open>proto\<close>
    of the static variables and the console.
  \<^item> \<open>Tcp_Part\<close> (\<open>tcp_part.c\<close>): the client's connection and receive loop as a step relation.  \<open>Session\<close>: client, protocol, hash,
    polynomials and random numbers together, through a whole run with an honest center.
  \<^item> \<open>Main_App\<close> (\<open>main.c\<close>, the commands of \<open>ChebyShev.c\<close>): the program body and the console commands as lists of events.
  \<^item> \<open>Ring_Buffer\<close> (\<open>ringbuffer.c\<close> of the kernel's device layer): every operation; the locale \<open>byte_fifo\<close> is the contract of a
    bounded queue of bytes, and the ring buffer an interpretation.
  \<^item> \<open>Eth_Dma\<close>, \<open>Eth_Setup\<close> (\<open>drv/drv_eth.c\<close> and what it calls of \<open>ch32v30x_eth.c\<close>): the descriptor chains, the interrupt, the
    receive and transmit hooks, the device operations, and bringing the device up.
  \<^item> \<open>Ipc\<close> (\<open>ipc.c\<close> of the kernel): suspended threads, semaphore and mailbox; the locale \<open>mail_queue\<close> is what a client of a mailbox
    relies on.  \<open>Eth_Glue\<close> (\<open>ethernetif.c\<close> of lwIP 2.0.3): the threads between driver and stack, with interrupts at any point.
  \<^item> \<open>Heap_Mem\<close> (\<open>mem.c\<close> of the kernel): the heap over its bytes, with 32-bit offsets in the headers of the blocks.  \<open>Heap_Chain\<close>,
    \<open>Heap_Alloc\<close>: the chain of blocks that the bytes hold, and what each operation does to it.  \<open>Heap_Spec\<close>: the locale
    \<open>allocator\<close> is what a client of a heap relies on, and the kernel heap an interpretation.  \<open>Tcp_Heap\<close>: the receive buffer of
    \<open>Tcp_Part\<close> in that heap.
  \<^item> \<open>Timer\<close> (\<open>timer.c\<close>, \<open>clock.c\<close>): the ordered list of running timers and the check at every tick.  \<open>Scheduler\<close> (\<open>scheduler.c\<close>,
    \<open>thread.c\<close>, the bit search of \<open>kservice.c\<close>): the record \<open>kernel\<close> extends the timers by the threads, the ready lists and the
    current thread.  \<open>Scheduler_Spec\<close>: the invariant and the scheduling.  \<open>Thread_Spec\<close>: the operations of the kernel as one
    step function \<open>kexec\<close>, the states it reaches, and a thread's sleep.  \<open>Mutex\<close> (\<open>ipc.c\<close>): the mutex with priority inheritance,
    over that kernel.

  \<^bold>\<open>How the model corresponds to the code.\<close>  A struct or a group of static variables is a record, an enumeration a datatype.
  Every function is a definition of the same name where Isabelle allows it, from the state before to the state after; the loop
  bodies and phases of long functions have definitions of their own.  Integers keep their width where overflow matters.  Calls
  of sockets, of \<open>rand\<close>, and of the operating system where its own part is not modelled are arguments: lists of what they return,
  or functions with the documented behaviour as a hypothesis (\<open>honest_alloc\<close> for \<open>pbuf_alloc\<close>); timeout functions are an argument
  of the timer check, which the scheduler gives its own.  The heap is a map from addresses to bytes.  Errors are return codes or options.  Where an
  index comes from a message and the code does not bound it, an access outside the array is \<open>None\<close>; elsewhere the invariants
  keep the indices inside.  What a run of the client holds of the system is computed from the calls it has made.  Peripheral registers are words; the status bits of the DMA are cleared by writing ones.

  \<^bold>\<open>What is shown.\<close>
  \<^item> Arithmetic: \<open>chebyshev_Tn\<close> returns the Chebyshev values modulo \<open>p\<close>; two parties agree on a value.  Lemmas: conversions are
    inverse to each other; modular addition and multiplication are right up to a strict comparison.
  \<^item> Cryptography: SM3 equals its reference; encryption is undone by decryption, byte by byte an exclusive or with the key stream;
    the register keeps its invariant and satisfies the recurrence of ZUC.
  \<^item> Video: an I frame in a single packet survives encryption and decryption; processing a
    packet stays inside the receive buffer and leaves the header and everything behind the packet untouched; every datagram is forwarded once; fragments are reassembled and the pool refines a map from time stamps to bytes.
  \<^item> Protocol: the request, both key phases and the client's replies, the invariant of the client's states, with every socket closed and every
    buffer freed exactly once, and the whole session that ends with the key; the strong primality test never rejects a prime.
  \<^item> Ring buffer: what it accepts is what it delivers followed by what it holds; the exact effect of the overwriting put.
  \<^item> Ethernet: in every reachable state the chains are intact and no hook leaves its buffers; a frame is received and sent
    exactly; the device comes up when the transceiver answers, and hangs when there is no link; the receive thread never sleeps
    while a frame is waiting.
  \<^item> Kernel objects: grants and releases of a semaphore balance, urgent threads come first; a mailbox is a bounded queue.
  \<^item> Heap: after any history of calls the chain is intact and the areas handed out are disjoint, aligned and inside; allocation takes
    the first fitting block among those that start below the limit of the code's search, release undoes it, resizing keeps the data; the client's receive buffer is given back however the client ends.
  \<^item> Timers and threads: the timer list is in the order of firing also across the wrap-around of the tick; a check ends and fires
    what is due.  In every state the kernel reaches, ready lists, priority bits, thread states and timers agree; after a
    scheduling a thread of the highest priority runs; a sleeping thread wakes at its tick, whatever the others do.
  \<^item> Mutex: it has one living owner or is free, the owner is at least as urgent as the waiting threads, and the last release hands
    it to the most urgent of them.
  Some properties record what the code does where it is not what it means to do; the manifest lists these as findings.

  \<^bold>\<open>Termination, bounds and fuel.\<close>  No definition uses fuel.  Loops that end are structural or have a measure; \<open>big_mod\<close>,
  \<open>creat_number\<close> and the doubling of \<open>fu_buffer_reserve\<close> may run forever and are partial functions into \<open>option\<close>, with theorems
  that say when they return; so are the searches of the heap and the timer check, which are shown to end on every heap and timer
  list that can arise.  The endless loops of threads and commands run over the list of the events they receive, or for a
  given number of rounds.  The waits for the transceiver run over a script of its answers; a \<open>while(1)\<close> is a value of its own.

  \<^bold>\<open>Not modelled.\<close>  The console command \<open>tcp_client\<close> prints a fixed transcript.  Clock, pin and interrupt-controller set-up,
  the transceivers the build does not select, and the other peripheral drivers only write vendor registers.  Of the
  RT-Thread kernel, events, message queues, the object registry, soft timers, thread stacks and the context switch itself
  (assembly) are left out, and so are its shell, its file systems and lwIP; their calls are arguments.  \<open>Ipc\<close> and \<open>Scheduler\<close>
  are separate models: the list of threads waiting for an object is in the first, the states and ready lists in the second, where
  a blocking call is the step that suspends the thread and the step that starts its timer; only the mutex joins the two.
  The C++ server on the video source, the Python simulations and the ProVerif script are other programs.  Preemption is modelled
  for the Ethernet threads only: the other threads of the program share no variables except the statics of \<open>chebyshev_Tn\<close>, for
  which \<open>rt_test\<close> is modelled in the order its priorities give.  The kernel's operations run with interrupts off, so each is one
  step; the ticks of \<open>Thread_Spec\<close> fall between them.
\<close>

end
